(* ===== verification/Prelude.thy ===== *)
theory Prelude
  imports Main "HOL-Library.Word"
begin

text \<open>
  Vocabulary shared by every component: machine types, the outcome of a C++ call that may
  stop the process, \<open>size_t\<close> arithmetic, raw memory (byte lists) with reads and writes,
  little-endian images of integers, and the lemmas about them that the components use.
\<close>

section \<open>Machine types\<close>

type_synonym u8 = "8 word"
type_synonym u16 = "16 word"
type_synonym u32 = "32 word"
type_synonym u64 = "64 word"
type_synonym bytes = "u8 list"

section \<open>Outcomes\<close>

text \<open>
  A call either returns or stops the process: a failed \<open>assert\<close> (the default build is a
  debug build, so assertions are live), an access outside an object, a null or dangling pointer,
  or an \<open>abort()\<close>. A loop that never ends is a value too, \<open>Diverge\<close>, so that a theorem
  about a result also says that there is one.
\<close>

datatype fault = Assert_Fail | Out_Of_Bounds | Null_Deref | Use_After_Free | Abort | Diverge

type_synonym 'a outcome = "fault + 'a"

named_theorems outcome_simps \<open>rewriting of outcomes\<close>

definition bindE :: "'a outcome \<Rightarrow> ('a \<Rightarrow> 'b outcome) \<Rightarrow> 'b outcome" where
  "bindE m f = (case m of Inl e \<Rightarrow> Inl e | Inr x \<Rightarrow> f x)"

definition require :: "bool \<Rightarrow> 'a outcome \<Rightarrow> 'a outcome" where
  "require P m = (if P then m else Inl Assert_Fail)"

lemma bindE_Inl [simp, outcome_simps]: "bindE (Inl e) f = Inl e"
  by (simp add: bindE_def)

lemma bindE_Inr [simp, outcome_simps]: "bindE (Inr x) f = f x"
  by (simp add: bindE_def)

lemma bindE_eq_Inr [outcome_simps]:
  "bindE m f = Inr y \<longleftrightarrow> (\<exists>x. m = Inr x \<and> f x = Inr y)"
  by (cases m) auto

lemma bindE_eq_Inl [outcome_simps]:
  "bindE m f = Inl e \<longleftrightarrow> m = Inl e \<or> (\<exists>x. m = Inr x \<and> f x = Inl e)"
  by (cases m) auto

lemma bindE_assoc: "bindE (bindE m f) g = bindE m (\<lambda>x. bindE (f x) g)"
  by (cases m) auto

lemma require_True [simp, outcome_simps]: "P \<Longrightarrow> require P m = m"
  by (simp add: require_def)

lemma require_False [simp, outcome_simps]: "\<not> P \<Longrightarrow> require P m = Inl Assert_Fail"
  by (simp add: require_def)

lemma require_eq_Inr [outcome_simps]: "require P m = Inr y \<longleftrightarrow> P \<and> m = Inr y"
  by (simp add: require_def)

lemma require_eq_Inl [outcome_simps]:
  "require P m = Inl e \<longleftrightarrow> (\<not> P \<and> e = Assert_Fail) \<or> (P \<and> m = Inl e)"
  by (auto simp: require_def)

text \<open>Running a list of steps: it stops at the first fault.\<close>

fun foldE :: "('a \<Rightarrow> 's \<Rightarrow> 's outcome) \<Rightarrow> 'a list \<Rightarrow> 's \<Rightarrow> 's outcome" where
  "foldE f [] s = Inr s"
| "foldE f (x # xs) s = bindE (f x s) (foldE f xs)"

lemma bindE_right: "bindE m Inr = m"
  by (cases m) simp_all

lemma foldE_Nil: "foldE f [] = Inr"
  by (simp add: fun_eq_iff)

lemma foldE_Cons: "foldE f (x # xs) = (\<lambda>s. bindE (f x s) (foldE f xs))"
  by (simp add: fun_eq_iff)

lemma foldE_append: "foldE f (xs @ ys) s = bindE (foldE f xs s) (foldE f ys)"
proof (induction xs arbitrary: s)
  case Nil
  then show ?case by simp
next
  case (Cons x xs)
  then have "(\<lambda>t. foldE f (xs @ ys) t) = (\<lambda>t. bindE (foldE f xs t) (foldE f ys))"
    by blast
  then show ?case by (simp add: bindE_assoc)
qed

lemma foldE_snoc: "foldE f (xs @ [x]) s = bindE (foldE f xs s) (f x)"
  by (simp add: foldE_append foldE_Cons foldE_Nil bindE_right)

lemma foldE_invariant:
  assumes step: "\<And>x s t. x \<in> set xs \<Longrightarrow> P s \<Longrightarrow> f x s = Inr t \<Longrightarrow> P t"
    and "P s" and "foldE f xs s = Inr t"
  shows "P t"
  using assms
proof (induction xs arbitrary: s)
  case Nil
  then show ?case by simp
next
  case (Cons x xs)
  then obtain u where u: "f x s = Inr u" "foldE f xs u = Inr t"
    by (auto simp: bindE_eq_Inr)
  with Cons.prems have "P u" by (meson list.set_intros(1))
  with Cons u(2) show ?case by (meson list.set_intros(2))
qed

lemma foldE_total:
  assumes step: "\<And>x s. x \<in> set xs \<Longrightarrow> P s \<Longrightarrow> \<exists>t. f x s = Inr t \<and> P t"
    and "P s"
  shows "\<exists>t. foldE f xs s = Inr t \<and> P t"
  using assms
proof (induction xs arbitrary: s)
  case Nil
  then show ?case by simp
next
  case (Cons x xs)
  then obtain u where u: "f x s = Inr u" "P u" by (meson list.set_intros(1))
  with Cons have "\<exists>t. foldE f xs u = Inr t \<and> P t" by (meson list.set_intros(2))
  with u show ?case by simp
qed

section \<open>The type size\_t\<close>

text \<open>Sizes and indices are natural numbers below \<open>2 ^ 64\<close>; addition and subtraction wrap.\<close>

definition add64 :: "nat \<Rightarrow> nat \<Rightarrow> nat" where
  "add64 a b = (a + b) mod 2 ^ 64"

definition sub64 :: "nat \<Rightarrow> nat \<Rightarrow> nat" where
  "sub64 a b = (a + (2 ^ 64 - b mod 2 ^ 64)) mod 2 ^ 64"

lemma add64_exact [simp]: "a + b < 2 ^ 64 \<Longrightarrow> add64 a b = a + b"
  by (simp add: add64_def)

lemma sub64_exact [simp]:
  assumes "b \<le> a" and "a < 2 ^ 64"
  shows "sub64 a b = a - b"
proof -
  have "b mod 2 ^ 64 = b" using assms by simp
  moreover have "a + (2 ^ 64 - b) = (a - b) + 2 ^ 64" using assms by simp
  ultimately have "sub64 a b = ((a - b) + 2 ^ 64) mod 2 ^ 64" by (simp only: sub64_def)
  also have "\<dots> = a - b" using assms by (simp only: mod_add_self2) simp
  finally show ?thesis .
qed

lemma sub64_wraps:
  assumes "a < b" and "b < 2 ^ 64"
  shows "sub64 a b = 2 ^ 64 - (b - a)"
proof -
  have "b mod 2 ^ 64 = b" using assms by simp
  moreover have "a + (2 ^ 64 - b) < 2 ^ 64" using assms by simp
  ultimately show ?thesis using assms by (simp add: sub64_def)
qed

lemma add64_less [simp]: "add64 a b < 2 ^ 64"
  by (simp add: add64_def)

lemma sub64_less [simp]: "sub64 a b < 2 ^ 64"
  by (simp add: sub64_def)

section \<open>Memory as a list of bytes\<close>

definition mem_read :: "'a list \<Rightarrow> nat \<Rightarrow> nat \<Rightarrow> 'a list outcome" where
  "mem_read m i n = (if i + n \<le> length m then Inr (take n (drop i m)) else Inl Out_Of_Bounds)"

definition mem_put :: "'a list \<Rightarrow> nat \<Rightarrow> 'a list \<Rightarrow> 'a list" where
  "mem_put m i d = take i m @ d @ drop (i + length d) m"

definition mem_write :: "'a list \<Rightarrow> nat \<Rightarrow> 'a list \<Rightarrow> 'a list outcome" where
  "mem_write m i d = (if i + length d \<le> length m then Inr (mem_put m i d) else Inl Out_Of_Bounds)"

definition slice :: "nat \<Rightarrow> nat \<Rightarrow> 'a list \<Rightarrow> 'a list" where
  "slice i n m = take n (drop i m)"

lemma length_mem_put [simp]: "i + length d \<le> length m \<Longrightarrow> length (mem_put m i d) = length m"
  by (simp add: mem_put_def)

lemma length_slice [simp]: "i + n \<le> length m \<Longrightarrow> length (slice i n m) = n"
  by (simp add: slice_def)

lemma slice_0 [simp]: "slice i 0 m = []"
  by (simp add: slice_def)

lemma slice_add: "slice i (n + k) m = slice i n m @ slice (i + n) k m"
  by (simp add: slice_def take_add) (simp add: add.commute)

lemma nth_mem_put:
  assumes "i + length d \<le> length m" and "j < length m"
  shows "mem_put m i d ! j = (if i \<le> j \<and> j < i + length d then d ! (j - i) else m ! j)"
  using assms by (auto simp: mem_put_def nth_append min_def not_less)

lemma nth_slice: "j < n \<Longrightarrow> i + n \<le> length m \<Longrightarrow> slice i n m ! j = m ! (i + j)"
  by (simp add: slice_def)

lemma slice_mem_put_same [simp]:
  "i + length d \<le> length m \<Longrightarrow> slice i (length d) (mem_put m i d) = d"
  by (simp add: slice_def mem_put_def)

lemma slice_mem_put_before:
  assumes "j + n \<le> i" and "i + length d \<le> length m"
  shows "slice j n (mem_put m i d) = slice j n m"
  using assms by (intro nth_equalityI) (auto simp: nth_slice nth_mem_put)

lemma slice_mem_put_after:
  assumes "i + length d \<le> j" and "j + n \<le> length m"
  shows "slice j n (mem_put m i d) = slice j n m"
  using assms by (intro nth_equalityI) (auto simp: nth_slice nth_mem_put)

lemma mem_read_slice:
  "mem_read m i n = (if i + n \<le> length m then Inr (slice i n m) else Inl Out_Of_Bounds)"
  by (simp add: mem_read_def slice_def)

section \<open>Little-endian images of integers\<close>

text \<open>
  The structures that travel in datagrams are packed and copied with \<open>memcpy\<close>, so an
  integer field is its little-endian image (the targets are x86 machines).
\<close>

named_theorems le_simps \<open>little-endian images\<close>

primrec le_nat :: "nat \<Rightarrow> nat \<Rightarrow> bytes" where
  "le_nat 0 x = []"
| "le_nat (Suc n) x = of_nat (x mod 256) # le_nat n (x div 256)"

primrec nat_le :: "bytes \<Rightarrow> nat" where
  "nat_le [] = 0"
| "nat_le (b # bs) = unat b + 256 * nat_le bs"

lemma length_le_nat [simp, le_simps]: "length (le_nat n x) = n"
  by (induction n arbitrary: x) auto

lemma unat_byte_less [simp]: "unat (b :: u8) < 256"
  using unsigned_less [of b] by simp

lemma unat_of_nat_byte: "unat (of_nat (x mod 256) :: u8) = x mod 256"
  by (simp add: unat_of_nat)

lemma nat_le_le_nat [le_simps]: "nat_le (le_nat n x) = x mod 256 ^ n"
proof (induction n arbitrary: x)
  case 0
  then show ?case by simp
next
  case (Suc n)
  have "x mod (256 * 256 ^ n) = 256 * (x div 256 mod 256 ^ n) + x mod 256"
    by (rule mod_mult2_eq)
  with Suc show ?case by (simp add: unat_of_nat_byte)
qed

lemma digit_bound: "u < 256 \<Longrightarrow> x < k \<Longrightarrow> u + 256 * x < 256 * (k :: nat)"
  by arith

lemma nat_le_bound: "nat_le bs < 256 ^ length bs"
  by (induction bs) (simp_all add: digit_bound del: mult_less_mono2)

lemma le_nat_nat_le [le_simps]: "le_nat (length bs) (nat_le bs) = bs"
proof (induction bs)
  case Nil
  then show ?case by simp
next
  case (Cons b bs)
  have b: "(unat b + 256 * nat_le bs) mod 256 = unat b"
    by simp
  have q: "(unat b + 256 * nat_le bs) div 256 = nat_le bs"
    by (simp add: div_mult_self3)
  show ?case using Cons by (simp add: b q)
qed

lemma nat_le_inject:
  "length as = length bs \<Longrightarrow> nat_le as = nat_le bs \<Longrightarrow> as = bs"
  by (metis le_nat_nat_le)

end
