(* ===== verification/Std_Map.thy ===== *)
theory Std_Map
  imports Prelude
begin

text \<open>
  The ordered containers of the C++ standard library that the program iterates over:
  \<open>std::map\<close> as an association list sorted by its keys, \<open>std::set\<close> as the same with
  \<open>unit\<close> values. Equality of keys is what the containers use: neither key is less than
  the other. The operations' contract is the locale \<open>dictionary\<close>; the sorted lists
  provide it.
\<close>

section \<open>The contract of a dictionary\<close>

locale dictionary =
  fixes empty :: "'m"
    and find :: "'k \<Rightarrow> 'm \<Rightarrow> 'v option"
    and put :: "'k \<Rightarrow> 'v \<Rightarrow> 'm \<Rightarrow> 'm"
    and erase :: "'k \<Rightarrow> 'm \<Rightarrow> 'm"
    and inv :: "'m \<Rightarrow> bool"
  assumes find_empty: "find k empty = None"
    and find_put: "inv m \<Longrightarrow> find k (put k' v m) = (if k = k' then Some v else find k m)"
    and find_erase: "inv m \<Longrightarrow> find k (erase k' m) = (if k = k' then None else find k m)"
    and inv_empty: "inv empty"
    and inv_put: "inv m \<Longrightarrow> inv (put k v m)"
    and inv_erase: "inv m \<Longrightarrow> inv (erase k m)"
begin

definition keys :: "'m \<Rightarrow> 'k set" where
  "keys m = {k. find k m \<noteq> None}"

lemma keys_empty: "keys empty = {}"
  by (simp add: keys_def find_empty)

lemma keys_put: "inv m \<Longrightarrow> keys (put k v m) = insert k (keys m)"
  by (auto simp: keys_def find_put split: if_splits)

lemma keys_erase: "inv m \<Longrightarrow> keys (erase k m) = keys m - {k}"
  by (auto simp: keys_def find_erase split: if_splits)

lemma inv_fold_erase: "inv m \<Longrightarrow> inv (fold erase ks m)"
  by (induction ks arbitrary: m) (auto simp: inv_erase)

lemma find_fold_erase:
  "inv m \<Longrightarrow> find k (fold erase ks m) = (if k \<in> set ks then None else find k m)"
  by (induction ks arbitrary: m) (auto simp: find_erase inv_erase)

lemma keys_fold_put:
  "inv m \<Longrightarrow> keys (fold (\<lambda>k. put k v) ks m) = keys m \<union> set ks"
proof (induction ks arbitrary: m)
  case Nil
  then show ?case by simp
next
  case (Cons k ks)
  then show ?case by (auto simp: keys_put inv_put)
qed

lemma inv_fold_put: "inv m \<Longrightarrow> inv (fold (\<lambda>k. put k v) ks m)"
  by (induction ks arbitrary: m) (auto simp: inv_put)

lemmas dictionary_laws = find_empty find_put find_erase inv_empty inv_put inv_erase

end

section \<open>Sorted association lists\<close>

fun om_find :: "'k::linorder \<Rightarrow> ('k \<times> 'v) list \<Rightarrow> 'v option" where
  "om_find k [] = None"
| "om_find k ((k', v) # m) =
     (if k' < k then om_find k m else if k < k' then None else Some v)"

fun om_put :: "'k::linorder \<Rightarrow> 'v \<Rightarrow> ('k \<times> 'v) list \<Rightarrow> ('k \<times> 'v) list" where
  "om_put k v [] = [(k, v)]"
| "om_put k v ((k', v') # m) =
     (if k' < k then (k', v') # om_put k v m
      else if k < k' then (k, v) # (k', v') # m
      else (k', v) # m)"

fun om_erase :: "'k::linorder \<Rightarrow> ('k \<times> 'v) list \<Rightarrow> ('k \<times> 'v) list" where
  "om_erase k [] = []"
| "om_erase k ((k', v') # m) =
     (if k' < k then (k', v') # om_erase k m
      else if k < k' then (k', v') # m
      else m)"

definition om_inv :: "('k::linorder \<times> 'v) list \<Rightarrow> bool" where
  "om_inv m = sorted_wrt (<) (map fst m)"

definition om_keys :: "('k \<times> 'v) list \<Rightarrow> 'k set" where
  "om_keys m = fst ` set m"

lemma om_inv_Nil [simp]: "om_inv []"
  by (simp add: om_inv_def)

lemma om_keys_Nil [simp]: "om_keys [] = {}"
  by (simp add: om_keys_def)

lemma om_keys_Cons [simp]: "om_keys ((k, v) # m) = insert k (om_keys m)"
  by (simp add: om_keys_def)

lemma om_inv_Cons: "om_inv ((k, v) # m) \<longleftrightarrow> (\<forall>k' \<in> om_keys m. k < k') \<and> om_inv m"
  by (auto simp: om_inv_def om_keys_def)

lemma om_single: "om_inv m \<Longrightarrow> om_keys m = {k} \<Longrightarrow> map fst m = [k]"
  by (auto simp: om_inv_def om_keys_def intro: strict_sorted_equal)

lemma om_find_None_less: "\<forall>k' \<in> om_keys m. k < k' \<Longrightarrow> om_find k m = None"
  by (cases m) (auto simp: om_keys_def)

lemma om_find_below: "\<forall>x \<in> om_keys m. k' < x \<Longrightarrow> k < k' \<Longrightarrow> om_find k m = None"
  by (rule om_find_None_less) (auto intro: less_trans)

lemma map_of_below:
  fixes k :: "'k::linorder"
  assumes "\<forall>x \<in> om_keys m. k' < x" and "k \<le> k'"
  shows "map_of m k = None"
proof -
  from assms have "k \<notin> om_keys m" using leD by auto
  then show ?thesis by (simp add: map_of_eq_None_iff om_keys_def)
qed

lemma om_find_map_of: "om_inv m \<Longrightarrow> om_find k m = map_of m k"
  by (induction k m rule: om_find.induct) (auto simp: om_inv_Cons map_of_below)

lemma om_keys_put [simp]: "om_keys (om_put k v m) = insert k (om_keys m)"
  by (induction k v m rule: om_put.induct) (auto simp: om_keys_def)

lemma om_keys_erase_subset: "om_keys (om_erase k m) \<subseteq> om_keys m"
  by (induction k m rule: om_erase.induct) (auto simp: om_keys_def)

lemma om_inv_put: "om_inv m \<Longrightarrow> om_inv (om_put k v m)"
  by (induction k v m rule: om_put.induct) (auto simp: om_inv_Cons dest: less_trans)

lemma om_inv_erase: "om_inv m \<Longrightarrow> om_inv (om_erase k m)"
  by (induction k m rule: om_erase.induct)
     (auto simp: om_inv_Cons dest: subsetD [OF om_keys_erase_subset])

lemma om_find_put:
  "om_inv m \<Longrightarrow> om_find k (om_put k' v m) = (if k = k' then Some v else om_find k m)"
  by (induction k' v m rule: om_put.induct) (auto simp: om_inv_Cons om_find_None_less)

lemma om_find_erase:
  "om_inv m \<Longrightarrow> om_find k (om_erase k' m) = (if k = k' then None else om_find k m)"
proof (induction k' m rule: om_erase.induct)
  case (1 k')
  then show ?case by simp
next
  case (2 k' k'' v m)
  then show ?case
    by (cases "k = k''") (auto simp: om_inv_Cons om_find_None_less om_find_below)
qed

interpretation om: dictionary "[]" om_find om_put om_erase om_inv
  by unfold_locales (auto simp: om_find_put om_find_erase om_inv_put om_inv_erase)

lemma om_keys_find: "om_inv m \<Longrightarrow> k \<in> om_keys m \<longleftrightarrow> om_find k m \<noteq> None"
  by (auto simp: om_find_map_of om_keys_def map_of_eq_None_iff)

lemma om_keys_eq: "om_inv m \<Longrightarrow> om.keys m = om_keys m"
  by (auto simp: om.keys_def om_keys_find)

lemma om_keys_erase: "om_inv m \<Longrightarrow> om_keys (om_erase k m) = om_keys m - {k}"
  by (metis om_keys_eq om_inv_erase om.keys_erase)

lemma finite_om_keys [simp]: "finite (om_keys m)"
  by (simp add: om_keys_def)

lemma om_find_Some_in: "om_inv m \<Longrightarrow> (k, v) \<in> set m \<longleftrightarrow> om_find k m = Some v"
proof -
  assume m: "om_inv m"
  then have "distinct (map fst m)"
    by (simp add: om_inv_def strict_sorted_iff)
  with m show ?thesis by (simp add: om_find_map_of)
qed

text \<open>The list is determined by what it answers.\<close>

lemma om_inv_filter: "om_inv m \<Longrightarrow> om_inv (filter P m)"
  by (simp add: om_inv_def sorted_wrt_map sorted_wrt_filter)

lemma om_find_filter:
  "om_inv m \<Longrightarrow> om_find k (filter P m) =
     (case om_find k m of None \<Rightarrow> None | Some v \<Rightarrow> if P (k, v) then Some v else None)"
proof -
  assume m: "om_inv m"
  then have f: "om_inv (filter P m)" by (rule om_inv_filter)
  show ?thesis
  proof (cases "om_find k m")
    case None
    then have "\<forall>v. (k, v) \<notin> set m" using om_find_Some_in [OF m] by auto
    then have "\<forall>v. om_find k (filter P m) \<noteq> Some v"
      using om_find_Some_in [OF f, of k] by auto
    then show ?thesis using None by (cases "om_find k (filter P m)") auto
  next
    case (Some v)
    show ?thesis
    proof (cases "P (k, v)")
      case True
      with Some have "(k, v) \<in> set (filter P m)" using om_find_Some_in [OF m, of k v] by simp
      then show ?thesis using Some True om_find_Some_in [OF f, of k v] by simp
    next
      case False
      have "om_find k (filter P m) \<noteq> Some w" for w
        using om_find_Some_in [OF f, of k w] om_find_Some_in [OF m, of k w] Some False by auto
      then show ?thesis using Some False by (cases "om_find k (filter P m)") auto
    qed
  qed
qed

section \<open>Sets as maps to unit\<close>

definition os_member :: "'k::linorder \<Rightarrow> ('k \<times> unit) list \<Rightarrow> bool" where
  "os_member k s = (om_find k s \<noteq> None)"

definition os_insert :: "'k::linorder \<Rightarrow> ('k \<times> unit) list \<Rightarrow> ('k \<times> unit) list" where
  "os_insert k s = om_put k () s"

lemma os_member_iff: "om_inv s \<Longrightarrow> os_member k s \<longleftrightarrow> k \<in> om_keys s"
  by (simp add: os_member_def om_keys_find)

end
