(* ===== verification/Header.thy ===== *)
theory Header
  imports Prelude
begin

text \<open>
  The wire format of \<open>utils/Header.h\<close>: the protocol constants, the message types and the
  packed structures that travel in datagrams, each with the bytes \<open>memcpy\<close> copies out of
  it and the value \<open>memcpy\<close> leaves in it. The locale \<open>wire_format\<close> is the contract of
  such a pair; every structure of the header provides it.
\<close>

section \<open>Constants\<close>

definition kServerSign :: u8 where "kServerSign = 0xCC"
definition kClientSign :: u8 where "kClientSign = 0xDD"
definition kFileNameLenth :: nat where "kFileNameLenth = 0xFF"
definition kBytesPerPiece :: u32 where "kBytesPerPiece = 1024"

section \<open>Message types\<close>

datatype MessageType =
    HELLO | HELLO_REPLY | SHARE_FILE | SHARE_CODE | GET_FILE | FILE_DATA | FILE_REQ
  | DOWNLOAD_START | DATA_STREAM | PACK_ACK | RETRAN | FINISH | CHAT
  | ERROR_FORMAT | ERROR_LIMIT | ERROR_404 | TYPE_MAX

text \<open>
  The enumeration has the underlying type \<open>uint8_t\<close>, so a header read from the network
  may hold a byte that is no enumerator; a \<open>switch\<close> on it then takes \<open>default\<close>.
\<close>

fun type_code :: "MessageType \<Rightarrow> u8" where
  "type_code HELLO = 0"
| "type_code HELLO_REPLY = 1"
| "type_code SHARE_FILE = 2"
| "type_code SHARE_CODE = 3"
| "type_code GET_FILE = 4"
| "type_code FILE_DATA = 5"
| "type_code FILE_REQ = 6"
| "type_code DOWNLOAD_START = 7"
| "type_code DATA_STREAM = 8"
| "type_code PACK_ACK = 9"
| "type_code RETRAN = 10"
| "type_code FINISH = 11"
| "type_code CHAT = 12"
| "type_code ERROR_FORMAT = 0xF0"
| "type_code ERROR_LIMIT = 0xF1"
| "type_code ERROR_404 = 0xF2"
| "type_code TYPE_MAX = 0xF3"

definition message_types :: "MessageType list" where
  "message_types =
     [HELLO, HELLO_REPLY, SHARE_FILE, SHARE_CODE, GET_FILE, FILE_DATA, FILE_REQ,
      DOWNLOAD_START, DATA_STREAM, PACK_ACK, RETRAN, FINISH, CHAT,
      ERROR_FORMAT, ERROR_LIMIT, ERROR_404, TYPE_MAX]"

definition type_of :: "u8 \<Rightarrow> MessageType option" where
  "type_of b = find (\<lambda>t. type_code t = b) message_types"

lemma type_of_type_code [simp]: "type_of (type_code t) = Some t"
  by (cases t) (simp_all add: type_of_def message_types_def)

lemma type_code_inject [simp]: "type_code s = type_code t \<longleftrightarrow> s = t"
  by (metis option.inject type_of_type_code)

lemma type_of_SomeD: "type_of b = Some t \<Longrightarrow> b = type_code t"
  by (auto simp: type_of_def find_Some_iff)

section \<open>Structures\<close>

record Header =
  sign :: u8
  mtype :: u8
  dataLenth :: u16

text \<open>\<open>struct sockaddr\<close>: the family and 14 bytes of address data (port, IPv4 address, padding).\<close>

datatype sockaddr = Sockaddr (sa_family: u16) (sa_data: bytes)

record FileData =
  fileName :: bytes
  fileBytes :: u64
  fileCRC32 :: u32

record FileDataAddr =
  fileData :: FileData
  addr :: sockaddr

definition wf_sockaddr :: "sockaddr \<Rightarrow> bool" where
  "wf_sockaddr a = (length (sa_data a) = 14)"

definition wf_FileData :: "FileData \<Rightarrow> bool" where
  "wf_FileData d = (length (fileName d) = kFileNameLenth + 1)"

definition wf_FileDataAddr :: "FileDataAddr \<Rightarrow> bool" where
  "wf_FileDataAddr d = (wf_FileData (fileData d) \<and> wf_sockaddr (addr d))"

definition sizeof_Header :: nat where "sizeof_Header = 4"
definition sizeof_ShareCode :: nat where "sizeof_ShareCode = 4"
definition sizeof_FileData :: nat where "sizeof_FileData = 268"
definition sizeof_sockaddr :: nat where "sizeof_sockaddr = 16"
definition sizeof_PeerAddr :: nat where "sizeof_PeerAddr = 16"
definition sizeof_FileDataAddr :: nat where "sizeof_FileDataAddr = 284"
definition sizeof_DataStream :: nat where "sizeof_DataStream = 4"
definition sizeof_RetransPieces :: nat where "sizeof_RetransPieces = 4"
definition sizeof_PackageAck :: nat where "sizeof_PackageAck = 4"

lemmas sizeof_defs =
  sizeof_Header_def sizeof_ShareCode_def sizeof_FileData_def sizeof_sockaddr_def
  sizeof_PeerAddr_def sizeof_FileDataAddr_def sizeof_DataStream_def
  sizeof_RetransPieces_def sizeof_PackageAck_def

section \<open>Images in memory\<close>

definition u16_bytes :: "u16 \<Rightarrow> bytes" where "u16_bytes w = le_nat 2 (unat w)"
definition u16_of :: "bytes \<Rightarrow> u16" where "u16_of bs = of_nat (nat_le bs)"
definition u32_bytes :: "u32 \<Rightarrow> bytes" where "u32_bytes w = le_nat 4 (unat w)"
definition u32_of :: "bytes \<Rightarrow> u32" where "u32_of bs = of_nat (nat_le bs)"
definition u64_bytes :: "u64 \<Rightarrow> bytes" where "u64_bytes w = le_nat 8 (unat w)"
definition u64_of :: "bytes \<Rightarrow> u64" where "u64_of bs = of_nat (nat_le bs)"

definition header_bytes :: "Header \<Rightarrow> bytes" where
  "header_bytes h = [sign h, mtype h] @ u16_bytes (dataLenth h)"

definition header_of :: "bytes \<Rightarrow> Header" where
  "header_of bs = \<lparr>sign = bs ! 0, mtype = bs ! 1, dataLenth = u16_of (drop 2 bs)\<rparr>"

definition sockaddr_bytes :: "sockaddr \<Rightarrow> bytes" where
  "sockaddr_bytes a = u16_bytes (sa_family a) @ sa_data a"

definition sockaddr_of :: "bytes \<Rightarrow> sockaddr" where
  "sockaddr_of bs = Sockaddr (u16_of (take 2 bs)) (drop 2 bs)"

definition filedata_bytes :: "FileData \<Rightarrow> bytes" where
  "filedata_bytes d = fileName d @ u64_bytes (fileBytes d) @ u32_bytes (fileCRC32 d)"

definition filedata_of :: "bytes \<Rightarrow> FileData" where
  "filedata_of bs =
     \<lparr>fileName = take 256 bs, fileBytes = u64_of (slice 256 8 bs), fileCRC32 = u32_of (drop 264 bs)\<rparr>"

definition filedataaddr_bytes :: "FileDataAddr \<Rightarrow> bytes" where
  "filedataaddr_bytes d = filedata_bytes (fileData d) @ sockaddr_bytes (addr d)"

definition filedataaddr_of :: "bytes \<Rightarrow> FileDataAddr" where
  "filedataaddr_of bs =
     \<lparr>fileData = filedata_of (take 268 bs), addr = sockaddr_of (drop 268 bs)\<rparr>"

section \<open>The contract of a wire format\<close>

locale wire_format =
  fixes enc :: "'a \<Rightarrow> bytes"
    and dec :: "bytes \<Rightarrow> 'a"
    and width :: nat
    and ok :: "'a \<Rightarrow> bool"
  assumes length_enc: "ok x \<Longrightarrow> length (enc x) = width"
    and dec_enc: "ok x \<Longrightarrow> dec (enc x) = x"
    and enc_dec: "length bs = width \<Longrightarrow> enc (dec bs) = bs"
    and ok_dec: "length bs = width \<Longrightarrow> ok (dec bs)"
begin

lemma enc_inject: "ok x \<Longrightarrow> ok y \<Longrightarrow> enc x = enc y \<longleftrightarrow> x = y"
  by (metis dec_enc)

lemma dec_inject:
  "length as = width \<Longrightarrow> length bs = width \<Longrightarrow> dec as = dec bs \<longleftrightarrow> as = bs"
  by (metis enc_dec)

lemma read_field:
  "ok x \<Longrightarrow> i = length pre \<Longrightarrow> mem_read (pre @ enc x @ post) i width = Inr (enc x)"
  by (simp add: mem_read_def length_enc [symmetric])

lemma field_parse:
  "ok x \<Longrightarrow> i = length pre \<Longrightarrow>
     bindE (mem_read (pre @ enc x @ post) i width) (\<lambda>bs. Inr (dec bs)) = Inr x"
  by (simp add: read_field dec_enc)

end

text \<open>Two fields one after the other.\<close>

locale wire_pair =
  a: wire_format enc_a dec_a width_a ok_a + b: wire_format enc_b dec_b width_b ok_b
  for enc_a :: "'a \<Rightarrow> bytes" and dec_a width_a ok_a
    and enc_b :: "'b \<Rightarrow> bytes" and dec_b width_b ok_b
begin

definition pair_enc :: "'a \<times> 'b \<Rightarrow> bytes" where
  "pair_enc p = enc_a (fst p) @ enc_b (snd p)"

definition pair_dec :: "bytes \<Rightarrow> 'a \<times> 'b" where
  "pair_dec bs = (dec_a (take width_a bs), dec_b (drop width_a bs))"

lemma pair_dec_enc:
  "ok_a x \<Longrightarrow> ok_b y \<Longrightarrow> pair_dec (enc_a x @ enc_b y) = (x, y)"
  by (simp add: pair_dec_def a.length_enc a.dec_enc b.dec_enc)

lemma pair_enc_dec:
  "length bs = width_a + width_b \<Longrightarrow>
     enc_a (dec_a (take width_a bs)) @ enc_b (dec_b (drop width_a bs)) = bs"
  by (simp add: a.enc_dec b.enc_dec)

end

sublocale wire_pair \<subseteq> pair: wire_format pair_enc pair_dec "width_a + width_b" "\<lambda>p. ok_a (fst p) \<and> ok_b (snd p)"
proof unfold_locales
  show "\<And>x. ok_a (fst x) \<and> ok_b (snd x) \<Longrightarrow> length (pair_enc x) = width_a + width_b"
    by (simp add: pair_enc_def a.length_enc b.length_enc)
  show "\<And>x. ok_a (fst x) \<and> ok_b (snd x) \<Longrightarrow> pair_dec (pair_enc x) = x"
    by (simp add: pair_enc_def pair_dec_enc)
  show "\<And>bs. length bs = width_a + width_b \<Longrightarrow> pair_enc (pair_dec bs) = bs"
    by (simp add: pair_enc_def pair_dec_def pair_enc_dec)
  show "\<And>bs. length bs = width_a + width_b \<Longrightarrow>
      ok_a (fst (pair_dec bs)) \<and> ok_b (snd (pair_dec bs))"
    by (simp add: pair_dec_def a.ok_dec b.ok_dec)
qed

section \<open>The structures provide it\<close>

lemma of_nat_le_word:
  assumes "8 * length bs = LENGTH('a::len)"
  shows "unat (of_nat (nat_le bs) :: 'a word) = nat_le bs"
proof -
  have "(256 :: nat) ^ length bs = 2 ^ LENGTH('a)"
    unfolding assms [symmetric] power_mult by simp
  then show ?thesis using nat_le_bound [of bs] by (simp add: unat_of_nat)
qed

lemma word_le_of_nat:
  fixes x :: "'a::len word"
  assumes "8 * n = LENGTH('a)"
  shows "of_nat (nat_le (le_nat n (unat x))) = x"
proof -
  have "(256 :: nat) ^ n = 2 ^ LENGTH('a)"
    unfolding assms [symmetric] power_mult by simp
  then show ?thesis using unsigned_less [of x, where 'a = nat] by (simp add: nat_le_le_nat)
qed

interpretation w16: wire_format u16_bytes u16_of 2 "\<lambda>_. True"
proof unfold_locales
  show "\<And>bs. length bs = 2 \<Longrightarrow> u16_bytes (u16_of bs) = bs"
    by (simp add: u16_bytes_def u16_of_def of_nat_le_word) (metis le_nat_nat_le)
qed (simp_all add: u16_bytes_def u16_of_def word_le_of_nat)

interpretation w32: wire_format u32_bytes u32_of 4 "\<lambda>_. True"
proof unfold_locales
  show "\<And>bs. length bs = 4 \<Longrightarrow> u32_bytes (u32_of bs) = bs"
    by (simp add: u32_bytes_def u32_of_def of_nat_le_word) (metis le_nat_nat_le)
qed (simp_all add: u32_bytes_def u32_of_def word_le_of_nat)

interpretation w64: wire_format u64_bytes u64_of 8 "\<lambda>_. True"
proof unfold_locales
  show "\<And>bs. length bs = 8 \<Longrightarrow> u64_bytes (u64_of bs) = bs"
    by (simp add: u64_bytes_def u64_of_def of_nat_le_word) (metis le_nat_nat_le)
qed (simp_all add: u64_bytes_def u64_of_def word_le_of_nat)

lemma length_word_bytes [simp]:
  "length (u16_bytes x) = 2" "length (u32_bytes y) = 4" "length (u64_bytes z) = 8"
  by (simp_all add: u16_bytes_def u32_bytes_def u64_bytes_def)

lemmas word_dec_enc [simp] =
  w16.dec_enc [OF TrueI] w32.dec_enc [OF TrueI] w64.dec_enc [OF TrueI]

lemma length_header_bytes [simp]: "length (header_bytes h) = sizeof_Header"
  by (simp add: header_bytes_def sizeof_Header_def)

interpretation header: wire_format header_bytes header_of sizeof_Header "\<lambda>_. True"
proof unfold_locales
  show "\<And>bs. length bs = sizeof_Header \<Longrightarrow> header_bytes (header_of bs) = bs"
  proof -
    fix bs :: bytes assume n: "length bs = sizeof_Header"
    then obtain a b c d where "bs = [a, b, c, d]"
      by (auto simp: sizeof_Header_def eval_nat_numeral length_Suc_conv)
    moreover have "u16_bytes (u16_of [c, d]) = [c, d]" by (rule w16.enc_dec) simp
    ultimately show "header_bytes (header_of bs) = bs"
      by (simp add: header_bytes_def header_of_def)
  qed
qed (simp_all add: header_bytes_def header_of_def sizeof_Header_def)

interpretation sockaddr: wire_format sockaddr_bytes sockaddr_of sizeof_sockaddr wf_sockaddr
proof unfold_locales
  show "\<And>bs. length bs = sizeof_sockaddr \<Longrightarrow> sockaddr_bytes (sockaddr_of bs) = bs"
    by (simp add: sockaddr_bytes_def sockaddr_of_def sizeof_sockaddr_def w16.enc_dec)
qed (simp_all add: sockaddr_bytes_def sockaddr_of_def sizeof_sockaddr_def wf_sockaddr_def)

text \<open>The tail of \<open>FileData\<close> is a pair of integers; its head is the name array.\<close>

interpretation name: wire_format "\<lambda>n. n" "\<lambda>bs. bs" 256 "\<lambda>n. length n = 256"
  by unfold_locales simp_all

interpretation size_crc: wire_pair u64_bytes u64_of 8 "\<lambda>_. True" u32_bytes u32_of 4 "\<lambda>_. True"
  by unfold_locales

interpretation filedata: wire_format filedata_bytes filedata_of sizeof_FileData wf_FileData
proof unfold_locales
  show "\<And>bs. length bs = sizeof_FileData \<Longrightarrow> filedata_bytes (filedata_of bs) = bs"
  proof -
    fix bs :: bytes assume n: "length bs = sizeof_FileData"
    then have "u64_bytes (u64_of (take 8 (drop 256 bs))) @ u32_bytes (u32_of (drop 8 (drop 256 bs)))
        = drop 256 bs"
      by (intro size_crc.pair_enc_dec) (simp add: sizeof_FileData_def)
    then show "filedata_bytes (filedata_of bs) = bs"
      by (simp add: filedata_bytes_def filedata_of_def slice_def)
  qed
qed (simp_all add: filedata_bytes_def filedata_of_def sizeof_FileData_def wf_FileData_def
       kFileNameLenth_def slice_def)

interpretation file_addr: wire_pair filedata_bytes filedata_of sizeof_FileData wf_FileData
  sockaddr_bytes sockaddr_of sizeof_sockaddr wf_sockaddr
  by unfold_locales

lemma filedataaddr_bytes_pair:
  "filedataaddr_bytes d = file_addr.pair_enc (fileData d, addr d)"
  by (simp add: filedataaddr_bytes_def file_addr.pair_enc_def)

lemma filedataaddr_of_pair:
  "filedataaddr_of bs =
     (case file_addr.pair_dec bs of (f, a) \<Rightarrow> \<lparr>fileData = f, addr = a\<rparr>)"
  by (simp add: filedataaddr_of_def file_addr.pair_dec_def) (simp add: sizeof_FileData_def)

interpretation filedataaddr:
  wire_format filedataaddr_bytes filedataaddr_of sizeof_FileDataAddr wf_FileDataAddr
proof unfold_locales
  show "\<And>x. wf_FileDataAddr x \<Longrightarrow> length (filedataaddr_bytes x) = sizeof_FileDataAddr"
    using file_addr.pair.length_enc
    by (simp add: filedataaddr_bytes_pair wf_FileDataAddr_def sizeof_defs)
  show "\<And>x. wf_FileDataAddr x \<Longrightarrow> filedataaddr_of (filedataaddr_bytes x) = x"
    by (simp add: filedataaddr_bytes_pair filedataaddr_of_pair wf_FileDataAddr_def
        file_addr.pair.dec_enc)
next
  fix bs :: bytes
  assume "length bs = sizeof_FileDataAddr"
  then have n: "length bs = sizeof_FileData + sizeof_sockaddr"
    by (simp add: sizeof_defs)
  show "filedataaddr_bytes (filedataaddr_of bs) = bs"
    using file_addr.pair.enc_dec [OF n]
    by (auto simp add: filedataaddr_bytes_pair filedataaddr_of_pair split: prod.split)
  show "wf_FileDataAddr (filedataaddr_of bs)"
    using file_addr.pair.ok_dec [OF n]
    by (auto simp add: filedataaddr_of_pair wf_FileDataAddr_def split: prod.split)
qed

section \<open>Messages\<close>

text \<open>A message is a header followed by its body.\<close>

definition message :: "u8 \<Rightarrow> MessageType \<Rightarrow> nat \<Rightarrow> bytes \<Rightarrow> bytes" where
  "message sg t len body =
     header_bytes \<lparr>sign = sg, mtype = type_code t, dataLenth = of_nat len\<rparr> @ body"

lemma length_message [simp]: "length (message sg t len body) = sizeof_Header + length body"
  by (simp add: message_def)

lemma message_header:
  "header_of (take sizeof_Header (message sg t len body)) =
     \<lparr>sign = sg, mtype = type_code t, dataLenth = of_nat len\<rparr>"
  by (simp add: message_def header.dec_enc)

lemma message_body [simp]: "drop sizeof_Header (message sg t len body) = body"
  by (simp add: message_def)

end
