(* ===== verification/Buffer.thy ===== *)
theory Buffer
  imports Prelude
begin

text \<open>
  The byte buffer of \<open>netlib/Buffer.h\<close>: a vector with a read index and a write index, and
  8 bytes in front of the data where a header can be prepended. \<open>retrieve\<close>, \<open>append\<close>,
  \<open>prepend\<close> and the growth policy \<open>expendSpace\<close> are translated with their assertions;
  an access outside the vector is a fault. The locale \<open>byte_queue\<close> is what the callers
  rely on: a first-in-first-out queue of bytes.
\<close>

section \<open>State\<close>

definition kPrependSize :: nat where "kPrependSize = 8"
definition kInitSize :: nat where "kInitSize = 1024"

record buffer =
  store :: bytes        \<comment> \<open>\<open>buffer_\<close>\<close>
  readIndex :: nat
  writeIndex :: nat

definition new_Buffer :: buffer where
  "new_Buffer =
     \<lparr>store = replicate (kPrependSize + kInitSize) 0,
      readIndex = kPrependSize, writeIndex = kPrependSize\<rparr>"

section \<open>Operations\<close>

definition swap :: "buffer \<Rightarrow> buffer \<Rightarrow> buffer \<times> buffer" where
  "swap b c =
     (b\<lparr>store := store c, readIndex := readIndex c, writeIndex := writeIndex c\<rparr>,
      c\<lparr>store := store b, readIndex := readIndex b, writeIndex := writeIndex b\<rparr>)"

definition readableBytes :: "buffer \<Rightarrow> nat" where
  "readableBytes b = sub64 (writeIndex b) (readIndex b)"

definition writableBytes :: "buffer \<Rightarrow> nat" where
  "writableBytes b = sub64 (length (store b)) (writeIndex b)"

definition prependableBytes :: "buffer \<Rightarrow> nat" where
  "prependableBytes b = readIndex b"

text \<open>A read of \<open>n\<close> bytes at \<open>peek() + off\<close>, as \<open>memcpy\<close> and \<open>*peek()\<close> do.\<close>

definition peek :: "buffer \<Rightarrow> nat \<Rightarrow> nat \<Rightarrow> bytes outcome" where
  "peek b off n = mem_read (store b) (readIndex b + off) n"

text \<open>A write of \<open>d\<close> at \<open>beginWrite()\<close>; the write index is moved by \<open>hasWritten\<close>.\<close>

definition beginWrite :: "buffer \<Rightarrow> bytes \<Rightarrow> buffer outcome" where
  "beginWrite b d =
     bindE (mem_write (store b) (writeIndex b) d) (\<lambda>m. Inr (b\<lparr>store := m\<rparr>))"

definition hasWritten :: "buffer \<Rightarrow> nat \<Rightarrow> buffer" where
  "hasWritten b len = b\<lparr>writeIndex := add64 (writeIndex b) len\<rparr>"

definition retrieve :: "buffer \<Rightarrow> nat \<Rightarrow> buffer outcome" where
  "retrieve b len =
     require (len \<le> readableBytes b)
       (Inr (b\<lparr>readIndex := add64 (readIndex b) len\<rparr>))"

text \<open>The argument of \<open>retrieveUntil\<close> is a pointer into the vector, here its index.\<close>

definition retrieveUntil :: "buffer \<Rightarrow> nat \<Rightarrow> buffer outcome" where
  "retrieveUntil b end_ptr =
     require (readIndex b \<le> end_ptr)
       (require (end_ptr \<le> writeIndex b)
         (retrieve b (sub64 end_ptr (readIndex b))))"

definition retrieveAll :: "buffer \<Rightarrow> buffer" where
  "retrieveAll b = b\<lparr>readIndex := kPrependSize, writeIndex := kPrependSize\<rparr>"

definition retrieveAsString :: "buffer \<Rightarrow> (bytes \<times> buffer) outcome" where
  "retrieveAsString b = bindE (peek b 0 (readableBytes b)) (\<lambda>str. Inr (str, retrieveAll b))"

text \<open>\<open>buffer_.resize(n)\<close>: keep the first \<open>n\<close> bytes, fill up with zeros.\<close>

definition resize :: "bytes \<Rightarrow> nat \<Rightarrow> bytes" where
  "resize m n = take n m @ replicate (n - length m) 0"

definition expendSpace :: "buffer \<Rightarrow> nat \<Rightarrow> buffer outcome" where
  "expendSpace b len =
     (if add64 (writableBytes b) (prependableBytes b) < add64 len kPrependSize
      then Inr (b\<lparr>store := resize (store b) (add64 (writeIndex b) len)\<rparr>)
      else require (kPrependSize < readIndex b)
        (let readable = readableBytes b in
         bindE (mem_read (store b) (readIndex b) readable) (\<lambda>d.
         bindE (mem_write (store b) kPrependSize d) (\<lambda>m.
           let b' = b\<lparr>store := m, readIndex := kPrependSize,
                      writeIndex := add64 kPrependSize readable\<rparr>
           in require (readable = readableBytes b') (Inr b')))))"

definition ensureWritableBytes :: "buffer \<Rightarrow> nat \<Rightarrow> buffer outcome" where
  "ensureWritableBytes b len =
     bindE (if writableBytes b < len then expendSpace b len else Inr b) (\<lambda>b'.
       require (len \<le> writableBytes b') (Inr b'))"

definition append :: "buffer \<Rightarrow> bytes \<Rightarrow> buffer outcome" where
  "append b d =
     bindE (ensureWritableBytes b (length d)) (\<lambda>b1.
     bindE (beginWrite b1 d) (\<lambda>b2.
       Inr (hasWritten b2 (length d))))"

definition prepend :: "buffer \<Rightarrow> bytes \<Rightarrow> buffer outcome" where
  "prepend b d =
     require (length d \<le> prependableBytes b)
       (let i = sub64 (readIndex b) (length d) in
        bindE (mem_write (store b) i d) (\<lambda>m. Inr (b\<lparr>store := m, readIndex := i\<rparr>)))"

section \<open>Invariant and contents\<close>

text \<open>
  The vector holds the indices in order and stays below \<open>2 ^ 63\<close> bytes (more cannot be
  allocated), so that no size computation wraps.
\<close>

definition buffer_inv :: "buffer \<Rightarrow> bool" where
  "buffer_inv b \<longleftrightarrow>
     readIndex b \<le> writeIndex b \<and> writeIndex b \<le> length (store b) \<and> length (store b) < 2 ^ 63"

definition contents :: "buffer \<Rightarrow> bytes" where
  "contents b = slice (readIndex b) (writeIndex b - readIndex b) (store b)"

text \<open>Space for \<open>len\<close> more bytes exists below the allocation limit.\<close>

definition fits :: "buffer \<Rightarrow> nat \<Rightarrow> bool" where
  "fits b len \<longleftrightarrow> length (store b) + len + kPrependSize < 2 ^ 63"

lemma buffer_sizes:
  assumes "buffer_inv b"
  shows readable_eq: "readableBytes b = writeIndex b - readIndex b"
    and writable_eq: "writableBytes b = length (store b) - writeIndex b"
  using assms by (simp_all add: buffer_inv_def readableBytes_def writableBytes_def)

lemma length_contents [simp]:
  "buffer_inv b \<Longrightarrow> length (contents b) = readableBytes b"
  by (simp add: contents_def readable_eq) (simp add: buffer_inv_def)

lemma new_Buffer_inv [simp]: "buffer_inv new_Buffer"
  by (simp add: new_Buffer_def buffer_inv_def kPrependSize_def kInitSize_def)

lemma new_Buffer_contents [simp]: "contents new_Buffer = []"
  by (simp add: new_Buffer_def contents_def)

text \<open>The three assertions of the constructor.\<close>

lemma new_Buffer_sizes:
  "readableBytes new_Buffer = 0" "writableBytes new_Buffer = kInitSize"
  "prependableBytes new_Buffer = kPrependSize"
  by (simp_all add: readableBytes_def writableBytes_def prependableBytes_def new_Buffer_def
      kPrependSize_def kInitSize_def)

lemma retrieveAll_inv:
  "length (store b) < 2 ^ 63 \<Longrightarrow> kPrependSize \<le> length (store b) \<Longrightarrow> buffer_inv (retrieveAll b)"
  by (simp add: retrieveAll_def buffer_inv_def)

lemma retrieveAll_contents [simp]: "contents (retrieveAll b) = []"
  by (simp add: retrieveAll_def contents_def)

lemma peek_contents:
  assumes "buffer_inv b" and "off + n \<le> readableBytes b"
  shows "peek b off n = Inr (slice off n (contents b))"
proof -
  have "readIndex b + off + n \<le> length (store b)"
    using assms by (auto simp: buffer_inv_def readable_eq)
  moreover have "slice off n (contents b) = slice (readIndex b + off) n (store b)"
    using assms
    by (auto simp: contents_def slice_def drop_take min_def readable_eq add.commute)
  ultimately show ?thesis by (simp add: peek_def mem_read_slice)
qed

lemma retrieve_spec:
  assumes "buffer_inv b" and "len \<le> readableBytes b"
  shows "\<exists>b'. retrieve b len = Inr b' \<and> buffer_inv b' \<and> contents b' = drop len (contents b)"
proof -
  from assms have len: "len \<le> writeIndex b - readIndex b" by (simp add: readable_eq)
  with assms have "readIndex b + len < 2 ^ 64" by (auto simp: buffer_inv_def)
  with assms have "retrieve b len = Inr (b\<lparr>readIndex := readIndex b + len\<rparr>)"
    by (simp add: retrieve_def)
  moreover have "buffer_inv (b\<lparr>readIndex := readIndex b + len\<rparr>)"
    using assms len by (auto simp: buffer_inv_def)
  moreover have "contents (b\<lparr>readIndex := readIndex b + len\<rparr>) = drop len (contents b)"
    by (simp add: contents_def slice_def drop_take add.commute)
  ultimately show ?thesis by blast
qed

lemma retrieve_too_much: "readableBytes b < len \<Longrightarrow> retrieve b len = Inl Assert_Fail"
  by (simp add: retrieve_def)

lemma expendSpace_spec:
  assumes inv: "buffer_inv b" and fits: "fits b len" and small: "writableBytes b < len"
  shows "\<exists>b'. expendSpace b len = Inr b' \<and> buffer_inv b' \<and> contents b' = contents b \<and>
    len \<le> writableBytes b' \<and> (readIndex b' = readIndex b \<or> readIndex b' = kPrependSize) \<and>
    length (store b') \<le> length (store b) + len"
proof -
  let ?n = "length (store b)" and ?r = "readIndex b" and ?w = "writeIndex b"
  have idx: "?r \<le> ?w" "?w \<le> ?n" "?n + len + 8 < 2 ^ 63"
    using inv fits by (auto simp: buffer_inv_def fits_def kPrependSize_def)
  have sizes: "readableBytes b = ?w - ?r" "writableBytes b = ?n - ?w"
    using inv by (simp_all add: readable_eq writable_eq)
  have guard: "add64 (writableBytes b) (prependableBytes b) < add64 len kPrependSize \<longleftrightarrow>
      ?n - ?w + ?r < len + 8"
    using idx by (simp add: sizes prependableBytes_def kPrependSize_def)
  show ?thesis
  proof (cases "?n - ?w + ?r < len + 8")
    case True
    let ?b = "b\<lparr>store := resize (store b) (?w + len)\<rparr>"
    have n: "?n \<le> ?w + len" using small sizes by simp
    have "expendSpace b len = Inr ?b"
      using True guard idx by (simp add: expendSpace_def)
    moreover have l: "length (store ?b) = ?w + len"
      using n by (simp add: resize_def)
    moreover have i: "buffer_inv ?b" using idx l by (simp add: buffer_inv_def)
    moreover have "contents ?b = contents b"
      using n idx by (simp add: contents_def slice_def resize_def)
    moreover have "len \<le> writableBytes ?b" using l by (simp add: writable_eq [OF i])
    ultimately show ?thesis using idx by (intro exI [of _ ?b]) simp
  next
    case False
    let ?d = "slice ?r (?w - ?r) (store b)"
    let ?b = "b\<lparr>store := mem_put (store b) 8 ?d, readIndex := 8, writeIndex := 8 + (?w - ?r)\<rparr>"
    have r: "8 < ?r" using False small sizes idx by simp
    have d: "length ?d = ?w - ?r" using idx by simp
    have room: "8 + length ?d \<le> ?n" using idx r d by simp
    have l: "length (store ?b) = ?n" using room by simp
    have i: "buffer_inv ?b" using idx room d l by (simp add: buffer_inv_def)
    have rd: "mem_read (store b) ?r (?w - ?r) = Inr ?d"
      using idx by (simp add: mem_read_slice)
    have wr: "mem_write (store b) 8 ?d = Inr (mem_put (store b) 8 ?d)"
      using room by (simp add: mem_write_def)
    have "expendSpace b len = Inr ?b"
      using False guard r idx rd wr readable_eq [OF i]
      by (simp add: expendSpace_def Let_def sizes kPrependSize_def)
    moreover have "contents ?b = contents b"
      using slice_mem_put_same [OF room] d by (simp add: contents_def)
    moreover have "len \<le> writableBytes ?b"
      unfolding writable_eq [OF i] l using False small sizes idx r by simp
    ultimately show ?thesis using i l by (intro exI [of _ ?b]) (simp add: kPrependSize_def)
  qed
qed

lemma ensureWritableBytes_spec:
  assumes "buffer_inv b" and "fits b len"
  shows "\<exists>b'. ensureWritableBytes b len = Inr b' \<and> buffer_inv b' \<and> contents b' = contents b \<and>
    len \<le> writableBytes b' \<and> (readIndex b' = readIndex b \<or> readIndex b' = kPrependSize) \<and>
    length (store b') \<le> length (store b) + len"
proof (cases "writableBytes b < len")
  case True
  from expendSpace_spec [OF assms True] True show ?thesis
    by (auto simp: ensureWritableBytes_def)
next
  case False
  with assms show ?thesis by (auto simp: ensureWritableBytes_def)
qed

lemma append_spec:
  assumes inv: "buffer_inv b" and fits: "fits b (length d)"
  shows "\<exists>b'. append b d = Inr b' \<and> buffer_inv b' \<and> contents b' = contents b @ d \<and>
    (readIndex b' = readIndex b \<or> readIndex b' = kPrependSize) \<and>
    length (store b') \<le> length (store b) + length d"
proof -
  from ensureWritableBytes_spec [OF assms] obtain b1 where
    e: "ensureWritableBytes b (length d) = Inr b1" and i1: "buffer_inv b1"
    and c1: "contents b1 = contents b" and w1: "length d \<le> writableBytes b1"
    and r1: "readIndex b1 = readIndex b \<or> readIndex b1 = kPrependSize"
    and l1: "length (store b1) \<le> length (store b) + length d" by blast
  let ?w = "writeIndex b1"
  let ?b = "b1\<lparr>store := mem_put (store b1) ?w d, writeIndex := ?w + length d\<rparr>"
  have room: "?w + length d \<le> length (store b1)"
    using i1 w1 by (auto simp: writable_eq buffer_inv_def)
  have "?w + length d < 2 ^ 64" using room i1 by (simp add: buffer_inv_def)
  then have "append b d = Inr ?b"
    using e room by (simp add: append_def beginWrite_def mem_write_def hasWritten_def)
  moreover have "buffer_inv ?b" using i1 room by (simp add: buffer_inv_def)
  moreover have "contents ?b = contents b1 @ d"
  proof -
    let ?m = "mem_put (store b1) ?w d"
    have r: "readIndex b1 \<le> ?w" using i1 by (simp add: buffer_inv_def)
    then have "contents ?b =
        slice (readIndex b1) (?w - readIndex b1) ?m @ slice ?w (length d) ?m"
      using slice_add [of "readIndex b1" "?w - readIndex b1" "length d" ?m]
      by (simp add: contents_def)
    also have "slice (readIndex b1) (?w - readIndex b1) ?m = contents b1"
      using r room by (simp add: contents_def slice_mem_put_before)
    also have "slice ?w (length d) ?m = d" using room by simp
    finally show ?thesis .
  qed
  ultimately show ?thesis using c1 r1 l1 room by (intro exI [of _ ?b]) simp
qed

lemma prepend_spec:
  assumes inv: "buffer_inv b" and room: "length d \<le> readIndex b"
  shows "\<exists>b'. prepend b d = Inr b' \<and> buffer_inv b' \<and> contents b' = d @ contents b \<and>
    readIndex b' = readIndex b - length d"
proof -
  let ?i = "readIndex b - length d" and ?w = "writeIndex b"
  let ?m = "mem_put (store b) ?i d"
  let ?b = "b\<lparr>store := ?m, readIndex := ?i\<rparr>"
  have idx: "readIndex b \<le> ?w" "?w \<le> length (store b)" "length (store b) < 2 ^ 63"
    using inv by (auto simp: buffer_inv_def)
  have fit: "?i + length d \<le> length (store b)" using idx room by simp
  have "sub64 (readIndex b) (length d) = ?i" using idx room by simp
  then have "prepend b d = Inr ?b"
    using fit room by (simp add: prepend_def prependableBytes_def mem_write_def Let_def)
  moreover have "buffer_inv ?b" using idx fit by (simp add: buffer_inv_def)
  moreover have "contents ?b = d @ contents b"
  proof -
    have split: "?w - ?i = length d + (?w - readIndex b)" using idx room by simp
    have "contents ?b = slice ?i (length d) ?m @ slice (readIndex b) (?w - readIndex b) ?m"
      using slice_add [of ?i "length d" "?w - readIndex b" ?m] room
      by (simp add: contents_def split)
    also have "slice ?i (length d) ?m = d" using fit by simp
    also have "slice (readIndex b) (?w - readIndex b) ?m = contents b"
      using idx room fit by (simp add: contents_def slice_mem_put_after)
    finally show ?thesis .
  qed
  ultimately show ?thesis by (intro exI [of _ ?b]) simp
qed

lemma retrieveAsString_spec:
  assumes "buffer_inv b"
  shows "retrieveAsString b = Inr (contents b, retrieveAll b)"
proof -
  have "slice 0 (readableBytes b) (contents b) = contents b"
    using assms by (simp add: slice_def)
  then show ?thesis
    using peek_contents [OF assms, of 0 "readableBytes b"] by (simp add: retrieveAsString_def)
qed

section \<open>The contract the callers use\<close>

text \<open>
  A sink takes blocks of bytes and keeps them in order; it never fails while its capacity is
  below a limit. The message builders of the program push a header and then a body.
\<close>

locale byte_sink =
  fixes push :: "'q \<Rightarrow> bytes \<Rightarrow> 'q outcome"
    and abs :: "'q \<Rightarrow> bytes"
    and inv :: "'q \<Rightarrow> bool"
    and capacity :: "'q \<Rightarrow> nat"
    and limit :: nat
  assumes push_ok: "inv q \<Longrightarrow> capacity q + length d < limit \<Longrightarrow>
    \<exists>q'. push q d = Inr q' \<and> inv q' \<and> abs q' = abs q @ d \<and>
      capacity q' \<le> capacity q + length d"
begin

lemma push_all:
  "inv q \<Longrightarrow> capacity q + length (concat ds) < limit \<Longrightarrow>
     \<exists>q'. foldE (\<lambda>d q. push q d) ds q = Inr q' \<and> inv q' \<and> abs q' = abs q @ concat ds"
proof (induction ds arbitrary: q)
  case Nil
  then show ?case by simp
next
  case (Cons d ds)
  then obtain q1 where q1: "push q d = Inr q1" "inv q1" "abs q1 = abs q @ d"
      "capacity q1 \<le> capacity q + length d"
    using push_ok [of q d] by auto
  with Cons.prems have "capacity q1 + length (concat ds) < limit" by simp
  with Cons.IH [OF q1(2)] q1 show ?case by auto
qed

lemma push_two:
  assumes "inv q" and "capacity q + (length d + length e) < limit"
  shows "\<exists>q'. bindE (push q d) (\<lambda>q1. push q1 e) = Inr q' \<and> inv q' \<and> abs q' = abs q @ d @ e"
proof -
  show ?thesis using push_all [of q "[d, e]"] assms by (simp add: foldE_Cons foldE_Nil bindE_right)
qed

end

interpretation sink: byte_sink append contents buffer_inv "\<lambda>b. length (store b)" "2 ^ 63 - 8"
proof unfold_locales
  fix q :: buffer and d :: bytes
  assume "buffer_inv q" and "length (store q) + length d < 2 ^ 63 - 8"
  then have "buffer_inv q" "fits q (length d)"
    by (simp_all add: fits_def kPrependSize_def)
  from append_spec [OF this] show "\<exists>q'. append q d = Inr q' \<and> buffer_inv q' \<and>
      contents q' = contents q @ d \<and> length (store q') \<le> length (store q) + length d"
    by blast
qed

lemma length_new_Buffer [simp]: "length (store new_Buffer) = 1032"
  by (simp add: new_Buffer_def kPrependSize_def kInitSize_def)

lemma append_new:
  assumes "length d < 2 ^ 32"
  shows "\<exists>b. append new_Buffer d = Inr b \<and> buffer_inv b \<and> contents b = d"
  using sink.push_ok [of new_Buffer d] assms by auto

lemma append_new2:
  assumes "length d + length e < 2 ^ 32"
  shows "\<exists>b. bindE (append new_Buffer d) (\<lambda>b. append b e) = Inr b \<and> buffer_inv b \<and>
    contents b = d @ e"
  using sink.push_two [of new_Buffer d e] assms by auto

lemma new_Buffer_start: "readIndex new_Buffer = kPrependSize"
  by (simp add: new_Buffer_def)

text \<open>
  The space in front: a header of up to eight bytes can be prepended to a message that
  was built in a new buffer (as the chat senders do), whatever the message's length.
\<close>

lemma prepend_header:
  assumes "length (concat ds) < 2 ^ 32" and "length h \<le> kPrependSize"
  shows "\<exists>b b'. foldE (\<lambda>d b. append b d) ds new_Buffer = Inr b \<and> prepend b h = Inr b' \<and>
    buffer_inv b' \<and> contents b' = h @ concat ds"
proof -
  let ?ok = "\<lambda>b. readIndex b = kPrependSize"
  obtain b where b: "foldE (\<lambda>d b. append b d) ds new_Buffer = Inr b" "buffer_inv b"
      "contents b = concat ds"
    using sink.push_all [of new_Buffer ds] assms(1) by auto
  have "\<exists>t. foldE (\<lambda>d b. append b d) es c = Inr t \<and> ?ok t"
    if "?ok c" "buffer_inv c" "length (store c) + length (concat es) < 2 ^ 63 - 8" for es c
    using that
  proof (induction es arbitrary: c)
    case Nil
    then show ?case by simp
  next
    case (Cons e es)
    then obtain c1 where "append c e = Inr c1" "buffer_inv c1" "?ok c1"
        "length (store c1) \<le> length (store c) + length e"
      using append_spec [of c e] by (auto simp: fits_def kPrependSize_def)
    with Cons show ?case by auto
  qed
  from this [of new_Buffer ds] assms(1) b(1) have "?ok b"
    by (simp add: new_Buffer_start)
  with prepend_spec [OF b(2), of h] assms(2) b show ?thesis by auto
qed

end
