(* ===== verification/Sockaddr_Order.thy ===== *)
theory Sockaddr_Order
  imports Header "HOL-Library.List_Lexorder" "HOL-Library.Product_Lexorder"
begin

text \<open>
  The order on socket addresses of \<open>server/DiretransServer.h\<close>, which keys the server's maps:
  \<open>operator<\<close> and \<open>operator==\<close> as the source writes them, and the linear order they are.
\<close>

section \<open>The operators\<close>

text \<open>\<open>sa_data\<close> is an array of \<open>char\<close>, which is signed on the target.\<close>

function lt_data :: "nat \<Rightarrow> bytes \<Rightarrow> bytes \<Rightarrow> bool" where
  "lt_data i l r =
     (if i < 14 then
        (if sint (l ! i) < sint (r ! i) then True
         else if sint (r ! i) < sint (l ! i) then False
         else lt_data (Suc i) l r)
      else False)"
  by pat_completeness auto
termination
  by (relation "measure (\<lambda>(i, l, r). 14 - i)") auto

declare lt_data.simps [simp del]

definition sockaddr_less :: "sockaddr \<Rightarrow> sockaddr \<Rightarrow> bool" where
  "sockaddr_less l r =
     (if sa_family l < sa_family r then True
      else if sa_family r < sa_family l then False
      else lt_data 0 (sa_data l) (sa_data r))"

text \<open>\<open>memcmp\<close> over the whole structure.\<close>

definition sockaddr_eq :: "sockaddr \<Rightarrow> sockaddr \<Rightarrow> bool" where
  "sockaddr_eq l r = (sockaddr_bytes l = sockaddr_bytes r)"

section \<open>The linear order\<close>

definition sock_key :: "sockaddr \<Rightarrow> u16 \<times> int list" where
  "sock_key a = (sa_family a, map sint (sa_data a))"

lemma sock_key_inject: "sock_key a = sock_key b \<longleftrightarrow> a = b"
proof -
  have "inj (sint :: u8 \<Rightarrow> int)" by (rule injI) (rule signed_word_eqI)
  then show ?thesis by (cases a; cases b) (auto simp: sock_key_def inj_map_eq_map)
qed

instantiation sockaddr :: linorder
begin

definition less_sockaddr :: "sockaddr \<Rightarrow> sockaddr \<Rightarrow> bool" where
  "less_sockaddr a b = (sock_key a < sock_key b)"

definition less_eq_sockaddr :: "sockaddr \<Rightarrow> sockaddr \<Rightarrow> bool" where
  "less_eq_sockaddr a b = (sock_key a \<le> sock_key b)"

instance
  by standard
     (auto simp: less_sockaddr_def less_eq_sockaddr_def sock_key_inject [symmetric])

end

lemma lt_data_lex:
  assumes "length l = 14" and "length r = 14"
  shows "i \<le> 14 \<Longrightarrow> lt_data i l r \<longleftrightarrow> map sint (drop i l) < map sint (drop i r)"
proof (induction "14 - i" arbitrary: i)
  case 0
  then have "i = 14" by simp
  with assms show ?case by (simp add: lt_data.simps [of 14])
next
  case (Suc n)
  then have i: "i < 14" by simp
  with Suc have IH: "lt_data (Suc i) l r \<longleftrightarrow> map sint (drop (Suc i) l) < map sint (drop (Suc i) r)"
    by simp
  have "drop i l = l ! i # drop (Suc i) l" "drop i r = r ! i # drop (Suc i) r"
    using i assms by (simp_all add: Cons_nth_drop_Suc)
  with i IH show ?case by (auto simp: lt_data.simps [of i])
qed

lemma sockaddr_less_iff:
  assumes "wf_sockaddr l" and "wf_sockaddr r"
  shows "sockaddr_less l r \<longleftrightarrow> l < r"
  using assms lt_data_lex [of "sa_data l" "sa_data r" 0]
  by (auto simp: sockaddr_less_def less_sockaddr_def sock_key_def wf_sockaddr_def)

lemma sockaddr_eq_iff:
  assumes "wf_sockaddr l" and "wf_sockaddr r"
  shows "sockaddr_eq l r \<longleftrightarrow> l = r"
  using assms by (simp add: sockaddr_eq_def sockaddr.enc_inject)

end
