(* ===== verification/Timestamp.thy ===== *)
theory Timestamp
  imports Prelude
begin

text \<open>
  \<open>netlib/Timestamp.h\<close> and \<open>Timestamp.cpp\<close>: points in time as microseconds since the
  epoch. The class holds an \<open>int64_t\<close>; the model is an integer, which is exact for every
  time before the year 294000, where the signed arithmetic of the code does not overflow.
  \<open>addTime\<close> takes a \<open>double\<close>; all callers pass whole seconds, whose product with
  \<open>10 ^ 6\<close> a \<open>double\<close> holds exactly, so the model takes whole seconds.
\<close>

type_synonym timestamp = int

definition kMicroSecondsPerSecond :: int where
  "kMicroSecondsPerSecond = 1000 * 1000"

definition invalid :: timestamp where "invalid = 0"

definition valid :: "timestamp \<Rightarrow> bool" where "valid t = (t > 0)"

text \<open>\<open>now()\<close> combines the two fields \<open>gettimeofday\<close> fills in.\<close>

definition now_of :: "int \<Rightarrow> int \<Rightarrow> timestamp" where
  "now_of tv_sec tv_usec = tv_sec * kMicroSecondsPerSecond + tv_usec"

definition addTime :: "timestamp \<Rightarrow> int \<Rightarrow> timestamp" where
  "addTime t seconds = t + seconds * kMicroSecondsPerSecond"

text \<open>The comparison that every timeout check of the program makes.\<close>

definition timed_out :: "timestamp \<Rightarrow> timestamp \<Rightarrow> int \<Rightarrow> bool" where
  "timed_out now since seconds = (now > since + seconds * kMicroSecondsPerSecond)"

lemma not_valid_invalid [simp]: "\<not> valid invalid"
  by (simp add: valid_def invalid_def)

lemma addTime_mono: "s \<le> t \<Longrightarrow> addTime s d \<le> addTime t d"
  by (simp add: addTime_def)

lemma addTime_later: "0 < d \<Longrightarrow> t < addTime t d"
  by (simp add: addTime_def kMicroSecondsPerSecond_def)

lemma timed_out_iff: "timed_out now since d \<longleftrightarrow> addTime since d < now"
  by (simp add: timed_out_def addTime_def)

end
