(* ===== verification/Udp_Com.thy ===== *)
theory Udp_Com
  imports Header Buffer Timestamp
begin

text \<open>
  \<open>netlib/UdpCom\<close>: a datagram socket with a receive buffer that is reused for every
  datagram. What the system calls (\<open>socket\<close>, \<open>bind\<close>, \<open>recvfrom\<close>) answer is an
  argument; what is handed to \<open>sendto\<close> is recorded in \<open>sent\<close>. The message callback is
  an argument of \<open>handleRead\<close>: it gets the connection and the buffer by reference, so it
  returns both, with its own state.
\<close>

definition kBufferSize :: nat where "kBufferSize = 65535"

record udp =
  bound :: bool
  port :: u16
  tmpbuf :: buffer
  sent :: "(bytes \<times> sockaddr) list"

text \<open>\<open>bind\<close> answers for a port number; the code binds \<open>port_\<close>, not its argument.\<close>

definition bindPort :: "udp \<Rightarrow> u16 \<Rightarrow> (u16 \<Rightarrow> int) \<Rightarrow> udp" where
  "bindPort u p bind = (if 0 > bind (port u) then u\<lparr>bound := False\<rparr> else u\<lparr>bound := True\<rparr>)"

definition new_UdpCom :: "int \<Rightarrow> u16 \<Rightarrow> (u16 \<Rightarrow> int) \<Rightarrow> udp outcome" where
  "new_UdpCom sockfd p bind =
     (if sockfd < 0 then Inl Abort
      else
        let u = bindPort \<lparr>bound = False, port = p, tmpbuf = new_Buffer, sent = []\<rparr> p bind
        in bindE (ensureWritableBytes (tmpbuf u) kBufferSize) (\<lambda>b. Inr (u\<lparr>tmpbuf := b\<rparr>)))"

definition sendInThreadPool :: "udp \<Rightarrow> buffer \<Rightarrow> sockaddr \<Rightarrow> udp outcome" where
  "sendInThreadPool u buf target =
     require (bound u)
       (bindE (peek buf 0 (readableBytes buf)) (\<lambda>d. Inr (u\<lparr>sent := sent u @ [(d, target)]\<rparr>)))"

definition send :: "udp \<Rightarrow> buffer \<Rightarrow> sockaddr \<Rightarrow> udp outcome" where
  "send u buf target = require (bound u) (sendInThreadPool u buf target)"

text \<open>
  \<open>recvfrom\<close> either fails, with result -1 and nothing written, or stores the datagram (cut
  to the buffer's size) and returns its length. \<open>hasWritten(n)\<close> converts the result to
  \<open>size_t\<close> without looking at its sign.
\<close>

datatype recv = Recv_Error | Recv bytes sockaddr

definition zero_sockaddr :: sockaddr where
  "zero_sockaddr = Sockaddr 0 (replicate 14 0)"

definition recvfrom :: "buffer \<Rightarrow> recv \<Rightarrow> (buffer \<times> nat \<times> sockaddr) outcome" where
  "recvfrom b r =
     (case r of
        Recv_Error \<Rightarrow> Inr (b, sub64 0 1, zero_sockaddr)
      | Recv d src \<Rightarrow>
          let d' = take kBufferSize d in
          bindE (beginWrite b d') (\<lambda>b'. Inr (b', length d', src)))"

type_synonym 's callback =
  "udp \<Rightarrow> buffer \<Rightarrow> sockaddr \<Rightarrow> timestamp \<Rightarrow> 's \<Rightarrow> (udp \<times> buffer \<times> 's) outcome"

definition handleRead ::
  "'s callback option \<Rightarrow> udp \<Rightarrow> recv \<Rightarrow> timestamp \<Rightarrow> 's \<Rightarrow> (udp \<times> 's) outcome" where
  "handleRead messageCallback u r now s =
     require (kBufferSize \<le> writableBytes (tmpbuf u))
       (bindE (recvfrom (tmpbuf u) r) (\<lambda>(b, n, src).
        let b1 = hasWritten b n in
        bindE (case messageCallback of
                 None \<Rightarrow> Inr (u, b1, s)
               | Some cb \<Rightarrow> cb u b1 src now s) (\<lambda>(u2, b2, s').
        Inr (u2\<lparr>tmpbuf := retrieveAll b2\<rparr>, s'))))"

section \<open>The receive buffer between datagrams\<close>

text \<open>
  Between datagrams the buffer is empty, its indices are at the start and it has room for
  the largest datagram.
\<close>

definition udp_inv :: "udp \<Rightarrow> bool" where
  "udp_inv u \<longleftrightarrow> length (store (tmpbuf u)) = kPrependSize + kBufferSize \<and>
     readIndex (tmpbuf u) = kPrependSize \<and> writeIndex (tmpbuf u) = kPrependSize"

lemma new_UdpCom_ok:
  assumes "0 \<le> sockfd"
  shows "\<exists>u. new_UdpCom sockfd p bind = Inr u \<and> udp_inv u \<and> port u = p \<and> sent u = [] \<and>
    bound u = (0 \<le> bind p)"
  using assms
  by (auto simp: new_UdpCom_def bindPort_def ensureWritableBytes_def expendSpace_def
      writableBytes_def prependableBytes_def new_Buffer_def kPrependSize_def kInitSize_def
      kBufferSize_def udp_inv_def resize_def)

text \<open>A callback that leaves the vector's size alone (all of the program's do).\<close>

definition keeps_store :: "'s callback \<Rightarrow> bool" where
  "keeps_store cb \<longleftrightarrow>
     (\<forall>u b src t s u' b' s'. cb u b src t s = Inr (u', b', s') \<longrightarrow>
        length (store b') = length (store b))"

text \<open>The buffer a callback sees for a datagram that was received.\<close>

definition received :: "udp \<Rightarrow> bytes \<Rightarrow> buffer" where
  "received u d =
     (tmpbuf u)\<lparr>store := mem_put (store (tmpbuf u)) kPrependSize d,
               writeIndex := kPrependSize + length d\<rparr>"

lemma received_props:
  assumes "udp_inv u" and "length d \<le> kBufferSize"
  shows "buffer_inv (received u d)" and "contents (received u d) = d"
    and "readIndex (received u d) = kPrependSize"
    and "length (store (received u d)) = kPrependSize + kBufferSize"
    and "readableBytes (received u d) = length d"
  using assms
  by (auto simp: udp_inv_def received_def buffer_inv_def contents_def kPrependSize_def
      kBufferSize_def readableBytes_def)

lemma handleRead_Recv:
  assumes "udp_inv u" and "length d \<le> kBufferSize"
  shows "handleRead (Some cb) u (Recv d src) now s =
    bindE (cb u (received u d) src now s)
      (\<lambda>(u', b, s'). Inr (u'\<lparr>tmpbuf := retrieveAll b\<rparr>, s'))"
proof -
  have room: "kBufferSize \<le> writableBytes (tmpbuf u)"
    using assms by (simp add: udp_inv_def writableBytes_def kPrependSize_def kBufferSize_def)
  have "recvfrom (tmpbuf u) (Recv d src) =
      Inr ((tmpbuf u)\<lparr>store := mem_put (store (tmpbuf u)) kPrependSize d\<rparr>, length d, src)"
    using assms by (simp add: recvfrom_def beginWrite_def mem_write_def udp_inv_def)
  moreover have "hasWritten ((tmpbuf u)\<lparr>store := mem_put (store (tmpbuf u)) kPrependSize d\<rparr>)
      (length d) = received u d"
    using assms by (simp add: hasWritten_def received_def udp_inv_def kPrependSize_def kBufferSize_def)
  ultimately show ?thesis using room by (simp add: handleRead_def Let_def)
qed

lemma handleRead_inv:
  assumes inv: "udp_inv u" and cb: "keeps_store cb"
    and run: "handleRead (Some cb) u r now s = Inr (u', s')"
  shows "udp_inv u'"
proof -
  from run obtain b n src u2 b2 where
    rv: "recvfrom (tmpbuf u) r = Inr (b, n, src)"
    and call: "cb u (hasWritten b n) src now s = Inr (u2, b2, s')"
    and u': "u' = u2\<lparr>tmpbuf := retrieveAll b2\<rparr>"
    by (auto simp: handleRead_def Let_def outcome_simps)
  have "length (store b) = length (store (tmpbuf u))"
    using rv by (auto simp: recvfrom_def Let_def beginWrite_def mem_write_def outcome_simps
        split: recv.splits if_splits)
  moreover have "length (store b2) = length (store (hasWritten b n))"
    using cb call unfolding keeps_store_def by blast
  moreover have "length (store (hasWritten b n)) = length (store b)"
    by (simp add: hasWritten_def)
  ultimately show ?thesis using inv u' by (simp add: udp_inv_def retrieveAll_def)
qed

lemma send_ok:
  assumes "bound u" and "buffer_inv b"
  shows "send u b target = Inr (u\<lparr>sent := sent u @ [(contents b, target)]\<rparr>)"
  using assms retrieveAsString_spec [OF assms(2)]
  by (auto simp: send_def sendInThreadPool_def retrieveAsString_def outcome_simps)

lemma send_unbound: "\<not> bound u \<Longrightarrow> send u b target = Inl Assert_Fail"
  by (simp add: send_def)

text \<open>
  After a failed \<open>recvfrom\<close> the write index stands before the read index, and the buffer
  claims almost \<open>2 ^ 64\<close> readable bytes.
\<close>

lemma recv_error_view:
  assumes "udp_inv u"
  shows "readableBytes (hasWritten (tmpbuf u) (sub64 0 1)) = 2 ^ 64 - 1"
  using assms
  by (simp add: udp_inv_def hasWritten_def readableBytes_def kPrependSize_def add64_def sub64_def)

lemma wf_zero_sockaddr [simp]: "wf_sockaddr zero_sockaddr"
  by (simp add: wf_sockaddr_def zero_sockaddr_def)

text \<open>The buffer that the callback sees, and where it says the message came from.\<close>

definition seen :: "udp \<Rightarrow> recv \<Rightarrow> buffer \<times> sockaddr" where
  "seen u r =
     (case r of Recv_Error \<Rightarrow> (hasWritten (tmpbuf u) (sub64 0 1), zero_sockaddr)
      | Recv d src \<Rightarrow> (received u d, src))"

lemma handleRead_seen:
  assumes u: "udp_inv u" and "case r of Recv d src \<Rightarrow> length d \<le> kBufferSize | _ \<Rightarrow> True"
  shows "handleRead (Some cb) u r now s =
    bindE (cb u (fst (seen u r)) (snd (seen u r)) now s)
      (\<lambda>(u', b, s'). Inr (u'\<lparr>tmpbuf := retrieveAll b\<rparr>, s'))"
proof (cases r)
  case Recv_Error
  have "kBufferSize \<le> writableBytes (tmpbuf u)"
    using u by (simp add: udp_inv_def writableBytes_def kPrependSize_def kBufferSize_def)
  with Recv_Error show ?thesis by (simp add: handleRead_def recvfrom_def seen_def Let_def)
next
  case (Recv d src)
  with assms show ?thesis by (simp add: handleRead_Recv seen_def)
qed

text \<open>The receive buffer as every handler finds it: at the start of a vector of known size.\<close>

definition msg_view :: "buffer \<Rightarrow> bool" where
  "msg_view b \<longleftrightarrow> readIndex b = kPrependSize \<and> length (store b) = kPrependSize + kBufferSize"

lemma seen_view:
  "udp_inv u \<Longrightarrow> (case r of Recv d src \<Rightarrow> length d \<le> kBufferSize | _ \<Rightarrow> True) \<Longrightarrow> msg_view (fst (seen u r))"
  using received_props [of u]
  by (cases r) (auto simp: seen_def msg_view_def udp_inv_def hasWritten_def)

lemma view_peek:
  assumes "msg_view b" and "off + n \<le> kBufferSize"
  shows "peek b off n = Inr (slice (kPrependSize + off) n (store b))"
  using assms by (simp add: peek_def mem_read_slice msg_view_def)

lemma view_peek_out:
  assumes "msg_view b" and "kBufferSize < off + n"
  shows "peek b off n = Inl Out_Of_Bounds"
  using assms by (simp add: peek_def mem_read_slice msg_view_def)

lemma received_peek:
  assumes "udp_inv u" and "length d \<le> kBufferSize" and "off + n \<le> length d"
  shows "peek (received u d) off n = Inr (slice off n d)"
proof -
  note p = received_props [OF assms(1,2)]
  show ?thesis using peek_contents [OF p(1), of off n] assms(3) p(2,5) by simp
qed

text \<open>After a callback the buffer's indices are reset, whatever was done to them.\<close>

lemma view_udp_inv: "msg_view b \<Longrightarrow> length (store b') = length (store b) \<Longrightarrow>
    udp_inv (v\<lparr>tmpbuf := retrieveAll b'\<rparr>)"
  by (simp add: udp_inv_def retrieveAll_def msg_view_def)

section \<open>Building messages\<close>

text \<open>
  The senders all work alike: an empty buffer, the header appended, then the body's parts.
\<close>

definition msg_buffer :: "u8 \<Rightarrow> MessageType \<Rightarrow> nat \<Rightarrow> bytes list \<Rightarrow> buffer outcome" where
  "msg_buffer sg t len parts =
     foldE (\<lambda>d b. append b d)
       (header_bytes \<lparr>sign = sg, mtype = type_code t, dataLenth = of_nat len\<rparr> # parts) new_Buffer"

lemma msg_buffer_big:
  assumes "length (concat parts) < 2 ^ 40"
  shows "\<exists>b. msg_buffer sg t len parts = Inr b \<and> buffer_inv b \<and>
    contents b = message sg t len (concat parts)"
  using sink.push_all [of new_Buffer
      "header_bytes \<lparr>sign = sg, mtype = type_code t, dataLenth = of_nat len\<rparr> # parts"] assms
  by (simp add: msg_buffer_def message_def sizeof_Header_def)

lemma msg_buffer_ok:
  "length (concat parts) < 2 ^ 32 \<Longrightarrow> \<exists>b. msg_buffer sg t len parts = Inr b \<and> buffer_inv b \<and>
    contents b = message sg t len (concat parts)"
  by (rule msg_buffer_big) simp

lemma send_msg_buffer:
  assumes "bound u" and "length (concat parts) < 2 ^ 32"
  shows "bindE (msg_buffer sg t len parts) (\<lambda>b. send u b target) =
    Inr (u\<lparr>sent := sent u @ [(message sg t len (concat parts), target)]\<rparr>)"
  using msg_buffer_ok [OF assms(2), of sg t len] send_ok [OF assms(1)] by auto

end
