(* ===== verification/Random_Code.thy ===== *)
theory Random_Code
  imports Prelude "HOL-Library.Multiset"
begin

text \<open>
  The share codes of the server (class \<open>RandomCode\<close>, \<open>server/DiretransServer.cpp\<close>): a
  shuffled vector of the numbers 100000 to 199999 that is dealt one by one and drawn again
  when it is used up. The random source is an argument: \<open>sh n xs\<close> is what the n-th call of
  \<open>std::shuffle\<close> makes of \<open>xs\<close>, and all that is assumed of it is that it permutes.
\<close>

section \<open>State and operations\<close>

type_synonym shuffle = "nat \<Rightarrow> u32 list \<Rightarrow> u32 list"

definition is_shuffle :: "shuffle \<Rightarrow> bool" where
  "is_shuffle sh \<longleftrightarrow> (\<forall>n xs. mset (sh n xs) = mset xs)"

definition kCodeNums :: nat where "kCodeNums = 1 * 100 * 1000"

record RandomCode =
  codes :: "u32 list"
  startIndex :: int
  endIndex :: int
  draws :: nat      \<comment> \<open>shuffles made so far\<close>

definition iota :: "nat \<Rightarrow> nat \<Rightarrow> u32 list" where
  "iota n v = map (\<lambda>i. of_nat (v + i)) [0..<n]"

definition genCodes :: "shuffle \<Rightarrow> RandomCode \<Rightarrow> RandomCode" where
  "genCodes sh rc =
     (let cs = sh (draws rc) (iota kCodeNums kCodeNums)
      in rc\<lparr>codes := cs, startIndex := 0, endIndex := int (length cs) - 1,
            draws := Suc (draws rc)\<rparr>)"

definition new_RandomCode :: "shuffle \<Rightarrow> RandomCode" where
  "new_RandomCode sh =
     genCodes sh \<lparr>codes = [], startIndex = 0, endIndex = 0, draws = 0\<rparr>"

definition getCode :: "shuffle \<Rightarrow> RandomCode \<Rightarrow> (u32 \<times> RandomCode) outcome" where
  "getCode sh rc =
     (let rc1 = (if endIndex rc \<le> startIndex rc then genCodes sh rc else rc) in
      if 0 \<le> startIndex rc1 \<and> startIndex rc1 < int (length (codes rc1))
      then Inr (codes rc1 ! nat (startIndex rc1), rc1\<lparr>startIndex := startIndex rc1 + 1\<rparr>)
      else Inl Out_Of_Bounds)"

text \<open>
  The loop of \<open>handleShareFile\<close> that draws until the code is free. It may not end, hence the
  option: \<open>None\<close> is a loop that never returns.
\<close>

partial_function (option) find_code ::
  "shuffle \<Rightarrow> (u32 \<rightharpoonup> 'v) \<Rightarrow> RandomCode \<Rightarrow> (u32 \<times> RandomCode) outcome option" where
  "find_code sh used rc =
     (case getCode sh rc of
        Inl e \<Rightarrow> Some (Inl e)
      | Inr (c, rc') \<Rightarrow> if used c = None then Some (Inr (c, rc')) else find_code sh used rc')"

section \<open>Invariant\<close>

definition code_range :: "u32 set" where
  "code_range = {c. kCodeNums \<le> unat c \<and> unat c < 2 * kCodeNums}"

definition rc_inv :: "RandomCode \<Rightarrow> bool" where
  "rc_inv rc \<longleftrightarrow>
     distinct (codes rc) \<and> set (codes rc) = code_range \<and> length (codes rc) = kCodeNums \<and>
     0 \<le> startIndex rc \<and> startIndex rc \<le> endIndex rc \<and> endIndex rc = int kCodeNums - 1"

lemma unat_code: "i < kCodeNums \<Longrightarrow> unat (of_nat (kCodeNums + i) :: u32) = kCodeNums + i"
  by (simp add: kCodeNums_def unat_of_nat del: of_nat_add)

lemma set_iota: "set (iota kCodeNums kCodeNums) = code_range"
proof (rule set_eqI, rule iffI)
  fix c assume "c \<in> set (iota kCodeNums kCodeNums)"
  then obtain i where "i < kCodeNums" "c = of_nat (kCodeNums + i)" by (auto simp: iota_def)
  then show "c \<in> code_range" by (simp add: code_range_def unat_code del: of_nat_add)
next
  fix c assume c: "c \<in> code_range"
  then have i: "unat c - kCodeNums \<in> set [0..<kCodeNums]" by (auto simp: code_range_def)
  have "kCodeNums + (unat c - kCodeNums) = unat c" using c by (simp add: code_range_def)
  then have "c = of_nat (kCodeNums + (unat c - kCodeNums))" by (simp del: of_nat_add)
  with i show "c \<in> set (iota kCodeNums kCodeNums)"
    unfolding iota_def set_map by (rule rev_image_eqI)
qed

lemma distinct_iota: "distinct (iota kCodeNums kCodeNums)"
proof -
  have "inj_on (\<lambda>i. of_nat (kCodeNums + i) :: u32) {0..<kCodeNums}"
    by (rule inj_onI) (metis add_left_cancel atLeastLessThan_iff unat_code)
  then show ?thesis by (simp add: iota_def distinct_map del: of_nat_add)
qed

lemma genCodes_inv:
  assumes "is_shuffle sh"
  shows "rc_inv (genCodes sh rc)"
proof -
  let ?cs = "sh (draws rc) (iota kCodeNums kCodeNums)"
  have m: "mset ?cs = mset (iota kCodeNums kCodeNums)"
    using assms by (simp add: is_shuffle_def)
  have "set ?cs = code_range" using mset_eq_setD [OF m] set_iota by simp
  moreover have "length ?cs = kCodeNums" using mset_eq_length [OF m] by (simp add: iota_def)
  moreover have "distinct ?cs" using mset_eq_imp_distinct_iff [OF m] distinct_iota by simp
  ultimately show ?thesis by (simp add: genCodes_def rc_inv_def Let_def kCodeNums_def)
qed

lemma new_RandomCode_inv: "is_shuffle sh \<Longrightarrow> rc_inv (new_RandomCode sh)"
  by (simp add: new_RandomCode_def genCodes_inv)

lemma genCodes_start [simp]: "startIndex (genCodes sh rc) = 0"
  by (simp add: genCodes_def Let_def)

lemma getCode_fresh:
  assumes "rc_inv rc" and "startIndex rc < endIndex rc"
  shows "getCode sh rc =
    Inr (codes rc ! nat (startIndex rc), rc\<lparr>startIndex := startIndex rc + 1\<rparr>)"
  using assms by (auto simp: getCode_def rc_inv_def Let_def)

lemma genCodes_room: "is_shuffle sh \<Longrightarrow> startIndex (genCodes sh rc) < endIndex (genCodes sh rc)"
  using genCodes_inv [of sh rc] by (simp add: rc_inv_def kCodeNums_def)

lemma getCode_redraw:
  assumes "is_shuffle sh" and "endIndex rc \<le> startIndex rc"
  shows "getCode sh rc = getCode sh (genCodes sh rc)"
  using assms genCodes_room [of sh rc] by (simp add: getCode_def Let_def)

lemma getCode_ok:
  assumes "is_shuffle sh" and "rc_inv rc"
  shows "\<exists>c rc'. getCode sh rc = Inr (c, rc') \<and> c \<in> code_range \<and> rc_inv rc'"
proof -
  have fresh: "\<exists>c rc'. getCode sh r = Inr (c, rc') \<and> c \<in> code_range \<and> rc_inv rc'"
    if "rc_inv r" "startIndex r < endIndex r" for r
  proof -
    have "codes r ! nat (startIndex r) \<in> code_range"
      using that by (auto simp: rc_inv_def intro!: nth_mem)
    then show ?thesis using that getCode_fresh [OF that] by (auto simp: rc_inv_def)
  qed
  show ?thesis
  proof (cases "startIndex rc < endIndex rc")
    case True
    then show ?thesis using fresh assms by blast
  next
    case False
    then show ?thesis
      using getCode_redraw [of sh rc] fresh [of "genCodes sh rc"] genCodes_inv genCodes_room assms
      by simp
  qed
qed

section \<open>The search ends exactly when a code is free\<close>

lemma find_code_unused:
  assumes "find_code sh used rc = Some (Inr (c, rc'))" and "is_shuffle sh" and "rc_inv rc"
  shows "used c = None \<and> c \<in> code_range \<and> rc_inv rc'"
proof -
  have "\<forall>c rc'. r = Inr (c, rc') \<longrightarrow> is_shuffle sh \<longrightarrow> rc_inv rc \<longrightarrow>
      used c = None \<and> c \<in> code_range \<and> rc_inv rc'"
    if "find_code sh used rc = Some r" for r :: "(u32 \<times> RandomCode) outcome" and rc
  proof (rule find_code.raw_induct [where P = "\<lambda>sh used rc r. \<forall>c rc'. r = Inr (c, rc') \<longrightarrow>
        is_shuffle sh \<longrightarrow> rc_inv rc \<longrightarrow> used c = None \<and> c \<in> code_range \<and> rc_inv rc'", OF _ that],
      intro allI impI)
    fix f :: "shuffle \<Rightarrow> (u32 \<rightharpoonup> 'a) \<Rightarrow> RandomCode \<Rightarrow> (u32 \<times> RandomCode) outcome option"
      and sh used rc r c rc'
    assume IH: "\<And>sh used rc r. f sh used rc = Some r \<Longrightarrow> \<forall>c rc'. r = Inr (c, rc') \<longrightarrow>
        is_shuffle sh \<longrightarrow> rc_inv rc \<longrightarrow> used c = None \<and> c \<in> code_range \<and> rc_inv rc'"
      and eq: "(case getCode sh rc of Inl e \<Rightarrow> Some (Inl e)
        | Inr (c, rc') \<Rightarrow> if used c = None then Some (Inr (c, rc')) else f sh used rc') = Some r"
      and r: "r = Inr (c, rc')" and sh: "is_shuffle sh" and inv: "rc_inv rc"
    obtain d rd where "getCode sh rc = Inr (d, rd)" "d \<in> code_range" "rc_inv rd"
      using getCode_ok [OF sh inv] by blast
    with eq r sh IH [of sh used rd r] show "used c = None \<and> c \<in> code_range \<and> rc_inv rc'"
      by (auto split: if_splits)
  qed
  with assms show ?thesis by blast
qed

lemma find_code_no_fault:
  assumes "find_code sh used rc = Some (Inl e)" and "is_shuffle sh" and "rc_inv rc"
  shows False
proof -
  have "\<forall>e. r = Inl e \<longrightarrow> is_shuffle sh \<longrightarrow> rc_inv rc \<longrightarrow> False"
    if "find_code sh used rc = Some r" for r :: "(u32 \<times> RandomCode) outcome" and rc
  proof (rule find_code.raw_induct [where P = "\<lambda>sh used rc r. \<forall>e. r = Inl e \<longrightarrow>
        is_shuffle sh \<longrightarrow> rc_inv rc \<longrightarrow> False", OF _ that], intro allI impI)
    fix f :: "shuffle \<Rightarrow> (u32 \<rightharpoonup> 'a) \<Rightarrow> RandomCode \<Rightarrow> (u32 \<times> RandomCode) outcome option"
      and sh used rc r e
    assume IH: "\<And>sh used rc r. f sh used rc = Some r \<Longrightarrow>
        \<forall>e. r = Inl e \<longrightarrow> is_shuffle sh \<longrightarrow> rc_inv rc \<longrightarrow> False"
      and eq: "(case getCode sh rc of Inl e \<Rightarrow> Some (Inl e)
        | Inr (c, rc') \<Rightarrow> if used c = None then Some (Inr (c, rc')) else f sh used rc') = Some r"
      and r: "r = Inl e" and sh: "is_shuffle sh" and inv: "rc_inv rc"
    obtain d rd where "getCode sh rc = Inr (d, rd)" "rc_inv rd"
      using getCode_ok [OF sh inv] by blast
    with eq r sh IH [of sh used rd r] show False by (auto split: if_splits)
  qed
  with assms show ?thesis by blast
qed

lemma find_code_this_draw:
  assumes "rc_inv rc" and "startIndex rc = int i" and "i \<le> j" and "int j < endIndex rc"
    and "used (codes rc ! j) = None"
  shows "\<exists>r. find_code sh used rc = Some r"
  using assms
proof (induction "j - i" arbitrary: i rc)
  case 0
  then have "getCode sh rc = Inr (codes rc ! j, rc\<lparr>startIndex := startIndex rc + 1\<rparr>)"
    using getCode_fresh [of rc sh] by simp
  with "0.prems"(5) show ?case by (simp add: find_code.simps [of sh used rc])
next
  case (Suc n)
  let ?rc = "rc\<lparr>startIndex := startIndex rc + 1\<rparr>"
  have g: "getCode sh rc = Inr (codes rc ! i, ?rc)"
    using Suc getCode_fresh [of rc sh] by simp
  have "\<exists>r. find_code sh used ?rc = Some r"
    using Suc by (intro Suc.hyps(1) [of "Suc i"]) (auto simp: rc_inv_def)
  with g show ?case by (auto simp: find_code.simps [of sh used rc])
qed

lemma draw_has_unused:
  assumes "rc_inv rc" and "finite (dom used)" and "card (dom used) < kCodeNums - 1"
  shows "\<exists>j. int j < endIndex rc \<and> used (codes rc ! j) = None"
proof (rule ccontr)
  assume no: "\<not> ?thesis"
  let ?cs = "take (kCodeNums - 1) (codes rc)"
  have "set ?cs \<subseteq> dom used"
  proof
    fix c assume "c \<in> set ?cs"
    then obtain j where "j < kCodeNums - 1" "codes rc ! j = c"
      by (auto simp: in_set_conv_nth)
    with no assms(1) show "c \<in> dom used" by (auto simp: rc_inv_def)
  qed
  then have "card (set ?cs) \<le> card (dom used)" using assms(2) by (simp add: card_mono)
  moreover have "card (set ?cs) = kCodeNums - 1"
    using assms(1) by (subst distinct_card) (auto simp: rc_inv_def)
  ultimately show False using assms(3) by simp
qed

lemma find_code_redraw:
  assumes "is_shuffle sh" and "endIndex rc \<le> startIndex rc"
  shows "find_code sh used rc = find_code sh used (genCodes sh rc)"
  using getCode_redraw [OF assms]
  by (simp add: find_code.simps [of sh used rc] find_code.simps [of sh used "genCodes sh rc"])

lemma find_code_fresh_draw:
  assumes "is_shuffle sh" and "finite (dom used)" and "card (dom used) < kCodeNums - 1"
  shows "\<exists>r. find_code sh used (genCodes sh rc) = Some r"
proof -
  have inv: "rc_inv (genCodes sh rc)" using assms(1) by (rule genCodes_inv)
  from draw_has_unused [OF inv assms(2,3)] obtain j where
    "int j < endIndex (genCodes sh rc)" "used (codes (genCodes sh rc) ! j) = None" by blast
  then show ?thesis using find_code_this_draw [OF inv, of 0 j] by simp
qed

lemma find_code_returns:
  assumes sh: "is_shuffle sh" and inv: "rc_inv rc"
    and fin: "finite (dom used)" and few: "card (dom used) < kCodeNums - 1"
  shows "\<exists>r. find_code sh used rc = Some r"
proof -
  have "\<exists>r. find_code sh used rc = Some r"
    if "rc_inv rc" "nat (endIndex rc - startIndex rc) = n" for n rc
    using that
  proof (induction n arbitrary: rc)
    case 0
    then show ?case
      using find_code_redraw [OF sh, of rc used] find_code_fresh_draw [OF sh fin few, of rc]
      by simp
  next
    case (Suc n)
    let ?rc = "rc\<lparr>startIndex := startIndex rc + 1\<rparr>"
    have "getCode sh rc = Inr (codes rc ! nat (startIndex rc), ?rc)"
      using Suc.prems by (intro getCode_fresh) simp_all
    moreover have "\<exists>r. find_code sh used ?rc = Some r"
      using Suc.prems by (intro Suc.IH) (auto simp: rc_inv_def)
    ultimately show ?case by (auto simp: find_code.simps [of sh used rc])
  qed
  with inv show ?thesis by blast
qed

lemma find_code_result:
  assumes "is_shuffle sh" and "rc_inv rc" and "finite (dom used)"
    and "card (dom used) < kCodeNums - 1"
  shows "\<exists>c rc'. find_code sh used rc = Some (Inr (c, rc')) \<and> used c = None \<and>
    c \<in> code_range \<and> rc_inv rc'"
proof -
  obtain r where r: "find_code sh used rc = Some r"
    using find_code_returns [OF assms] by blast
  show ?thesis
  proof (cases r)
    case (Inl e)
    with r show ?thesis using find_code_no_fault assms(1,2) by blast
  next
    case (Inr p)
    with r show ?thesis using find_code_unused assms(1,2) by (cases p) blast
  qed
qed

lemma find_code_diverges:
  assumes "is_shuffle sh" and "rc_inv rc" and "code_range \<subseteq> dom used"
  shows "find_code sh used rc = None"
proof (cases "find_code sh used rc")
  case (Some r)
  show ?thesis
  proof (cases r)
    case (Inl e)
    with Some show ?thesis using find_code_no_fault assms(1,2) by blast
  next
    case (Inr p)
    with Some obtain c rc' where "find_code sh used rc = Some (Inr (c, rc'))" by (cases p) auto
    then show ?thesis using find_code_unused [of sh used rc] assms by auto
  qed
qed

end
