(* ===== verification/CRC32.thy ===== *)
theory CRC32
  imports Prelude
begin

text \<open>
  \<open>utils/CRC32.cpp\<close>: the table-driven CRC-32 that sender and receiver compare. The table is
  a static array that is filled on first use; the checksum of a file reads it in blocks of
  1024 bytes. The reference is the shift register that consumes the message bit by bit.
\<close>

unbundle bit_operations_syntax

section \<open>The code\<close>

record crc_state =
  crcTable :: "u32 list"
  isInit :: bool

definition crc_poly :: u32 where "crc_poly = 0xEDB88320"

text \<open>The body of the inner loop, run eight times on each index.\<close>

definition crc_bit :: "u32 \<Rightarrow> u32" where
  "crc_bit crc = (if crc AND 1 \<noteq> 0 then drop_bit 1 crc XOR 0xEDB88320 else drop_bit 1 crc)"

definition generateCRCTable :: "crc_state \<Rightarrow> crc_state" where
  "generateCRCTable st =
     st\<lparr>crcTable := map (\<lambda>i. (crc_bit ^^ 8) (of_nat i)) [0..<256], isInit := True\<rparr>"

definition ensure_init :: "crc_state \<Rightarrow> crc_state" where
  "ensure_init st = (if \<not> isInit st then generateCRCTable st else st)"

definition crc_step :: "u32 list \<Rightarrow> u8 \<Rightarrow> u32 \<Rightarrow> u32" where
  "crc_step tab byte crc = drop_bit 8 crc XOR tab ! unat ((crc XOR ucast byte) AND 0xFF)"

definition calculateCRC32 :: "crc_state \<Rightarrow> bytes \<Rightarrow> u32 \<times> crc_state" where
  "calculateCRC32 st data =
     (let st1 = ensure_init st;
          crc = fold (crc_step (crcTable st1)) data 0xFFFFFFFF
      in (crc XOR 0xFFFFFFFF, st1))"

text \<open>
  \<open>while (file.read(buffer, 1024))\<close> succeeds on full blocks only; the bytes of the last,
  short read are handled after the loop.
\<close>

function read_blocks :: "u32 list \<Rightarrow> bytes \<Rightarrow> u32 \<Rightarrow> u32" where
  "read_blocks tab rest crc =
     (if 1024 \<le> length rest
      then read_blocks tab (drop 1024 rest) (fold (crc_step tab) (take 1024 rest) crc)
      else if 0 < length rest then fold (crc_step tab) rest crc
      else crc)"
  by pat_completeness auto
termination
  by (relation "measure (\<lambda>(tab, rest, crc). length rest)") auto

declare read_blocks.simps [simp del]

text \<open>\<open>None\<close> is a file that cannot be opened.\<close>

definition calculateFileCRC32 :: "crc_state \<Rightarrow> bytes option \<Rightarrow> u32 \<times> crc_state" where
  "calculateFileCRC32 st file =
     (let st1 = ensure_init st in
      case file of
        None \<Rightarrow> (0, st1)
      | Some content \<Rightarrow>
          (read_blocks (crcTable st1) content 0xFFFFFFFF XOR 0xFFFFFFFF, st1))"

section \<open>The table\<close>

text \<open>The static variables are consistent: once initialised, the table is the right one.\<close>

definition crc_table :: "u32 list" where
  "crc_table = map (\<lambda>i. (crc_bit ^^ 8) (of_nat i)) [0..<256]"

definition crc_ok :: "crc_state \<Rightarrow> bool" where
  "crc_ok st \<longleftrightarrow> (isInit st \<longrightarrow> crcTable st = crc_table)"

definition crc_init :: crc_state where
  "crc_init = \<lparr>crcTable = replicate 256 0, isInit = False\<rparr>"

lemma crc_init_ok [simp]: "crc_ok crc_init"
  by (simp add: crc_ok_def crc_init_def)

lemma ensure_init_table [simp]: "crc_ok st \<Longrightarrow> crcTable (ensure_init st) = crc_table"
  by (simp add: ensure_init_def generateCRCTable_def crc_table_def crc_ok_def)

lemma ensure_init_ok: "crc_ok st \<Longrightarrow> crc_ok (ensure_init st) \<and> isInit (ensure_init st)"
  by (auto simp: ensure_init_def generateCRCTable_def crc_table_def crc_ok_def)

section \<open>The shift register is linear and loses nothing\<close>

named_theorems crc_simps \<open>facts about the shift register\<close>

lemma xor_cancel [crc_simps]: "a XOR c = b XOR c \<longleftrightarrow> a = (b :: u32)"
proof
  assume "a XOR c = b XOR c"
  then have "(a XOR c) XOR c = (b XOR c) XOR c" by simp
  then show "a = b" by (simp add: xor.assoc)
qed simp

lemma xor_split: "x = (x AND NOT m) XOR (x AND m)" for x m :: u32
  by (rule bit_word_eqI) (auto simp: bit_xor_iff bit_and_iff bit_not_iff)

lemma and_one_bit: "x AND 1 \<noteq> 0 \<longleftrightarrow> bit (x :: u32) 0"
  by (simp add: and_one_eq odd_iff_mod_2_eq_one bit_0)

lemma crc_bit_alt: "crc_bit x = drop_bit 1 x XOR (if bit x 0 then crc_poly else 0)"
  by (simp add: crc_bit_def and_one_bit crc_poly_def)

lemma crc_bit_xor [crc_simps]: "crc_bit (x XOR y) = crc_bit x XOR crc_bit y"
  by (auto simp: crc_bit_alt drop_bit_xor bit_xor_iff ac_simps xor.left_commute)

lemma crc_pow_xor [crc_simps]: "(crc_bit ^^ n) (x XOR y) = (crc_bit ^^ n) x XOR (crc_bit ^^ n) y"
  by (induction n) (simp_all add: crc_bit_xor)

lemma crc_pow_low_zero: "(\<And>i. i < n \<Longrightarrow> \<not> bit x i) \<Longrightarrow> (crc_bit ^^ n) x = drop_bit n x"
proof (induction n)
  case 0
  then show ?case by simp
next
  case (Suc n)
  then have "(crc_bit ^^ n) x = drop_bit n x" by simp
  moreover have "\<not> bit (drop_bit n x) 0" using Suc.prems by (simp add: bit_drop_bit_eq)
  ultimately show ?case by (simp add: crc_bit_alt [of "drop_bit n x"])
qed

lemma crc_step_pow [crc_simps]: "crc_step crc_table b crc = (crc_bit ^^ 8) (crc XOR ucast b)"
proof -
  let ?x = "crc XOR ucast b"
  let ?lo = "?x AND 0xFF" and ?hi = "?x AND NOT 0xFF"
  have split: "?x = ?hi XOR ?lo"
    by (rule xor_split)
  have mask: "(0xFF :: u32) = mask 8" by (simp add: mask_eq_exp_minus_1)
  have hi: "(crc_bit ^^ 8) ?hi = drop_bit 8 ?hi"
    by (rule crc_pow_low_zero) (simp add: bit_and_iff bit_not_iff mask bit_mask_iff)
  have "drop_bit 8 ?hi = drop_bit 8 crc"
    by (rule bit_eqI)
       (auto simp: bit_drop_bit_eq bit_and_iff bit_not_iff bit_xor_iff mask bit_mask_iff
         bit_ucast_iff dest: bit_imp_le_length)
  moreover have "crc_table ! unat ?lo = (crc_bit ^^ 8) ?lo"
  proof -
    have "?lo \<le> 0xFF" by (rule word_and_le1)
    then have "unat ?lo < 256" by (simp add: word_le_nat_alt)
    then show ?thesis by (simp add: crc_table_def)
  qed
  ultimately show ?thesis
    using hi crc_pow_xor [of 8 ?hi ?lo] unfolding split [symmetric] crc_step_def by simp
qed

lemma crc_bit_inject [crc_simps]: "crc_bit x = crc_bit y \<longleftrightarrow> x = y"
proof
  assume eq: "crc_bit x = crc_bit y"
  have top: "bit (crc_bit z) 31 \<longleftrightarrow> bit z 0" for z
    by (auto simp: crc_bit_alt bit_xor_iff bit_drop_bit_eq crc_poly_def dest: bit_imp_le_length)
  from eq have b0: "bit x 0 \<longleftrightarrow> bit y 0" using top by metis
  with eq have d: "drop_bit 1 x = drop_bit 1 y" by (simp add: crc_bit_alt xor_cancel split: if_splits)
  show "x = y"
  proof (rule bit_word_eqI)
    fix n assume "n < LENGTH(32)"
    show "bit x n = bit y n"
    proof (cases n)
      case 0
      with b0 show ?thesis by simp
    next
      case (Suc m)
      have "bit (drop_bit 1 x) m = bit (drop_bit 1 y) m" using d by simp
      with Suc show ?thesis by (simp add: bit_drop_bit_eq)
    qed
  qed
qed simp

lemma crc_pow_inject [crc_simps]: "(crc_bit ^^ n) x = (crc_bit ^^ n) y \<longleftrightarrow> x = y"
  by (induction n) (simp_all add: crc_bit_inject)

lemma crc_step_inject: "crc_step crc_table b x = crc_step crc_table b y \<longleftrightarrow> x = y"
  by (simp add: crc_step_pow crc_pow_inject xor_cancel)

lemma crc_fold_inject:
  "fold (crc_step crc_table) bs x = fold (crc_step crc_table) bs y \<longleftrightarrow> x = y"
  by (induction bs arbitrary: x y) (simp_all add: crc_step_inject)

section \<open>The reference: one bit at a time\<close>

definition lfsr :: "bool \<Rightarrow> u32 \<Rightarrow> u32" where
  "lfsr b crc = (let r = drop_bit 1 crc in if bit crc 0 \<noteq> b then r XOR crc_poly else r)"

definition byte_bits :: "u8 \<Rightarrow> bool list" where
  "byte_bits b = map (bit b) [0..<8]"

definition crc32_ref :: "bytes \<Rightarrow> u32" where
  "crc32_ref data = fold lfsr (concat (map byte_bits data)) 0xFFFFFFFF XOR 0xFFFFFFFF"

lemma lfsr_crc_bit: "lfsr b crc = crc_bit (crc XOR of_bool b)"
  by (auto simp: lfsr_def crc_bit_alt Let_def drop_bit_xor bit_xor_iff)

lemma lfsr_fold:
  fixes w :: u32
  assumes "n \<le> 32"
  shows "fold lfsr (map (bit w) [0..<n]) crc = (crc_bit ^^ n) (crc XOR take_bit n w)"
  using assms
proof (induction n)
  case 0
  then show ?case by simp
next
  case (Suc n)
  let ?b = "push_bit n (of_bool (bit w n)) :: u32"
  have "(crc_bit ^^ n) ?b = drop_bit n ?b"
    by (rule crc_pow_low_zero) (simp add: bit_push_bit_iff)
  also have "\<dots> = of_bool (bit w n)"
    using Suc.prems by (auto intro!: bit_word_eqI simp: bit_simps)
  finally have last: "(crc_bit ^^ n) ?b = of_bool (bit w n)" .
  have "take_bit (Suc n) w = take_bit n w XOR ?b"
    by (rule bit_word_eqI)
       (auto simp: bit_take_bit_iff bit_xor_iff bit_push_bit_iff bit_1_iff less_Suc_eq)
  then have "(crc_bit ^^ Suc n) (crc XOR take_bit (Suc n) w) =
      crc_bit ((crc_bit ^^ n) (crc XOR take_bit n w) XOR of_bool (bit w n))"
    by (simp add: crc_pow_xor last xor.assoc)
  with Suc show ?case by (simp add: lfsr_crc_bit)
qed

lemma crc_step_ref: "crc_step crc_table b crc = fold lfsr (byte_bits b) crc"
proof -
  have "take_bit 8 (ucast b) = (ucast b :: u32)"
    by (rule bit_word_eqI) (auto simp: bit_take_bit_iff bit_ucast_iff dest: bit_imp_le_length)
  moreover have "map (bit (ucast b :: u32)) [0..<8] = byte_bits b"
    by (simp add: byte_bits_def bit_ucast_iff)
  ultimately show ?thesis using lfsr_fold [of 8 "ucast b" crc] by (simp add: crc_step_pow)
qed

lemma crc_fold_ref:
  "fold (crc_step crc_table) data crc = fold lfsr (concat (map byte_bits data)) crc"
  by (induction data arbitrary: crc) (simp_all add: crc_step_ref)

lemma calculateCRC32_ref:
  "crc_ok st \<Longrightarrow> fst (calculateCRC32 st data) = crc32_ref data"
  by (simp add: calculateCRC32_def crc32_ref_def crc_fold_ref Let_def)

section \<open>Files\<close>

lemma read_blocks_fold: "read_blocks tab rest crc = fold (crc_step tab) rest crc"
proof (induction tab rest crc rule: read_blocks.induct)
  case (1 tab rest crc)
  show ?case
  proof (cases "1024 \<le> length rest")
    case True
    then have "read_blocks tab rest crc =
        fold (crc_step tab) (drop 1024 rest) (fold (crc_step tab) (take 1024 rest) crc)"
      using 1 by (simp add: read_blocks.simps [of tab rest crc])
    also have "\<dots> = fold (crc_step tab) (take 1024 rest @ drop 1024 rest) crc"
      by (simp only: fold_append comp_apply)
    finally show ?thesis by simp
  next
    case False
    then show ?thesis by (auto simp: read_blocks.simps [of tab rest crc])
  qed
qed

lemma calculateFileCRC32_eq:
  "calculateFileCRC32 st (Some content) = calculateCRC32 st content"
  by (simp add: calculateFileCRC32_def calculateCRC32_def read_blocks_fold Let_def)

section \<open>Error detection\<close>

lemma nat_le_xor:
  "(of_nat (nat_le (b # bs)) :: u32) = ucast b XOR push_bit 8 (of_nat (nat_le bs))"
proof -
  have "ucast b AND push_bit 8 (of_nat (nat_le bs)) = (0 :: u32)"
    by (rule bit_word_eqI)
       (auto simp: bit_and_iff bit_push_bit_iff bit_ucast_iff dest: bit_imp_le_length)
  then have "ucast b XOR push_bit 8 (of_nat (nat_le bs)) =
      ucast b + push_bit 8 (of_nat (nat_le bs) :: u32)"
    by (simp add: disjunctive_add_eq_xor)
  then show ?thesis by (simp add: push_bit_eq_mult)
qed

lemma crc_pow_push:
  assumes "m < 2 ^ 24"
  shows "(crc_bit ^^ 8) (push_bit 8 (of_nat m)) = of_nat m"
proof -
  have "(crc_bit ^^ 8) (push_bit 8 (of_nat m)) = drop_bit 8 (push_bit 8 (of_nat m))"
    by (rule crc_pow_low_zero) (simp add: bit_push_bit_iff)
  also have "\<dots> = (of_nat m :: u32)"
  proof (rule bit_word_eqI)
    fix i assume "i < LENGTH(32)"
    have "take_bit 24 m = m" using assms by (simp add: take_bit_nat_eq_self)
    then have "bit m i \<Longrightarrow> i < 24" by (metis bit_take_bit_iff)
    then show "bit (drop_bit 8 (push_bit 8 (of_nat m :: u32))) i = bit (of_nat m :: u32) i"
      by (auto simp: bit_simps)
  qed
  finally show ?thesis .
qed

lemma crc_fold_burst:
  "length bs \<le> 4 \<Longrightarrow> fold (crc_step crc_table) bs s =
     (crc_bit ^^ (8 * length bs)) (s XOR of_nat (nat_le bs))"
proof (induction bs arbitrary: s)
  case Nil
  then show ?case by simp
next
  case (Cons b bs)
  have "nat_le bs < 256 ^ length bs" by (rule nat_le_bound)
  also have "(256 :: nat) ^ length bs \<le> 256 ^ 3" using Cons.prems by (intro power_increasing) auto
  finally have w: "(crc_bit ^^ 8) (push_bit 8 (of_nat (nat_le bs))) = of_nat (nat_le bs)"
    by (intro crc_pow_push) simp
  have "fold (crc_step crc_table) (b # bs) s =
      (crc_bit ^^ (8 * length bs)) ((crc_bit ^^ 8) (s XOR ucast b) XOR of_nat (nat_le bs))"
    using Cons.IH [of "crc_step crc_table b s"] Cons.prems crc_step_pow [of b s] by simp
  also have "(crc_bit ^^ 8) (s XOR ucast b) XOR of_nat (nat_le bs) =
      (crc_bit ^^ 8) (s XOR of_nat (nat_le (b # bs)))"
    unfolding nat_le_xor using w by (simp add: crc_pow_xor xor.assoc)
  also have "(crc_bit ^^ (8 * length bs)) ((crc_bit ^^ 8) (s XOR of_nat (nat_le (b # bs)))) =
      (crc_bit ^^ (8 * length bs + 8)) (s XOR of_nat (nat_le (b # bs)))"
    by (simp only: funpow_add comp_apply)
  finally show ?case by (simp add: add.commute)
qed

lemma crc_burst_differs:
  assumes len: "length xs = length ys" "length xs \<le> 4" and ne: "xs \<noteq> ys" and st: "crc_ok st"
  shows "fst (calculateCRC32 st (pre @ xs @ post)) \<noteq> fst (calculateCRC32 st (pre @ ys @ post))"
proof
  assume "fst (calculateCRC32 st (pre @ xs @ post)) = fst (calculateCRC32 st (pre @ ys @ post))"
  then have "fold (crc_step crc_table) xs (fold (crc_step crc_table) pre 0xFFFFFFFF) =
      fold (crc_step crc_table) ys (fold (crc_step crc_table) pre 0xFFFFFFFF)"
    using st by (simp add: calculateCRC32_def Let_def xor_cancel crc_fold_inject)
  then have "(of_nat (nat_le xs) :: u32) = of_nat (nat_le ys)"
    using len by (simp add: crc_fold_burst crc_pow_inject)
      (metis xor.commute xor_cancel)
  moreover have "nat_le zs < 2 ^ 32" if "length zs \<le> 4" for zs
  proof -
    have "(256 :: nat) ^ length zs \<le> 256 ^ 4" using that by (intro power_increasing) auto
    with nat_le_bound [of zs] show ?thesis by simp
  qed
  ultimately have "unat (of_nat (nat_le xs) :: u32) = unat (of_nat (nat_le ys) :: u32)"
    "nat_le xs < 2 ^ 32" "nat_le ys < 2 ^ 32" using len by simp_all
  then have "nat_le xs = nat_le ys" by (simp add: unat_of_nat)
  with len(1) ne show False using nat_le_inject by blast
qed

end
