(* ===== verification/Timer_Queue.thy ===== *)
theory Timer_Queue
  imports Timestamp Std_Map "HOL-Library.Multiset"
begin

text \<open>
  \<open>netlib/Timer.h\<close>, \<open>TimerId.h\<close> and \<open>TimerQueue.cpp\<close>: timers kept in a set that is ordered by
  expiration time alone. The set holds weak pointers; a timer object lives as long as its
  \<open>TimerId\<close> does, so the model keeps a heap of timer objects, and an address without an
  object is a weak pointer that no longer locks. A callback is data of the timer (type
  \<open>'c\<close>), and running it is an argument of \<open>handleRead\<close> that may use the queue. What
  \<open>Timestamp::now()\<close> returns is an argument.
\<close>

section \<open>Timers\<close>

record 'c timer =
  cb :: 'c
  expiration :: timestamp
  interval :: int        \<comment> \<open>whole seconds\<close>
  repeat :: bool

definition new_Timer :: "'c \<Rightarrow> timestamp \<Rightarrow> int \<Rightarrow> 'c timer" where
  "new_Timer c when i = \<lparr>cb = c, expiration = when, interval = i, repeat = (0 < i)\<rparr>"

definition restart :: "'c timer \<Rightarrow> timestamp \<Rightarrow> 'c timer" where
  "restart t now =
     (if repeat t then t\<lparr>expiration := addTime now (interval t)\<rparr> else t\<lparr>expiration := invalid\<rparr>)"

section \<open>The queue\<close>

record 'c timer_queue =
  heap :: "nat \<rightharpoonup> 'c timer"
  fresh :: nat
  timers :: "(timestamp \<times> nat) list"
  armed :: "(int \<times> int) option"     \<comment> \<open>last setting of the timer descriptor\<close>

definition new_TimerQueue :: "int \<Rightarrow> 'c timer_queue outcome" where
  "new_TimerQueue timerfd =
     (if timerfd < 0 then Inl Abort
      else Inr \<lparr>heap = Map.empty, fresh = 0, timers = [], armed = None\<rparr>)"

definition howMuchTimeFromNow :: "timestamp \<Rightarrow> timestamp \<Rightarrow> int \<times> int" where
  "howMuchTimeFromNow when now =
     (let microseconds = when - now;
          microseconds = (if microseconds < 100 then 100 else microseconds)
      in (microseconds div kMicroSecondsPerSecond,
          (microseconds mod kMicroSecondsPerSecond) * 1000))"

definition resetTimerfd :: "'c timer_queue \<Rightarrow> timestamp \<Rightarrow> timestamp \<Rightarrow> 'c timer_queue" where
  "resetTimerfd q expire now = q\<lparr>armed := Some (howMuchTimeFromNow expire now)\<rparr>"

text \<open>The object behind an address the caller holds a \<open>shared_ptr\<close> to.\<close>

definition insert_timer :: "'c timer_queue \<Rightarrow> nat \<Rightarrow> (bool \<times> 'c timer_queue) outcome" where
  "insert_timer q p =
     (case heap q p of
        None \<Rightarrow> Inl Null_Deref
      | Some t \<Rightarrow>
          let when = expiration t;
              earliestChanged = (case timers q of [] \<Rightarrow> True | (k, _) # _ \<Rightarrow> when < k)
          in require (om_find when (timers q) = None)
               (Inr (earliestChanged, q\<lparr>timers := om_put when p (timers q)\<rparr>)))"

definition addTimerInLoop :: "'c timer_queue \<Rightarrow> nat \<Rightarrow> timestamp \<Rightarrow> 'c timer_queue outcome" where
  "addTimerInLoop q p now =
     bindE (insert_timer q p) (\<lambda>(earliestChanged, q).
       Inr (if earliestChanged
            then (case heap q p of None \<Rightarrow> q | Some t \<Rightarrow> resetTimerfd q (expiration t) now)
            else q))"

text \<open>Called in the loop's thread, \<open>addTimer\<close> inserts at once; the result is the \<open>TimerId\<close>.\<close>

definition addTimer ::
  "'c timer_queue \<Rightarrow> 'c \<Rightarrow> timestamp \<Rightarrow> int \<Rightarrow> timestamp \<Rightarrow> (nat \<times> 'c timer_queue) outcome" where
  "addTimer q c when i now =
     (let p = fresh q;
          q1 = q\<lparr>heap := (heap q)(p \<mapsto> new_Timer c when i), fresh := Suc p\<rparr>
      in bindE (addTimerInLoop q1 p now) (\<lambda>q2. Inr (p, q2)))"

text \<open>The operations of \<open>EventLoop\<close> on its queue: \<open>t\<close> is the time they read first, \<open>now\<close> the later one.\<close>

definition runAt :: "'c timer_queue \<Rightarrow> timestamp \<Rightarrow> 'c \<Rightarrow> timestamp \<Rightarrow> (nat \<times> 'c timer_queue) outcome" where
  "runAt q time c now = addTimer q c time 0 now"

definition runAfter ::
  "'c timer_queue \<Rightarrow> int \<Rightarrow> 'c \<Rightarrow> timestamp \<Rightarrow> timestamp \<Rightarrow> (nat \<times> 'c timer_queue) outcome" where
  "runAfter q delaySec c t now = runAt q (addTime t delaySec) c now"

definition runEvery ::
  "'c timer_queue \<Rightarrow> int \<Rightarrow> 'c \<Rightarrow> timestamp \<Rightarrow> timestamp \<Rightarrow> (nat \<times> 'c timer_queue) outcome" where
  "runEvery q intervalSec c t now = addTimer q c (addTime t intervalSec) intervalSec now"

definition cancel :: "'c timer_queue \<Rightarrow> nat \<Rightarrow> 'c timer_queue" where
  "cancel q p = q\<lparr>heap := (heap q)(p := None)\<rparr>"

definition getExpired ::
  "'c timer_queue \<Rightarrow> timestamp \<Rightarrow> ((timestamp \<times> nat) list \<times> 'c timer_queue) outcome" where
  "getExpired q now =
     (let before = takeWhile (\<lambda>e. fst e < now) (timers q);
          from_it = dropWhile (\<lambda>e. fst e < now) (timers q)
      in require (case from_it of [] \<Rightarrow> True | (k, _) # _ \<Rightarrow> now < k)
           (Inr (before, q\<lparr>timers := from_it\<rparr>)))"

text \<open>The loop over the expired entries: run the live ones, drop the others.\<close>

fun run_expired ::
  "('c \<Rightarrow> 'c timer_queue \<times> 's \<Rightarrow> ('c timer_queue \<times> 's) outcome) \<Rightarrow> (timestamp \<times> nat) list \<Rightarrow>
     'c timer_queue \<times> 's \<Rightarrow> ((timestamp \<times> nat) list \<times> 'c timer_queue \<times> 's) outcome" where
  "run_expired run [] st = Inr ([], st)"
| "run_expired run ((k, p) # es) st =
     (case heap (fst st) p of
        None \<Rightarrow> run_expired run es st
      | Some t \<Rightarrow>
          bindE (run (cb t) st) (\<lambda>st1.
          bindE (run_expired run es st1) (\<lambda>(kept, st2). Inr ((k, p) # kept, st2))))"

fun reinsert :: "timestamp \<Rightarrow> (timestamp \<times> nat) list \<Rightarrow> 'c timer_queue \<Rightarrow> 'c timer_queue outcome" where
  "reinsert now [] q = Inr q"
| "reinsert now ((k, p) # es) q =
     (case heap q p of
        None \<Rightarrow> reinsert now es q
      | Some t \<Rightarrow>
          if repeat t
          then bindE (insert_timer (q\<lparr>heap := (heap q)(p \<mapsto> restart t now)\<rparr>) p) (\<lambda>(_, q1).
                 reinsert now es q1)
          else reinsert now es q)"

text \<open>The loop that removes dead entries from the front and finds the next expiration.\<close>

fun next_expire ::
  "(nat \<rightharpoonup> 'c timer) \<Rightarrow> (timestamp \<times> nat) list \<Rightarrow> timestamp \<times> (timestamp \<times> nat) list" where
  "next_expire h [] = (invalid, [])"
| "next_expire h ((k, p) # es) =
     (case h p of Some t \<Rightarrow> (expiration t, (k, p) # es) | None \<Rightarrow> next_expire h es)"

definition reset ::
  "'c timer_queue \<Rightarrow> (timestamp \<times> nat) list \<Rightarrow> timestamp \<Rightarrow> timestamp \<Rightarrow> 'c timer_queue outcome" where
  "reset q expired now now' =
     bindE (reinsert now expired q) (\<lambda>q1.
       let (nextExpire, es) = next_expire (heap q1) (timers q1);
           q2 = q1\<lparr>timers := es\<rparr>
       in Inr (if valid nextExpire then resetTimerfd q2 nextExpire now' else q2))"

definition handleRead ::
  "('c \<Rightarrow> 'c timer_queue \<times> 's \<Rightarrow> ('c timer_queue \<times> 's) outcome) \<Rightarrow> timestamp \<Rightarrow> timestamp \<Rightarrow>
     'c timer_queue \<times> 's \<Rightarrow> ('c timer_queue \<times> 's) outcome" where
  "handleRead run now now' st =
     bindE (getExpired (fst st) now) (\<lambda>(expired, q).
     bindE (run_expired run expired (q, snd st)) (\<lambda>(kept, q1, s).
     bindE (reset q1 kept now now') (\<lambda>q2. Inr (q2, s))))"

section \<open>Invariant\<close>

text \<open>
  Entries are ordered by time, no timer is entered twice, a live timer is entered under its
  own expiration, and addresses not yet given out have no object.
\<close>

definition entered :: "'c timer_queue \<Rightarrow> nat set" where
  "entered q = snd ` set (timers q)"

definition entry_ok :: "'c timer_queue \<Rightarrow> timestamp \<times> nat \<Rightarrow> bool" where
  "entry_ok q e \<longleftrightarrow> snd e < fresh q \<and>
     (\<forall>t. heap q (snd e) = Some t \<longrightarrow> expiration t = fst e)"

definition heap_ok :: "'c timer_queue \<Rightarrow> bool" where
  "heap_ok q \<longleftrightarrow> (\<forall>p. fresh q \<le> p \<longrightarrow> heap q p = None)"

definition tq_inv :: "'c timer_queue \<Rightarrow> bool" where
  "tq_inv q \<longleftrightarrow> om_inv (timers q) \<and> distinct (map snd (timers q)) \<and>
     (\<forall>e \<in> set (timers q). entry_ok q e) \<and> heap_ok q"

text \<open>What a callback can do to the queue: nothing an old timer would notice but its end.\<close>

definition evolves :: "'c timer_queue \<Rightarrow> 'c timer_queue \<Rightarrow> bool" where
  "evolves q q' \<longleftrightarrow> tq_inv q' \<and> fresh q \<le> fresh q' \<and>
     (\<forall>p < fresh q. (heap q' p = heap q p \<or> heap q' p = None) \<and> (p \<in> entered q' \<longrightarrow> p \<in> entered q))"

lemma evolves_refl: "tq_inv q \<Longrightarrow> evolves q q"
  by (simp add: evolves_def)

lemma evolves_old:
  assumes "evolves q q'" and "p < fresh q"
  shows "heap q' p = heap q p \<or> heap q' p = None" and "p \<in> entered q' \<Longrightarrow> p \<in> entered q"
    and "p < fresh q'"
  using assms by (auto simp: evolves_def)

lemma evolves_trans: "evolves q r \<Longrightarrow> evolves r s \<Longrightarrow> evolves q s"
  unfolding evolves_def [of q s]
proof (intro conjI allI impI)
  fix p
  assume e: "evolves q r" "evolves r s" and p: "p < fresh q"
  note o = evolves_old [OF e(1) p]
  note o' = evolves_old [OF e(2) o(3)]
  show "heap s p = heap q p \<or> heap s p = None" using o(1) o'(1) by auto
  show "p \<in> entered s \<Longrightarrow> p \<in> entered q" using o(2) o'(2) by auto
qed (auto simp: evolves_def)

lemma om_put_mset:
  fixes k :: "'k::linorder"
  shows "om_inv m \<Longrightarrow> om_find k m = None \<Longrightarrow> mset (om_put k v m) = add_mset (k, v) (mset m)"
  by (induction k v m rule: om_put.induct) (auto simp: om_inv_Cons split: if_splits)

lemma om_put_new:
  fixes k :: "'k::linorder"
  assumes "om_inv m" and "om_find k m = None"
  shows "set (om_put k v m) = insert (k, v) (set m)"
    and "distinct (map snd (om_put k v m)) \<longleftrightarrow> v \<notin> snd ` set m \<and> distinct (map snd m)"
proof -
  note m = om_put_mset [OF assms, of v]
  then show "set (om_put k v m) = insert (k, v) (set m)"
    using mset_eq_setD [of "om_put k v m" "(k, v) # m"] by simp
  have "mset (map snd (om_put k v m)) = mset (v # map snd m)" using m by simp
  from mset_eq_imp_distinct_iff [OF this]
  show "distinct (map snd (om_put k v m)) \<longleftrightarrow> v \<notin> snd ` set m \<and> distinct (map snd m)" by simp
qed

lemma insert_timer_inv:
  assumes "tq_inv q" and "heap q p = Some t" and "p \<notin> entered q" and "p < fresh q"
    and "insert_timer q p = Inr (b, q')"
  shows "tq_inv q' \<and> fresh q' = fresh q \<and> heap q' = heap q \<and> entered q' = insert p (entered q) \<and>
    set (timers q') = insert (expiration t, p) (set (timers q))"
proof -
  from assms(1) have o: "om_inv (timers q)" by (simp add: tq_inv_def)
  from assms(2,5) have n: "om_find (expiration t) (timers q) = None"
    and q': "q' = q\<lparr>timers := om_put (expiration t) p (timers q)\<rparr>"
    by (auto simp: insert_timer_def Let_def outcome_simps)
  note new = om_put_new [OF o n, of p]
  show ?thesis
    using assms(1-4) new om_inv_put [OF o, of "expiration t" p]
    by (auto simp: q' tq_inv_def entered_def entry_ok_def heap_ok_def)
qed

lemma insert_timer_ok:
  assumes "heap q p = Some t" and "om_find (expiration t) (timers q) = None"
  shows "\<exists>b q'. insert_timer q p = Inr (b, q')"
  using assms by (simp add: insert_timer_def Let_def)

lemma armed_inv [simp]: "tq_inv (q\<lparr>armed := a\<rparr>) = tq_inv q" "entered (q\<lparr>armed := a\<rparr>) = entered q"
  by (simp_all add: tq_inv_def heap_ok_def entry_ok_def entered_def)

lemma addTimerInLoop_Inr:
  assumes "addTimerInLoop q p now = Inr q'"
  obtains b r a where "insert_timer q p = Inr (b, r)" "q' = r\<lparr>armed := a\<rparr>"
proof -
  from assms obtain b r where r: "insert_timer q p = Inr (b, r)"
    and q': "q' = (if b then case heap r p of None \<Rightarrow> r | Some t \<Rightarrow> resetTimerfd r (expiration t) now else r)"
    unfolding addTimerInLoop_def by (auto simp: bindE_eq_Inr)
  have same: "\<exists>a. r = r\<lparr>armed := a\<rparr>" by (rule exI [of _ "armed r"]) simp
  have "\<exists>a. q' = r\<lparr>armed := a\<rparr>"
    unfolding q' resetTimerfd_def using same by (cases b; cases "heap r p") auto
  with r that show ?thesis by blast
qed

lemma addTimer_evolves:
  assumes inv: "tq_inv q" and run: "addTimer q c when i now = Inr (p, q')"
  shows "evolves q q' \<and> p = fresh q \<and> heap q' p = Some (new_Timer c when i) \<and>
    (when, p) \<in> set (timers q')"
proof -
  let ?q1 = "q\<lparr>heap := (heap q)(fresh q \<mapsto> new_Timer c when i), fresh := Suc (fresh q)\<rparr>"
  have add: "addTimerInLoop ?q1 (fresh q) now = Inr q'" and p: "p = fresh q"
    using run unfolding addTimer_def Let_def by (auto simp: bindE_eq_Inr)
  from add obtain b q2 a where i: "insert_timer ?q1 (fresh q) = Inr (b, q2)" and q': "q' = q2\<lparr>armed := a\<rparr>"
    by (rule addTimerInLoop_Inr)
  have i1: "tq_inv ?q1" "fresh q \<notin> entered ?q1"
    using inv by (auto simp: tq_inv_def heap_ok_def entry_ok_def entered_def new_Timer_def)
  have "tq_inv q2 \<and> fresh q2 = Suc (fresh q) \<and> heap q2 = (heap q)(fresh q \<mapsto> new_Timer c when i) \<and>
      entered q2 = insert (fresh q) (entered q) \<and> set (timers q2) = insert (when, fresh q) (set (timers q))"
    using insert_timer_inv [OF i1(1) _ i1(2) _ i]
    by (simp add: new_Timer_def) (simp add: entered_def)
  then have "tq_inv q'" "fresh q' = Suc (fresh q)" "heap q' = (heap q)(fresh q \<mapsto> new_Timer c when i)"
    "entered q' = insert (fresh q) (entered q)" "(when, fresh q) \<in> set (timers q')"
    using q' by auto
  with p show ?thesis by (simp add: evolves_def)
qed

lemma cancel_evolves: "tq_inv q \<Longrightarrow> evolves q (cancel q p)"
  by (auto simp: evolves_def cancel_def tq_inv_def heap_ok_def entry_ok_def entered_def)

section \<open>Taking what has expired\<close>

lemma om_inv_append: "om_inv (xs @ ys) \<longleftrightarrow> om_inv xs \<and> om_inv ys \<and>
    (\<forall>x \<in> set xs. \<forall>y \<in> set ys. fst x < fst y)"
  by (auto simp: om_inv_def sorted_wrt_append)

lemma om_take_drop_filter:
  fixes now :: timestamp
  assumes "om_inv m"
  shows "takeWhile (\<lambda>e. fst e < now) m = filter (\<lambda>e. fst e < now) m"
    and "dropWhile (\<lambda>e. fst e < now) m = filter (\<lambda>e. \<not> fst e < now) m"
  using assms
proof (induction m)
  case (Cons e m)
  { case 1 then show ?case using Cons
      by (cases e) (auto simp: om_inv_Cons om_keys_def intro!: filter_False [symmetric]) }
  { case 2 then show ?case using Cons
      by (cases e) (auto simp: om_inv_Cons om_keys_def intro!: filter_True [symmetric]) }
qed simp_all

text \<open>An entry whose time is exactly now is neither expired nor later: the assertion fails.\<close>

lemma getExpired_spec:
  assumes "om_inv (timers q)"
  shows "getExpired q now =
    (if om_find now (timers q) \<noteq> None then Inl Assert_Fail
     else Inr (filter (\<lambda>e. fst e < now) (timers q),
               q\<lparr>timers := filter (\<lambda>e. now < fst e) (timers q)\<rparr>))"
proof (cases "om_find now (timers q)")
  case None
  have "(now, v) \<notin> set (timers q)" for v
    using om_find_Some_in [OF assms, of now v] None by simp
  then have eq: "filter (\<lambda>e. \<not> fst e < now) (timers q) = filter (\<lambda>e. now < fst e) (timers q)"
    by (intro filter_cong) (auto simp: less_le)
  have "case filter (\<lambda>e. now < fst e) (timers q) of [] \<Rightarrow> True | (k, _) # _ \<Rightarrow> now < k"
    by (auto split: list.split dest: filter_eq_ConsD)
  with None show ?thesis
    by (simp add: getExpired_def Let_def om_take_drop_filter [OF assms] eq)
next
  case (Some v)
  then have v: "(now, v) \<in> set (filter (\<lambda>e. \<not> fst e < now) (timers q))" (is "_ \<in> set ?f")
    using om_find_Some_in [OF assms] by auto
  obtain k w es where f: "?f = (k, w) # es" using v by (cases ?f) auto
  have "om_inv ?f" using assms by (rule om_inv_filter)
  with v f have "k \<le> now" by (auto simp: om_inv_Cons om_keys_def)
  then show ?thesis
    using Some f by (simp add: getExpired_def Let_def om_take_drop_filter [OF assms])
qed


section \<open>Entering the repeating timers again\<close>

definition again :: "(nat \<rightharpoonup> 'c timer) \<Rightarrow> nat \<Rightarrow> bool" where
  "again h p = (case h p of None \<Rightarrow> False | Some t \<Rightarrow> repeat t)"

definition restart_times ::
  "(nat \<rightharpoonup> 'c timer) \<Rightarrow> timestamp \<Rightarrow> (timestamp \<times> nat) list \<Rightarrow> (timestamp \<times> nat) list" where
  "restart_times h now es =
     map (\<lambda>(k, p). (addTime now (interval (the (h p))), p)) (filter (\<lambda>(k, p). again h p) es)"

definition restarted :: "(nat \<rightharpoonup> 'c timer) \<Rightarrow> timestamp \<Rightarrow> (timestamp \<times> nat) list \<Rightarrow> (nat \<rightharpoonup> 'c timer)" where
  "restarted h now es p =
     (if p \<in> snd ` set es \<and> again h p then map_option (\<lambda>t. restart t now) (h p) else h p)"

text \<open>What the loop over the expired timers finds: none of them is in the queue any more.\<close>

definition taken_out :: "'c timer_queue \<Rightarrow> (timestamp \<times> nat) list \<Rightarrow> bool" where
  "taken_out q es \<longleftrightarrow> distinct (map snd es) \<and> (\<forall>e \<in> set es. snd e < fresh q \<and> snd e \<notin> entered q)"

lemma restart_times_Cons [simp]:
  "restart_times h now ((k, p) # es) =
     (if again h p then (addTime now (interval (the (h p))), p) # restart_times h now es
      else restart_times h now es)"
  by (simp add: restart_times_def)

lemma restart_times_other:
  "p \<notin> snd ` set es \<Longrightarrow> restart_times (h(p := v)) now es = restart_times h now es"
  by (induction es) (force simp: again_def restart_times_def)+

lemma restarted_Cons:
  assumes "p \<notin> snd ` set es"
  shows "restarted h now ((k, p) # es) =
    (if again h p then restarted (h(p := map_option (\<lambda>t. restart t now) (h p))) now es
     else restarted h now es)"
  using assms by (auto simp: restarted_def fun_eq_iff again_def restart_def split: option.splits)

lemma restart_enters:
  assumes inv: "tq_inv q" and out: "taken_out q ((k, p) # es)"
    and t: "heap q p = Some t" "repeat t"
    and free: "addTime now (interval t) \<notin> om_keys (timers q)"
  shows "\<exists>b q1. insert_timer (q\<lparr>heap := (heap q)(p \<mapsto> restart t now)\<rparr>) p = Inr (b, q1) \<and>
    tq_inv q1 \<and> taken_out q1 es \<and> fresh q1 = fresh q \<and> heap q1 = (heap q)(p \<mapsto> restart t now) \<and>
    set (timers q1) = insert (addTime now (interval t), p) (set (timers q))"
proof -
  let ?q = "q\<lparr>heap := (heap q)(p \<mapsto> restart t now)\<rparr>"
  have p: "p < fresh q" "p \<notin> entered q" using out by (auto simp: taken_out_def)
  have e: "expiration (restart t now) = addTime now (interval t)" using t by (simp add: restart_def)
  have inv': "tq_inv ?q"
    using inv p t by (auto simp: tq_inv_def heap_ok_def entry_ok_def entered_def restart_def)
  have "om_find (addTime now (interval t)) (timers q) = None"
    using inv free om_keys_find [of "timers q" "addTime now (interval t)"] by (simp add: tq_inv_def)
  then obtain b q1 where ins: "insert_timer ?q p = Inr (b, q1)"
    using insert_timer_ok [of ?q p "restart t now"] e by auto
  from insert_timer_inv [OF inv' _ _ _ ins, of "restart t now"] p e
  have "tq_inv q1" "fresh q1 = fresh q" "heap q1 = (heap q)(p \<mapsto> restart t now)"
    "entered q1 = insert p (entered q)"
    "set (timers q1) = insert (addTime now (interval t), p) (set (timers q))"
    by (auto simp: entered_def)
  moreover from this have "taken_out q1 es" using out by (force simp: taken_out_def)
  ultimately show ?thesis using ins by blast
qed

lemma reinsert_result:
  assumes "tq_inv q" and "taken_out q es"
  shows "if distinct (map fst (restart_times (heap q) now es)) \<and>
       fst ` set (restart_times (heap q) now es) \<inter> om_keys (timers q) = {}
     then \<exists>q'. reinsert now es q = Inr q' \<and> tq_inv q' \<and> heap q' = restarted (heap q) now es \<and>
       set (timers q') = set (timers q) \<union> set (restart_times (heap q) now es)
     else reinsert now es q = Inl Assert_Fail"
  using assms
proof (induction es arbitrary: q)
  case Nil
  then show ?case by (simp add: restart_times_def restarted_def fun_eq_iff)
next
  case (Cons e es)
  obtain k p where e: "e = (k, p)" by (cases e)
  have out: "taken_out q es" and p: "p \<notin> snd ` set es"
    using Cons.prems(2) e by (auto simp: taken_out_def)
  show ?case
  proof (cases "again (heap q) p")
    case False
    then have "reinsert now (e # es) q = reinsert now es q"
      by (auto simp: e again_def split: option.splits)
    with Cons.IH [OF Cons.prems(1) out] False p show ?thesis
      by (simp add: e restarted_Cons)
  next
    case True
    then obtain t where t: "heap q p = Some t" "repeat t" by (auto simp: again_def split: option.splits)
    let ?k = "addTime now (interval t)"
    show ?thesis
    proof (cases "?k \<in> om_keys (timers q)")
      case clash: True
      have "om_inv (timers q)" using Cons.prems(1) by (simp add: tq_inv_def)
      with clash have "om_find ?k (timers q) \<noteq> None" using om_keys_find by blast
      then have "reinsert now (e # es) q = Inl Assert_Fail"
        using t by (simp add: e insert_timer_def restart_def Let_def)
      with clash True t show ?thesis by (auto simp: e)
    next
      case False
      from restart_enters [OF Cons.prems(1) Cons.prems(2) [unfolded e] t False]
      obtain b q1 where q1: "insert_timer (q\<lparr>heap := (heap q)(p \<mapsto> restart t now)\<rparr>) p = Inr (b, q1)"
        "tq_inv q1" "taken_out q1 es" "heap q1 = (heap q)(p \<mapsto> restart t now)"
        "set (timers q1) = insert (?k, p) (set (timers q))" by blast
      have run: "reinsert now (e # es) q = reinsert now es q1" using t q1(1) by (simp add: e)
      have times: "restart_times (heap q1) now es = restart_times (heap q) now es"
        using restart_times_other [OF p] q1(4) by simp
      have keys: "om_keys (timers q1) = insert ?k (om_keys (timers q))"
        using q1(5) by (simp add: om_keys_def)
      have h: "restarted (heap q1) now es = restarted (heap q) now (e # es)"
        using True p t q1(4) by (simp add: e restarted_Cons)
      have guard: "(distinct (map fst (restart_times (heap q) now (e # es))) \<and>
          fst ` set (restart_times (heap q) now (e # es)) \<inter> om_keys (timers q) = {}) \<longleftrightarrow>
        (distinct (map fst (restart_times (heap q1) now es)) \<and>
          fst ` set (restart_times (heap q1) now es) \<inter> om_keys (timers q1) = {})"
        using True t False unfolding times keys e by auto
      have set: "set (timers q1) \<union> set (restart_times (heap q1) now es) =
          set (timers q) \<union> set (restart_times (heap q) now (e # es))"
        using True t unfolding times q1(5) e by auto
      show ?thesis
        using Cons.IH [OF q1(2,3)] unfolding guard run h set .
    qed
  qed
qed


section \<open>A tick\<close>

lemma next_expire_spec:
  "next_expire h es =
     (case dropWhile (\<lambda>e. h (snd e) = None) es of
        [] \<Rightarrow> (invalid, [])
      | (k, p) # es' \<Rightarrow> (expiration (the (h p)), (k, p) # es'))"
  by (induction h es rule: next_expire.induct) (auto split: option.splits)

text \<open>
  After a tick the first entry is a live timer, and the descriptor is set to its time, if
  that is a valid one; without a live timer the queue is empty.
\<close>

definition head_armed :: "'c timer_queue \<Rightarrow> timestamp \<Rightarrow> bool" where
  "head_armed q now' \<longleftrightarrow>
     (case timers q of [] \<Rightarrow> True
      | (k, p) # _ \<Rightarrow> heap q p \<noteq> None \<and> (valid k \<longrightarrow> armed q = Some (howMuchTimeFromNow k now')))"

lemma dropWhile_set: "om_inv m \<Longrightarrow> om_inv (dropWhile P m)"
proof -
  assume "om_inv m"
  then have "om_inv (takeWhile P m @ dropWhile P m)" by simp
  then show ?thesis unfolding om_inv_append by blast
qed

lemma reset_result:
  assumes "reinsert now es q = Inr q1" and "tq_inv q1"
  shows "\<exists>q'. reset q es now now' = Inr q' \<and> tq_inv q' \<and> heap q' = heap q1 \<and> fresh q' = fresh q1 \<and>
    timers q' = dropWhile (\<lambda>e. heap q1 (snd e) = None) (timers q1) \<and> head_armed q' now'"
proof -
  let ?es = "dropWhile (\<lambda>e. heap q1 (snd e) = None) (timers q1)"
  have sub: "set ?es \<subseteq> set (timers q1)" by (auto dest: set_dropWhileD)
  have "distinct (map snd ?es)"
    using assms(2) distinct_append [of "map snd (takeWhile (\<lambda>e. heap q1 (snd e) = None) (timers q1))" "map snd ?es"]
    by (simp add: tq_inv_def flip: map_append)
  then have inv: "tq_inv (q1\<lparr>timers := ?es\<rparr>)"
    using assms(2) dropWhile_set sub by (auto simp: tq_inv_def heap_ok_def entry_ok_def)
  show ?thesis
  proof (cases ?es)
    case Nil
    with inv assms(1) show ?thesis
      by (simp add: reset_def next_expire_spec head_armed_def del: dropWhile_eq_Nil_conv)
  next
    case (Cons e es')
    obtain k p where e: "e = (k, p)" by (cases e)
    have live: "heap q1 p \<noteq> None" using hd_dropWhile [of "\<lambda>e. heap q1 (snd e) = None" "timers q1"] Cons e by simp
    have "(k, p) \<in> set (timers q1)" using sub Cons e by auto
    then have k: "expiration (the (heap q1 p)) = k"
      using live assms(2) by (auto simp: tq_inv_def entry_ok_def)
    with live inv assms(1) Cons e show ?thesis
      by (simp add: reset_def next_expire_spec head_armed_def resetTimerfd_def Let_def)
  qed
qed

text \<open>The abstract state: when each live timer fires next.\<close>

definition schedule :: "'c timer_queue \<Rightarrow> nat \<rightharpoonup> timestamp" where
  "schedule q p =
     (case heap q p of None \<Rightarrow> None | Some t \<Rightarrow> if p \<in> entered q then Some (expiration t) else None)"

definition due :: "'c timer_queue \<Rightarrow> timestamp \<Rightarrow> (timestamp \<times> nat) list" where
  "due q now = filter (\<lambda>(k, p). k < now \<and> heap q p \<noteq> None) (timers q)"

definition due_callbacks :: "'c timer_queue \<Rightarrow> timestamp \<Rightarrow> 'c list" where
  "due_callbacks q now = map (\<lambda>(k, p). cb (the (heap q p))) (due q now)"

definition tick :: "'c timer_queue \<Rightarrow> timestamp \<Rightarrow> (nat \<rightharpoonup> timestamp)" where
  "tick q now p =
     (case schedule q p of
        None \<Rightarrow> None
      | Some k \<Rightarrow>
          if now < k then Some k
          else if again (heap q) p then Some (addTime now (interval (the (heap q p)))) else None)"

text \<open>Two entries at one time: a timer to restart, and another one to restart or waiting.\<close>

definition clash :: "'c timer_queue \<Rightarrow> timestamp \<Rightarrow> bool" where
  "clash q now \<longleftrightarrow>
     \<not> distinct (map fst (restart_times (heap q) now (due q now))) \<or>
     fst ` set (restart_times (heap q) now (due q now)) \<inter> om_keys (filter (\<lambda>e. now < fst e) (timers q)) \<noteq> {}"

definition quiet :: "('c \<Rightarrow> 's \<Rightarrow> 's) \<Rightarrow> 'c \<Rightarrow> 'c timer_queue \<times> 's \<Rightarrow> ('c timer_queue \<times> 's) outcome" where
  "quiet f c st = Inr (fst st, f c (snd st))"

lemma run_expired_quiet:
  "run_expired (quiet f) es (q, s) =
     Inr (filter (\<lambda>(k, p). heap q p \<noteq> None) es, q,
          fold f (map (\<lambda>(k, p). cb (the (heap q p))) (filter (\<lambda>(k, p). heap q p \<noteq> None) es)) s)"
  by (induction es arbitrary: s) (auto simp: quiet_def split: option.splits)

lemma live_entry:
  assumes "tq_inv q" and "heap q p = Some t"
  shows "p \<in> entered q \<longleftrightarrow> (expiration t, p) \<in> set (timers q)"
proof
  assume "p \<in> entered q"
  then obtain e where e: "e \<in> set (timers q)" "snd e = p" by (auto simp: entered_def)
  with assms have "fst e = expiration t" by (auto simp: tq_inv_def entry_ok_def)
  with e show "(expiration t, p) \<in> set (timers q)" by (metis prod.collapse)
qed (force simp: entered_def)


lemma waiting_inv:
  assumes "tq_inv q"
  shows "tq_inv (q\<lparr>timers := filter P (timers q)\<rparr>)"
  using assms by (auto simp: tq_inv_def om_inv_filter heap_ok_def entry_ok_def distinct_map_filter)

lemma entered_filter: "tq_inv q \<Longrightarrow> p \<in> entered (q\<lparr>timers := filter P (timers q)\<rparr>) \<longleftrightarrow>
    (\<exists>k. (k, p) \<in> set (timers q) \<and> P (k, p))"
  by (force simp: entered_def)

lemma entry_unique:
  assumes "tq_inv q" and "(k, p) \<in> set (timers q)" and "(k', p) \<in> set (timers q)"
  shows "k = k'"
proof -
  have "inj_on snd (set (timers q))" using assms(1) by (simp add: tq_inv_def distinct_map)
  from inj_onD [OF this, of "(k, p)" "(k', p)"] assms(2,3) show ?thesis by simp
qed

lemma live_entry_iff:
  assumes "tq_inv q" and "heap q p = Some t"
  shows "(k, p) \<in> set (timers q) \<longleftrightarrow> p \<in> entered q \<and> k = expiration t"
  using live_entry [OF assms] entry_unique [OF assms(1), of k p "expiration t"]
    rev_image_eqI [of "(k, p)" "set (timers q)" p snd] by (auto simp: entered_def)

lemma snd_image_iff: "p \<in> snd ` S \<longleftrightarrow> (\<exists>k. (k, p) \<in> S)"
  by force

text \<open>What the loop of \<open>handleRead\<close> works on, when nothing is due exactly now.\<close>

lemma due_taken_out:
  assumes "tq_inv q"
  shows "taken_out (q\<lparr>timers := filter (\<lambda>e. now < fst e) (timers q)\<rparr>) (due q now)"
proof -
  have "snd e \<notin> entered (q\<lparr>timers := filter (\<lambda>e. now < fst e) (timers q)\<rparr>)"
    if "e \<in> set (due q now)" for e
    using that entry_unique [OF assms] by (fastforce simp: due_def entered_filter [OF assms])
  moreover have "distinct (map snd (due q now))"
    using assms by (simp add: due_def tq_inv_def distinct_map_filter)
  moreover have "\<forall>e \<in> set (due q now). snd e < fresh q"
    using assms by (auto simp: due_def tq_inv_def entry_ok_def)
  ultimately show ?thesis by (simp add: taken_out_def)
qed

lemma handleRead_quiet:
  assumes inv: "tq_inv q" and q0_def: "q0 = q\<lparr>timers := filter (\<lambda>e. now < fst e) (timers q)\<rparr>"
  shows "handleRead (quiet f) now now' (q, s) =
    (if om_find now (timers q) \<noteq> None then Inl Assert_Fail
     else bindE (reset q0 (due q now) now now') (\<lambda>q'. Inr (q', fold f (due_callbacks q now) s)))"
proof -
  have o: "om_inv (timers q)" using inv by (simp add: tq_inv_def)
  have d: "filter (\<lambda>(k, p). heap q p \<noteq> None) (filter (\<lambda>e. fst e < now) (timers q)) = due q now"
    unfolding due_def by (simp add: conj_commute case_prod_beta')
  show ?thesis
    using d by (simp add: handleRead_def getExpired_spec [OF o] run_expired_quiet q0_def due_callbacks_def)
qed

lemma restart_times_due:
  assumes "tq_inv q"
  shows "(k, p) \<in> set (restart_times (heap q) now (due q now)) \<longleftrightarrow>
    (\<exists>t. heap q p = Some t \<and> repeat t \<and> p \<in> entered q \<and> expiration t < now \<and>
      k = addTime now (interval t))"
proof -
  have "(k, p) \<in> set (restart_times (heap q) now (due q now)) \<longleftrightarrow>
      (\<exists>t k'. heap q p = Some t \<and> repeat t \<and> (k', p) \<in> set (timers q) \<and> k' < now \<and>
        k = addTime now (interval t))"
    by (force simp: restart_times_def due_def again_def split: option.splits)
  then show ?thesis using live_entry_iff [OF assms] by metis
qed


lemma entered_dropWhile:
  assumes "tq_inv q1" and "heap q1 p \<noteq> None" and "heap q' = heap q1"
    and "timers q' = dropWhile (\<lambda>e. heap q1 (snd e) = None) (timers q1)"
  shows "p \<in> entered q' \<longleftrightarrow> p \<in> entered q1"
proof -
  have "set (timers q1) = set (takeWhile (\<lambda>e. heap q1 (snd e) = None) (timers q1)) \<union> set (timers q')"
    unfolding assms(4) by (metis set_append takeWhile_dropWhile_id)
  moreover have "p \<notin> snd ` set (takeWhile (\<lambda>e. heap q1 (snd e) = None) (timers q1))"
    using assms(2) by (auto dest: set_takeWhileD)
  ultimately show ?thesis by (auto simp: entered_def)
qed

lemma schedule_tick:
  assumes inv: "tq_inv q" and none: "om_find now (timers q) = None"
    and h: "heap q' = restarted (heap q) now (due q now)"
    and e: "\<And>p. heap q p \<noteq> None \<Longrightarrow> p \<in> entered q' \<longleftrightarrow>
      p \<in> entered (q\<lparr>timers := filter (\<lambda>e. now < fst e) (timers q)\<rparr>) \<or>
      p \<in> snd ` set (restart_times (heap q) now (due q now))"
  shows "schedule q' = tick q now"
proof
  fix p
  have o: "om_inv (timers q)" using inv by (simp add: tq_inv_def)
  show "schedule q' p = tick q now p"
  proof (cases "heap q p")
    case None
    then show ?thesis by (simp add: schedule_def tick_def h restarted_def)
  next
    case (Some t)
    note entry = live_entry_iff [OF inv Some]
    have ent: "p \<in> entered q' \<longleftrightarrow> p \<in> entered q \<and> (now < expiration t \<or> expiration t < now \<and> repeat t)"
      using e [of p] Some
      by (simp add: entered_filter [OF inv] entry restart_times_due [OF inv] snd_image_iff conj_disj_distribL)
        blast
    have neq: "p \<in> entered q \<Longrightarrow> expiration t \<noteq> now"
      using entry [of "expiration t"] om_find_Some_in [OF o, of "expiration t" p] none by auto
    have due: "p \<in> snd ` set (due q now) \<longleftrightarrow> p \<in> entered q \<and> expiration t < now"
      using Some by (auto simp: due_def snd_image_iff entry)
    show ?thesis
      using ent neq due Some
      by (auto simp: schedule_def tick_def h restarted_def again_def restart_def split: if_splits)
  qed
qed

lemma tick_result:
  assumes inv: "tq_inv q" and none: "om_find now (timers q) = None"
    and ok: "\<not> clash q now"
  shows "\<exists>q'. handleRead (quiet f) now now' (q, s) = Inr (q', fold f (due_callbacks q now) s) \<and>
    tq_inv q' \<and> schedule q' = tick q now \<and> head_armed q' now'"
proof -
  let ?q0 = "q\<lparr>timers := filter (\<lambda>e. now < fst e) (timers q)\<rparr>"
  have g: "distinct (map fst (restart_times (heap ?q0) now (due q now))) \<and>
      fst ` set (restart_times (heap ?q0) now (due q now)) \<inter> om_keys (timers ?q0) = {}"
    using ok by (simp add: clash_def)
  from reinsert_result [OF waiting_inv [OF inv] due_taken_out [OF inv, of now], of now, unfolded if_P [OF g]]
  obtain q1 where q1: "reinsert now (due q now) ?q0 = Inr q1" "tq_inv q1"
    "heap q1 = restarted (heap q) now (due q now)"
    "set (timers q1) = set (timers ?q0) \<union> set (restart_times (heap q) now (due q now))" by auto
  from reset_result [OF q1(1,2), of now'] obtain q' where q': "reset ?q0 (due q now) now now' = Inr q'"
    "tq_inv q'" "heap q' = heap q1" "timers q' = dropWhile (\<lambda>e. heap q1 (snd e) = None) (timers q1)"
    "head_armed q' now'" by blast
  have "p \<in> entered q' \<longleftrightarrow> p \<in> entered ?q0 \<or> p \<in> snd ` set (restart_times (heap q) now (due q now))"
    if "heap q p \<noteq> None" for p
    using entered_dropWhile [OF q1(2) _ q'(3,4), of p] that q1(3,4)
    by (auto simp: entered_def restarted_def image_Un split: if_splits)
  from schedule_tick [OF inv none _ this] q1(3) q'(3) have "schedule q' = tick q now" by simp
  with q' handleRead_quiet [OF inv refl, of f now now' s] none show ?thesis by simp
qed

lemma tick_fails:
  assumes inv: "tq_inv q" and bad: "om_find now (timers q) \<noteq> None \<or> clash q now"
  shows "handleRead (quiet f) now now' (q, s) = Inl Assert_Fail"
proof (cases "om_find now (timers q) \<noteq> None")
  case True
  then show ?thesis using handleRead_quiet [OF inv refl, of f now now' s] by simp
next
  case False
  let ?q0 = "q\<lparr>timers := filter (\<lambda>e. now < fst e) (timers q)\<rparr>"
  have "\<not> (distinct (map fst (restart_times (heap ?q0) now (due q now))) \<and>
      fst ` set (restart_times (heap ?q0) now (due q now)) \<inter> om_keys (timers ?q0) = {})"
    using bad False by (simp add: clash_def)
  from reinsert_result [OF waiting_inv [OF inv] due_taken_out [OF inv, of now], of now, unfolded if_not_P [OF this]]
  have "reset ?q0 (due q now) now now' = Inl Assert_Fail" by (simp add: reset_def)
  with False show ?thesis using handleRead_quiet [OF inv refl, of f now now' s] by simp
qed


section \<open>Callbacks that use the queue\<close>

text \<open>
  A callback may add timers and destroy \<open>TimerId\<close>s while the expired timers are being run.
  All the queue needs of it is that it evolves the queue.
\<close>

locale timer_callbacks =
  fixes run :: "'c \<Rightarrow> 'c timer_queue \<times> 's \<Rightarrow> ('c timer_queue \<times> 's) outcome"
  assumes run_evolves: "tq_inv q \<Longrightarrow> run c (q, s) = Inr (q', s') \<Longrightarrow> evolves q q'"
begin

lemma run_expired_evolves:
  "tq_inv q \<Longrightarrow> run_expired run es (q, s) = Inr (kept, q', s') \<Longrightarrow>
     evolves q q' \<and> set kept \<subseteq> set es \<and> (distinct (map snd es) \<longrightarrow> distinct (map snd kept))"
proof (induction es arbitrary: q s kept)
  case Nil
  then show ?case by (simp add: evolves_refl)
next
  case (Cons e es)
  obtain k p where e: "e = (k, p)" by (cases e)
  show ?case
  proof (cases "heap q p")
    case None
    with Cons e show ?thesis by auto
  next
    case (Some t)
    with Cons.prems(2) obtain q1 s1 kept1 where
      r: "run (cb t) (q, s) = Inr (q1, s1)" "run_expired run es (q1, s1) = Inr (kept1, q', s')"
      and k: "kept = e # kept1"
      by (auto simp: e bindE_eq_Inr)
    from run_evolves [OF Cons.prems(1) r(1)] have ev: "evolves q q1" .
    then have "tq_inv q1" by (simp add: evolves_def)
    from Cons.IH [OF this r(2)] evolves_trans [OF ev] k show ?thesis by auto
  qed
qed

lemma tick_keeps:
  assumes inv: "tq_inv q" and call: "handleRead run now now' (q, s) = Inr (q', s')"
  shows "tq_inv q' \<and> head_armed q' now'"
proof -
  let ?q0 = "q\<lparr>timers := filter (\<lambda>e. now < fst e) (timers q)\<rparr>"
  let ?es = "filter (\<lambda>e. fst e < now) (timers q)"
  have o: "om_inv (timers q)" using inv by (simp add: tq_inv_def)
  from call obtain kept q1 where r: "run_expired run ?es (?q0, s) = Inr (kept, q1, s')"
    and rs: "reset q1 kept now now' = Inr q'"
    by (auto simp: handleRead_def getExpired_spec [OF o] bindE_eq_Inr split: if_splits)
  have d: "distinct (map snd ?es)" using inv by (simp add: tq_inv_def distinct_map_filter)
  from run_expired_evolves [OF waiting_inv [OF inv] r] d
  have ev: "evolves ?q0 q1" "set kept \<subseteq> set ?es" "distinct (map snd kept)" by auto
  have out: "taken_out q1 kept"
    unfolding taken_out_def
  proof (intro conjI ballI)
    fix e assume "e \<in> set kept"
    with ev(2) have e: "e \<in> set (timers q)" "fst e < now" by auto
    then have f: "snd e < fresh ?q0" using inv by (auto simp: tq_inv_def entry_ok_def)
    show "snd e < fresh q1" using evolves_old(3) [OF ev(1) f] .
    have "snd e \<notin> entered ?q0"
      using e entry_unique [OF inv, of "fst e" "snd e"] by (auto simp: entered_filter [OF inv])
    then show "snd e \<notin> entered q1" using evolves_old(2) [OF ev(1) f] by blast
  qed (rule ev(3))
  have i1: "tq_inv q1" using ev(1) by (simp add: evolves_def)
  from rs obtain q2 where q2: "reinsert now kept q1 = Inr q2"
    by (auto simp: reset_def bindE_eq_Inr)
  from reinsert_result [OF i1 out, of now] q2 have "tq_inv q2" by (auto split: if_splits)
  from reset_result [OF q2 this, of now'] rs show ?thesis by auto
qed

end

text \<open>The callbacks of this program: sequences of calls to the queue, and an effect of their own.\<close>

datatype 'c timer_call = Add_Timer 'c timestamp int timestamp | Drop_Id nat

fun do_timer_call :: "'c timer_call \<Rightarrow> 'c timer_queue \<Rightarrow> 'c timer_queue outcome" where
  "do_timer_call (Add_Timer c when i now) q = bindE (addTimer q c when i now) (\<lambda>(p, q'). Inr q')"
| "do_timer_call (Drop_Id p) q = Inr (cancel q p)"

definition run_calls ::
  "('c \<Rightarrow> 's \<Rightarrow> 'c timer_call list) \<Rightarrow> ('c \<Rightarrow> 's \<Rightarrow> 's) \<Rightarrow> 'c \<Rightarrow> 'c timer_queue \<times> 's \<Rightarrow>
     ('c timer_queue \<times> 's) outcome" where
  "run_calls prog f c st =
     bindE (foldE do_timer_call (prog c (snd st)) (fst st)) (\<lambda>q. Inr (q, f c (snd st)))"

lemma foldE_calls_evolves:
  "tq_inv q \<Longrightarrow> foldE do_timer_call cs q = Inr q' \<Longrightarrow> evolves q q'"
proof (induction cs arbitrary: q)
  case Nil
  then show ?case by (simp add: evolves_refl)
next
  case (Cons c cs)
  from Cons.prems(2) obtain q1 where q1: "do_timer_call c q = Inr q1" "foldE do_timer_call cs q1 = Inr q'"
    by (auto simp: bindE_eq_Inr)
  have ev: "evolves q q1"
  proof (cases c)
    case (Add_Timer d w i now)
    with q1(1) addTimer_evolves [OF Cons.prems(1)] show ?thesis by (auto simp: bindE_eq_Inr)
  next
    case (Drop_Id p)
    with q1(1) cancel_evolves [OF Cons.prems(1)] show ?thesis by auto
  qed
  then have "tq_inv q1" by (simp add: evolves_def)
  from Cons.IH [OF this q1(2)] evolves_trans [OF ev] show ?case by blast
qed

interpretation calls: timer_callbacks "run_calls prog f" for prog f
proof unfold_locales
  fix q :: "'a timer_queue" and c and s :: 'b and q' s'
  assume "tq_inv q" and "run_calls prog f c (q, s) = Inr (q', s')"
  then show "evolves q q'"
    unfolding run_calls_def by (auto simp: bindE_eq_Inr intro: foldE_calls_evolves)
qed

end
