(* ===== verification/File_Stream.thy ===== *)
theory File_Stream
  imports Prelude
begin

text \<open>
  The parts of \<open>std::fstream\<close> and \<open>std::ifstream\<close> the file managers use: position, end and
  failure flags, reads that stop at the end of the file, writes that overwrite or extend it.
  Errors of the disk are not modelled: an open stream writes what it is given.
\<close>

section \<open>Writing\<close>

record ofile =
  opened :: bool
  data :: bytes
  ppos :: nat

text \<open>A write past the end fills the gap with zeros.\<close>

definition write_at :: "bytes \<Rightarrow> nat \<Rightarrow> bytes \<Rightarrow> bytes" where
  "write_at m i d = take i (m @ replicate (i - length m) 0) @ d @ drop (i + length d) m"

definition fs_write :: "ofile \<Rightarrow> bytes \<Rightarrow> ofile" where
  "fs_write f d = f\<lparr>data := write_at (data f) (ppos f) d, ppos := ppos f + length d\<rparr>"

definition seekp :: "ofile \<Rightarrow> nat \<Rightarrow> ofile" where
  "seekp f off = f\<lparr>ppos := off\<rparr>"

definition fs_close :: "ofile \<Rightarrow> ofile" where
  "fs_close f = f\<lparr>opened := False\<rparr>"

lemma write_at_end [simp]: "write_at m (length m) d = m @ d"
  by (simp add: write_at_def)

lemma write_at_inside:
  "i = length pre \<Longrightarrow> length old = length d \<Longrightarrow> write_at (pre @ old @ post) i d = pre @ d @ post"
  by (simp add: write_at_def)

lemma write_at_end_pad: "length m \<le> i \<Longrightarrow> write_at m i d = m @ replicate (i - length m) 0 @ d"
  by (simp add: write_at_def)

lemma fs_write_sel [simp]: "opened (fs_write f d) = opened f" "ppos (fs_write f d) = ppos f + length d"
  by (simp_all add: fs_write_def)

lemma fs_append: "ppos f = length (data f) \<Longrightarrow> data (fs_write f d) = data f @ d"
  by (simp add: fs_write_def)

section \<open>Reading\<close>

record ifile =
  content :: bytes
  is_open :: bool
  gpos :: nat
  eofbit :: bool
  failbit :: bool

definition good :: "ifile \<Rightarrow> bool" where
  "good f \<longleftrightarrow> \<not> eofbit f \<and> \<not> failbit f"

text \<open>The bytes stored, whose number is what \<open>gcount()\<close> returns.\<close>

definition fs_read :: "ifile \<Rightarrow> nat \<Rightarrow> bytes \<times> ifile" where
  "fs_read f n =
     (if good f
      then let d = take n (drop (gpos f) (content f))
           in (d, f\<lparr>gpos := gpos f + length d, eofbit := length d < n, failbit := length d < n\<rparr>)
      else ([], f\<lparr>failbit := True\<rparr>))"

definition fs_clear :: "ifile \<Rightarrow> ifile" where
  "fs_clear f = f\<lparr>eofbit := False, failbit := False\<rparr>"

text \<open>\<open>seekg\<close> clears the end flag, and does nothing more on a stream that has failed.\<close>

definition seekg :: "ifile \<Rightarrow> nat \<Rightarrow> ifile" where
  "seekg f off =
     (let f1 = f\<lparr>eofbit := False\<rparr> in if failbit f then f1 else f1\<lparr>gpos := off\<rparr>)"

section \<open>Pieces of a file\<close>

definition piece_count :: "bytes \<Rightarrow> nat" where
  "piece_count m = (length m + 1023) div 1024"

lemma piece_count_iff: "k < piece_count m \<longleftrightarrow> 1024 * k < length m"
  unfolding piece_count_def Suc_le_eq [symmetric] less_eq_div_iff_mult_less_eq [of 1024, simplified] by arith

definition chunk :: "nat \<Rightarrow> bytes \<Rightarrow> nat \<Rightarrow> bytes" where
  "chunk n m k = take n (drop (n * k) m)"

lemma length_chunk: "length (chunk n m k) = min n (length m - n * k)"
  by (simp add: chunk_def)

lemma chunk_full: "n * Suc k \<le> length m \<Longrightarrow> length (chunk n m k) = n"
  by (simp add: length_chunk)

lemma concat_chunks: "concat (map (chunk n m) [0..<c]) = take (n * c) m"
proof (induction c)
  case 0
  then show ?case by simp
next
  case (Suc c)
  have "take (n * c + n) m = take (n * c) m @ take n (drop (n * c) m)" by (rule take_add)
  with Suc show ?case by (simp add: chunk_def add.commute)
qed

lemma chunk_nonempty: "0 < n \<Longrightarrow> chunk n m k \<noteq> [] \<longleftrightarrow> n * k < length m"
  by (auto simp: chunk_def)

end
