(* ===== verification/Send_File.thy ===== *)
theory Send_File
  imports Buffer CRC32 Header File_Stream
begin

text \<open>
  \<open>client/SendFileManager\<close>: the file that is being sent, read piece by piece, and out of
  order for pieces that were lost. The file system is an argument (a map from paths to
  contents); members the code leaves uninitialised when the file does not open are arguments
  too.
\<close>

section \<open>State and operations\<close>

record send_file =
  ifileStream :: ifile
  curPiece :: u32
  filePath :: bytes
  sent_fileName :: bytes
  sent_fileBytes :: u64
  sent_fileCRC32 :: u32
  bytesPerPiece :: u32

definition closed_ifile :: ifile where
  "closed_ifile = \<lparr>content = [], is_open = False, gpos = 0, eofbit = False, failbit = False\<rparr>"

text \<open>\<open>std::filesystem::path::filename\<close>: what follows the last slash.\<close>

definition path_filename :: "bytes \<Rightarrow> bytes" where
  "path_filename p = rev (takeWhile (\<lambda>c. c \<noteq> 0x2F) (rev p))"

definition openFile :: "crc_state \<Rightarrow> (bytes \<rightharpoonup> bytes) \<Rightarrow> send_file \<Rightarrow> bytes \<Rightarrow> send_file" where
  "openFile crc fs s path =
     (case fs path of
        None \<Rightarrow> s\<lparr>ifileStream := (ifileStream s)\<lparr>failbit := True\<rparr>\<rparr>
      | Some m \<Rightarrow>
          s\<lparr>ifileStream := \<lparr>content = m, is_open = True, gpos = 0, eofbit = False, failbit = False\<rparr>,
            filePath := path, sent_fileName := path_filename path, sent_fileBytes := of_nat (length m),
            sent_fileCRC32 := fst (calculateFileCRC32 crc (Some m)), curPiece := 0\<rparr>)"

definition new_SendFileManager ::
  "crc_state \<Rightarrow> (bytes \<rightharpoonup> bytes) \<Rightarrow> send_file \<Rightarrow> bytes \<Rightarrow> u32 \<Rightarrow> send_file" where
  "new_SendFileManager crc fs uninit path bpp =
     (let s = uninit\<lparr>ifileStream := closed_ifile, filePath := [], sent_fileName := [], bytesPerPiece := bpp\<rparr>
      in if fs path = None then s else openFile crc fs s path)"

definition isOpen :: "send_file \<Rightarrow> bool" where "isOpen s = is_open (ifileStream s)"
definition isGood :: "send_file \<Rightarrow> bool" where "isGood s = good (ifileStream s)"

definition initStatu :: "send_file \<Rightarrow> send_file" where
  "initStatu s =
     (let f = (if \<not> isGood s then fs_clear (ifileStream s) else ifileStream s)
      in s\<lparr>ifileStream := seekg f 0, curPiece := 0\<rparr>)"

definition getNextPiece :: "send_file \<Rightarrow> (buffer \<times> send_file) outcome" where
  "getNextPiece s =
     require (isOpen s)
     (if \<not> good (ifileStream s) then Inr (new_Buffer, s)
      else bindE (ensureWritableBytes new_Buffer (unat (bytesPerPiece s))) (\<lambda>res.
        let (d, f) = fs_read (ifileStream s) (unat (bytesPerPiece s));
            s1 = s\<lparr>ifileStream := f\<rparr>
        in bindE (beginWrite res d) (\<lambda>res.
           if length d = 0 then Inr (res, s1)
           else require (length d \<noteq> unat (bytesPerPiece s) \<longrightarrow> \<not> good f)
             (Inr (hasWritten res (length d), s1\<lparr>curPiece := curPiece s1 + 1\<rparr>)))))"

definition getPieceOf :: "send_file \<Rightarrow> u32 \<Rightarrow> (buffer \<times> send_file) outcome" where
  "getPieceOf s num =
     require (isOpen s)
     (let cur = curPiece s;
          f = (if \<not> isGood s then fs_clear (ifileStream s) else ifileStream s);
          s1 = s\<lparr>ifileStream := seekg f (unat (num * bytesPerPiece s))\<rparr>
      in bindE (getNextPiece s1) (\<lambda>(res, s2).
         let s3 = s2\<lparr>curPiece := cur\<rparr>
         in Inr (res, s3\<lparr>ifileStream := seekg (ifileStream s3) (unat (curPiece s3 * bytesPerPiece s3))\<rparr>)))"

section \<open>Pieces\<close>

text \<open>An open file of a given content, with pieces of \<open>kBytesPerPiece\<close> bytes.\<close>

definition sends :: "send_file \<Rightarrow> bytes \<Rightarrow> bool" where
  "sends s m \<longleftrightarrow> is_open (ifileStream s) \<and> content (ifileStream s) = m \<and> bytesPerPiece s = kBytesPerPiece"

lemma piece_size [simp]: "unat kBytesPerPiece = 1024"
  by (simp add: kBytesPerPiece_def)

lemma new_Buffer_room: "ensureWritableBytes new_Buffer 1024 = Inr new_Buffer"
  by (simp add: ensureWritableBytes_def new_Buffer_sizes kInitSize_def)

definition piece_buffer :: "bytes \<Rightarrow> buffer" where
  "piece_buffer d =
     new_Buffer\<lparr>store := mem_put (store new_Buffer) kPrependSize d, writeIndex := kPrependSize + length d\<rparr>"

lemma piece_buffer_ok:
  assumes "length d \<le> 1024"
  shows "buffer_inv (piece_buffer d)" "contents (piece_buffer d) = d"
    "readableBytes (piece_buffer d) = length d"
proof -
  have l: "kPrependSize + length d \<le> length (store new_Buffer)"
    using assms by (simp add: kPrependSize_def)
  then have m: "length (mem_put (store new_Buffer) kPrependSize d) = 1032" by simp
  show i: "buffer_inv (piece_buffer d)"
    using assms m by (simp add: piece_buffer_def buffer_inv_def) (simp add: new_Buffer_def kPrependSize_def)
  show "contents (piece_buffer d) = d"
    using slice_mem_put_same [OF l] by (simp add: piece_buffer_def contents_def) (simp add: new_Buffer_def)
  then show "readableBytes (piece_buffer d) = length d" using length_contents [OF i] by simp
qed

lemma getNextPiece_good:
  assumes s: "sends s m" and g: "good (ifileStream s)"
  shows "\<exists>b s'. getNextPiece s = Inr (b, s') \<and> buffer_inv b \<and>
    contents b = take 1024 (drop (gpos (ifileStream s)) m) \<and> sends s' m \<and>
    ifileStream s' = snd (fs_read (ifileStream s) 1024) \<and>
    curPiece s' = (if contents b = [] then curPiece s else curPiece s + 1) \<and>
    sent_fileName s' = sent_fileName s \<and> sent_fileBytes s' = sent_fileBytes s \<and> sent_fileCRC32 s' = sent_fileCRC32 s"
proof -
  let ?d = "take 1024 (drop (gpos (ifileStream s)) m)"
  have rd: "fs_read (ifileStream s) 1024 = (?d, (ifileStream s)\<lparr>gpos := gpos (ifileStream s) + length ?d,
      eofbit := length ?d < 1024, failbit := length ?d < 1024\<rparr>)" (is "_ = (_, ?f)")
    using s g by (simp add: fs_read_def Let_def sends_def)
  have len: "length ?d \<le> 1024" by simp
  have w: "beginWrite new_Buffer ?d = Inr (new_Buffer\<lparr>store := mem_put (store new_Buffer) kPrependSize ?d\<rparr>)"
    by (simp add: beginWrite_def mem_write_def) (simp add: new_Buffer_def kPrependSize_def)
  have h: "hasWritten (new_Buffer\<lparr>store := mem_put (store new_Buffer) kPrependSize ?d\<rparr>) (length ?d) = piece_buffer ?d"
    by (simp add: hasWritten_def piece_buffer_def new_Buffer_def kPrependSize_def)
  show ?thesis
  proof (cases "length ?d = 0")
    case True
    then have d: "?d = []" by simp
    have e: "mem_put (store new_Buffer) kPrependSize [] = store new_Buffer" by (simp add: mem_put_def)
    have "getNextPiece s = Inr (new_Buffer, s\<lparr>ifileStream := ?f\<rparr>)"
      using s g w rd unfolding d
      by (simp add: getNextPiece_def isOpen_def sends_def new_Buffer_room e)
    with s rd d show ?thesis
      by (intro exI [of _ new_Buffer] exI [of _ "s\<lparr>ifileStream := ?f\<rparr>"]) (simp add: sends_def)
  next
    case False
    have "length ?d \<noteq> 1024 \<longrightarrow> \<not> good ?f" by (auto simp: good_def)
    then have "getNextPiece s = Inr (piece_buffer ?d, s\<lparr>ifileStream := ?f, curPiece := curPiece s + 1\<rparr>)"
      using s g w rd False h by (simp add: getNextPiece_def isOpen_def sends_def new_Buffer_room)
    with s rd piece_buffer_ok [OF len] False show ?thesis
      by (intro exI [of _ "piece_buffer ?d"] exI [of _ "s\<lparr>ifileStream := ?f, curPiece := curPiece s + 1\<rparr>"])
        (simp add: sends_def)
  qed
qed


text \<open>Without a good stream nothing is read and nothing changes.\<close>

lemma getNextPiece_bad:
  "sends s m \<Longrightarrow> \<not> good (ifileStream s) \<Longrightarrow> getNextPiece s = Inr (new_Buffer, s)"
  by (simp add: getNextPiece_def isOpen_def sends_def)

text \<open>
  Where the stream stands while the file is being streamed: at the piece the counter names,
  or at the end after a short last piece.
\<close>

definition streaming :: "send_file \<Rightarrow> bytes \<Rightarrow> nat \<Rightarrow> bool" where
  "streaming s m k \<longleftrightarrow> sends s m \<and> good (ifileStream s) \<and> gpos (ifileStream s) = 1024 * k \<and>
     curPiece s = of_nat k"

lemma streaming_next:
  assumes "streaming s m k" and "1024 * k < length m"
  shows "\<exists>b s'. getNextPiece s = Inr (b, s') \<and> buffer_inv b \<and> contents b = chunk 1024 m k \<and>
    sends s' m \<and> curPiece s' = of_nat (Suc k) \<and>
    (if 1024 * Suc k \<le> length m then streaming s' m (Suc k) else \<not> good (ifileStream s')) \<and>
    sent_fileName s' = sent_fileName s \<and> sent_fileBytes s' = sent_fileBytes s \<and> sent_fileCRC32 s' = sent_fileCRC32 s"
proof -
  have s: "sends s m" "good (ifileStream s)" and p: "gpos (ifileStream s) = 1024 * k"
    and c: "curPiece s = of_nat k" using assms(1) by (auto simp: streaming_def)
  from getNextPiece_good [OF s] obtain b s' where
    r: "getNextPiece s = Inr (b, s')" "buffer_inv b" "contents b = take 1024 (drop (1024 * k) m)"
    "sends s' m" "ifileStream s' = snd (fs_read (ifileStream s) 1024)"
    "curPiece s' = (if contents b = [] then curPiece s else curPiece s + 1)"
    "sent_fileName s' = sent_fileName s" "sent_fileBytes s' = sent_fileBytes s" "sent_fileCRC32 s' = sent_fileCRC32 s"
    unfolding p by (elim exE conjE) (rule that; assumption)
  have ne: "contents b \<noteq> []" using assms(2) unfolding r(3) by auto
  then have c': "curPiece s' = of_nat (Suc k)" using r(6) c by simp
  have cont: "content (ifileStream s) = m" using s(1) by (simp add: sends_def)
  have "if 1024 * Suc k \<le> length m then streaming s' m (Suc k) else \<not> good (ifileStream s')"
    using r(4,5) c' s(2) p cont
    by (auto simp: streaming_def fs_read_def Let_def good_def)
  with r ne c' show ?thesis by (auto simp: chunk_def)
qed

lemma offset_small:
  assumes "1024 * k < 2 ^ 32"
  shows "unat (of_nat k * kBytesPerPiece) = 1024 * k"
proof -
  have "of_nat k * kBytesPerPiece = (of_nat (1024 * k) :: u32)" by (simp add: kBytesPerPiece_def)
  moreover have "unat (of_nat (1024 * k) :: u32) = 1024 * k"
    using assms by (simp add: unat_of_nat del: of_nat_mult)
  ultimately show ?thesis by simp
qed

text \<open>
  A retransmission reads the piece asked for and puts the stream back, unless the piece is
  short: then the stream has failed, and the \<open>seekg\<close> that should put it back does nothing.
\<close>

lemma getPieceOf_spec:
  assumes s: "sends s m" and num: "1024 * k < length m" and small: "length m \<le> 2 ^ 32"
  shows "\<exists>b s'. getPieceOf s (of_nat k) = Inr (b, s') \<and> buffer_inv b \<and> contents b = chunk 1024 m k \<and>
    sends s' m \<and> curPiece s' = curPiece s \<and>
    (if 1024 * Suc k \<le> length m
     then good (ifileStream s') \<and> gpos (ifileStream s') = unat (curPiece s * kBytesPerPiece)
     else \<not> good (ifileStream s')) \<and>
    sent_fileName s' = sent_fileName s \<and> sent_fileBytes s' = sent_fileBytes s \<and> sent_fileCRC32 s' = sent_fileCRC32 s"
proof -
  let ?f = "if \<not> isGood s then fs_clear (ifileStream s) else ifileStream s"
  obtain s1 where s1_def: "s1 = s\<lparr>ifileStream := seekg ?f (unat (of_nat k * bytesPerPiece s))\<rparr>" by blast
  have bpp: "bytesPerPiece s = kBytesPerPiece" using s by (simp add: sends_def)
  have k: "unat (of_nat k * kBytesPerPiece) = 1024 * k" using num small by (intro offset_small) simp
  have g: "good ?f" by (simp add: isGood_def fs_clear_def good_def)
  have s1: "sends s1 m" "good (ifileStream s1)" "gpos (ifileStream s1) = 1024 * k"
    using s g k bpp by (auto simp: s1_def sends_def seekg_def good_def fs_clear_def Let_def)
  have nm: "sent_fileName s1 = sent_fileName s" "sent_fileBytes s1 = sent_fileBytes s"
    "sent_fileCRC32 s1 = sent_fileCRC32 s" by (simp_all add: s1_def)
  from getNextPiece_good [OF s1(1,2)] obtain b s2 where
    r: "getNextPiece s1 = Inr (b, s2)" "buffer_inv b" "contents b = take 1024 (drop (1024 * k) m)"
    "sends s2 m" "ifileStream s2 = snd (fs_read (ifileStream s1) 1024)"
    "sent_fileName s2 = sent_fileName s" "sent_fileBytes s2 = sent_fileBytes s" "sent_fileCRC32 s2 = sent_fileCRC32 s"
    unfolding s1(3) nm by (elim exE conjE) (rule that; assumption)
  let ?s3 = "s2\<lparr>curPiece := curPiece s\<rparr>"
  let ?s' = "?s3\<lparr>ifileStream := seekg (ifileStream ?s3) (unat (curPiece ?s3 * bytesPerPiece ?s3))\<rparr>"
  have run: "getPieceOf s (of_nat k) = Inr (b, ?s')"
    using s r(1) by (simp add: getPieceOf_def isOpen_def sends_def Let_def s1_def)
  have f2: "ifileStream s2 = (ifileStream s1)\<lparr>gpos := 1024 * k + length (contents b),
      eofbit := length (contents b) < 1024, failbit := length (contents b) < 1024\<rparr>"
    using s1(1) unfolding r(5) fs_read_def if_P [OF s1(2)] s1(3) Let_def r(3)
    by (simp only: snd_conv sends_def)
  have "length (contents b) < 1024 \<longleftrightarrow> \<not> 1024 * Suc k \<le> length m" using r(3) by auto
  then have "if 1024 * Suc k \<le> length m
      then good (ifileStream ?s') \<and> gpos (ifileStream ?s') = unat (curPiece s * kBytesPerPiece)
      else \<not> good (ifileStream ?s')"
    using r(4) by (auto simp: f2 seekg_def good_def sends_def)
  moreover have "sends ?s' m" using r(4) by (simp add: sends_def seekg_def Let_def)
  ultimately show ?thesis using run r
    by (intro exI [of _ b] exI [of _ ?s']) (simp add: chunk_def)
qed

text \<open>Opening a file makes it ready to be streamed from its first piece.\<close>

lemma new_SendFileManager_open:
  assumes "fs path = Some m" and "crc_ok crc"
  shows "streaming (new_SendFileManager crc fs u path kBytesPerPiece) m 0 \<and>
    sent_fileBytes (new_SendFileManager crc fs u path kBytesPerPiece) = of_nat (length m) \<and>
    sent_fileCRC32 (new_SendFileManager crc fs u path kBytesPerPiece) = crc32_ref m"
  using assms calculateCRC32_ref [OF assms(2), of m]
  by (simp add: new_SendFileManager_def openFile_def Let_def streaming_def sends_def good_def
      calculateFileCRC32_eq)

lemma new_SendFileManager_missing:
  "fs path = None \<Longrightarrow> \<not> isOpen (new_SendFileManager crc fs u path bpp)"
  by (simp add: new_SendFileManager_def isOpen_def closed_ifile_def Let_def)

lemma initStatu_streaming: "sends s m \<Longrightarrow> streaming (initStatu s) m 0"
  by (auto simp: initStatu_def streaming_def sends_def isGood_def good_def fs_clear_def seekg_def Let_def)

end
