(* ===== verification/Get_File.thy ===== *)
theory Get_File
  imports Buffer CRC32 Header File_Stream Std_Map
begin

text \<open>
  \<open>client/GetFileManager\<close>: the file that is being received. Pieces are written where the
  stream stands; when a later piece arrives the gap is filled with zeros and the missing
  numbers are remembered, to be overwritten when they arrive. All arithmetic on piece
  numbers and offsets is on \<open>uint32_t\<close>.
\<close>

section \<open>State and operations\<close>

datatype WriteState = NONE | LOSS | LOSS_HEAVY | WRITE_FINISH | NOT_OPEN | RECV_ERROR

definition kMaxLossPiecesNum :: u32 where "kMaxLossPiecesNum = 1024"

record get_file =
  fileStream :: ofile
  lossPieces :: "(u32 \<times> unit) list"
  curPiece :: u32
  recv_filePath :: bytes
  recv_fileName :: bytes
  recv_fileBytes :: u64
  recv_fileCRC32 :: u32
  bytesPerPiece :: u32
  writtenBytes :: u64

text \<open>A \<open>char\<close> array as a string: up to the first zero.\<close>

definition c_string :: "bytes \<Rightarrow> bytes" where
  "c_string bs = takeWhile (\<lambda>c. c \<noteq> 0) bs"

text \<open>
  The limit is computed in 32 bits: \<open>UINT32_MAX * bytesPerPiece\<close> wraps around before it is
  compared. \<open>can_create\<close> is whether \<open>open\<close> with truncation succeeds.
\<close>

definition max_file_bytes :: "u32 \<Rightarrow> u64" where
  "max_file_bytes bpp = ucast (0xFFFFFFFF * bpp :: u32)"

definition new_GetFileManager :: "bytes \<Rightarrow> bool \<Rightarrow> FileData \<Rightarrow> u32 \<Rightarrow> get_file" where
  "new_GetFileManager curPath can_create d bpp =
     (let name = c_string (fileName d);
          g = \<lparr>fileStream = \<lparr>opened = False, data = [], ppos = 0\<rparr>, lossPieces = [], curPiece = 0,
               recv_filePath = [], recv_fileName = name, recv_fileBytes = fileBytes d,
               recv_fileCRC32 = fileCRC32 d, bytesPerPiece = bpp, writtenBytes = 0\<rparr>
      in if max_file_bytes bpp < fileBytes d then g
         else g\<lparr>fileStream := \<lparr>opened = can_create, data = [], ppos = 0\<rparr>,
                recv_filePath := curPath @ [0x2F] @ name\<rparr>)"

definition isOpen :: "get_file \<Rightarrow> bool" where "isOpen g = opened (fileStream g)"

text \<open>The loop over the gap; its counter is a \<open>size_t\<close>, the set holds \<open>uint32_t\<close>.\<close>

fun fill_gap :: "nat \<Rightarrow> nat \<Rightarrow> get_file \<Rightarrow> get_file" where
  "fill_gap i 0 g = g"
| "fill_gap i (Suc n) g =
     fill_gap (Suc i) n
       (g\<lparr>fileStream := fs_write (fileStream g) (replicate (unat (bytesPerPiece g)) 0),
          lossPieces := os_insert (of_nat i) (lossPieces g)\<rparr>)"

definition put_bytes :: "bytes \<Rightarrow> get_file \<Rightarrow> get_file" where
  "put_bytes d g =
     g\<lparr>fileStream := fs_write (fileStream g) d, writtenBytes := writtenBytes g + of_nat (length d)\<rparr>"

text \<open>The end of \<open>writeToFile\<close>: the checksum is computed, compared, and only logged.\<close>

definition check_finish :: "WriteState \<times> get_file \<Rightarrow> WriteState \<times> get_file" where
  "check_finish r =
     (let (ret, g) = r in
      if writtenBytes g = recv_fileBytes g then (WRITE_FINISH, g\<lparr>fileStream := fs_close (fileStream g)\<rparr>)
      else if recv_fileBytes g < writtenBytes g then (RECV_ERROR, g)
      else (ret, g))"

definition writeToFile :: "get_file \<Rightarrow> buffer \<Rightarrow> u32 \<Rightarrow> (WriteState \<times> get_file) outcome" where
  "writeToFile g buf piece =
     (if \<not> isOpen g then Inr (NOT_OPEN, g)
      else if curPiece g < piece then
        if curPiece g + kMaxLossPiecesNum < piece then Inr (LOSS_HEAVY, g)
        else
          let g1 = fill_gap (unat (curPiece g)) (unat piece - unat (curPiece g)) g
          in bindE (peek buf 0 (readableBytes buf)) (\<lambda>d.
             Inr (check_finish (LOSS, (put_bytes d g1)\<lparr>curPiece := piece + 1\<rparr>)))
      else if piece < curPiece g then
        if os_member piece (lossPieces g)
        then
          let g1 = g\<lparr>fileStream := seekp (fileStream g) (unat (piece * bytesPerPiece g))\<rparr>
          in bindE (peek buf 0 (readableBytes buf)) (\<lambda>d.
             let g2 = put_bytes d g1;
                 g3 = g2\<lparr>fileStream := seekp (fileStream g2) (unat (curPiece g2 * bytesPerPiece g2)),
                         lossPieces := om_erase piece (lossPieces g2)\<rparr>
             in Inr (check_finish (NONE, g3)))
        else Inr (check_finish (NONE, g))
      else
        bindE (peek buf 0 (readableBytes buf)) (\<lambda>d.
          let g1 = put_bytes d g
          in Inr (check_finish (NONE, g1\<lparr>curPiece := curPiece g1 + 1\<rparr>))))"

definition getLossPieces :: "get_file \<Rightarrow> u32 list \<Rightarrow> u32 list" where
  "getLossPieces g buf = buf @ map fst (lossPieces g)"

definition checkCRC32 :: "crc_state \<Rightarrow> (bytes \<rightharpoonup> bytes) \<Rightarrow> get_file \<Rightarrow> bool" where
  "checkCRC32 crc fs g = (fst (calculateFileCRC32 crc (fs (recv_filePath g))) = recv_fileCRC32 g)"


section \<open>Small numbers\<close>

text \<open>Piece numbers of a file that fits are far below \<open>2 ^ 32\<close>.\<close>

lemma small_u32: "k < 2 ^ 32 \<Longrightarrow> unat (of_nat k :: u32) = k"
  by (simp add: unat_of_nat)

lemma small_u64: "k < 2 ^ 64 \<Longrightarrow> unat (of_nat k :: u64) = k"
  by (simp add: unat_of_nat)

lemma less_u32: "j < 2 ^ 32 \<Longrightarrow> k < 2 ^ 32 \<Longrightarrow> (of_nat j :: u32) < of_nat k \<longleftrightarrow> j < k"
  using small_u32 [of j] small_u32 [of k] by (simp add: word_less_nat_alt del: unat_of_nat)

lemma inj_u32: "j < 2 ^ 32 \<Longrightarrow> k < 2 ^ 32 \<Longrightarrow> (of_nat j :: u32) = of_nat k \<longleftrightarrow> j = k"
  using small_u32 [of j] small_u32 [of k] by metis

lemma inj_u64: "j < 2 ^ 64 \<Longrightarrow> k < 2 ^ 64 \<Longrightarrow> (of_nat j :: u64) = of_nat k \<longleftrightarrow> j = k"
  using small_u64 [of j] small_u64 [of k] by metis

lemma less_u64: "j < 2 ^ 64 \<Longrightarrow> k < 2 ^ 64 \<Longrightarrow> (of_nat j :: u64) < of_nat k \<longleftrightarrow> j < k"
  using small_u64 [of j] small_u64 [of k] by (simp add: word_less_nat_alt del: unat_of_nat)

lemma offset_u32: "1024 * k < 2 ^ 32 \<Longrightarrow> unat (of_nat k * 1024 :: u32) = 1024 * k"
proof -
  assume "1024 * k < 2 ^ 32"
  then have "unat (of_nat (1024 * k) :: u32) = 1024 * k" by (rule small_u32)
  moreover have "of_nat k * 1024 = (of_nat (1024 * k) :: u32)" by simp
  ultimately show ?thesis by (simp only:)
qed

lemma max_file_bytes_value: "unat (max_file_bytes kBytesPerPiece) = 4294966272"
  by (simp add: max_file_bytes_def kBytesPerPiece_def)

section \<open>How much has arrived\<close>

definition block :: "bytes \<Rightarrow> nat set \<Rightarrow> nat \<Rightarrow> bytes" where
  "block m L k = (if k \<in> L then replicate 1024 0 else chunk 1024 m k)"

definition blocks :: "bytes \<Rightarrow> nat set \<Rightarrow> nat \<Rightarrow> bytes" where
  "blocks m L cur = concat (map (block m L) [0..<cur])"

definition arrived :: "bytes \<Rightarrow> nat set \<Rightarrow> nat \<Rightarrow> nat" where
  "arrived m L cur = (\<Sum>k \<in> {..<cur} - L. length (chunk 1024 m k))"

lemma sum_chunks: "(\<Sum>k < c. length (chunk 1024 m k)) = min (1024 * c) (length m)"
proof -
  have "(\<Sum>k < c. length (chunk 1024 m k)) = length (concat (map (chunk 1024 m) [0..<c]))"
    by (simp add: length_concat comp_def interv_sum_list_conv_sum_set_nat lessThan_atLeast0)
  then show ?thesis by (simp add: concat_chunks)
qed

lemma sum_all_chunks: "(\<Sum>k < piece_count m. length (chunk 1024 m k)) = length m"
proof -
  have "length m \<le> 1024 * piece_count m"
    using piece_count_iff [of "piece_count m" m] by simp
  then show ?thesis by (simp add: sum_chunks)
qed

lemma arrived_split:
  assumes "cur \<le> piece_count m"
  shows "arrived m L cur + (\<Sum>k \<in> {..<piece_count m} - ({..<cur} - L). length (chunk 1024 m k)) = length m"
proof -
  have "{..<cur} - L \<subseteq> {..<piece_count m}" using assms by auto
  from sum.subset_diff [OF this, of "\<lambda>k. length (chunk 1024 m k)"]
  show ?thesis by (simp add: arrived_def sum_all_chunks)
qed

lemma arrived_le: "cur \<le> piece_count m \<Longrightarrow> arrived m L cur \<le> length m"
  using arrived_split [of cur m L] by simp

lemma arrived_all:
  assumes "cur \<le> piece_count m" and "L \<subseteq> {..<cur}"
  shows "arrived m L cur = length m \<longleftrightarrow> cur = piece_count m \<and> L = {}"
proof -
  let ?rest = "{..<piece_count m} - ({..<cur} - L)"
  have pos: "length (chunk 1024 m k) > 0" if "k \<in> ?rest" for k
    using that by (simp add: length_chunk piece_count_iff)
  have "arrived m L cur = length m \<longleftrightarrow> (\<Sum>k \<in> ?rest. length (chunk 1024 m k)) = 0"
    using arrived_split [OF assms(1), of L] by linarith
  also have "\<dots> \<longleftrightarrow> ?rest = {}" using pos by fastforce
  also have "\<dots> \<longleftrightarrow> {..<piece_count m} \<subseteq> {..<cur} - L" by blast
  also have "\<dots> \<longleftrightarrow> cur = piece_count m \<and> L = {}"
  proof
    assume sub: "{..<piece_count m} \<subseteq> {..<cur} - L"
    from order_trans [OF sub Diff_subset] assms(1) have "cur = piece_count m" by simp
    moreover from this sub have "L \<inter> {..<cur} = {}" by auto
    ultimately show "cur = piece_count m \<and> L = {}" using assms(2) by auto
  qed auto
  finally show ?thesis .
qed

lemma blocks_done: "blocks m {} (piece_count m) = m"
proof -
  have "length m \<le> 1024 * piece_count m"
    using piece_count_iff [of "piece_count m" m] by simp
  then show ?thesis by (simp add: blocks_def block_def [abs_def] concat_chunks)
qed

lemma blocks_Suc: "blocks m L (Suc c) = blocks m L c @ block m L c"
  by (simp add: blocks_def)

lemma block_length:
  "1024 * Suc k \<le> length m \<or> k \<in> L \<Longrightarrow> length (block m L k) = 1024"
  by (auto simp: block_def length_chunk)

lemma blocks_length:
  "1024 * c \<le> length m \<Longrightarrow> length (blocks m L c) = 1024 * c"
  by (induction c) (simp_all add: blocks_Suc block_length, simp add: blocks_def)

lemma blocks_cong: "(\<And>k. k < c \<Longrightarrow> k \<in> L \<longleftrightarrow> k \<in> L') \<Longrightarrow> blocks m L c = blocks m L' c"
  unfolding blocks_def by (intro arg_cong [of _ _ concat] map_cong) (auto simp: block_def)

text \<open>A gap is a run of zero blocks.\<close>

lemma blocks_gap:
  "L \<subseteq> {..<c} \<Longrightarrow> blocks m (L \<union> {c..<c + n}) (c + n) = blocks m L c @ replicate (n * 1024) 0"
proof (induction n)
  case 0
  then show ?case by simp
next
  case (Suc n)
  have "blocks m (L \<union> {c..<c + Suc n}) (c + n) = blocks m (L \<union> {c..<c + n}) (c + n)"
    by (rule blocks_cong) auto
  with Suc have "blocks m (L \<union> {c..<c + Suc n}) (c + Suc n) =
      blocks m L c @ replicate (n * 1024) 0 @ replicate 1024 0"
    by (simp add: blocks_Suc block_def)
  then show ?case by (simp add: replicate_add [symmetric] add.commute)
qed

text \<open>Overwriting a hole.\<close>

lemma blocks_split:
  assumes "k < c"
  shows "blocks m L c = blocks m L k @ block m L k @ concat (map (block m L) [Suc k..<c])"
proof -
  have "[0..<c] = [0..<k] @ k # [Suc k..<c]"
    using assms upt_add_eq_append [of 0 k "c - k"] upt_conv_Cons [of k c] by simp
  then show ?thesis by (simp add: blocks_def)
qed

lemma blocks_fill:
  assumes "k \<in> L" and "k < c" and "1024 * Suc k \<le> length m"
  shows "write_at (blocks m L c) (1024 * k) (chunk 1024 m k) = blocks m (L - {k}) c"
proof -
  let ?post = "concat (map (block m L) [Suc k..<c])"
  have b: "block m L k = replicate 1024 0" "block m (L - {k}) k = chunk 1024 m k"
    using assms(1) by (simp_all add: block_def)
  have post: "concat (map (block m (L - {k})) [Suc k..<c]) = ?post"
    by (intro arg_cong [of _ _ concat] map_cong) (auto simp: block_def)
  have "blocks m (L - {k}) k = blocks m L k" by (rule blocks_cong) auto
  moreover have "length (blocks m L k) = 1024 * k" using assms(3) by (simp add: blocks_length)
  moreover have "length (chunk 1024 m k) = 1024" using assms(3) by (simp add: length_chunk)
  ultimately show ?thesis
    unfolding blocks_split [OF assms(2), of m L] blocks_split [OF assms(2), of m "L - {k}"] b post
    by (simp add: write_at_inside)
qed


section \<open>Receiving\<close>

text \<open>
  The state while the pieces of \<open>m\<close> arrive: the numbers below \<open>cur\<close> have been passed, those
  in \<open>L\<close> are missing; the file holds the pieces that have arrived and zeros for the others.
\<close>

definition fits_limit :: "bytes \<Rightarrow> bool" where
  "fits_limit m \<longleftrightarrow> 0 < length m \<and> length m \<le> 4294966272"

definition same_file :: "get_file \<Rightarrow> get_file \<Rightarrow> bool" where
  "same_file g g' \<longleftrightarrow> recv_filePath g' = recv_filePath g \<and> recv_fileName g' = recv_fileName g \<and>
     recv_fileBytes g' = recv_fileBytes g \<and> recv_fileCRC32 g' = recv_fileCRC32 g"

definition receiving :: "get_file \<Rightarrow> bytes \<Rightarrow> nat \<Rightarrow> nat set \<Rightarrow> bool" where
  "receiving g m cur L \<longleftrightarrow> fits_limit m \<and>
     isOpen g \<and> bytesPerPiece g = 1024 \<and> recv_fileBytes g = of_nat (length m) \<and>
     curPiece g = of_nat cur \<and> cur \<le> piece_count m \<and> L \<subseteq> {..<cur} \<and>
     (\<forall>k \<in> L. 1024 * Suc k \<le> length m) \<and>
     om_inv (lossPieces g) \<and> om_keys (lossPieces g) = of_nat ` L \<and>
     data (fileStream g) = blocks m L cur \<and>
     (cur < piece_count m \<longrightarrow> ppos (fileStream g) = length (data (fileStream g))) \<and>
     writtenBytes g = of_nat (arrived m L cur)"

lemma fits_bounds:
  assumes "fits_limit m"
  shows "piece_count m \<le> 4194303" and "k < piece_count m \<Longrightarrow> 1024 * k < 2 ^ 32"
    and "c \<le> piece_count m \<Longrightarrow> 1024 * c < 2 ^ 32" and "k \<le> piece_count m \<Longrightarrow> k < 2 ^ 32"
    and "arrived m L c \<le> length m \<Longrightarrow> arrived m L c < 2 ^ 64"
proof -
  have "length m + 1023 < 4194304 * 1024" using assms by (simp add: fits_limit_def)
  then have "(length m + 1023) div 1024 < 4194304" by (rule less_mult_imp_div_less)
  then show n: "piece_count m \<le> 4194303" by (simp add: piece_count_def)
  then show "k < piece_count m \<Longrightarrow> 1024 * k < 2 ^ 32" "c \<le> piece_count m \<Longrightarrow> 1024 * c < 2 ^ 32"
    "k \<le> piece_count m \<Longrightarrow> k < 2 ^ 32" by simp_all
  show "arrived m L c \<le> length m \<Longrightarrow> arrived m L c < 2 ^ 64"
    using assms by (simp add: fits_limit_def)
qed

lemma fill_gap_spec:
  assumes "om_inv (lossPieces g)" and "ppos (fileStream g) = length (data (fileStream g))"
    and "bytesPerPiece g = 1024"
  shows "om_inv (lossPieces (fill_gap i n g)) \<and>
    om_keys (lossPieces (fill_gap i n g)) = om_keys (lossPieces g) \<union> of_nat ` {i..<i + n} \<and>
    data (fileStream (fill_gap i n g)) = data (fileStream g) @ replicate (n * 1024) 0 \<and>
    ppos (fileStream (fill_gap i n g)) = length (data (fileStream (fill_gap i n g))) \<and>
    opened (fileStream (fill_gap i n g)) = opened (fileStream g) \<and>
    curPiece (fill_gap i n g) = curPiece g \<and> bytesPerPiece (fill_gap i n g) = 1024 \<and>
    writtenBytes (fill_gap i n g) = writtenBytes g \<and> same_file g (fill_gap i n g)"
  using assms
proof (induction i n g rule: fill_gap.induct)
  case (1 i g)
  then show ?case by (simp add: same_file_def)
next
  case (2 i n g)
  let ?g = "g\<lparr>fileStream := fs_write (fileStream g) (replicate (unat (bytesPerPiece g)) 0),
      lossPieces := os_insert (of_nat i) (lossPieces g)\<rparr>"
  have d: "data (fileStream ?g) = data (fileStream g) @ replicate 1024 0"
    using 2 by (simp add: fs_append)
  have "ppos (fileStream ?g) = length (data (fileStream ?g))" using 2 d by simp
  moreover have "om_inv (lossPieces ?g)" using 2 by (simp add: os_insert_def om_inv_put)
  moreover have "{i..<i + Suc n} = insert i {Suc i..<Suc i + n}" by auto
  ultimately show ?case
    using 2 d by (auto simp: os_insert_def same_file_def replicate_add add.commute)
qed


definition accept :: "nat \<Rightarrow> nat \<times> nat set \<Rightarrow> nat \<times> nat set" where
  "accept k st =
     (let (cur, L) = st in
      if cur < k then (if cur + 1024 < k then (cur, L) else (Suc k, L \<union> {cur..<k}))
      else if k < cur then (cur, L - {k})
      else (Suc cur, L))"

definition complete :: "bytes \<Rightarrow> nat \<times> nat set \<Rightarrow> bool" where
  "complete m st \<longleftrightarrow> st = (piece_count m, {})"

lemma check_receiving:
  assumes r: "receiving g m cur L"
  shows "check_finish (ret, g) =
    (if complete m (cur, L) then (WRITE_FINISH, g\<lparr>fileStream := fs_close (fileStream g)\<rparr>) else (ret, g))"
proof -
  have le: "arrived m L cur \<le> length m" using r by (simp add: receiving_def arrived_le)
  have lim: "fits_limit m" using r by (simp add: receiving_def)
  have small: "arrived m L cur < 2 ^ 64" "length m < 2 ^ 64"
    using fits_bounds(5) [OF lim le] lim by (auto simp: fits_limit_def)
  have "writtenBytes g = recv_fileBytes g \<longleftrightarrow> arrived m L cur = length m"
    using r inj_u64 [OF small] by (simp add: receiving_def)
  also have "\<dots> \<longleftrightarrow> complete m (cur, L)"
    using r arrived_all [of cur m L] by (simp add: receiving_def complete_def)
  finally have eq: "writtenBytes g = recv_fileBytes g \<longleftrightarrow> complete m (cur, L)" .
  have "\<not> recv_fileBytes g < writtenBytes g"
    using r le less_u64 [OF small(2,1)] by (simp add: receiving_def)
  with eq show ?thesis by (simp add: check_finish_def)
qed

lemma arrived_insert:
  assumes "{..<cur'} - L' = insert k ({..<cur} - L)" and "k \<notin> {..<cur} - L"
  shows "arrived m L' cur' = arrived m L cur + length (chunk 1024 m k)"
  using assms by (simp add: arrived_def)

lemma receiving_next:
  assumes r: "receiving g m cur L" and k: "cur < piece_count m"
  shows "receiving ((put_bytes (chunk 1024 m cur) g)\<lparr>curPiece := of_nat (Suc cur)\<rparr>) m (Suc cur) L"
proof -
  have L: "cur \<notin> L" using r by (auto simp: receiving_def)
  have e: "{..<Suc cur} - L = insert cur ({..<cur} - L)" using L by auto
  have "arrived m L (Suc cur) = arrived m L cur + length (chunk 1024 m cur)"
    using arrived_insert [OF e] by simp
  moreover have "blocks m L (Suc cur) = blocks m L cur @ chunk 1024 m cur"
    using L by (simp add: blocks_Suc block_def)
  moreover have "data (fs_write (fileStream g) (chunk 1024 m cur)) = blocks m L cur @ chunk 1024 m cur"
    using r k by (simp add: receiving_def fs_append)
  ultimately show ?thesis
    using r k by (auto simp: receiving_def put_bytes_def isOpen_def)
qed

lemma receiving_gap:
  assumes r: "receiving g m cur L" and k: "cur < k" "k < piece_count m"
  shows "receiving ((fill_gap cur (k - cur) g)\<lparr>curPiece := of_nat k\<rparr>) m k (L \<union> {cur..<k})"
proof -
  have g: "om_inv (lossPieces g)" "ppos (fileStream g) = length (data (fileStream g))" "bytesPerPiece g = 1024"
    using r k by (auto simp: receiving_def)
  note f = fill_gap_spec [OF g, of cur "k - cur"]
  have full: "1024 * Suc j \<le> length m" if "j < k" for j
    using that k(2) by (simp add: piece_count_iff)
  have L: "L \<subseteq> {..<cur}" using r by (simp add: receiving_def)
  have "{..<k} - (L \<union> {cur..<k}) = {..<cur} - L" using k(1) by auto
  then have a: "arrived m (L \<union> {cur..<k}) k = arrived m L cur" by (simp add: arrived_def)
  have "blocks m (L \<union> {cur..<k}) k = blocks m L cur @ replicate ((k - cur) * 1024) 0"
    using blocks_gap [OF L, of m "k - cur"] k(1) by simp
  with r f k a full show ?thesis
    by (auto simp: receiving_def isOpen_def same_file_def image_Un)
qed

lemma receiving_fill:
  assumes r: "receiving g m cur L" and k: "k \<in> L"
  shows "receiving
    ((put_bytes (chunk 1024 m k) (g\<lparr>fileStream := seekp (fileStream g) (1024 * k)\<rparr>))
       \<lparr>fileStream := seekp (fs_write (seekp (fileStream g) (1024 * k)) (chunk 1024 m k)) (1024 * cur),
        lossPieces := om_erase (of_nat k) (lossPieces g)\<rparr>) m cur (L - {k})"
proof -
  have lim: "fits_limit m" and full: "1024 * Suc k \<le> length m" and cur: "cur \<le> piece_count m"
    and L: "L \<subseteq> {..<cur}" and kc: "k < cur" using r k by (auto simp: receiving_def)
  have e: "{..<cur} - (L - {k}) = insert k ({..<cur} - L)" using k kc by auto
  have "k \<notin> {..<cur} - L" using k by simp
  note arr = arrived_insert [OF e this, of m]
  have small: "j < 2 ^ 32" if "j < cur" for j using that cur fits_bounds(4) [OF lim, of j] by simp
  have "inj_on (of_nat :: nat \<Rightarrow> u32) {..<cur}"
    by (rule inj_onI) (use inj_u32 small in auto)
  then have "(of_nat :: nat \<Rightarrow> u32) ` (L - {k}) = of_nat ` L - {of_nat k}"
    using L k by (subst inj_on_image_set_diff [of _ "{..<cur}"]) auto
  then have keys: "om_keys (om_erase (of_nat k) (lossPieces g)) = of_nat ` (L - {k})"
    using r by (simp add: receiving_def om_keys_erase)
  have d: "data (fs_write (seekp (fileStream g) (1024 * k)) (chunk 1024 m k)) = blocks m (L - {k}) cur"
    using r blocks_fill [OF k kc full] by (simp add: receiving_def fs_write_def seekp_def)
  have "length (blocks m (L - {k}) cur) = 1024 * cur" if "cur < piece_count m"
    using that blocks_length [of cur m] by (simp add: piece_count_iff)
  with r d keys arr show ?thesis
    by (auto simp: receiving_def isOpen_def put_bytes_def seekp_def om_inv_erase fs_write_def)
qed

text \<open>One honest piece.\<close>

text \<open>What \<open>writeToFile\<close> does with a piece, by where its number lies.\<close>

lemma piece_facts:
  assumes r: "receiving g m cur L" and k: "k < piece_count m" and b: "buffer_inv b" "contents b = chunk 1024 m k"
  shows "isOpen g" "curPiece g = of_nat cur" "bytesPerPiece g = 1024" "k < 2 ^ 32" "cur < 2 ^ 32"
    "curPiece g < of_nat k \<longleftrightarrow> cur < k" "of_nat k < curPiece g \<longleftrightarrow> k < cur"
    "curPiece g + kMaxLossPiecesNum < of_nat k \<longleftrightarrow> cur + 1024 < k"
    "peek b 0 (readableBytes b) = Inr (chunk 1024 m k)"
proof -
  have cur: "cur \<le> piece_count m" and lim: "fits_limit m" using r by (auto simp: receiving_def)
  show op: "isOpen g" "curPiece g = of_nat cur" "bytesPerPiece g = 1024" using r by (auto simp: receiving_def)
  have small: "k < 2 ^ 32" "cur < 2 ^ 32" "cur + 1024 < 2 ^ 32"
    using fits_bounds(1) [OF lim] fits_bounds(4) [OF lim, of k] cur k by auto
  then show "k < 2 ^ 32" "cur < 2 ^ 32" "curPiece g < of_nat k \<longleftrightarrow> cur < k" "of_nat k < curPiece g \<longleftrightarrow> k < cur"
    by (simp_all add: op less_u32)
  show "curPiece g + kMaxLossPiecesNum < of_nat k \<longleftrightarrow> cur + 1024 < k"
    using less_u32 [OF small(3,1)] by (simp add: op kMaxLossPiecesNum_def)
  show "peek b 0 (readableBytes b) = Inr (chunk 1024 m k)"
    using retrieveAsString_spec [OF b(1)] b(2) by (auto simp: retrieveAsString_def bindE_eq_Inr)
qed

definition piece_taken :: "get_file \<Rightarrow> buffer \<Rightarrow> nat \<Rightarrow> bytes \<Rightarrow> nat \<Rightarrow> nat set \<Rightarrow> bool" where
  "piece_taken g b k m cur L \<longleftrightarrow>
     (\<exists>x h. writeToFile g b (of_nat k) = Inr (check_finish (x, h)) \<and> x \<noteq> WRITE_FINISH \<and> receiving h m cur L)"

lemma piece_ahead:
  assumes r: "receiving g m cur L" and k: "k < piece_count m" and b: "buffer_inv b" "contents b = chunk 1024 m k"
    and gap: "cur < k" "\<not> cur + 1024 < k"
  shows "piece_taken g b k m (Suc k) (L \<union> {cur..<k})"
proof -
  note f = piece_facts [OF r k b]
  let ?g = "(fill_gap cur (k - cur) g)\<lparr>curPiece := of_nat k\<rparr>"
  let ?h = "(put_bytes (chunk 1024 m k) (fill_gap cur (k - cur) g))\<lparr>curPiece := of_nat k + 1\<rparr>"
  have "?h = (put_bytes (chunk 1024 m k) ?g)\<lparr>curPiece := of_nat (Suc k)\<rparr>"
    by (simp add: put_bytes_def)
  then have "receiving ?h m (Suc k) (L \<union> {cur..<k})"
    using receiving_next [OF receiving_gap [OF r gap(1) k] k] by simp
  moreover have "writeToFile g b (of_nat k) = Inr (check_finish (LOSS, ?h))"
    using gap f by (simp add: writeToFile_def small_u32 Let_def)
  ultimately show ?thesis unfolding piece_taken_def by blast
qed

lemma piece_missing:
  assumes r: "receiving g m cur L" and k: "k < piece_count m" and b: "buffer_inv b" "contents b = chunk 1024 m k"
    and hole: "k < cur" "k \<in> L"
  shows "piece_taken g b k m cur (L - {k})"
proof -
  note f = piece_facts [OF r k b]
  have lim: "fits_limit m" "cur \<le> piece_count m" using r by (simp_all add: receiving_def)
  have "1024 * k < 2 ^ 32" "1024 * cur < 2 ^ 32"
    using fits_bounds(2) [OF lim(1) k] fits_bounds(3) [OF lim] by auto
  note off = this [THEN offset_u32]
  have mem: "os_member (of_nat k) (lossPieces g)" using r hole by (simp add: receiving_def os_member_iff)
  show ?thesis
    unfolding piece_taken_def using receiving_fill [OF r hole(2)] hole f mem off
    by (intro exI [of _ NONE] exI conjI) (assumption | simp add: writeToFile_def Let_def put_bytes_def)+
qed

lemma piece_known:
  assumes r: "receiving g m cur L" and k: "k < piece_count m" and b: "buffer_inv b" "contents b = chunk 1024 m k"
    and old: "k < cur" "k \<notin> L"
  shows "piece_taken g b k m cur L"
proof -
  note f = piece_facts [OF r k b]
  have L: "L \<subseteq> {..<cur}" using r by (simp add: receiving_def)
  have "of_nat k \<notin> (of_nat ` L :: u32 set)"
  proof
    assume "of_nat k \<in> (of_nat ` L :: u32 set)"
    then obtain j where j: "j \<in> L" "(of_nat k :: u32) = of_nat j" by auto
    then have "j < 2 ^ 32" using L f(5) by auto
    with j f(4) old show False by (simp add: inj_u32)
  qed
  then have mem: "\<not> os_member (of_nat k) (lossPieces g)" using r by (simp add: receiving_def os_member_iff)
  with r show ?thesis
    unfolding piece_taken_def using old f by (intro exI [of _ NONE] exI [of _ g]) (simp add: writeToFile_def)
qed

lemma piece_next:
  assumes r: "receiving g m cur L" and k: "cur < piece_count m" and b: "buffer_inv b" "contents b = chunk 1024 m cur"
  shows "piece_taken g b cur m (Suc cur) L"
  unfolding piece_taken_def using receiving_next [OF r k] piece_facts [OF r k b]
  by (intro exI [of _ NONE] exI conjI) (assumption | simp add: writeToFile_def Let_def put_bytes_def add.commute)+

lemma write_piece:
  assumes r: "receiving g m cur L" and k: "k < piece_count m"
    and b: "buffer_inv b" "contents b = chunk 1024 m k" and acc: "accept k (cur, L) = (cur', L')"
  shows "\<exists>ret g'. writeToFile g b (of_nat k) = Inr (ret, g') \<and>
    (if complete m (cur', L')
     then ret = WRITE_FINISH \<and> \<not> isOpen g' \<and> data (fileStream g') = m
     else ret \<noteq> WRITE_FINISH \<and> receiving g' m cur' L')"
proof (cases "cur + 1024 < k")
  case True
  then have "cur' = cur" "L' = L" "\<not> complete m (cur, L)"
    using acc k by (auto simp: accept_def complete_def)
  with True r piece_facts [OF r k b] show ?thesis by (simp add: writeToFile_def)
next
  case near: False
  have L: "L \<subseteq> {..<cur}" using r by (simp add: receiving_def)
  have "piece_taken g b k m cur' L'"
    using piece_ahead [OF r k b _ near] piece_missing [OF r k b] piece_known [OF r k b] piece_next [OF r, of b] k b acc near
    by (cases k cur rule: linorder_cases; cases "k \<in> L") (auto simp: accept_def)
  then obtain x h where
    w: "writeToFile g b (of_nat k) = Inr (check_finish (x, h))" "x \<noteq> WRITE_FINISH" "receiving h m cur' L'"
    unfolding piece_taken_def by blast
  have "data (fileStream h) = m" if "complete m (cur', L')"
    using that w(3) by (simp add: receiving_def complete_def blocks_done)
  moreover have "\<not> isOpen (h\<lparr>fileStream := fs_close (fileStream h)\<rparr>)" "data (fs_close f) = data f" for f
    by (simp_all add: isOpen_def fs_close_def)
  ultimately show ?thesis using w check_receiving [OF w(3), of x] by auto
qed

end
