(* ===== verification/File_Transfer.thy ===== *)
theory File_Transfer
  imports Send_File Get_File
begin

text \<open>
  A transfer from end to end: the pieces the sender's file manager hands out, delivered to
  the receiver's in any order, with losses, duplicates and retransmissions.
\<close>

section \<open>Deliveries\<close>

fun deliver :: "(u32 \<times> buffer) list \<Rightarrow> get_file \<Rightarrow> (WriteState list \<times> get_file) outcome" where
  "deliver [] g = Inr ([], g)"
| "deliver ((k, b) # ps) g =
     bindE (writeToFile g b k) (\<lambda>(ret, g1).
     bindE (deliver ps g1) (\<lambda>(rets, g2). Inr (ret # rets, g2)))"

text \<open>A datagram of the sender: a piece number, and the bytes of that piece.\<close>

definition true_piece :: "bytes \<Rightarrow> u32 \<times> buffer \<Rightarrow> bool" where
  "true_piece m p \<longleftrightarrow> (\<exists>k < piece_count m. fst p = of_nat k \<and> buffer_inv (snd p) \<and>
     contents (snd p) = chunk 1024 m k)"

definition piece_no :: "u32 \<times> buffer \<Rightarrow> nat" where
  "piece_no p = unat (fst p)"

lemma true_pieceD:
  assumes "true_piece m p" and "fits_limit m"
  shows "piece_no p < piece_count m" "fst p = of_nat (piece_no p)" "buffer_inv (snd p)"
    "contents (snd p) = chunk 1024 m (piece_no p)"
proof -
  from assms(1) obtain k where k: "k < piece_count m" "fst p = of_nat k" "buffer_inv (snd p)"
    "contents (snd p) = chunk 1024 m k" unfolding true_piece_def by blast
  have "piece_no p = k" using k fits_bounds(4) [OF assms(2), of k] by (simp add: piece_no_def small_u32)
  with k show "piece_no p < piece_count m" "fst p = of_nat (piece_no p)" "buffer_inv (snd p)"
    "contents (snd p) = chunk 1024 m (piece_no p)" by simp_all
qed

lemma closed_deliver: "\<not> Get_File.isOpen g \<Longrightarrow> deliver ps g = Inr (replicate (length ps) NOT_OPEN, g)"
  by (induction ps) (auto simp: writeToFile_def)

text \<open>Where the receiver is after a list of pieces, and whether it finished on the way.\<close>

fun reached :: "bytes \<Rightarrow> nat list \<Rightarrow> nat \<times> nat set \<Rightarrow> bool" where
  "reached m [] st = False"
| "reached m (k # ks) st = (complete m (accept k st) \<or> reached m ks (accept k st))"

lemma deliver_pieces:
  assumes "receiving g m cur L" and "\<forall>p \<in> set ps. true_piece m p"
  shows "\<exists>rets g'. deliver ps g = Inr (rets, g') \<and>
    (WRITE_FINISH \<in> set rets \<longleftrightarrow> reached m (map piece_no ps) (cur, L)) \<and>
    (if reached m (map piece_no ps) (cur, L) then data (fileStream g') = m \<and> \<not> Get_File.isOpen g'
     else \<exists>c M. fold accept (map piece_no ps) (cur, L) = (c, M) \<and> receiving g' m c M)"
  using assms
proof (induction ps arbitrary: g cur L)
  case Nil
  then show ?case by simp
next
  case (Cons p ps)
  have lim: "fits_limit m" using Cons.prems(1) by (simp add: receiving_def)
  have "true_piece m p" using Cons.prems(2) by simp
  note tp = true_pieceD [OF this lim]
  obtain cur' L' where acc: "accept (piece_no p) (cur, L) = (cur', L')" by fastforce
  from write_piece [OF Cons.prems(1) tp(1,3,4) acc] obtain ret g1 where
    w: "writeToFile g (snd p) (fst p) = Inr (ret, g1)"
    and o: "if complete m (cur', L')
      then ret = WRITE_FINISH \<and> \<not> Get_File.isOpen g1 \<and> data (fileStream g1) = m
      else ret \<noteq> WRITE_FINISH \<and> receiving g1 m cur' L'"
    unfolding tp(2) [symmetric] by blast
  obtain k b where p: "p = (k, b)" by fastforce
  show ?case
  proof (cases "complete m (cur', L')")
    case True
    with o w acc closed_deliver [of g1 ps] show ?thesis by (simp add: p)
  next
    case False
    with o have "receiving g1 m cur' L'" "ret \<noteq> WRITE_FINISH" by auto
    from Cons.IH [OF this(1)] Cons.prems(2) this(2) w acc False show ?thesis by (auto simp: p)
  qed
qed

section \<open>Where losses and retransmissions lead\<close>

lemma fold_accept_in_order: "fold accept [0..<n] (0, {}) = (n, {})"
  by (induction n) (simp_all add: accept_def)

lemma fold_accept_fill:
  "\<forall>k \<in> set ks. k < n \<Longrightarrow> fold accept ks (n, L) = (n, L - set ks)"
proof (induction ks arbitrary: L)
  case (Cons k ks)
  then have "accept k (n, L) = (n, L - {k})" by (simp add: accept_def)
  moreover have "L - {k} - set ks = L - set (k # ks)" by auto
  ultimately show ?case using Cons by simp
qed simp

lemma reached_fold:
  "fold accept ks st = (piece_count m, {}) \<Longrightarrow> ks \<noteq> [] \<Longrightarrow> reached m ks st"
proof (induction ks arbitrary: st)
  case (Cons k ks)
  then show ?case by (cases "ks = []") (auto simp: complete_def)
qed simp

text \<open>The list of missing pieces that a retransmission request carries.\<close>

lemma loss_list:
  assumes "receiving g m cur L"
  shows "set (map unat (getLossPieces g [])) = L"
proof -
  have "\<forall>k \<in> L. unat (of_nat k :: u32) = k"
  proof
    fix k assume "k \<in> L"
    then have "k < 2 ^ 32"
      using assms fits_bounds(4) [of m cur] unfolding receiving_def by force
    then show "unat (of_nat k :: u32) = k" by (rule small_u32)
  qed
  moreover have "set (map fst (lossPieces g)) = of_nat ` L"
    using assms by (simp add: receiving_def om_keys_def)
  then have "set (map unat (getLossPieces g [])) = unat ` (of_nat ` L :: u32 set)"
    by (simp add: getLossPieces_def flip: image_image)
  ultimately show ?thesis by (simp add: image_image)
qed

section \<open>The receiver starts\<close>

lemma new_GetFileManager_receiving:
  assumes "fits_limit m" and "fileBytes d = of_nat (length m)"
  shows "receiving (new_GetFileManager cp True d kBytesPerPiece) m 0 {}"
proof -
  have "\<not> max_file_bytes kBytesPerPiece < fileBytes d"
    using assms max_file_bytes_value
    by (simp add: word_less_nat_alt small_u64 fits_limit_def del: unat_of_nat)
  with assms show ?thesis
    by (simp add: new_GetFileManager_def receiving_def Get_File.isOpen_def Let_def kBytesPerPiece_def
        blocks_def arrived_def)
qed

lemma new_GetFileManager_open_iff:
  "Get_File.isOpen (new_GetFileManager cp can d kBytesPerPiece) \<longleftrightarrow> can \<and> unat (fileBytes d) \<le> 4294966272"
  using max_file_bytes_value
  by (auto simp: new_GetFileManager_def Get_File.isOpen_def Let_def word_less_nat_alt)

section \<open>The sender hands out true pieces\<close>

fun next_pieces :: "nat \<Rightarrow> send_file \<Rightarrow> ((u32 \<times> buffer) list \<times> send_file) outcome" where
  "next_pieces 0 s = Inr ([], s)"
| "next_pieces (Suc n) s =
     bindE (getNextPiece s) (\<lambda>(b, s1).
     bindE (next_pieces n s1) (\<lambda>(ps, s2). Inr ((Send_File.curPiece s, b) # ps, s2)))"

lemma next_pieces_true:
  assumes "streaming s m k" and "k + n = piece_count m" and "n \<noteq> 0"
  shows "\<exists>ps s'. next_pieces n s = Inr (ps, s') \<and> sends s' m \<and>
    (\<forall>p \<in> set ps. true_piece m p) \<and> map fst ps = map of_nat [k..<k + n]"
  using assms
proof (induction n arbitrary: s k)
  case 0
  then show ?case by simp
next
  case (Suc n)
  have k: "k < piece_count m" using Suc.prems(2) by simp
  then have "1024 * k < length m" by (simp add: piece_count_iff)
  from streaming_next [OF Suc.prems(1) this] obtain b s1 where
    s1: "getNextPiece s = Inr (b, s1)" "buffer_inv b" "contents b = chunk 1024 m k" "sends s1 m"
    and st: "if 1024 * Suc k \<le> length m then streaming s1 m (Suc k) else \<not> good (ifileStream s1)"
    by blast
  have c: "Send_File.curPiece s = of_nat k" using Suc.prems(1) by (simp add: streaming_def)
  have tp: "true_piece m (of_nat k, b)" using s1 k by (auto simp: true_piece_def)
  show ?case
  proof (cases "n = 0")
    case True
    with s1 tp c show ?thesis by simp
  next
    case False
    then have "Suc k < piece_count m" using Suc.prems(2) by simp
    then have "1024 * Suc k \<le> length m" by (simp add: piece_count_iff)
    with st have "streaming s1 m (Suc k)" by simp
    from Suc.IH [OF this _ False] Suc.prems(2) obtain ps s2 where
      "next_pieces n s1 = Inr (ps, s2)" "sends s2 m" "\<forall>p \<in> set ps. true_piece m p"
      "map fst ps = map of_nat [Suc k..<Suc k + n]" by auto
    moreover have "[k..<k + Suc n] = k # [Suc k..<Suc k + n]" by (simp add: upt_conv_Cons)
    ultimately show ?thesis using s1 tp c by (simp del: upt_Suc)
  qed
qed


section \<open>The short last piece\<close>

text \<open>
  After a retransmission the sender's stream is good again at the end of the file, and the
  next acknowledgement makes it send a piece without bytes. If the short last piece was lost,
  the receiver takes this empty piece for a later one and writes a full piece of zeros.
\<close>

definition padded :: "get_file \<Rightarrow> bytes \<Rightarrow> nat \<Rightarrow> bool" where
  "padded g m P \<longleftrightarrow> Suc P = piece_count m \<and> fits_limit m \<and> Get_File.isOpen g \<and>
     data (fileStream g) = blocks m {} P @ replicate 1024 0 \<and> curPiece g = of_nat (Suc (Suc P)) \<and>
     bytesPerPiece g = 1024 \<and> om_inv (lossPieces g) \<and> om_keys (lossPieces g) = {of_nat P} \<and>
     writtenBytes g = of_nat (arrived m {} P) \<and> recv_fileBytes g = of_nat (length m)"

lemma empty_piece_pads:
  assumes r: "receiving g m P {}" and P: "Suc P = piece_count m"
    and e: "buffer_inv e" "contents e = []"
  shows "\<exists>g1. writeToFile g e (of_nat (Suc P)) = Inr (LOSS, g1) \<and> padded g1 m P"
proof -
  have g: "om_inv (lossPieces g)" "ppos (fileStream g) = length (data (fileStream g))" "bytesPerPiece g = 1024"
    and cp: "curPiece g = of_nat P" and lim: "fits_limit m" and op: "Get_File.isOpen g"
    and rest: "data (fileStream g) = blocks m {} P" "writtenBytes g = of_nat (arrived m {} P)"
      "recv_fileBytes g = of_nat (length m)" "om_keys (lossPieces g) = {}"
    using r P by (auto simp: receiving_def)
  note f = fill_gap_spec [OF g, of P 1]
  have small: "P < 2 ^ 32" "Suc P < 2 ^ 32" "P + 1024 < 2 ^ 32"
    using fits_bounds(1) [OF lim] P by auto
  have cmp: "curPiece g < of_nat (Suc P)" "\<not> curPiece g + kMaxLossPiecesNum < of_nat (Suc P)"
    using less_u32 [OF small(1,2)] less_u32 [OF small(3,2)]
    by (simp_all add: cp kMaxLossPiecesNum_def del: of_nat_Suc)
  have pk: "peek e 0 (readableBytes e) = Inr []"
    using retrieveAsString_spec [OF e(1)] e(2) by (auto simp: retrieveAsString_def bindE_eq_Inr)
  let ?g1 = "(put_bytes [] (fill_gap P 1 g))\<lparr>curPiece := of_nat (Suc P) + 1\<rparr>"
  have le: "arrived m {} P < length m"
    using arrived_all [of P m "{}"] arrived_le [of P m "{}"] P by simp
  have less64: "length m < 2 ^ 64" using lim by (simp add: fits_limit_def)
  have w: "writtenBytes ?g1 = of_nat (arrived m {} P)" "recv_fileBytes ?g1 = of_nat (length m)"
    using f rest by (simp_all add: put_bytes_def same_file_def)
  have neq: "writtenBytes ?g1 \<noteq> recv_fileBytes ?g1" "\<not> recv_fileBytes ?g1 < writtenBytes ?g1"
    using le less64 inj_u64 [of "arrived m {} P" "length m"] less_u64 [of "length m" "arrived m {} P"]
    unfolding w by auto
  have un: "unat (curPiece g) = P" "unat (of_nat (Suc P) :: u32) - P = 1"
    using small by (simp_all add: cp small_u32 del: of_nat_Suc)
  have "writeToFile g e (of_nat (Suc P)) = Inr (check_finish (LOSS, ?g1))"
    using op cmp pk un by (simp add: writeToFile_def Let_def del: of_nat_Suc)
  also have "check_finish (LOSS, ?g1) = (LOSS, ?g1)" using neq by (simp add: check_finish_def)
  finally have run: "writeToFile g e (of_nat (Suc P)) = Inr (LOSS, ?g1)" .
  have st: "opened (fileStream ?g1)" "data (fileStream ?g1) = blocks m {} P @ replicate 1024 0"
    "bytesPerPiece ?g1 = 1024" "om_inv (lossPieces ?g1)" "om_keys (lossPieces ?g1) = {of_nat P}"
    using f rest op fs_append [of "fileStream (fill_gap P 1 g)" "[]"]
    by (auto simp: put_bytes_def Get_File.isOpen_def)
  with run st w P lim show ?thesis
    by (intro exI [of _ ?g1]) (simp add: Get_File.isOpen_def padded_def)
qed

lemma padded_loss: "padded g m P \<Longrightarrow> getLossPieces g [] = [of_nat P]"
  using om_single [of "lossPieces g" "of_nat P"] by (auto simp: padded_def getLossPieces_def)

lemma padded_finish:
  assumes g1: "padded g1 m P" and b: "buffer_inv b" "contents b = chunk 1024 m P"
  shows "\<exists>g2. writeToFile g1 b (of_nat P) = Inr (WRITE_FINISH, g2) \<and>
    data (fileStream g2) = m @ replicate (1024 * piece_count m - length m) 0"
proof -
  have op: "Get_File.isOpen g1" and d: "data (fileStream g1) = blocks m {} P @ replicate 1024 0"
    and cp: "curPiece g1 = of_nat (Suc (Suc P))" and bpp: "bytesPerPiece g1 = 1024"
    and mem: "os_member (of_nat P) (lossPieces g1)"
    and w: "writtenBytes g1 = of_nat (arrived m {} P)" "recv_fileBytes g1 = of_nat (length m)"
    and lim: "fits_limit m" and P: "Suc P = piece_count m"
    using g1 by (auto simp: padded_def os_member_iff simp del: of_nat_Suc)
  have small: "P < 2 ^ 32" "Suc (Suc P) < 2 ^ 32" "1024 * P < 2 ^ 32"
    using fits_bounds(1) [OF lim] P by auto
  have cmp: "\<not> curPiece g1 < of_nat P" "of_nat P < curPiece g1"
    using less_u32 [OF small(2,1)] less_u32 [OF small(1,2)] by (simp_all add: cp del: of_nat_Suc)
  have pk: "peek b 0 (readableBytes b) = Inr (chunk 1024 m P)"
    using retrieveAsString_spec [OF b(1)] b(2) by (auto simp: retrieveAsString_def bindE_eq_Inr)
  have lenP: "1024 * P < length m" "length m \<le> 1024 * Suc P"
    using piece_count_iff [of P m] piece_count_iff [of "Suc P" m] P by auto
  have bl: "length (blocks m {} P) = 1024 * P" using lenP by (simp add: blocks_length)
  have ch: "length (chunk 1024 m P) = length m - 1024 * P" using lenP by (simp add: length_chunk)
  have m: "blocks m {} P @ chunk 1024 m P = m"
    using blocks_Suc [of m "{}" P] blocks_done [of m] P by (simp add: block_def)
  let ?new = "write_at (blocks m {} P @ replicate 1024 0) (1024 * P) (chunk 1024 m P)"
  have "?new = (blocks m {} P @ chunk 1024 m P) @ replicate (1024 - length (chunk 1024 m P)) 0"
    using bl ch by (simp add: write_at_def)
  then have new: "?new = m @ replicate (1024 * piece_count m - length m) 0"
    using lenP P [symmetric] unfolding m ch by simp
  have "arrived m {} P + length (chunk 1024 m P) = length m"
    using sum_all_chunks [of m] unfolding P [symmetric] by (simp add: arrived_def)
  then have fin: "writtenBytes g1 + of_nat (length (chunk 1024 m P)) = recv_fileBytes g1"
    by (simp add: w flip: of_nat_add)
  show ?thesis
    using op cmp mem pk fin new offset_u32 [OF small(3)]
    by (auto simp: writeToFile_def Let_def bpp put_bytes_def check_finish_def fs_write_def seekp_def
        fs_close_def d)
qed

end
