(* ===== verification/Library_Properties.thy ===== *)
theory Library_Properties
  imports Buffer Sockaddr_Order Random_Code CRC32 Udp_Com
begin

text \<open>
  The properties of the pieces both programs are built from: the buffer as a queue of bytes,
  the messages as they travel, the order of addresses, the search for a share code, and the
  checksum.
\<close>

section \<open>The buffer as a queue\<close>

text \<open>What the connections do to a buffer: append blocks, and look at and drop a prefix.\<close>

datatype buf_op = Write bytes | Read nat

fun buf_step :: "buf_op \<Rightarrow> bytes list \<times> buffer \<Rightarrow> (bytes list \<times> buffer) outcome" where
  "buf_step (Write d) (out, b) = bindE (append b d) (\<lambda>b'. Inr (out, b'))"
| "buf_step (Read n) (out, b) =
     bindE (peek b 0 n) (\<lambda>d. bindE (retrieve b n) (\<lambda>b'. Inr (out @ [d], b')))"

fun queue_run :: "buf_op list \<Rightarrow> bytes list \<times> bytes \<Rightarrow> (bytes list \<times> bytes) option" where
  "queue_run [] s = Some s"
| "queue_run (Write d # ops) (out, q) = queue_run ops (out, q @ d)"
| "queue_run (Read n # ops) (out, q) =
     (if n \<le> length q then queue_run ops (out @ [take n q], drop n q) else None)"

fun written :: "buf_op list \<Rightarrow> nat" where
  "written [] = 0"
| "written (Write d # ops) = length d + written ops"
| "written (Read n # ops) = written ops"

lemma retrieve_store: "retrieve b n = Inr b' \<Longrightarrow> length (store b') = length (store b)"
  by (auto simp: retrieve_def outcome_simps)

text \<open>
  C25. Refinement to a queue: whatever blocks are appended and whatever prefixes are read and
  dropped, in any order, growing and moving the vector as it goes, the buffer hands out
  exactly the bytes a plain queue of bytes would, and no access leaves the vector.
\<close>

theorem buffer_refines_queue:
  assumes "buffer_inv b" and "queue_run ops (out, contents b) = Some (out', q)"
    and "length (store b) + written ops < 2 ^ 63 - 8"
  shows "\<exists>b'. foldE buf_step ops (out, b) = Inr (out', b') \<and> buffer_inv b' \<and> contents b' = q"
  using assms
proof (induction ops arbitrary: b out)
  case Nil
  then show ?case by simp
next
  case (Cons op ops)
  show ?case
  proof (cases op)
    case (Write d)
    obtain b1 where "append b d = Inr b1" "buffer_inv b1" "contents b1 = contents b @ d"
        "length (store b1) \<le> length (store b) + length d"
      using sink.push_ok [of b d] Cons.prems Write by auto
    with Cons.IH [of b1 out] Cons.prems Write show ?thesis by auto
  next
    case (Read n)
    with Cons.prems have n: "n \<le> readableBytes b" and l: "n \<le> length (contents b)"
      by (auto split: if_splits)
    obtain b1 where b1: "retrieve b n = Inr b1" "buffer_inv b1" "contents b1 = drop n (contents b)"
      using retrieve_spec [OF Cons.prems(1) n] by blast
    have "peek b 0 n = Inr (take n (contents b))"
      using peek_contents [OF Cons.prems(1), of 0 n] n by (simp add: slice_def)
    with b1 retrieve_store [OF b1(1)] Cons.IH [of b1 "out @ [take n (contents b)]"] Cons.prems Read n l
    show ?thesis by (auto split: if_splits)
  qed
qed

theorem buffer_refines_queue_witness:
  "\<exists>b'. foldE buf_step [Write [1, 2, 3], Read 2, Write [4], Read 2] ([], new_Buffer) =
     Inr ([[1, 2], [3, 4]], b') \<and> contents b' = []"
proof -
  have "\<exists>b'. foldE buf_step [Write [1, 2, 3], Read 2, Write [4], Read 2] ([], new_Buffer) =
      Inr ([[1, 2], [3, 4]], b') \<and> buffer_inv b' \<and> contents b' = []"
    by (rule buffer_refines_queue) simp_all
  then show ?thesis by blast
qed

section \<open>Messages\<close>



text \<open>
  Bytes on the wire: a message built through a buffer and sent on a bound socket is
  handed to \<open>sendto\<close> as one datagram whose first four bytes are the header with the given
  signature, type and length, followed by the body's parts and nothing else.
\<close>

theorem sent_message:
  assumes "bound u" and "length (concat parts) < 2 ^ 32"
  shows "\<exists>u' m. bindE (msg_buffer sg t len parts) (\<lambda>b. send u b target) = Inr u' \<and>
    sent u' = sent u @ [(m, target)] \<and> drop sizeof_Header m = concat parts \<and>
    header_of (take sizeof_Header m) = \<lparr>sign = sg, mtype = type_code t, dataLenth = of_nat len\<rparr>"
  using send_msg_buffer [OF assms, of sg t len target] message_header [of sg t len "concat parts"]
  by (intro exI [of _ "u\<lparr>sent := sent u @ [(message sg t len (concat parts), target)]\<rparr>"]
      exI [of _ "message sg t len (concat parts)"]) simp

theorem sent_message_witness:
  "\<exists>u'. bindE (msg_buffer kClientSign PACK_ACK 4 [[10, 0, 0, 0]])
      (\<lambda>b. send \<lparr>bound = True, port = 1, tmpbuf = new_Buffer, sent = []\<rparr> b zero_sockaddr) = Inr u'"
  using sent_message [of "\<lparr>bound = True, port = 1, tmpbuf = new_Buffer, sent = []\<rparr>" "[[10, 0, 0, 0]]"
      kClientSign PACK_ACK 4 zero_sockaddr] by auto

section \<open>Addresses and codes\<close>

text \<open>
  The comparison of addresses used as the key order of the server's maps: it is
  irreflexive, transitive and total with respect to the \<open>memcmp\<close> equality, so that the maps
  find exactly the entries of an address.
\<close>

theorem sockaddr_order:
  assumes "wf_sockaddr a" and "wf_sockaddr b" and "wf_sockaddr c"
  shows "\<not> sockaddr_less a a \<and>
    (sockaddr_less a b \<longrightarrow> sockaddr_less b c \<longrightarrow> sockaddr_less a c) \<and>
    (\<not> sockaddr_less a b \<and> \<not> sockaddr_less b a \<longleftrightarrow> sockaddr_eq a b) \<and>
    (sockaddr_eq a b \<longleftrightarrow> a = b)"
  using assms by (auto simp: sockaddr_less_iff sockaddr_eq_iff)

theorem sockaddr_order_witness: "\<not> sockaddr_less zero_sockaddr zero_sockaddr"
  using sockaddr_order [of zero_sockaddr zero_sockaddr zero_sockaddr]
  by (simp add: wf_sockaddr_def zero_sockaddr_def)

text \<open>
  The search for a share code, for any shuffling of the codes: with fewer than 99999
  codes in use it ends with a code that is not in use; with all 100000 in use it never ends
  (the loop of \<open>handleShareFile\<close> has no other exit).
\<close>

theorem code_search:
  assumes "is_shuffle sh" and "rc_inv rc" and "finite (dom used)"
  shows "(card (dom used) < kCodeNums - 1 \<longrightarrow>
      (\<exists>c rc'. find_code sh used rc = Some (Inr (c, rc')) \<and> used c = None \<and> c \<in> code_range \<and>
        rc_inv rc')) \<and>
    (code_range \<subseteq> dom used \<longrightarrow> find_code sh used rc = None)"
  using find_code_result [OF assms] find_code_diverges [OF assms(1,2)] by blast

theorem code_search_witness:
  "\<exists>c rc'. find_code (\<lambda>n cs. cs) (Map.empty :: u32 \<rightharpoonup> nat) (new_RandomCode (\<lambda>n cs. cs)) =
     Some (Inr (c, rc')) \<and> c \<in> code_range"
  using code_search [of "\<lambda>n cs. cs" "new_RandomCode (\<lambda>n cs. cs)" "Map.empty :: u32 \<rightharpoonup> nat"]
    new_RandomCode_inv [of "\<lambda>n cs. cs"]
  by (auto simp: is_shuffle_def kCodeNums_def)

section \<open>The checksum\<close>

text \<open>
  C26. The table-driven checksum is the bit-by-bit CRC-32 (reflected polynomial
  \<open>0xEDB88320\<close>), and reading a file in blocks of 1024 bytes gives the checksum of the whole
  content; both whether or not the table was built before.
\<close>

theorem crc_is_reference:
  assumes "crc_ok st"
  shows "fst (calculateCRC32 st data) = crc32_ref data \<and>
    fst (calculateFileCRC32 st (Some data)) = crc32_ref data \<and>
    crc_ok (snd (calculateCRC32 st data))"
proof -
  have "crc_ok (snd (calculateCRC32 st data))"
    using ensure_init_ok [OF assms] by (simp add: calculateCRC32_def Let_def)
  then show ?thesis
    using calculateCRC32_ref [OF assms, of data] calculateFileCRC32_eq [of st data] by simp
qed

theorem crc_is_reference_witness:
  "fst (calculateFileCRC32 crc_init (Some (replicate 5000 7))) = crc32_ref (replicate 5000 7)"
  using crc_is_reference [OF crc_init_ok] by blast

end
