(* ===== verification/Server.thy ===== *)
theory Server
  imports Std_Map Sockaddr_Order Udp_Com Random_Code
begin

text \<open>
  The rendezvous server (class \<open>DiretransServer\<close>): the registry of shared files, the
  handlers of its messages and the timer that drops silent peers. This theory is the model
  and the facts about single handlers; the invariant is in \<open>Server_Inv\<close>, the abstract
  registry in \<open>Server_Spec\<close>.
\<close>

section \<open>State\<close>

definition kMaxSharedPerIp :: int where "kMaxSharedPerIp = 10"
definition kTimeoutSec :: int where "kTimeoutSec = 5 * 60"

record server =
  conn :: udp
  shareCodes :: RandomCode
  fileDatas :: "u32 \<rightharpoonup> FileDataAddr"
  codesMap :: "sockaddr \<rightharpoonup> u32"
  activeTimes :: "(sockaddr \<times> timestamp) list"
  shareFileNum :: "u32 \<rightharpoonup> int"

definition new_DiretransServer :: "shuffle \<Rightarrow> udp \<Rightarrow> server" where
  "new_DiretransServer sh u =
     \<lparr>conn = u, shareCodes = new_RandomCode sh, fileDatas = Map.empty, codesMap = Map.empty,
      activeTimes = [], shareFileNum = Map.empty\<rparr>"

text \<open>\<open>sin_addr\<close> is bytes 2 to 5 of the address data.\<close>

definition getSockaddrIp :: "sockaddr \<Rightarrow> u32" where
  "getSockaddrIp a = u32_of (slice 2 4 (sa_data a))"

section \<open>Handlers\<close>

definition conn_send :: "server \<Rightarrow> buffer \<Rightarrow> sockaddr \<Rightarrow> server outcome" where
  "conn_send s b a = bindE (send (conn s) b a) (\<lambda>u. Inr (s\<lparr>conn := u\<rparr>))"

text \<open>The handlers set all three header fields, append the header and the body, and send.\<close>

definition reply :: "server \<Rightarrow> MessageType \<Rightarrow> nat \<Rightarrow> bytes list \<Rightarrow> sockaddr \<Rightarrow> server outcome" where
  "reply s t len parts a = bindE (msg_buffer kServerSign t len parts) (\<lambda>b. conn_send s b a)"

definition handleHello :: "server \<Rightarrow> sockaddr \<Rightarrow> server outcome" where
  "handleHello s a =
     (let header = header_bytes \<lparr>sign = kServerSign, mtype = type_code HELLO_REPLY, dataLenth = 0\<rparr>
      in bindE (ensureWritableBytes new_Buffer (length header)) (\<lambda>b.
         bindE (beginWrite b header) (\<lambda>b.
         conn_send s (hasWritten b (length header)) a)))"

text \<open>The end of \<open>handleShareFile\<close>: draw a free code, record the file, answer.\<close>

definition assign_code :: "shuffle \<Rightarrow> server \<Rightarrow> FileData \<Rightarrow> sockaddr \<Rightarrow> server outcome" where
  "assign_code sh s fd a =
     (case find_code sh (fileDatas s) (shareCodes s) of
        None \<Rightarrow> Inl Diverge
      | Some r \<Rightarrow> bindE r (\<lambda>(code, rc).
          require (codesMap s a = None)
            (reply (s\<lparr>shareCodes := rc, codesMap := (codesMap s)(a \<mapsto> code),
                     fileDatas := (fileDatas s)(code \<mapsto> \<lparr>fileData = fd, addr = a\<rparr>)\<rparr>)
               SHARE_CODE sizeof_ShareCode [u32_bytes code] a)))"

definition handleShareFile :: "shuffle \<Rightarrow> server \<Rightarrow> buffer \<Rightarrow> sockaddr \<Rightarrow> server outcome" where
  "handleShareFile sh s req a =
     require (sizeof_Header < readableBytes req)
     (bindE (peek req 0 sizeof_Header) (\<lambda>hb.
      let header = header_of hb in
      require (mtype header = type_code SHARE_FILE)
      (if unat (dataLenth header) < sizeof_FileData then Inr s
       else bindE (peek req sizeof_Header sizeof_FileData) (\<lambda>fb.
         let fd = filedata_of fb in
         if fileName fd ! 0 = 0 \<or> fileBytes fd = 0 then reply s ERROR_FORMAT 0 [] a
         else
           let ip = getSockaddrIp a in
           (case shareFileNum s ip of
              Some n \<Rightarrow>
                if kMaxSharedPerIp \<le> n \<or> codesMap s a \<noteq> None then reply s ERROR_LIMIT 0 [] a
                else assign_code sh (s\<lparr>shareFileNum := (shareFileNum s)(ip \<mapsto> n + 1)\<rparr>) fd a
            | None \<Rightarrow> assign_code sh (s\<lparr>shareFileNum := (shareFileNum s)(ip \<mapsto> 1)\<rparr>) fd a)))))"

definition handleGetFile :: "server \<Rightarrow> buffer \<Rightarrow> sockaddr \<Rightarrow> server outcome" where
  "handleGetFile s req recvAddr =
     require (sizeof_Header < readableBytes req)
     (bindE (peek req 0 sizeof_Header) (\<lambda>hb.
      let header = header_of hb in
      require (mtype header = type_code GET_FILE)
      (if unat (dataLenth header) < sizeof_ShareCode then Inr s
       else bindE (peek req sizeof_Header sizeof_ShareCode) (\<lambda>cb.
         case fileDatas s (u32_of cb) of
           None \<Rightarrow> reply s ERROR_404 0 [] recvAddr
         | Some fda \<Rightarrow>
             bindE (reply s FILE_DATA sizeof_FileDataAddr [filedataaddr_bytes fda] recvAddr) (\<lambda>s1.
             reply s1 FILE_REQ sizeof_PeerAddr [sockaddr_bytes recvAddr] (addr fda))))))"

definition handleMessage ::
  "shuffle \<Rightarrow> server \<Rightarrow> buffer \<Rightarrow> sockaddr \<Rightarrow> timestamp \<Rightarrow> server outcome" where
  "handleMessage sh s buf a time =
     (if readableBytes buf < sizeof_Header then Inr s
      else bindE (peek buf 0 1) (\<lambda>sg.
        if sg ! 0 \<noteq> kServerSign then Inr s
        else
          let s1 = s\<lparr>activeTimes := om_put a time (activeTimes s)\<rparr> in
          bindE (peek buf 0 sizeof_Header) (\<lambda>hb.
            case type_of (mtype (header_of hb)) of
              Some HELLO \<Rightarrow> handleHello s1 a
            | Some SHARE_FILE \<Rightarrow> handleShareFile sh s1 buf a
            | Some GET_FILE \<Rightarrow> handleGetFile s1 buf a
            | _ \<Rightarrow> Inr s1)))"

section \<open>The timer\<close>

text \<open>The body of the loop for an expired address; \<open>--shareFileNum_[ip]\<close> creates a missing entry.\<close>

definition drop_sharer :: "server \<Rightarrow> sockaddr \<Rightarrow> server" where
  "drop_sharer s a =
     (case codesMap s a of
        None \<Rightarrow> s
      | Some c \<Rightarrow>
          let ip = getSockaddrIp a;
              n = (case shareFileNum s ip of None \<Rightarrow> 0 | Some n \<Rightarrow> n)
          in s\<lparr>fileDatas := (fileDatas s)(c := None), codesMap := (codesMap s)(a := None),
               shareFileNum := (shareFileNum s)(ip \<mapsto> n - 1)\<rparr>)"

fun remove_loop :: "timestamp \<Rightarrow> (sockaddr \<times> timestamp) list \<Rightarrow> server \<Rightarrow> server" where
  "remove_loop now [] s = s"
| "remove_loop now ((a, t) # it) s =
     (if timed_out now t kTimeoutSec
      then let s1 = drop_sharer s a in
           remove_loop now it (s1\<lparr>activeTimes := om_erase a (activeTimes s1)\<rparr>)
      else remove_loop now it s)"

definition removeTimeoutConn :: "timestamp \<Rightarrow> server \<Rightarrow> server" where
  "removeTimeoutConn now s =
     (if length (activeTimes s) = 0 then s else remove_loop now (activeTimes s) s)"

section \<open>Events\<close>

text \<open>
  The event loop hands the server one event at a time: the socket is readable (with what
  \<open>recvfrom\<close> then returns), or the timer fires.
\<close>

datatype server_event = Readable recv timestamp | Timer timestamp

definition server_callback :: "shuffle \<Rightarrow> server callback" where
  "server_callback sh u buf src time s =
     bindE (handleMessage sh (s\<lparr>conn := u\<rparr>) buf src time) (\<lambda>s'. Inr (conn s', buf, s'))"

fun server_step :: "shuffle \<Rightarrow> server_event \<Rightarrow> server \<Rightarrow> server outcome" where
  "server_step sh (Readable r now) s =
     bindE (handleRead (Some (server_callback sh)) (conn s) r now s) (\<lambda>(u, s').
       Inr (s'\<lparr>conn := u\<rparr>))"
| "server_step sh (Timer now) s = Inr (removeTimeoutConn now s)"

definition server_run :: "shuffle \<Rightarrow> server_event list \<Rightarrow> server \<Rightarrow> server outcome" where
  "server_run sh es s = foldE (server_step sh) es s"

section \<open>Single handlers\<close>

text \<open>What a call sends, in order, is what it adds to \<open>sent\<close>.\<close>

definition add_sent :: "server \<Rightarrow> (bytes \<times> sockaddr) list \<Rightarrow> server" where
  "add_sent s ms = s\<lparr>conn := (conn s)\<lparr>sent := sent (conn s) @ ms\<rparr>\<rparr>"

lemma add_sent_sel [simp]:
  "shareCodes (add_sent s ms) = shareCodes s" "fileDatas (add_sent s ms) = fileDatas s"
  "codesMap (add_sent s ms) = codesMap s" "activeTimes (add_sent s ms) = activeTimes s"
  "shareFileNum (add_sent s ms) = shareFileNum s" "bound (conn (add_sent s ms)) = bound (conn s)"
  "tmpbuf (conn (add_sent s ms)) = tmpbuf (conn s)"
  "sent (conn (add_sent s ms)) = sent (conn s) @ ms"
  by (simp_all add: add_sent_def)

lemma add_sent_add_sent [simp]: "add_sent (add_sent s ms) ns = add_sent s (ms @ ns)"
  by (simp add: add_sent_def)

lemma reply_ok:
  assumes "bound (conn s)" and "length (concat parts) < 2 ^ 32"
  shows "reply s t len parts a =
    Inr (add_sent s [(message kServerSign t len (concat parts), a)])"
proof -
  obtain b where "msg_buffer kServerSign t len parts = Inr b" "buffer_inv b"
      "contents b = message kServerSign t len (concat parts)"
    using msg_buffer_ok [OF assms(2)] by blast
  with assms(1) show ?thesis
    by (simp add: reply_def conn_send_def send_ok add_sent_def)
qed

lemma handleHello_ok:
  assumes "bound (conn s)"
  shows "handleHello s a = Inr (add_sent s [(message kServerSign HELLO_REPLY 0 [], a)])"
proof -
  let ?h = "header_bytes \<lparr>sign = kServerSign, mtype = type_code HELLO_REPLY, dataLenth = 0\<rparr>"
  obtain b where b: "append new_Buffer ?h = Inr b" "buffer_inv b" "contents b = ?h"
    using append_new [of ?h] by (auto simp: sizeof_Header_def)
  have "handleHello s a = bindE (append new_Buffer ?h) (\<lambda>b. conn_send s b a)"
    by (simp add: handleHello_def append_def Let_def bindE_assoc)
  with b assms show ?thesis
    by (simp add: conn_send_def send_ok add_sent_def message_def)
qed

end
