(* ===== verification/Server_Inv.thy ===== *)
theory Server_Inv
  imports Server
begin

text \<open>
  The invariant of the server's four maps and its preservation by every handler, by the
  timer and by whole runs of events. It makes the assertion in \<open>handleShareFile\<close> true in
  every reachable state and bounds the shares of an address.
\<close>

section \<open>The invariant\<close>

definition sharers :: "server \<Rightarrow> u32 \<Rightarrow> sockaddr set" where
  "sharers s ip = {a \<in> dom (codesMap s). getSockaddrIp a = ip}"

text \<open>\<open>codesMap\<close> and \<open>fileDatas\<close> are inverse to each other.\<close>

definition maps_match :: "server \<Rightarrow> bool" where
  "maps_match s \<longleftrightarrow>
     (\<forall>a c. codesMap s a = Some c \<longleftrightarrow> (\<exists>d. fileDatas s c = Some d \<and> addr d = a))"

definition counts_match :: "server \<Rightarrow> bool" where
  "counts_match s \<longleftrightarrow>
     (\<forall>ip. (shareFileNum s ip = None \<longrightarrow> sharers s ip = {}) \<and>
        (\<forall>n. shareFileNum s ip = Some n \<longrightarrow>
          n = int (card (sharers s ip)) \<and> n \<le> kMaxSharedPerIp))"

definition data_ok :: "server \<Rightarrow> bool" where
  "data_ok s \<longleftrightarrow>
     (\<forall>c d. fileDatas s c = Some d \<longrightarrow> c \<in> code_range \<and> wf_FileDataAddr d)"

definition server_inv :: "server \<Rightarrow> bool" where
  "server_inv s \<longleftrightarrow>
     maps_match s \<and> counts_match s \<and> data_ok s \<and> finite (dom (codesMap s)) \<and>
     dom (codesMap s) \<subseteq> om_keys (activeTimes s) \<and> om_inv (activeTimes s) \<and>
     rc_inv (shareCodes s)"

lemma server_inv_frame:
  assumes "server_inv s" and "shareCodes t = shareCodes s" and "fileDatas t = fileDatas s"
    and "codesMap t = codesMap s" and "shareFileNum t = shareFileNum s"
    and "om_inv (activeTimes t)" and "om_keys (activeTimes s) \<subseteq> om_keys (activeTimes t)"
  shows "server_inv t"
  using assms
  by (auto simp: server_inv_def maps_match_def counts_match_def data_ok_def sharers_def)

lemma add_sent_inv [simp]: "server_inv (add_sent s ms) \<longleftrightarrow> server_inv s"
  by (simp add: server_inv_def maps_match_def counts_match_def data_ok_def sharers_def)

lemma conn_inv [simp]: "server_inv (s\<lparr>conn := u\<rparr>) \<longleftrightarrow> server_inv s"
  by (simp add: server_inv_def maps_match_def counts_match_def data_ok_def sharers_def)

lemma touch_inv: "server_inv s \<Longrightarrow> server_inv (s\<lparr>activeTimes := om_put a t (activeTimes s)\<rparr>)"
  by (rule server_inv_frame) (auto simp: server_inv_def om_inv_put)

lemma new_server_inv: "is_shuffle sh \<Longrightarrow> server_inv (new_DiretransServer sh u)"
  by (simp add: new_DiretransServer_def server_inv_def maps_match_def counts_match_def
      data_ok_def sharers_def new_RandomCode_inv)

lemma finite_sharers: "finite (dom (codesMap s)) \<Longrightarrow> finite (sharers s ip)"
  by (rule finite_subset [of _ "dom (codesMap s)"]) (auto simp: sharers_def)

lemma dom_fileDatas: "maps_match s \<Longrightarrow> dom (fileDatas s) = ran (codesMap s)"
  by (auto simp: maps_match_def dom_def ran_def)

lemma maps_match_inj: "maps_match s \<Longrightarrow> inj_on (codesMap s) (dom (codesMap s))"
proof (rule inj_onI)
  fix a b
  assume m: "maps_match s" and a: "a \<in> dom (codesMap s)" and eq: "codesMap s a = codesMap s b"
  from a obtain c where c: "codesMap s a = Some c" by blast
  with eq have "codesMap s b = Some c" by simp
  with c m show "a = b" unfolding maps_match_def by (metis option.inject)
qed

lemma finite_fileDatas: "server_inv s \<Longrightarrow> finite (dom (fileDatas s))"
  by (simp add: server_inv_def dom_fileDatas finite_ran)

text \<open>The assertion of \<open>handleShareFile\<close>: whoever passes its guard holds no code.\<close>

lemma no_count_no_code:
  assumes "server_inv s" and "shareFileNum s (getSockaddrIp a) = None"
  shows "codesMap s a = None"
proof -
  from assms have "sharers s (getSockaddrIp a) = {}"
    by (auto simp: server_inv_def counts_match_def dest: spec [of _ "getSockaddrIp a"])
  then show ?thesis by (auto simp: sharers_def)
qed

section \<open>Sharing\<close>

text \<open>What \<open>assign_code\<close> does to the maps, for an address without a code.\<close>

definition registered :: "server \<Rightarrow> sockaddr \<Rightarrow> FileData \<Rightarrow> u32 \<Rightarrow> RandomCode \<Rightarrow> int \<Rightarrow> server" where
  "registered s a fd c rc n =
     s\<lparr>shareFileNum := (shareFileNum s)(getSockaddrIp a \<mapsto> n), shareCodes := rc,
       codesMap := (codesMap s)(a \<mapsto> c),
       fileDatas := (fileDatas s)(c \<mapsto> \<lparr>fileData = fd, addr = a\<rparr>)\<rparr>"

lemma sharers_registered:
  "sharers (registered s a fd c rc n) ip =
     (if ip = getSockaddrIp a then insert a (sharers s ip) else sharers s ip)"
  by (auto simp: sharers_def registered_def)

lemma registered_maps:
  assumes "maps_match s" and "codesMap s a = None" and "fileDatas s c = None"
  shows "maps_match (registered s a fd c rc n)"
  unfolding maps_match_def
proof (intro allI)
  fix b e
  have old: "codesMap s b = Some e \<longleftrightarrow> (\<exists>d. fileDatas s e = Some d \<and> addr d = b)"
    using assms(1) unfolding maps_match_def by blast
  show "codesMap (registered s a fd c rc n) b = Some e \<longleftrightarrow>
      (\<exists>d. fileDatas (registered s a fd c rc n) e = Some d \<and> addr d = b)"
    using old assms(2,3) by (cases "b = a"; cases "e = c") (auto simp: registered_def)
qed

lemma registered_counts:
  assumes "counts_match s" and "finite (dom (codesMap s))" and "codesMap s a = None"
    and n: "n = int (card (sharers s (getSockaddrIp a))) + 1" and "n \<le> kMaxSharedPerIp"
  shows "counts_match (registered s a fd c rc n)"
proof -
  have "a \<notin> sharers s (getSockaddrIp a)" using assms(3) by (auto simp: sharers_def)
  then have "int (card (insert a (sharers s (getSockaddrIp a)))) = n"
    using finite_sharers [OF assms(2)] n by simp
  with assms(1,5) show ?thesis
    by (auto simp: counts_match_def sharers_registered) (auto simp: registered_def split: if_splits)
qed

lemma registered_inv:
  assumes inv: "server_inv s" and a: "wf_sockaddr a" "a \<in> om_keys (activeTimes s)"
    and none: "codesMap s a = None" "fileDatas s c = None"
    and fd: "wf_FileData fd" and c: "c \<in> code_range" and rc: "rc_inv rc"
    and n: "n = int (card (sharers s (getSockaddrIp a))) + 1" "n \<le> kMaxSharedPerIp"
  shows "server_inv (registered s a fd c rc n)"
  using assms registered_maps registered_counts
  by (auto simp: server_inv_def data_ok_def registered_def wf_FileDataAddr_def)

text \<open>The count the guard reads is the number of sharers of the address.\<close>

lemma count_read:
  assumes "server_inv s" and "shareFileNum s ip = Some n"
  shows "n = int (card (sharers s ip)) \<and> n \<le> kMaxSharedPerIp"
  using assms by (auto simp: server_inv_def counts_match_def dest: spec [of _ ip])

lemma count_missing:
  assumes "server_inv s" and "shareFileNum s ip = None"
  shows "sharers s ip = {}"
  using assms by (auto simp: server_inv_def counts_match_def dest: spec [of _ ip])

text \<open>Room for a new code: fewer codes in use than one shuffled vector deals out.\<close>

definition code_room :: "server \<Rightarrow> bool" where
  "code_room s \<longleftrightarrow> card (dom (fileDatas s)) < kCodeNums - 1"

definition share_answer :: "server \<Rightarrow> sockaddr \<Rightarrow> FileData \<Rightarrow> int \<Rightarrow> server \<Rightarrow> bool" where
  "share_answer s a fd n t \<longleftrightarrow>
     (\<exists>c rc. fileDatas s c = None \<and> c \<in> code_range \<and> rc_inv rc \<and>
        t = add_sent (registered s a fd c rc n)
          [(message kServerSign SHARE_CODE sizeof_ShareCode (u32_bytes c), a)])"

lemma assign_code_found:
  assumes "find_code sh (fileDatas s) (shareCodes s) = Some (Inr (c, rc))"
    and "bound (conn s)" and "codesMap s a = None"
  shows "assign_code sh (s\<lparr>shareFileNum := (shareFileNum s)(getSockaddrIp a \<mapsto> n)\<rparr>) fd a =
    Inr (add_sent (registered s a fd c rc n)
      [(message kServerSign SHARE_CODE sizeof_ShareCode (u32_bytes c), a)])"
  using assms by (simp add: assign_code_def reply_ok registered_def)

lemma assign_code_Inr:
  assumes "is_shuffle sh" and "rc_inv (shareCodes s)" and "bound (conn s)" and "codesMap s a = None"
    and run: "assign_code sh (s\<lparr>shareFileNum := (shareFileNum s)(getSockaddrIp a \<mapsto> n)\<rparr>) fd a = Inr t"
  shows "share_answer s a fd n t"
proof -
  from run obtain c rc where f: "find_code sh (fileDatas s) (shareCodes s) = Some (Inr (c, rc))"
    by (auto simp: assign_code_def outcome_simps split: option.splits)
  with assms show ?thesis
    using find_code_unused [OF f assms(1,2)] assign_code_found [OF f assms(3,4), of n fd]
    unfolding share_answer_def by auto
qed

lemma assign_code_returns:
  assumes "is_shuffle sh" and inv: "server_inv s" and "code_room s"
    and "bound (conn s)" and "codesMap s a = None"
  shows "\<exists>t. assign_code sh
    (s\<lparr>shareFileNum := (shareFileNum s)(getSockaddrIp a \<mapsto> n)\<rparr>) fd a = Inr t"
proof -
  have "rc_inv (shareCodes s)" using inv by (simp add: server_inv_def)
  then obtain c rc where "find_code sh (fileDatas s) (shareCodes s) = Some (Inr (c, rc))"
    using find_code_result [OF assms(1) _ finite_fileDatas [OF inv]] assms(3)
    unfolding code_room_def by blast
  from assign_code_found [OF this assms(4,5)] show ?thesis by blast
qed

section \<open>Requests in the receive buffer\<close>

text \<open>
  The handlers read the header and the body from the vector behind the buffer, at the
  lengths the header claims, whatever the length of the datagram was. The vector is large
  enough for every structure.
\<close>

definition req_space :: "buffer \<Rightarrow> bool" where
  "req_space b \<longleftrightarrow> readIndex b + sizeof_Header + sizeof_FileData \<le> length (store b)"

definition req_header :: "buffer \<Rightarrow> Header" where
  "req_header b = header_of (slice (readIndex b) sizeof_Header (store b))"

definition req_body :: "buffer \<Rightarrow> nat \<Rightarrow> bytes" where
  "req_body b n = slice (readIndex b + sizeof_Header) n (store b)"

lemma req_peek:
  assumes "req_space b"
  shows "peek b 0 (Suc 0) = Inr (slice (readIndex b) 1 (store b))"
    and "peek b 0 sizeof_Header = Inr (slice (readIndex b) sizeof_Header (store b))"
    and "n \<le> sizeof_FileData \<Longrightarrow> peek b sizeof_Header n = Inr (req_body b n)"
  using assms
  by (auto simp: req_space_def peek_def mem_read_slice req_body_def sizeof_defs)

lemma length_req_body [simp]:
  "req_space b \<Longrightarrow> n \<le> sizeof_FileData \<Longrightarrow> length (req_body b n) = n"
  by (simp add: req_space_def req_body_def)

text \<open>Who is refused: an address that holds a code, or whose IP has ten.\<close>

definition over_limit :: "server \<Rightarrow> sockaddr \<Rightarrow> bool" where
  "over_limit s a \<longleftrightarrow>
     codesMap s a \<noteq> None \<or> kMaxSharedPerIp \<le> int (card (sharers s (getSockaddrIp a)))"

definition bad_file :: "FileData \<Rightarrow> bool" where
  "bad_file fd \<longleftrightarrow> fileName fd ! 0 = 0 \<or> fileBytes fd = 0"

lemma over_limit_guard:
  assumes "server_inv s"
  shows "over_limit s a \<longleftrightarrow> (\<exists>n. shareFileNum s (getSockaddrIp a) = Some n \<and>
    (kMaxSharedPerIp \<le> n \<or> codesMap s a \<noteq> None))"
proof (cases "shareFileNum s (getSockaddrIp a)")
  case None
  then show ?thesis
    using assms no_count_no_code [OF assms None] count_missing [OF assms None]
    by (simp add: over_limit_def kMaxSharedPerIp_def)
next
  case (Some n)
  then show ?thesis using count_read [OF assms Some] by (auto simp: over_limit_def)
qed

lemma handleShareFile_eq:
  assumes inv: "server_inv s" and bnd: "bound (conn s)" and space: "req_space req"
    and long: "sizeof_Header < readableBytes req"
    and ty: "mtype (req_header req) = type_code SHARE_FILE"
    and fd_def: "fd = filedata_of (req_body req sizeof_FileData)"
    and k_def: "k = int (card (sharers s (getSockaddrIp a))) + 1"
  shows "handleShareFile sh s req a =
    (if unat (dataLenth (req_header req)) < sizeof_FileData then Inr s
     else if bad_file fd then Inr (add_sent s [(message kServerSign ERROR_FORMAT 0 [], a)])
     else if over_limit s a then Inr (add_sent s [(message kServerSign ERROR_LIMIT 0 [], a)])
     else assign_code sh (s\<lparr>shareFileNum := (shareFileNum s)(getSockaddrIp a \<mapsto> k)\<rparr>) fd a)"
proof -
  have start: "handleShareFile sh s req a =
      (if unat (dataLenth (req_header req)) < sizeof_FileData then Inr s
       else if bad_file fd then reply s ERROR_FORMAT 0 [] a
       else case shareFileNum s (getSockaddrIp a) of
          Some n \<Rightarrow>
            if kMaxSharedPerIp \<le> n \<or> codesMap s a \<noteq> None then reply s ERROR_LIMIT 0 [] a
            else assign_code sh
              (s\<lparr>shareFileNum := (shareFileNum s)(getSockaddrIp a \<mapsto> n + 1)\<rparr>) fd a
        | None \<Rightarrow> assign_code sh
              (s\<lparr>shareFileNum := (shareFileNum s)(getSockaddrIp a \<mapsto> 1)\<rparr>) fd a)"
    unfolding fd_def using long ty req_peek [OF space]
    by (simp add: handleShareFile_def Let_def req_header_def bad_file_def)
  show ?thesis
  proof (cases "shareFileNum s (getSockaddrIp a)")
    case None
    then have "\<not> over_limit s a" "k = 1"
      using over_limit_guard [OF inv, of a] count_missing [OF inv None] by (simp_all add: k_def)
    with None bnd show ?thesis by (simp add: start reply_ok)
  next
    case (Some n)
    then have "over_limit s a \<longleftrightarrow> kMaxSharedPerIp \<le> n \<or> codesMap s a \<noteq> None" "k = n + 1"
      using over_limit_guard [OF inv, of a] count_read [OF inv Some] by (simp_all add: k_def)
    with Some bnd show ?thesis by (simp add: start reply_ok)
  qed
qed

lemma share_answer_inv:
  assumes inv: "server_inv s" and bnd: "bound (conn s)"
    and a: "wf_sockaddr a" "a \<in> om_keys (activeTimes s)" and fd: "wf_FileData fd"
    and ok: "\<not> over_limit s a"
    and ans: "share_answer s a fd (int (card (sharers s (getSockaddrIp a))) + 1) t"
  shows "server_inv t \<and> bound (conn t)"
proof -
  let ?k = "int (card (sharers s (getSockaddrIp a))) + 1"
  from ans obtain c rc where c: "fileDatas s c = None" "c \<in> code_range" "rc_inv rc"
    and t: "t = add_sent (registered s a fd c rc ?k)
      [(message kServerSign SHARE_CODE sizeof_ShareCode (u32_bytes c), a)]"
    unfolding share_answer_def by blast
  have "codesMap s a = None" "?k \<le> kMaxSharedPerIp" using ok by (simp_all add: over_limit_def)
  with registered_inv [OF inv a _ c(1) fd c(2,3) refl] bnd show ?thesis
    by (simp add: t) (simp add: registered_def)
qed

lemma handleShareFile_inv:
  assumes sh: "is_shuffle sh" and inv: "server_inv s" and bnd: "bound (conn s)"
    and space: "req_space req" and long: "sizeof_Header < readableBytes req"
    and ty: "mtype (req_header req) = type_code SHARE_FILE"
    and a: "wf_sockaddr a" "a \<in> om_keys (activeTimes s)"
    and run: "handleShareFile sh s req a = Inr t"
  shows "server_inv t \<and> bound (conn t)"
proof -
  let ?fd = "filedata_of (req_body req sizeof_FileData)"
  have fd: "wf_FileData ?fd" using space by (intro filedata.ok_dec) simp
  have rc: "rc_inv (shareCodes s)" using inv by (simp add: server_inv_def)
  show ?thesis
  proof (cases "unat (dataLenth (req_header req)) < sizeof_FileData \<or> bad_file ?fd \<or> over_limit s a")
    case True
    with run inv bnd show ?thesis
      by (auto simp: handleShareFile_eq [OF inv bnd space long ty refl refl] split: if_splits)
  next
    case False
    then have "codesMap s a = None" by (simp add: over_limit_def)
    moreover from False run have "assign_code sh (s\<lparr>shareFileNum := (shareFileNum s)
        (getSockaddrIp a \<mapsto> int (card (sharers s (getSockaddrIp a))) + 1)\<rparr>) ?fd a = Inr t"
      by (simp add: handleShareFile_eq [OF inv bnd space long ty refl refl])
    ultimately show ?thesis
      using assign_code_Inr [OF sh rc bnd] share_answer_inv [OF inv bnd a fd] False by blast
  qed
qed

lemma handleShareFile_returns:
  assumes "is_shuffle sh" and inv: "server_inv s" and "code_room s" and bnd: "bound (conn s)"
    and space: "req_space req" and long: "sizeof_Header < readableBytes req"
    and ty: "mtype (req_header req) = type_code SHARE_FILE"
  shows "\<exists>t. handleShareFile sh s req a = Inr t"
  using assign_code_returns [OF assms(1-4), of a]
  by (auto simp: handleShareFile_eq [OF inv bnd space long ty refl refl] over_limit_def)

section \<open>Looking up\<close>

lemma handleGetFile_result:
  assumes bnd: "bound (conn s)" and data: "data_ok s" and space: "req_space req"
    and long: "sizeof_Header < readableBytes req" and a: "wf_sockaddr a"
    and ty: "mtype (req_header req) = type_code GET_FILE"
  shows "handleGetFile s req a = Inr
    (if unat (dataLenth (req_header req)) < sizeof_ShareCode then s
     else case fileDatas s (u32_of (req_body req sizeof_ShareCode)) of
       None \<Rightarrow> add_sent s [(message kServerSign ERROR_404 0 [], a)]
     | Some d \<Rightarrow> add_sent s
         [(message kServerSign FILE_DATA sizeof_FileDataAddr (filedataaddr_bytes d), a),
          (message kServerSign FILE_REQ sizeof_PeerAddr (sockaddr_bytes a), addr d)])"
proof -
  have pk: "peek req sizeof_Header sizeof_ShareCode = Inr (req_body req sizeof_ShareCode)"
    using req_peek(3) [OF space] by (simp add: sizeof_defs)
  have len: "length (filedataaddr_bytes d) < 2 ^ 32" if "wf_FileDataAddr d" for d
    using filedataaddr.length_enc [OF that] by (simp add: sizeof_defs)
  have lena: "length (sockaddr_bytes a) < 2 ^ 32"
    using sockaddr.length_enc [OF a] by (simp add: sizeof_defs)
  have wf: "wf_FileDataAddr d" if "fileDatas s c = Some d" for c d
    using data that by (auto simp: data_ok_def)
  show ?thesis
    using long ty req_peek(2) [OF space] pk bnd len lena wf
    by (auto simp: handleGetFile_def Let_def req_header_def reply_ok split: option.split)
qed

section \<open>Dispatch\<close>

text \<open>
  The two assertions \<open>req.readableBytes() > sizeof(Header)\<close> are strict, while the dispatcher
  lets messages of exactly a header pass: a share or get request without a body stops the
  server.
\<close>

definition fatal_request :: "buffer \<Rightarrow> bool" where
  "fatal_request b \<longleftrightarrow>
     readableBytes b = sizeof_Header \<and> sign (req_header b) = kServerSign \<and>
     (mtype (req_header b) = type_code SHARE_FILE \<or> mtype (req_header b) = type_code GET_FILE)"

lemma first_byte_sign:
  "req_space b \<Longrightarrow> slice (readIndex b) (Suc 0) (store b) ! 0 = sign (req_header b)"
  by (simp add: req_header_def header_of_def req_space_def sizeof_defs nth_slice)

lemma handleMessage_cases:
  assumes "req_space buf" and s1_def: "s1 = s\<lparr>activeTimes := om_put a time (activeTimes s)\<rparr>"
  shows "handleMessage sh s buf a time =
    (if readableBytes buf < sizeof_Header \<or> sign (req_header buf) \<noteq> kServerSign then Inr s
     else case type_of (mtype (req_header buf)) of
       Some HELLO \<Rightarrow> handleHello s1 a
     | Some SHARE_FILE \<Rightarrow> handleShareFile sh s1 buf a
     | Some GET_FILE \<Rightarrow> handleGetFile s1 buf a
     | _ \<Rightarrow> Inr s1)"
  using assms(1) req_peek [OF assms(1)] first_byte_sign [OF assms(1)]
  unfolding s1_def by (simp add: handleMessage_def req_header_def [symmetric] Let_def)

lemma short_share_get:
  assumes "readableBytes buf = sizeof_Header"
  shows "handleShareFile sh s buf a = Inl Assert_Fail" "handleGetFile s buf a = Inl Assert_Fail"
  using assms by (simp_all add: handleShareFile_def handleGetFile_def)

lemma handleMessage_fatal:
  assumes "req_space buf" and "fatal_request buf"
  shows "handleMessage sh s buf a time = Inl Assert_Fail"
  using assms short_share_get
  by (auto simp: handleMessage_cases [OF _ refl] fatal_request_def type_of_def message_types_def)

lemma type_of_eq: "type_of b = Some t \<longleftrightarrow> b = type_code t"
  by (auto dest: type_of_SomeD)

text \<open>The preconditions the server's environment provides.\<close>

definition server_ok :: "server \<Rightarrow> bool" where
  "server_ok s \<longleftrightarrow> server_inv s \<and> bound (conn s)"

lemma handleMessage_inv:
  assumes sh: "is_shuffle sh" and s: "server_ok s" and space: "req_space buf"
    and a: "wf_sockaddr a" and run: "handleMessage sh s buf a time = Inr t"
  shows "server_ok t"
proof -
  let ?s = "s\<lparr>activeTimes := om_put a time (activeTimes s)\<rparr>"
  have s1: "server_inv ?s" "bound (conn ?s)" "a \<in> om_keys (activeTimes ?s)" "data_ok ?s"
    using s by (auto simp: server_ok_def touch_inv) (simp add: server_inv_def data_ok_def)
  show ?thesis
  proof (cases "readableBytes buf < sizeof_Header \<or> sign (req_header buf) \<noteq> kServerSign")
    case True
    with run s space show ?thesis by (auto simp: handleMessage_cases [OF _ refl])
  next
    case False
    then have long: "sizeof_Header \<le> readableBytes buf" by simp
    from False run space have run1: "(case type_of (mtype (req_header buf)) of
         Some HELLO \<Rightarrow> handleHello ?s a
       | Some SHARE_FILE \<Rightarrow> handleShareFile sh ?s buf a
       | Some GET_FILE \<Rightarrow> handleGetFile ?s buf a
       | _ \<Rightarrow> Inr ?s) = Inr t"
      by (simp add: handleMessage_cases [OF _ refl])
    have strict: "sizeof_Header < readableBytes buf"
      if "type_of (mtype (req_header buf)) \<in> {Some SHARE_FILE, Some GET_FILE}"
      using that long run1 short_share_get by (cases "readableBytes buf = sizeof_Header") auto
    consider "type_of (mtype (req_header buf)) = Some HELLO"
      | (share) "type_of (mtype (req_header buf)) = Some SHARE_FILE"
      | (get) "type_of (mtype (req_header buf)) = Some GET_FILE"
      | (other) "t = ?s"
      using run1 by (auto split: option.splits MessageType.splits)
    then show ?thesis
    proof cases
      case 1
      with run1 s1 show ?thesis by (simp add: handleHello_ok) (auto simp: server_ok_def)
    next
      case share
      with run1 have "handleShareFile sh ?s buf a = Inr t" by simp
      then show ?thesis
        using handleShareFile_inv [OF sh s1(1,2) space strict _ a s1(3)] share
        by (simp add: server_ok_def type_of_eq)
    next
      case get
      with run1 have "handleGetFile ?s buf a = Inr t" by simp
      then show ?thesis
        using handleGetFile_result [OF s1(2,4) space strict a] get s1
        by (auto simp: server_ok_def type_of_eq split: if_splits option.splits)
    next
      case other
      with s1 show ?thesis by (simp add: server_ok_def)
    qed
  qed
qed

lemma handleMessage_returns:
  assumes sh: "is_shuffle sh" and s: "server_ok s" and space: "req_space buf"
    and a: "wf_sockaddr a" and room: "code_room s" and ok: "\<not> fatal_request buf"
  shows "\<exists>t. handleMessage sh s buf a time = Inr t"
proof -
  let ?s = "s\<lparr>activeTimes := om_put a time (activeTimes s)\<rparr>"
  have s1: "server_inv ?s" "bound (conn ?s)" "code_room ?s" "data_ok ?s"
    using s room
    by (auto simp: server_ok_def touch_inv code_room_def) (simp add: server_inv_def data_ok_def)
  show ?thesis
  proof (cases "readableBytes buf < sizeof_Header \<or> sign (req_header buf) \<noteq> kServerSign")
    case True
    with space show ?thesis by (auto simp: handleMessage_cases [OF _ refl])
  next
    case False
    have strict: "sizeof_Header < readableBytes buf"
      if "mtype (req_header buf) = type_code SHARE_FILE \<or> mtype (req_header buf) = type_code GET_FILE"
      using that ok False by (auto simp: fatal_request_def)
    show ?thesis
      using False space s1 strict
        handleShareFile_returns [OF sh s1(1,3,2) space strict, of a]
        handleGetFile_result [OF s1(2,4) space strict a]
      by (auto simp: handleMessage_cases [OF _ refl] handleHello_ok type_of_eq
          split: option.splits MessageType.splits)
  qed
qed

section \<open>The timer\<close>

lemma drop_sharer_maps:
  assumes inv: "server_inv s" and c: "codesMap s a = Some c"
  shows "drop_sharer s a =
    s\<lparr>fileDatas := (fileDatas s)(c := None), codesMap := (codesMap s)(a := None),
      shareFileNum := (shareFileNum s)(getSockaddrIp a \<mapsto>
        int (card (sharers s (getSockaddrIp a))) - 1)\<rparr>"
proof -
  have "a \<in> sharers s (getSockaddrIp a)" using c by (auto simp: sharers_def)
  then obtain n where "shareFileNum s (getSockaddrIp a) = Some n"
    using count_missing [OF inv] by (cases "shareFileNum s (getSockaddrIp a)") auto
  with c show ?thesis using count_read [OF inv] by (simp add: drop_sharer_def Let_def)
qed

lemma sharers_dropped:
  "codesMap t = (codesMap s)(a := None) \<Longrightarrow> sharers t ip = sharers s ip - {a}"
  by (auto simp: sharers_def)

lemma drop_sharer_inv:
  assumes inv: "server_inv s"
  shows "server_inv (drop_sharer s a)"
proof (cases "codesMap s a")
  case None
  with inv show ?thesis by (simp add: drop_sharer_def)
next
  case (Some c)
  let ?t = "drop_sharer s a" and ?ip = "getSockaddrIp a"
  note t = drop_sharer_maps [OF inv Some]
  have m: "maps_match s" and fin: "finite (dom (codesMap s))" using inv by (auto simp: server_inv_def)
  have old: "\<And>b e. codesMap s b = Some e \<longleftrightarrow> (\<exists>d. fileDatas s e = Some d \<and> addr d = b)"
    using m unfolding maps_match_def by blast
  have "maps_match ?t"
    unfolding maps_match_def
  proof (intro allI)
    fix b e
    show "codesMap ?t b = Some e \<longleftrightarrow> (\<exists>d. fileDatas ?t e = Some d \<and> addr d = b)"
      using old [of b e] old [of a c] old [of a e] Some
      by (cases "b = a"; cases "e = c") (auto simp: t)
  qed
  moreover have "counts_match ?t"
  proof -
    have a: "a \<in> sharers s ?ip" using Some by (auto simp: sharers_def)
    then have pos: "0 < card (sharers s ?ip)"
      using finite_sharers [OF fin] card_gt_0_iff by blast
    obtain n where n: "n = int (card (sharers s ?ip))" "n \<le> kMaxSharedPerIp"
      using count_read [OF inv] count_missing [OF inv] a by (cases "shareFileNum s ?ip") auto
    have here: "int (card (sharers s ?ip - {a})) = int (card (sharers s ?ip)) - 1"
      using a pos finite_sharers [OF fin] by (simp add: of_nat_diff)
    have sh: "sharers ?t ip = sharers s ip - {a}" for ip
      by (rule sharers_dropped) (simp add: t)
    have other: "sharers s ip - {a} = sharers s ip" if "ip \<noteq> ?ip" for ip
      using that by (auto simp: sharers_def)
    have cm: "counts_match s" using inv by (simp add: server_inv_def)
    show ?thesis
      unfolding counts_match_def sh
    proof (intro allI)
      fix ip
      show "(shareFileNum ?t ip = None \<longrightarrow> sharers s ip - {a} = {}) \<and>
          (\<forall>n. shareFileNum ?t ip = Some n \<longrightarrow>
            n = int (card (sharers s ip - {a})) \<and> n \<le> kMaxSharedPerIp)"
      proof (cases "ip = ?ip")
        case True
        with here n show ?thesis by (simp add: t)
      next
        case False
        with cm other [OF False] show ?thesis by (simp add: counts_match_def t)
      qed
    qed
  qed
  ultimately show ?thesis
    using inv by (auto simp: server_inv_def data_ok_def t split: if_splits)
qed

lemma drop_sharer_codesMap: "codesMap (drop_sharer s a) = (codesMap s)(a := None)"
  by (auto simp: drop_sharer_def Let_def split: option.split)

lemma drop_sharer_sel [simp]:
  "conn (drop_sharer s a) = conn s" "activeTimes (drop_sharer s a) = activeTimes s"
  "shareCodes (drop_sharer s a) = shareCodes s"
  by (auto simp: drop_sharer_def Let_def split: option.split)

lemma drop_sharer_fileDatas:
  assumes "maps_match s"
  shows "fileDatas (drop_sharer s a) c =
    (case fileDatas s c of None \<Rightarrow> None | Some d \<Rightarrow> if addr d = a then None else Some d)"
proof -
  have old: "\<And>b e. codesMap s b = Some e \<longleftrightarrow> (\<exists>d. fileDatas s e = Some d \<and> addr d = b)"
    using assms unfolding maps_match_def by blast
  show ?thesis
    using old [of a c] old [of a "the (codesMap s a)"]
    by (cases "codesMap s a"; cases "fileDatas s c") (auto simp: drop_sharer_def Let_def)
qed

definition drop_peer :: "server \<Rightarrow> sockaddr \<Rightarrow> server" where
  "drop_peer s a =
     (let s1 = drop_sharer s a in s1\<lparr>activeTimes := om_erase a (activeTimes s1)\<rparr>)"

lemma drop_peer_inv:
  assumes "server_inv s"
  shows "server_inv (drop_peer s a)"
proof -
  have i: "server_inv (drop_sharer s a)" using assms by (rule drop_sharer_inv)
  have k: "om_inv (activeTimes s)" using assms by (simp add: server_inv_def)
  have "dom (codesMap (drop_sharer s a)) \<subseteq> om_keys (om_erase a (activeTimes s))"
    using assms by (auto simp: om_keys_erase [OF k] drop_sharer_codesMap server_inv_def
        split: if_splits)
  then show ?thesis
    using i om_inv_erase [OF k]
    by (simp add: drop_peer_def server_inv_def maps_match_def counts_match_def data_ok_def
        sharers_def)
qed

lemma drop_peer_sel:
  "codesMap (drop_peer s a) = (codesMap s)(a := None)"
  "activeTimes (drop_peer s a) = om_erase a (activeTimes s)"
  "conn (drop_peer s a) = conn s" "shareCodes (drop_peer s a) = shareCodes s"
  "fileDatas (drop_peer s a) = fileDatas (drop_sharer s a)"
  by (simp_all add: drop_peer_def Let_def drop_sharer_codesMap)

text \<open>The loop drops the expired entries of its list one after the other.\<close>

definition expired_keys :: "timestamp \<Rightarrow> (sockaddr \<times> timestamp) list \<Rightarrow> sockaddr list" where
  "expired_keys now it = map fst (filter (\<lambda>(a, t). timed_out now t kTimeoutSec) it)"

lemma remove_loop_fold: "remove_loop now it s = fold (\<lambda>a s. drop_peer s a) (expired_keys now it) s"
  by (induction now it s rule: remove_loop.induct)
     (auto simp: expired_keys_def drop_peer_def Let_def)

lemma fold_drop_inv: "server_inv s \<Longrightarrow> server_inv (fold (\<lambda>a s. drop_peer s a) as s)"
  by (induction as arbitrary: s) (auto simp: drop_peer_inv)

lemma fold_drop_sel:
  "activeTimes (fold (\<lambda>a s. drop_peer s a) as s) = fold om_erase as (activeTimes s)"
  "conn (fold (\<lambda>a s. drop_peer s a) as s) = conn s"
  "shareCodes (fold (\<lambda>a s. drop_peer s a) as s) = shareCodes s"
  "codesMap (fold (\<lambda>a s. drop_peer s a) as s) a =
     (if a \<in> set as then None else codesMap s a)"
  by (induction as arbitrary: s) (auto simp: drop_peer_sel)

lemma fold_drop_fileDatas:
  "server_inv s \<Longrightarrow> fileDatas (fold (\<lambda>a s. drop_peer s a) as s) c =
     (case fileDatas s c of None \<Rightarrow> None | Some d \<Rightarrow> if addr d \<in> set as then None else Some d)"
proof (induction as arbitrary: s)
  case Nil
  then show ?case by (simp split: option.split)
next
  case (Cons a as)
  then have "maps_match s" by (simp add: server_inv_def)
  with Cons show ?case
    by (auto simp: drop_peer_inv drop_peer_sel drop_sharer_fileDatas split: option.split)
qed

lemma removeTimeoutConn_fold:
  "removeTimeoutConn now s =
     fold (\<lambda>a s. drop_peer s a) (expired_keys now (activeTimes s)) s"
  by (simp add: removeTimeoutConn_def remove_loop_fold expired_keys_def)

lemma set_expired_keys:
  "om_inv it \<Longrightarrow> a \<in> set (expired_keys now it) \<longleftrightarrow>
     (\<exists>t. om_find a it = Some t \<and> timed_out now t kTimeoutSec)"
  by (force simp: expired_keys_def om_find_Some_in [symmetric])

text \<open>An address is silent when its last message is more than five minutes old.\<close>

definition silent :: "timestamp \<Rightarrow> server \<Rightarrow> sockaddr \<Rightarrow> bool" where
  "silent now s a \<longleftrightarrow>
     (case om_find a (activeTimes s) of None \<Rightarrow> False | Some t \<Rightarrow> timed_out now t kTimeoutSec)"

lemma expired_silent:
  "server_inv s \<Longrightarrow> a \<in> set (expired_keys now (activeTimes s)) \<longleftrightarrow> silent now s a"
  by (auto simp: set_expired_keys silent_def server_inv_def split: option.splits)

lemma removeTimeoutConn_spec:
  assumes inv: "server_inv s"
  shows "server_inv (removeTimeoutConn now s)"
    and "codesMap (removeTimeoutConn now s) a = (if silent now s a then None else codesMap s a)"
    and "fileDatas (removeTimeoutConn now s) c =
      (case fileDatas s c of None \<Rightarrow> None
       | Some d \<Rightarrow> if silent now s (addr d) then None else Some d)"
    and "om_find a (activeTimes (removeTimeoutConn now s)) =
      (if silent now s a then None else om_find a (activeTimes s))"
    and "conn (removeTimeoutConn now s) = conn s"
    and "shareCodes (removeTimeoutConn now s) = shareCodes s"
  using inv fold_drop_inv om.find_fold_erase [of "activeTimes s" a]
  unfolding removeTimeoutConn_fold
  by (auto simp: fold_drop_sel fold_drop_fileDatas expired_silent server_inv_def
      split: option.split)

section \<open>Events\<close>

definition full_inv :: "server \<Rightarrow> bool" where
  "full_inv s \<longleftrightarrow> server_ok s \<and> udp_inv (conn s)"

definition wf_event :: "server_event \<Rightarrow> bool" where
  "wf_event e =
     (case e of Readable (Recv d src) now \<Rightarrow> wf_sockaddr src \<and> length d \<le> kBufferSize | _ \<Rightarrow> True)"

text \<open>The datagrams that stop the server: four bytes.\<close>

definition killer :: "bytes \<Rightarrow> bool" where
  "killer d \<longleftrightarrow> length d = 4 \<and> d ! 0 = kServerSign \<and>
     (d ! 1 = type_code SHARE_FILE \<or> d ! 1 = type_code GET_FILE)"

definition fatal_event :: "server_event \<Rightarrow> bool" where
  "fatal_event e = (case e of Readable (Recv d src) now \<Rightarrow> killer d | _ \<Rightarrow> False)"

lemma server_callback_keeps: "keeps_store (server_callback sh)"
  by (auto simp: keeps_store_def server_callback_def outcome_simps)

lemma seen_space: "udp_inv u \<Longrightarrow> wf_event (Readable r now) \<Longrightarrow> req_space (fst (seen u r))"
  using received_props [of u]
  by (cases r)
     (auto simp: seen_def req_space_def sizeof_defs kPrependSize_def kBufferSize_def udp_inv_def
        hasWritten_def wf_event_def)

lemma seen_wf: "wf_event (Readable r now) \<Longrightarrow> wf_sockaddr (snd (seen u r))"
  by (cases r) (auto simp: seen_def wf_event_def)

lemma seen_fatal:
  assumes u: "udp_inv u" and e: "wf_event (Readable r now)"
  shows "fatal_request (fst (seen u r)) \<longleftrightarrow> fatal_event (Readable r now)"
proof (cases r)
  case Recv_Error
  then show ?thesis
    using recv_error_view [OF u] by (simp add: seen_def fatal_request_def fatal_event_def sizeof_defs)
next
  case (Recv d src)
  with e have len: "length d \<le> kBufferSize" by (simp add: wf_event_def)
  note p = received_props [OF u len]
  show ?thesis
  proof (cases "length d = 4")
    case True
    then have "slice kPrependSize 4 (store (received u d)) = d"
      using p by (simp add: contents_def received_def)
    with Recv True p show ?thesis
      by (simp add: seen_def fatal_request_def fatal_event_def killer_def req_header_def
          header_of_def sizeof_defs)
  next
    case False
    with Recv p show ?thesis
      by (simp add: seen_def fatal_request_def fatal_event_def killer_def sizeof_defs)
  qed
qed

lemma server_step_Readable:
  assumes "udp_inv (conn s)" and "wf_event (Readable r now)"
  shows "server_step sh (Readable r now) s =
    bindE (handleMessage sh s (fst (seen (conn s) r)) (snd (seen (conn s) r)) now)
      (\<lambda>s'. Inr (s'\<lparr>conn := (conn s')\<lparr>tmpbuf := retrieveAll (fst (seen (conn s) r))\<rparr>\<rparr>))"
proof -
  have "case r of Recv d src \<Rightarrow> length d \<le> kBufferSize | _ \<Rightarrow> True"
    using assms(2) by (cases r) (auto simp: wf_event_def)
  from handleRead_seen [OF assms(1) this, of "server_callback sh" now s] show ?thesis
    by (simp add: server_callback_def bindE_assoc)
qed

lemma seen_udp_inv:
  "udp_inv u \<Longrightarrow> wf_event (Readable r now) \<Longrightarrow>
     udp_inv (v\<lparr>tmpbuf := retrieveAll (fst (seen u r))\<rparr>)"
  using received_props [of u]
  by (cases r) (auto simp: seen_def udp_inv_def retrieveAll_def hasWritten_def wf_event_def)

lemma server_step_inv:
  assumes sh: "is_shuffle sh" and s: "full_inv s" and e: "wf_event e"
    and run: "server_step sh e s = Inr t"
  shows "full_inv t"
proof (cases e)
  case (Readable r now)
  with s e have u: "udp_inv (conn s)" "wf_event (Readable r now)" "server_ok s"
    by (auto simp: full_inv_def)
  from run obtain s' where "handleMessage sh s (fst (seen (conn s) r)) (snd (seen (conn s) r)) now = Inr s'"
    and t: "t = s'\<lparr>conn := (conn s')\<lparr>tmpbuf := retrieveAll (fst (seen (conn s) r))\<rparr>\<rparr>"
    unfolding Readable server_step_Readable [OF u(1,2)] by (auto simp: outcome_simps)
  then have "server_ok s'"
    using handleMessage_inv [OF sh u(3) seen_space [OF u(1,2)] seen_wf [OF u(2)]] by blast
  then show ?thesis
    using seen_udp_inv [OF u(1,2)] by (simp add: full_inv_def server_ok_def t)
next
  case (Timer now)
  with run s show ?thesis
    using removeTimeoutConn_spec by (auto simp: full_inv_def server_ok_def)
qed

lemma server_step_returns:
  assumes sh: "is_shuffle sh" and s: "full_inv s" and e: "wf_event e"
    and room: "code_room s" and ok: "\<not> fatal_event e"
  shows "\<exists>t. server_step sh e s = Inr t"
proof (cases e)
  case (Readable r now)
  with s e have u: "udp_inv (conn s)" "wf_event (Readable r now)" "server_ok s"
    by (auto simp: full_inv_def)
  have "\<not> fatal_request (fst (seen (conn s) r))"
    using seen_fatal [OF u(1,2)] ok Readable by simp
  then obtain s' where
    "handleMessage sh s (fst (seen (conn s) r)) (snd (seen (conn s) r)) now = Inr s'"
    using handleMessage_returns [OF sh u(3) seen_space [OF u(1,2)] seen_wf [OF u(2)] room] by blast
  then show ?thesis unfolding Readable server_step_Readable [OF u(1,2)] by simp
qed simp

lemma server_step_fatal:
  assumes "full_inv s" and "wf_event e" and "fatal_event e"
  shows "server_step sh e s = Inl Assert_Fail"
proof (cases e)
  case (Readable r now)
  with assms have u: "udp_inv (conn s)" "wf_event (Readable r now)" by (auto simp: full_inv_def)
  have "fatal_request (fst (seen (conn s) r))"
    using seen_fatal [OF u] assms(3) Readable by simp
  then show ?thesis
    unfolding Readable server_step_Readable [OF u]
    by (simp add: handleMessage_fatal [OF seen_space [OF u]])
next
  case (Timer now)
  with assms(3) show ?thesis by (simp add: fatal_event_def)
qed

lemma new_server_full_inv:
  "is_shuffle sh \<Longrightarrow> udp_inv u \<Longrightarrow> bound u \<Longrightarrow> full_inv (new_DiretransServer sh u)"
  by (simp add: full_inv_def server_ok_def new_server_inv) (simp add: new_DiretransServer_def)

lemma server_run_inv:
  assumes "is_shuffle sh" and "full_inv s" and "list_all wf_event es"
    and "server_run sh es s = Inr t"
  shows "full_inv t"
proof (rule foldE_invariant [of es full_inv "server_step sh"])
  show "\<And>e s t. e \<in> set es \<Longrightarrow> full_inv s \<Longrightarrow> server_step sh e s = Inr t \<Longrightarrow> full_inv t"
    using assms(1,3) server_step_inv by (auto simp: list_all_iff)
  show "foldE (server_step sh) es s = Inr t" using assms(4) by (simp add: server_run_def)
qed (rule assms(2))

end
