(* ===== verification/Server_Spec.thy ===== *)
theory Server_Spec
  imports Server_Inv
begin

text \<open>
  What the server promises, without its maps, buffers and messages: a registry of share
  codes that grows by one fresh code at a time, within the limits, and loses codes only when
  their owners fall silent. Every event of the server is a step of the registry.
\<close>

section \<open>The registry\<close>

type_synonym registry = "u32 \<rightharpoonup> sockaddr \<times> FileData"

definition codes_of :: "registry \<Rightarrow> sockaddr \<Rightarrow> u32 set" where
  "codes_of r a = {c. \<exists>f. r c = Some (a, f)}"

definition codes_of_ip :: "registry \<Rightarrow> u32 \<Rightarrow> u32 set" where
  "codes_of_ip r ip = {c. \<exists>a f. r c = Some (a, f) \<and> getSockaddrIp a = ip}"

definition expire :: "sockaddr set \<Rightarrow> registry \<Rightarrow> registry" where
  "expire X r c = (case r c of None \<Rightarrow> None | Some (a, f) \<Rightarrow> if a \<in> X then None else Some (a, f))"

inductive reg_step :: "registry \<Rightarrow> registry \<Rightarrow> bool" where
  stay: "reg_step r r"
| share: "r c = None \<Longrightarrow> c \<in> code_range \<Longrightarrow> codes_of r a = {} \<Longrightarrow>
    int (card (codes_of_ip r (getSockaddrIp a))) < kMaxSharedPerIp \<Longrightarrow>
    reg_step r (r(c \<mapsto> (a, f)))"
| expire: "reg_step r (expire X r)"

inductive_cases reg_stepE: "reg_step r r'"

inductive reg_reachable :: "registry \<Rightarrow> bool" where
  empty: "reg_reachable Map.empty"
| step: "reg_reachable r \<Longrightarrow> reg_step r r' \<Longrightarrow> reg_reachable r'"

definition reg_ok :: "registry \<Rightarrow> bool" where
  "reg_ok r \<longleftrightarrow> finite (dom r) \<and> dom r \<subseteq> code_range \<and>
     (\<forall>a c c'. c \<in> codes_of r a \<longrightarrow> c' \<in> codes_of r a \<longrightarrow> c = c') \<and>
     (\<forall>ip. int (card (codes_of_ip r ip)) \<le> kMaxSharedPerIp)"

lemma codes_of_ip_dom: "codes_of_ip r ip \<subseteq> dom r"
  by (auto simp: codes_of_ip_def)

lemma codes_of_ip_share:
  "r c = None \<Longrightarrow> codes_of_ip (r(c \<mapsto> (a, f))) ip =
     (if ip = getSockaddrIp a then insert c (codes_of_ip r ip) else codes_of_ip r ip)"
  by (auto simp: codes_of_ip_def split: if_splits)

lemma codes_of_share:
  "r c = None \<Longrightarrow> codes_of (r(c \<mapsto> (a, f))) b =
     (if b = a then insert c (codes_of r b) else codes_of r b)"
  by (auto simp: codes_of_def split: if_splits)

lemma expire_subset:
  "codes_of (expire X r) a \<subseteq> codes_of r a" "codes_of_ip (expire X r) ip \<subseteq> codes_of_ip r ip"
  "dom (expire X r) \<subseteq> dom r"
  by (auto simp: codes_of_def codes_of_ip_def expire_def split: option.splits if_splits)

lemma finite_codes_of_ip: "finite (dom r) \<Longrightarrow> finite (codes_of_ip r ip)"
  by (rule finite_subset [OF codes_of_ip_dom])

lemma codes_of_ip_share_card:
  assumes "r c = None" and "finite (codes_of_ip r ip)"
    and "int (card (codes_of_ip r (getSockaddrIp a))) < k"
    and "int (card (codes_of_ip r ip)) \<le> k"
  shows "int (card (codes_of_ip (r(c \<mapsto> (a, f))) ip)) \<le> k"
  using assms by (cases "ip = getSockaddrIp a") (auto simp: codes_of_ip_share card_insert_if)

lemma reg_step_ok: "reg_step r r' \<Longrightarrow> reg_ok r \<Longrightarrow> reg_ok r'"
proof (induction rule: reg_step.induct)
  case (stay r)
  then show ?case .
next
  case (share r c a f)
  have fin: "finite (codes_of_ip r ip)" for ip
    using share.prems by (simp add: finite_codes_of_ip reg_ok_def)
  have "int (card (codes_of_ip (r(c \<mapsto> (a, f))) ip)) \<le> kMaxSharedPerIp" for ip
    using share fin by (intro codes_of_ip_share_card) (auto simp: reg_ok_def)
  moreover have "c' = c''" if "c' \<in> codes_of (r(c \<mapsto> (a, f))) b" "c'' \<in> codes_of (r(c \<mapsto> (a, f))) b" for b c' c''
    using that share by (auto simp: codes_of_share reg_ok_def split: if_splits)
  moreover have "dom (r(c \<mapsto> (a, f))) = insert c (dom r)" by simp
  moreover have "finite (insert c (dom r))" "insert c (dom r) \<subseteq> code_range"
    using share by (simp_all add: reg_ok_def)
  ultimately show ?case unfolding reg_ok_def by presburger
next
  case (expire r X)
  have fin: "finite (codes_of_ip r ip)" for ip
    using expire.prems by (simp add: finite_codes_of_ip reg_ok_def)
  have "card (codes_of_ip (Server_Spec.expire X r) ip) \<le> card (codes_of_ip r ip)" for ip
    by (rule card_mono [OF fin expire_subset(2)])
  then have "int (card (codes_of_ip (Server_Spec.expire X r) ip)) \<le> kMaxSharedPerIp" for ip
    using expire.prems unfolding reg_ok_def by (meson of_nat_mono order_trans)
  then show ?case
    using expire.prems expire_subset(1) [of X r] expire_subset(3) [of X r]
      finite_subset [OF expire_subset(3), of r X]
    unfolding reg_ok_def by blast
qed

lemma reg_reachable_ok: "reg_reachable r \<Longrightarrow> reg_ok r"
proof (induction rule: reg_reachable.induct)
  case empty
  show ?case by (simp add: reg_ok_def codes_of_def codes_of_ip_def kMaxSharedPerIp_def)
next
  case (step r r')
  then show ?case using reg_step_ok by blast
qed

lemma reg_step_card: "reg_step r r' \<Longrightarrow> finite (dom r) \<Longrightarrow> card (dom r') \<le> Suc (card (dom r))"
proof (induction rule: reg_step.induct)
  case (share r c a f)
  have "dom (r(c \<mapsto> (a, f))) = insert c (dom r)" by simp
  with share.prems show ?case by (simp only: card_insert_if) simp
next
  case (expire r X)
  then show ?case by (simp add: card_mono [OF _ expire_subset(3)] le_SucI)
qed simp

section \<open>The server's maps as a registry\<close>

definition abs_registry :: "server \<Rightarrow> registry" where
  "abs_registry s c = map_option (\<lambda>d. (addr d, fileData d)) (fileDatas s c)"

lemma abs_registry_cong: "fileDatas t = fileDatas s \<Longrightarrow> abs_registry t = abs_registry s"
  by (simp add: abs_registry_def fun_eq_iff)

lemma dom_abs_registry [simp]: "dom (abs_registry s) = dom (fileDatas s)"
  by (auto simp: abs_registry_def dom_def)

lemma codes_of_abs:
  assumes "maps_match s"
  shows "codes_of (abs_registry s) a = (case codesMap s a of None \<Rightarrow> {} | Some c \<Rightarrow> {c})"
proof -
  have old: "\<And>e. codesMap s a = Some e \<longleftrightarrow> (\<exists>d. fileDatas s e = Some d \<and> addr d = a)"
    using assms unfolding maps_match_def by blast
  have "codes_of (abs_registry s) a = {e. codesMap s a = Some e}"
    unfolding codes_of_def abs_registry_def old by auto
  then show ?thesis by (auto split: option.split)
qed

lemma codes_of_ip_abs:
  assumes "maps_match s"
  shows "codes_of_ip (abs_registry s) ip = (\<lambda>a. the (codesMap s a)) ` sharers s ip"
proof -
  have old: "\<And>b e. codesMap s b = Some e \<longleftrightarrow> (\<exists>d. fileDatas s e = Some d \<and> addr d = b)"
    using assms unfolding maps_match_def by blast
  have "codes_of_ip (abs_registry s) ip = {e. \<exists>b. codesMap s b = Some e \<and> getSockaddrIp b = ip}"
    unfolding codes_of_ip_def abs_registry_def old by auto
  then show ?thesis by (force simp: sharers_def)
qed

lemma card_codes_of_ip:
  assumes "maps_match s"
  shows "card (codes_of_ip (abs_registry s) ip) = card (sharers s ip)"
proof -
  have "inj_on (\<lambda>a. the (codesMap s a)) (sharers s ip)"
    using maps_match_inj [OF assms] by (auto simp: inj_on_def sharers_def dom_def)
  then show ?thesis by (simp add: codes_of_ip_abs [OF assms] card_image)
qed

section \<open>Every event is a step\<close>

lemma share_answer_step:
  assumes inv: "server_inv s" and ok: "\<not> over_limit s a"
    and ans: "share_answer s a fd n t"
  shows "reg_step (abs_registry s) (abs_registry t)"
proof -
  from ans obtain c rc where c: "fileDatas s c = None" "c \<in> code_range"
    and t: "fileDatas t = (fileDatas s)(c \<mapsto> \<lparr>fileData = fd, addr = a\<rparr>)"
    unfolding share_answer_def by (auto simp: registered_def)
  have m: "maps_match s" using inv by (simp add: server_inv_def)
  have "abs_registry t = (abs_registry s)(c \<mapsto> (a, fd))"
    by (auto simp: abs_registry_def t fun_eq_iff)
  moreover have "reg_step (abs_registry s) ((abs_registry s)(c \<mapsto> (a, fd)))"
    using c ok card_codes_of_ip [OF m] codes_of_abs [OF m, of a]
    by (intro reg_step.share) (auto simp: abs_registry_def over_limit_def)
  ultimately show ?thesis by simp
qed

lemma handleMessage_step:
  assumes sh: "is_shuffle sh" and s: "server_ok s" and space: "req_space buf"
    and a: "wf_sockaddr a" and run: "handleMessage sh s buf a time = Inr t"
  shows "reg_step (abs_registry s) (abs_registry t)"
proof (cases "readableBytes buf < sizeof_Header \<or> sign (req_header buf) \<noteq> kServerSign")
  case True
  with run space show ?thesis by (auto simp: handleMessage_cases [OF _ refl] intro: reg_step.stay)
next
  case False
  let ?s = "s\<lparr>activeTimes := om_put a time (activeTimes s)\<rparr>"
  have s1: "server_inv ?s" "bound (conn ?s)" "data_ok ?s" "rc_inv (shareCodes ?s)"
    using s by (auto simp: server_ok_def touch_inv) (simp_all add: server_inv_def data_ok_def)
  have eq: "abs_registry ?s = abs_registry s" by (rule abs_registry_cong) simp
  from False run space have run1: "(case type_of (mtype (req_header buf)) of
       Some HELLO \<Rightarrow> handleHello ?s a
     | Some SHARE_FILE \<Rightarrow> handleShareFile sh ?s buf a
     | Some GET_FILE \<Rightarrow> handleGetFile ?s buf a
     | _ \<Rightarrow> Inr ?s) = Inr t"
    by (simp add: handleMessage_cases [OF _ refl])
  have strict: "sizeof_Header < readableBytes buf"
    if "type_of (mtype (req_header buf)) \<in> {Some SHARE_FILE, Some GET_FILE}"
    using that False run1 short_share_get by (cases "readableBytes buf = sizeof_Header") auto
  show ?thesis
  proof (cases "type_of (mtype (req_header buf)) = Some SHARE_FILE")
    case True
    with run1 have r: "handleShareFile sh ?s buf a = Inr t" by simp
    have ty: "mtype (req_header buf) = type_code SHARE_FILE" using True by (simp add: type_of_eq)
    have long: "sizeof_Header < readableBytes buf" using strict True by simp
    note eqn = handleShareFile_eq [OF s1(1,2) space long ty refl refl]
    let ?fd = "filedata_of (req_body buf sizeof_FileData)"
    let ?k = "int (card (sharers ?s (getSockaddrIp a))) + 1"
    have "fileDatas t = fileDatas ?s \<or> (\<not> over_limit ?s a \<and> share_answer ?s a ?fd ?k t)"
      using r assign_code_Inr [OF sh s1(4,2), of a ?k ?fd t]
      unfolding eqn by (auto simp: over_limit_def split: if_splits)
    then show ?thesis
      using share_answer_step [OF s1(1)] abs_registry_cong [of t ?s] reg_step.stay
      unfolding eq by metis
  next
    case other: False
    have "fileDatas t = fileDatas s"
    proof (cases "type_of (mtype (req_header buf)) = Some GET_FILE")
      case True
      with run1 have "handleGetFile ?s buf a = Inr t" by simp
      then show ?thesis
        using handleGetFile_result [OF s1(2,3) space strict a] True
        by (auto simp: type_of_eq split: if_splits option.splits)
    next
      case False
      with other run1 s1 show ?thesis
        by (auto simp: handleHello_ok split: option.splits MessageType.splits)
    qed
    then show ?thesis using abs_registry_cong reg_step.stay by metis
  qed
qed

lemma removeTimeoutConn_expire:
  assumes "server_inv s"
  shows "abs_registry (removeTimeoutConn now s) = expire {a. silent now s a} (abs_registry s)"
  by (rule ext)
     (simp add: abs_registry_def expire_def removeTimeoutConn_spec(3) [OF assms] split: option.split)

lemma server_step_reg_step:
  assumes sh: "is_shuffle sh" and s: "full_inv s" and e: "wf_event e"
    and run: "server_step sh e s = Inr t"
  shows "reg_step (abs_registry s) (abs_registry t)"
proof (cases e)
  case (Readable r now)
  with s e have u: "udp_inv (conn s)" "wf_event (Readable r now)" "server_ok s"
    by (auto simp: full_inv_def)
  from run obtain s' where "handleMessage sh s (fst (seen (conn s) r)) (snd (seen (conn s) r)) now = Inr s'"
    and t: "fileDatas t = fileDatas s'"
    unfolding Readable server_step_Readable [OF u(1,2)] by (auto simp: outcome_simps)
  then show ?thesis
    using handleMessage_step [OF sh u(3) seen_space [OF u(1,2)] seen_wf [OF u(2)]]
      abs_registry_cong [OF t] by metis
next
  case (Timer now)
  with run s show ?thesis
    using removeTimeoutConn_expire reg_step.expire by (auto simp: full_inv_def server_ok_def)
qed

lemma server_run_reachable:
  assumes sh: "is_shuffle sh" and es: "list_all wf_event es"
    and s: "full_inv s" "reg_reachable (abs_registry s)" and run: "server_run sh es s = Inr t"
  shows "full_inv t \<and> reg_reachable (abs_registry t)"
proof (rule foldE_invariant [of es "\<lambda>s. full_inv s \<and> reg_reachable (abs_registry s)" "server_step sh"])
  show "\<And>e s t. e \<in> set es \<Longrightarrow> full_inv s \<and> reg_reachable (abs_registry s) \<Longrightarrow>
      server_step sh e s = Inr t \<Longrightarrow> full_inv t \<and> reg_reachable (abs_registry t)"
    using sh es server_step_inv server_step_reg_step reg_reachable.step
    unfolding list_all_iff by blast
  show "foldE (server_step sh) es s = Inr t" using run by (simp add: server_run_def)
qed (simp add: s)

text \<open>A run short enough to leave a free code cannot get stuck.\<close>

lemma server_run_returns:
  assumes sh: "is_shuffle sh" and "list_all wf_event es" and "\<forall>e \<in> set es. \<not> fatal_event e"
    and "full_inv s" and "card (dom (fileDatas s)) + length es < kCodeNums - 1"
  shows "\<exists>t. server_run sh es s = Inr t \<and> full_inv t"
  using assms(2-)
proof (induction es arbitrary: s)
  case Nil
  then show ?case by (simp add: server_run_def)
next
  case (Cons e es)
  then have "code_room s" by (simp add: code_room_def)
  then obtain u where u: "server_step sh e s = Inr u"
    using server_step_returns [OF sh Cons.prems(3)] Cons.prems by auto
  have "full_inv u" using server_step_inv [OF sh Cons.prems(3) _ u] Cons.prems(1) by simp
  moreover have "card (dom (fileDatas u)) \<le> Suc (card (dom (fileDatas s)))"
    using reg_step_card [OF server_step_reg_step [OF sh Cons.prems(3) _ u]] Cons.prems(1,3)
      finite_fileDatas by (auto simp: full_inv_def server_ok_def)
  ultimately have "\<exists>t. server_run sh es u = Inr t \<and> full_inv t"
    using Cons.prems by (intro Cons.IH) auto
  with u show ?case by (simp add: server_run_def)
qed

end
