(* ===== verification/Server_Requests.thy ===== *)
theory Server_Requests
  imports Server_Spec
begin

text \<open>
  The server's answers at the level of datagrams: what a request asks for (its claimed
  length, not the datagram's), what is registered and what is sent, in terms of the
  registry of \<open>Server_Spec\<close>. Bytes past the end of a datagram are those the buffer held
  before (\<open>stale\<close>).
\<close>

section \<open>Datagrams\<close>

definition stale :: "udp \<Rightarrow> bytes \<Rightarrow> bytes" where
  "stale u d = drop (kPrependSize + length d) (store (tmpbuf u))"

lemma received_view:
  assumes "udp_inv u" and "length d \<le> kBufferSize"
  shows "drop kPrependSize (store (received u d)) = d @ stale u d"
  using assms by (simp add: received_def mem_put_def stale_def udp_inv_def)

lemma received_header:
  assumes u: "udp_inv u" and d: "length d \<le> kBufferSize" "sizeof_Header \<le> length d"
  shows "req_header (received u d) = header_of (take sizeof_Header d)"
  using received_view [OF u d(1)] d received_props(3) [OF u d(1)]
  by (simp add: req_header_def slice_def)

lemma received_body:
  assumes u: "udp_inv u" and d: "length d \<le> kBufferSize" "sizeof_Header \<le> length d"
  shows "req_body (received u d) n = take n (drop sizeof_Header d @ stale u d)"
proof -
  have "drop (kPrependSize + sizeof_Header) (store (received u d)) =
      drop sizeof_Header (drop kPrependSize (store (received u d)))"
    by (simp add: add.commute)
  with received_view [OF u d(1)] d received_props(3) [OF u d(1)] show ?thesis
    by (simp add: req_body_def slice_def)
qed

text \<open>A datagram with the server's signature and a known type.\<close>

definition is_request :: "bytes \<Rightarrow> MessageType \<Rightarrow> bool" where
  "is_request d t \<longleftrightarrow> length d \<le> kBufferSize \<and> sizeof_Header < length d \<and>
     sign (header_of (take sizeof_Header d)) = kServerSign \<and>
     mtype (header_of (take sizeof_Header d)) = type_code t"

definition claimed :: "bytes \<Rightarrow> nat" where
  "claimed d = unat (dataLenth (header_of (take sizeof_Header d)))"

definition touch :: "server \<Rightarrow> sockaddr \<Rightarrow> timestamp \<Rightarrow> server" where
  "touch s a now = s\<lparr>activeTimes := om_put a now (activeTimes s)\<rparr>"

lemma touch_sel [simp]:
  "fileDatas (touch s a now) = fileDatas s" "codesMap (touch s a now) = codesMap s"
  "shareFileNum (touch s a now) = shareFileNum s" "conn (touch s a now) = conn s"
  "shareCodes (touch s a now) = shareCodes s" "sharers (touch s a now) ip = sharers s ip"
  "over_limit (touch s a now) b = over_limit s b" "code_room (touch s a now) = code_room s"
  "abs_registry (touch s a now) = abs_registry s"
  by (simp_all add: touch_def sharers_def over_limit_def code_room_def abs_registry_def fun_eq_iff)

lemma touch_ok: "server_inv s \<Longrightarrow> server_inv (touch s a now)"
  by (simp add: touch_def touch_inv)

lemma request_step:
  assumes s: "full_inv s" and d: "is_request d t" and a: "wf_sockaddr a"
    and t: "t = SHARE_FILE \<or> t = GET_FILE"
  shows "server_step sh (Readable (Recv d a) now) s =
    bindE (if t = SHARE_FILE then handleShareFile sh (touch s a now) (received (conn s) d) a
           else handleGetFile (touch s a now) (received (conn s) d) a)
      (\<lambda>s'. Inr (s'\<lparr>conn := (conn s')\<lparr>tmpbuf := retrieveAll (received (conn s) d)\<rparr>\<rparr>))"
proof -
  have u: "udp_inv (conn s)" and e: "wf_event (Readable (Recv d a) now)"
    and len: "length d \<le> kBufferSize" "sizeof_Header \<le> length d"
    using s d a by (auto simp: full_inv_def wf_event_def is_request_def)
  have sp: "req_space (received (conn s) d)"
    using seen_space [OF u e] by (simp add: seen_def)
  have "readableBytes (received (conn s) d) = length d"
    using received_props(5) [OF u len(1)] .
  then have "handleMessage sh s (received (conn s) d) a now =
      (if t = SHARE_FILE then handleShareFile sh (touch s a now) (received (conn s) d) a
       else handleGetFile (touch s a now) (received (conn s) d) a)"
    using d t len received_header [OF u len]
    by (auto simp: handleMessage_cases [OF sp refl] is_request_def touch_def)
  then show ?thesis
    unfolding server_step_Readable [OF u e] by (simp add: seen_def)
qed

lemma request_view:
  assumes s: "full_inv s" and d: "is_request d t" and a: "wf_sockaddr a"
  shows "req_space (received (conn s) d)" "sizeof_Header < readableBytes (received (conn s) d)"
    "mtype (req_header (received (conn s) d)) = type_code t"
    "unat (dataLenth (req_header (received (conn s) d))) = claimed d"
    "req_body (received (conn s) d) n = take n (drop sizeof_Header d @ stale (conn s) d)"
proof -
  have u: "udp_inv (conn s)" and e: "wf_event (Readable (Recv d a) 0)"
    and len: "length d \<le> kBufferSize" "sizeof_Header \<le> length d"
    using s d a by (auto simp: full_inv_def wf_event_def is_request_def)
  show "req_space (received (conn s) d)"
    using seen_space [OF u e] by (simp add: seen_def)
  show "sizeof_Header < readableBytes (received (conn s) d)"
    "mtype (req_header (received (conn s) d)) = type_code t"
    "unat (dataLenth (req_header (received (conn s) d))) = claimed d"
    "req_body (received (conn s) d) n = take n (drop sizeof_Header d @ stale (conn s) d)"
    using d received_props(5) [OF u len(1)] received_header [OF u len] received_body [OF u len]
    by (auto simp: is_request_def claimed_def)
qed

section \<open>Requests\<close>

definition share_outcome ::
  "server \<Rightarrow> sockaddr \<Rightarrow> FileData \<Rightarrow> server \<Rightarrow> bool" where
  "share_outcome s a fd t \<longleftrightarrow>
     (if bad_file fd
      then abs_registry t = abs_registry s \<and>
        sent (conn t) = sent (conn s) @ [(message kServerSign ERROR_FORMAT 0 [], a)]
      else if over_limit s a
      then abs_registry t = abs_registry s \<and>
        sent (conn t) = sent (conn s) @ [(message kServerSign ERROR_LIMIT 0 [], a)]
      else \<exists>c \<in> code_range. abs_registry s c = None \<and>
        abs_registry t = (abs_registry s)(c \<mapsto> (a, fd)) \<and>
        sent (conn t) = sent (conn s) @
          [(message kServerSign SHARE_CODE sizeof_ShareCode (u32_bytes c), a)])"

lemma share_answer_outcome:
  assumes "share_answer s a fd k t" and "\<not> bad_file fd" and "\<not> over_limit s a"
  shows "share_outcome s a fd t"
proof -
  from assms(1) obtain c rc where c: "fileDatas s c = None" "c \<in> code_range"
    and t: "t = add_sent (registered s a fd c rc k)
      [(message kServerSign SHARE_CODE sizeof_ShareCode (u32_bytes c), a)]"
    unfolding share_answer_def by blast
  have "abs_registry t = (abs_registry s)(c \<mapsto> (a, fd))"
    by (auto simp: abs_registry_def t registered_def fun_eq_iff)
  with c assms(2,3) show ?thesis
    by (auto simp: share_outcome_def abs_registry_def t registered_def)
qed

lemma share_message:
  assumes sh: "is_shuffle sh" and s: "full_inv s" and room: "code_room s"
    and b: "req_space b" "sizeof_Header < readableBytes b" "sign (req_header b) = kServerSign"
      "mtype (req_header b) = type_code SHARE_FILE" "sizeof_FileData \<le> unat (dataLenth (req_header b))"
    and fd: "fd = filedata_of (req_body b sizeof_FileData)"
  shows "\<exists>t. handleMessage sh s b a now = Inr t \<and> share_outcome s a fd t"
proof -
  let ?s = "touch s a now"
  have inv: "server_inv ?s" "bound (conn ?s)" "rc_inv (shareCodes ?s)"
    using s by (auto simp: full_inv_def server_ok_def touch_ok) (simp add: server_inv_def)
  have run: "handleMessage sh s b a now = handleShareFile sh ?s b a"
    using b by (simp add: handleMessage_cases [OF b(1) refl] touch_def del: type_code.simps)
  note eq = handleShareFile_eq [OF inv(1,2) b(1,2,4) fd refl, of sh a]
  obtain t where t: "handleShareFile sh ?s b a = Inr t"
    using handleShareFile_returns [OF sh inv(1) _ inv(2) b(1,2,4), of a] room by auto
  have "share_outcome ?s a fd t"
  proof (cases "bad_file fd \<or> over_limit ?s a")
    case True
    with t b(5) show ?thesis
      by (auto simp: eq share_outcome_def abs_registry_def split: if_splits)
  next
    case False
    then have n: "codesMap ?s a = None" by (auto simp: over_limit_def)
    have "share_answer ?s a fd (int (card (sharers ?s (getSockaddrIp a))) + 1) t"
      by (rule assign_code_Inr [OF sh inv(3,2) n]) (use t b(5) False in \<open>simp add: eq\<close>)
    with False share_answer_outcome show ?thesis by blast
  qed
  then have "share_outcome s a fd t" unfolding share_outcome_def touch_sel by presburger
  with t run show ?thesis by simp
qed

text \<open>The event around the handler resets the buffer's indices and nothing else.\<close>

lemma share_outcome_event:
  assumes "full_inv s" and "wf_event (Readable r now)"
    and "handleMessage sh s (fst (seen (conn s) r)) (snd (seen (conn s) r)) now = Inr s'"
    and "share_outcome s a fd s'"
  shows "\<exists>t. server_step sh (Readable r now) s = Inr t \<and> share_outcome s a fd t"
proof -
  let ?t = "s'\<lparr>conn := (conn s')\<lparr>tmpbuf := retrieveAll (fst (seen (conn s) r))\<rparr>\<rparr>"
  have "abs_registry ?t = abs_registry s'" by (rule abs_registry_cong) simp
  moreover have "sent (conn ?t) = sent (conn s')" by simp
  ultimately have "share_outcome s a fd ?t"
    using assms(4) unfolding share_outcome_def by presburger
  moreover have "udp_inv (conn s)" using assms(1) by (simp add: full_inv_def)
  ultimately show ?thesis
    using assms(3) by (simp add: server_step_Readable [OF _ assms(2)] del: server_step.simps)
qed

lemma share_request_step:
  assumes sh: "is_shuffle sh" and s: "full_inv s" and room: "code_room s"
    and d: "is_request d SHARE_FILE" and a: "wf_sockaddr a"
    and big: "sizeof_FileData \<le> claimed d"
    and fd: "fd = filedata_of (take sizeof_FileData (drop sizeof_Header d @ stale (conn s) d))"
  shows "\<exists>t. server_step sh (Readable (Recv d a) now) s = Inr t \<and> share_outcome s a fd t"
proof -
  note v = request_view [OF s d a]
  have sg: "sign (req_header (received (conn s) d)) = kServerSign"
    using s d received_header by (simp add: full_inv_def is_request_def)
  have fd': "fd = filedata_of (req_body (received (conn s) d) sizeof_FileData)" using v(5) fd by simp
  have "sizeof_FileData \<le> unat (dataLenth (req_header (received (conn s) d)))" using big v(4) by simp
  from share_message [OF sh s room v(1,2) sg v(3) this fd', of a now]
  obtain s' where s': "handleMessage sh s (received (conn s) d) a now = Inr s'" "share_outcome s a fd s'"
    by blast
  have "wf_event (Readable (Recv d a) now)" using d a by (simp add: wf_event_def is_request_def)
  from share_outcome_event [OF s this, of sh s' a fd] s' show ?thesis by (simp add: seen_def)
qed

text \<open>What a download request is answered, and what its owner is told.\<close>

definition get_messages :: "registry \<Rightarrow> u32 \<Rightarrow> sockaddr \<Rightarrow> (bytes \<times> sockaddr) list" where
  "get_messages r c a =
     (case r c of
        None \<Rightarrow> [(message kServerSign ERROR_404 0 [], a)]
      | Some (owner, fd) \<Rightarrow>
          [(message kServerSign FILE_DATA sizeof_FileDataAddr
              (filedataaddr_bytes \<lparr>fileData = fd, addr = owner\<rparr>), a),
           (message kServerSign FILE_REQ sizeof_PeerAddr (sockaddr_bytes a), owner)])"

lemma filedataaddr_eta: "\<lparr>fileData = fileData d, addr = addr d\<rparr> = d"
  by simp

lemma get_request_step:
  assumes s: "full_inv s" and d: "is_request d GET_FILE" and a: "wf_sockaddr a"
    and big: "sizeof_ShareCode \<le> claimed d"
    and c: "c = u32_of (take sizeof_ShareCode (drop sizeof_Header d @ stale (conn s) d))"
  shows "\<exists>t. server_step sh (Readable (Recv d a) now) s = Inr t \<and>
    abs_registry t = abs_registry s \<and>
    sent (conn t) = sent (conn s) @ get_messages (abs_registry s) c a"
proof -
  let ?s = "touch s a now" and ?b = "received (conn s) d"
  have inv: "bound (conn ?s)" "data_ok ?s"
    using s touch_ok [of s a now] by (auto simp: full_inv_def server_ok_def server_inv_def)
  note v = request_view [OF s d a]
  have c': "u32_of (req_body ?b sizeof_ShareCode) = c" using v(5) c by simp
  have "handleGetFile ?s ?b a = Inr (add_sent ?s (get_messages (abs_registry s) c a))"
    using big v(4) c' unfolding handleGetFile_result [OF inv v(1,2) a v(3)]
    by (auto simp: get_messages_def abs_registry_def filedataaddr_eta split: option.split)
  moreover have "abs_registry (add_sent ?s ms\<lparr>conn := u\<rparr>) = abs_registry s" for ms u
    by (rule abs_registry_cong) simp
  ultimately show ?thesis using request_step [OF s d a, of sh now] by simp
qed

text \<open>Requests as the clients build them.\<close>

definition share_msg :: "FileData \<Rightarrow> bytes" where
  "share_msg fd = message kServerSign SHARE_FILE sizeof_FileData (filedata_bytes fd)"

definition get_msg :: "u32 \<Rightarrow> bytes" where
  "get_msg c = message kServerSign GET_FILE sizeof_ShareCode (u32_bytes c)"

lemmas message_at = message_header [unfolded sizeof_Header_def] message_body [unfolded sizeof_Header_def]

lemma share_msg_request:
  assumes "wf_FileData fd"
  shows "is_request (share_msg fd) SHARE_FILE" "claimed (share_msg fd) = sizeof_FileData"
    "filedata_of (take sizeof_FileData (drop sizeof_Header (share_msg fd) @ st)) = fd"
    "length (share_msg fd) = sizeof_Header + sizeof_FileData"
  using filedata.length_enc [OF assms] filedata.dec_enc [OF assms] message_at
  by (simp_all add: share_msg_def is_request_def claimed_def sizeof_defs kBufferSize_def)

lemma get_msg_request:
  shows "is_request (get_msg c) GET_FILE" "claimed (get_msg c) = sizeof_ShareCode"
    "u32_of (take sizeof_ShareCode (drop sizeof_Header (get_msg c) @ st)) = c"
  using message_at
  by (simp_all add: get_msg_def is_request_def claimed_def sizeof_defs kBufferSize_def)

text \<open>A share that is accepted, and a request for a code that is given out.\<close>

lemma share_accepted:
  assumes "is_shuffle sh" and "full_inv s" and "code_room s" and "wf_sockaddr a" and "wf_FileData fd"
    and "\<not> bad_file fd" and "\<not> over_limit s a"
  shows "\<exists>c u. server_step sh (Readable (Recv (share_msg fd) a) now) s = Inr u \<and> full_inv u \<and>
    abs_registry u = (abs_registry s)(c \<mapsto> (a, fd)) \<and>
    sent (conn u) = sent (conn s) @ [(message kServerSign SHARE_CODE sizeof_ShareCode (u32_bytes c), a)]"
proof -
  note r = share_msg_request [OF assms(5)]
  from share_request_step [OF assms(1,2,3) r(1) assms(4), of fd now] r(2,3)
  obtain u where u: "server_step sh (Readable (Recv (share_msg fd) a) now) s = Inr u"
    and o: "share_outcome s a fd u" by auto
  from o assms(6,7) obtain c where c: "abs_registry u = (abs_registry s)(c \<mapsto> (a, fd))"
    "sent (conn u) = sent (conn s) @ [(message kServerSign SHARE_CODE sizeof_ShareCode (u32_bytes c), a)]"
    unfolding share_outcome_def by auto
  have "wf_event (Readable (Recv (share_msg fd) a) now)"
    using assms(4) r(1) by (simp add: wf_event_def is_request_def)
  from server_step_inv [OF assms(1,2) this u] u c show ?thesis by blast
qed

lemma get_served:
  assumes "full_inv u" and "wf_sockaddr b" and "abs_registry u c = Some (a, fd)"
  shows "\<exists>t. server_step sh (Readable (Recv (get_msg c) b) now) u = Inr t \<and> abs_registry t = abs_registry u \<and>
    sent (conn t) = sent (conn u) @
      [(message kServerSign FILE_DATA sizeof_FileDataAddr (filedataaddr_bytes \<lparr>fileData = fd, addr = a\<rparr>), b),
       (message kServerSign FILE_REQ sizeof_PeerAddr (sockaddr_bytes b), a)]"
  using get_request_step [OF assms(1) get_msg_request(1) assms(2), of c c sh now] get_msg_request(2,3) assms(3)
  by (auto simp: get_messages_def)

section \<open>Runs\<close>

text \<open>The buffer keeps the bytes of the last datagram.\<close>

lemma step_store:
  assumes "full_inv s" and "wf_event (Readable r now)"
    and "server_step sh (Readable r now) s = Inr t"
  shows "store (tmpbuf (conn t)) = store (fst (seen (conn s) r))"
proof -
  have "udp_inv (conn s)" using assms(1) by (simp add: full_inv_def)
  from assms(3) [unfolded server_step_Readable [OF this assms(2)]] show ?thesis
    by (auto simp: retrieveAll_def outcome_simps)
qed

lemma previous_datagram:
  assumes s: "full_inv s" and e: "wf_event (Readable (Recv d a) now)"
    and run: "server_step sh (Readable (Recv d a) now) s = Inr t"
  shows "drop kPrependSize (store (tmpbuf (conn t))) = d @ stale (conn s) d"
proof -
  have "udp_inv (conn s)" "length d \<le> kBufferSize" using s e by (auto simp: full_inv_def wf_event_def)
  then show ?thesis using step_store [OF s e run] received_view by (simp add: seen_def)
qed

text \<open>After an accepted or refused share, the request is still in the buffer.\<close>

lemma replayed_request:
  assumes u: "udp_inv u" and fd: "wf_FileData fd"
    and old: "drop kPrependSize (store (tmpbuf u)) = share_msg fd @ rest"
    and b_def: "b = hasWritten (tmpbuf u) (sub64 0 1)"
  shows "req_space b" "sizeof_Header < readableBytes b" "sign (req_header b) = kServerSign"
    "mtype (req_header b) = type_code SHARE_FILE" "unat (dataLenth (req_header b)) = sizeof_FileData"
    "fd = filedata_of (req_body b sizeof_FileData)"
proof -
  note r = share_msg_request [OF fd]
  have "wf_event (Readable Recv_Error 0)" by (simp add: wf_event_def)
  from seen_space [OF u this] show "req_space b" by (simp add: seen_def b_def)
  show "sizeof_Header < readableBytes b"
    using recv_error_view [OF u] by (simp add: b_def sizeof_defs)
  have sb: "readIndex b = kPrependSize" "store b = store (tmpbuf u)"
    using u by (simp_all add: hasWritten_def udp_inv_def b_def)
  have "req_header b = header_of (take sizeof_Header (share_msg fd))"
    using old r(4) by (simp add: req_header_def sb slice_def)
  with r(1,2) show "sign (req_header b) = kServerSign" "mtype (req_header b) = type_code SHARE_FILE"
    "unat (dataLenth (req_header b)) = sizeof_FileData"
    by (simp_all add: is_request_def claimed_def)
  have "req_body b sizeof_FileData =
      take sizeof_FileData (drop sizeof_Header (drop kPrependSize (store (tmpbuf u))))"
    by (simp add: req_body_def sb slice_def add.commute)
  then have "req_body b sizeof_FileData = take sizeof_FileData (drop sizeof_Header (share_msg fd @ rest))"
    unfolding old .
  with r(3,4) show "fd = filedata_of (req_body b sizeof_FileData)" by simp
qed

lemma over_limit_registry:
  assumes "server_inv s"
  shows "over_limit s a \<longleftrightarrow> codes_of (abs_registry s) a \<noteq> {} \<or>
    kMaxSharedPerIp \<le> int (card (codes_of_ip (abs_registry s) (getSockaddrIp a)))"
proof -
  have m: "maps_match s" using assms by (simp add: server_inv_def)
  show ?thesis
    by (auto simp: over_limit_def codes_of_abs [OF m] card_codes_of_ip [OF m] split: option.splits)
qed

lemma share_outcome_cases:
  assumes "share_outcome s a fd t"
  obtains (same) "abs_registry t = abs_registry s"
    | (new) c where "abs_registry s c = None" "abs_registry t = (abs_registry s)(c \<mapsto> (a, fd))"
  using assms by (auto simp: share_outcome_def split: if_splits)

lemma share_outcome_other:
  assumes o: "share_outcome s a fd t" and inv: "server_inv s" "server_inv t"
    and ip: "getSockaddrIp b \<noteq> getSockaddrIp a"
  shows "over_limit t b \<longleftrightarrow> over_limit s b"
proof -
  have ab: "b \<noteq> a" using ip by auto
  from o have "codes_of (abs_registry t) b = codes_of (abs_registry s) b \<and>
      codes_of_ip (abs_registry t) (getSockaddrIp b) = codes_of_ip (abs_registry s) (getSockaddrIp b)"
  proof (cases rule: share_outcome_cases)
    case (new c)
    show ?thesis
      unfolding new(2) codes_of_share [of "abs_registry s", OF new(1)]
        codes_of_ip_share [of "abs_registry s", OF new(1)]
      using ab ip by simp
  qed simp
  then show ?thesis
    unfolding over_limit_registry [OF inv(1)] over_limit_registry [OF inv(2)] by presburger
qed

lemma share_outcome_room:
  assumes o: "share_outcome s a fd t" and inv: "server_inv s"
    and room: "Suc (card (dom (fileDatas s))) < kCodeNums - 1"
  shows "code_room t"
proof -
  have fin: "finite (dom (abs_registry s))" using finite_fileDatas [OF inv] by simp
  from o have "card (dom (abs_registry t)) \<le> Suc (card (dom (abs_registry s)))"
  proof (cases rule: share_outcome_cases)
    case (new c)
    then have "dom (abs_registry t) = insert c (dom (abs_registry s))" by simp
    with fin show ?thesis by (simp add: card_insert_if del: dom_abs_registry)
  qed simp
  with room show ?thesis by (simp add: code_room_def)
qed

lemma server_run_two:
  assumes "server_step sh e s = Inr u" and "server_step sh e' u = Inr t"
  shows "server_run sh [e, e'] s = Inr t"
  using assms by (simp add: server_run_def)

end
