(* ===== verification/Demo.thy ===== *)
theory Demo
  imports Udp_Com
begin

text \<open>Two peers and a bound socket, for the concrete instances of the other theories.\<close>

definition peer_a :: sockaddr where
  "peer_a = Sockaddr 2 [0x4E, 0x13, 10, 0, 0, 1, 0, 0, 0, 0, 0, 0, 0, 0]"

definition peer_b :: sockaddr where
  "peer_b = Sockaddr 2 [0x4E, 0x14, 10, 0, 0, 2, 0, 0, 0, 0, 0, 0, 0, 0]"

definition socket0 :: udp where
  "socket0 = \<lparr>bound = True, port = 0x4E13,
     tmpbuf = \<lparr>store = replicate (kPrependSize + kBufferSize) 0,
       readIndex = kPrependSize, writeIndex = kPrependSize\<rparr>, sent = []\<rparr>"

lemma peers_wf: "wf_sockaddr peer_a" "wf_sockaddr peer_b" "peer_a \<noteq> peer_b"
  by (simp_all add: wf_sockaddr_def peer_a_def peer_b_def)

lemma socket0_inv: "udp_inv socket0" "bound socket0" "sent socket0 = []"
  by (simp_all add: udp_inv_def socket0_def)

end
