(* ===== verification/Server_Properties.thy ===== *)
theory Server_Properties
  imports Server_Requests Demo
begin

text \<open>
  The properties of the rendezvous server, over whole runs of datagrams and timer ticks, and
  the concrete server the witnesses use.
\<close>

section \<open>A concrete server\<close>

definition demo_file :: FileData where
  "demo_file = \<lparr>fileName = 0x61 # replicate 255 0, fileBytes = 5000, fileCRC32 = 7\<rparr>"

definition same_order :: shuffle where "same_order n cs = cs"

definition server0 :: server where "server0 = new_DiretransServer same_order socket0"

lemma demo_wf [simp]:
  "wf_sockaddr peer_a" "wf_sockaddr peer_b" "wf_FileData demo_file" "\<not> bad_file demo_file"
  "peer_a \<noteq> peer_b"
  by (simp_all add: wf_sockaddr_def peer_a_def peer_b_def wf_FileData_def demo_file_def
      kFileNameLenth_def bad_file_def)

lemma demo_ip: "getSockaddrIp peer_a \<noteq> getSockaddrIp peer_b"
  "getSockaddrIp peer_a \<noteq> getSockaddrIp zero_sockaddr"
proof -
  have z: "replicate 4 0 = [0 :: u8, 0, 0, 0]" by (simp add: eval_nat_numeral)
  show "getSockaddrIp peer_a \<noteq> getSockaddrIp peer_b"
    "getSockaddrIp peer_a \<noteq> getSockaddrIp zero_sockaddr"
    by (simp_all add: getSockaddrIp_def peer_a_def peer_b_def zero_sockaddr_def slice_def u32_of_def z)
qed

lemma same_order_shuffle [simp]: "is_shuffle same_order"
  by (simp add: is_shuffle_def same_order_def)

lemma server0_inv [simp]: "full_inv server0" "server_inv server0"
proof -
  have "udp_inv socket0" "bound socket0" by (simp_all add: udp_inv_def socket0_def)
  then show "full_inv server0" unfolding server0_def by (simp add: new_server_full_inv)
  then show "server_inv server0" by (simp add: full_inv_def server_ok_def)
qed

lemma server0_sel [simp]:
  "fileDatas server0 = Map.empty" "codesMap server0 = Map.empty" "activeTimes server0 = []"
  "abs_registry server0 = Map.empty" "sharers server0 ip = {}" "\<not> over_limit server0 a"
  "code_room server0" "sent (conn server0) = []"
  by (simp_all add: server0_def new_DiretransServer_def abs_registry_def fun_eq_iff sharers_def
      over_limit_def kMaxSharedPerIp_def code_room_def kCodeNums_def socket0_def)

section \<open>Runs\<close>

text \<open>
  C10. A server that was started, fed any datagrams from anyone (failed receives and timer
  ticks included, in any order, fewer than 99999 events), keeps running: no assertion
  fails, no access leaves a buffer, the search for a code ends. Only the four-byte datagrams
  of \<open>killer\<close> are excluded. The registry it ends with is reachable in the specification.
\<close>

theorem server_run_total:
  assumes "is_shuffle sh" and "0 \<le> sockfd" and "0 \<le> bind p" and "new_UdpCom sockfd p bind = Inr u"
    and "list_all wf_event es" and "\<forall>e \<in> set es. \<not> fatal_event e" and "length es < kCodeNums - 1"
  shows "\<exists>t. server_run sh es (new_DiretransServer sh u) = Inr t \<and> full_inv t \<and>
    reg_reachable (abs_registry t)"
proof -
  let ?s = "new_DiretransServer sh u"
  have "udp_inv u" "bound u" using new_UdpCom_ok [OF assms(2), of p bind] assms(3,4) by auto
  then have s: "full_inv ?s" using assms(1) by (rule new_server_full_inv [rotated])
  have f: "fileDatas ?s = Map.empty" by (simp add: new_DiretransServer_def)
  then have a: "abs_registry ?s = Map.empty" by (simp add: abs_registry_def fun_eq_iff)
  obtain t where t: "server_run sh es ?s = Inr t"
    using server_run_returns [OF assms(1,5,6) s] f assms(7) by auto
  then show ?thesis
    using server_run_reachable [OF assms(1,5) s _ t] by (simp add: a reg_reachable.empty)
qed

theorem server_run_total_witness:
  "\<exists>u t. new_UdpCom 3 0x4E13 (\<lambda>p. 0) = Inr u \<and>
     server_run same_order [Readable (Recv (share_msg demo_file) peer_a) 5, Readable Recv_Error 6,
       Timer 9] (new_DiretransServer same_order u) = Inr t"
proof -
  obtain u where u: "new_UdpCom 3 0x4E13 (\<lambda>p. 0) = Inr u"
    using new_UdpCom_ok [of 3 "0x4E13" "\<lambda>p. 0"] by auto
  have l: "length (share_msg demo_file) = 272"
    using share_msg_request(4) [of demo_file] by (simp add: sizeof_defs)
  show ?thesis
    using server_run_total [OF same_order_shuffle _ _ u, of "[Readable (Recv (share_msg demo_file) peer_a) 5,
        Readable Recv_Error 6, Timer 9]"] u l
    by (auto simp: wf_event_def fatal_event_def killer_def kCodeNums_def kBufferSize_def)
qed

text \<open>
  C2. Refinement: every event the server handles is one step of the registry
  specification (nothing changes, one fresh code within the limits is added for one address,
  or the codes of a set of addresses expire), and the invariant of the maps is kept.
\<close>

theorem server_step_refines:
  assumes "is_shuffle sh" and "full_inv s" and "wf_event e" and "server_step sh e s = Inr t"
  shows "reg_step (abs_registry s) (abs_registry t) \<and> full_inv t"
  using server_step_reg_step [OF assms] server_step_inv [OF assms] by simp

theorem server_step_refines_witness:
  "reg_step (abs_registry server0) (abs_registry (removeTimeoutConn 7 server0))"
  using server_step_refines [OF same_order_shuffle server0_inv(1), of "Timer 7"]
  by (simp add: wf_event_def)

text \<open>
  C23. Which events stop the server: with a code left to deal, an event fails exactly when it
  is a four-byte datagram that claims to be a share or get request, and then the failure is
  an assertion: the dispatcher checks \<open>readableBytes < sizeof(Header)\<close>, the handlers assert
  \<open>readableBytes > sizeof(Header)\<close>.
\<close>

theorem server_step_fails_iff:
  assumes "is_shuffle sh" and "full_inv s" and "wf_event e" and "code_room s"
  shows "server_step sh e s = Inl f \<longleftrightarrow> fatal_event e \<and> f = Assert_Fail"
  using server_step_returns [OF assms] server_step_fatal [OF assms(2,3), of sh] by fastforce

theorem server_step_fails_iff_witness:
  "server_step same_order (Readable (Recv [0xCC, 4, 0, 0] peer_b) 1) server0 = Inl Assert_Fail"
  using server_step_fails_iff [OF same_order_shuffle server0_inv(1), of "Readable (Recv [0xCC, 4, 0, 0] peer_b) 1"]
  by (simp add: wf_event_def fatal_event_def killer_def kServerSign_def kBufferSize_def)

text \<open>
  C22. The limits hold after every run: an address holds at most one code, an IP at most
  \<open>kMaxSharedPerIp\<close>; the counter kept per IP is the number of codes the IP holds (so it never
  goes negative and an expired share frees its place); every code is in the dealt range, and
  the two maps are inverse to each other.
\<close>

theorem share_limits_hold:
  assumes "is_shuffle sh" and "full_inv s" and "list_all wf_event es"
    and "server_run sh es s = Inr t"
  shows "(\<forall>ip. int (card (codes_of_ip (abs_registry t) ip)) \<le> kMaxSharedPerIp) \<and>
    (\<forall>ip n. shareFileNum t ip = Some n \<longrightarrow> n = int (card (codes_of_ip (abs_registry t) ip))) \<and>
    dom (fileDatas t) \<subseteq> code_range \<and>
    (\<forall>a c. codesMap t a = Some c \<longleftrightarrow> (\<exists>d. fileDatas t c = Some d \<and> addr d = a))"
proof -
  have inv: "server_inv t"
    using server_run_inv [OF assms] by (simp add: full_inv_def server_ok_def)
  then have m: "maps_match t" by (simp add: server_inv_def)
  have "int (card (sharers t ip)) \<le> kMaxSharedPerIp" for ip
    using count_read [OF inv, of ip] count_missing [OF inv, of ip]
    by (cases "shareFileNum t ip") (auto simp: kMaxSharedPerIp_def)
  moreover have "dom (fileDatas t) \<subseteq> code_range"
    using inv by (auto simp: server_inv_def data_ok_def)
  ultimately show ?thesis
    using m count_read [OF inv] unfolding maps_match_def card_codes_of_ip [OF m] by blast
qed

theorem share_limits_hold_witness:
  "\<exists>t. server_run same_order [Timer 3] server0 = Inr t \<and>
     (\<forall>ip. int (card (codes_of_ip (abs_registry t) ip)) \<le> kMaxSharedPerIp)"
  using share_limits_hold [OF same_order_shuffle server0_inv(1), of "[Timer 3]"]
  by (simp add: server_run_def wf_event_def)


section \<open>Requests\<close>

text \<open>
  C20. Sharing: a share request that carries a whole \<open>FileData\<close> is answered by one message to
  its sender. A file without a name or with size 0 is refused with \<open>ERROR_FORMAT\<close>; an address
  that holds a code, or whose IP holds ten, is refused with \<open>ERROR_LIMIT\<close>; otherwise a code
  that was free is registered for the address and the file, and sent back.
\<close>

theorem share_file_answer:
  assumes "is_shuffle sh" and "full_inv s" and "code_room s" and "wf_sockaddr a" and "wf_FileData fd"
  shows "\<exists>t. server_step sh (Readable (Recv (share_msg fd) a) now) s = Inr t \<and>
    (if bad_file fd
     then abs_registry t = abs_registry s \<and>
       sent (conn t) = sent (conn s) @ [(message kServerSign ERROR_FORMAT 0 [], a)]
     else if over_limit s a
     then abs_registry t = abs_registry s \<and>
       sent (conn t) = sent (conn s) @ [(message kServerSign ERROR_LIMIT 0 [], a)]
     else \<exists>c \<in> code_range. abs_registry s c = None \<and>
       abs_registry t = (abs_registry s)(c \<mapsto> (a, fd)) \<and>
       sent (conn t) = sent (conn s) @
         [(message kServerSign SHARE_CODE sizeof_ShareCode (u32_bytes c), a)])"
  using share_request_step [OF assms(1,2,3) share_msg_request(1) [OF assms(5)] assms(4), of fd]
    share_msg_request(2,3) [OF assms(5)]
  unfolding share_outcome_def by simp

theorem share_file_answer_witness:
  "\<exists>t. \<exists>c \<in> code_range.
     server_step same_order (Readable (Recv (share_msg demo_file) peer_a) 5) server0 = Inr t \<and>
     abs_registry t = [c \<mapsto> (peer_a, demo_file)] \<and>
     sent (conn t) = [(message kServerSign SHARE_CODE sizeof_ShareCode (u32_bytes c), peer_a)]"
  using share_file_answer [of same_order server0 peer_a demo_file 5] by auto

text \<open>
  Fetching: a download request with a code that is registered is answered by two messages,
  the file's data and owner to the one who asks, and the asker's address to the owner; with
  any other code by \<open>ERROR_404\<close>. The registry does not change.
\<close>

theorem get_file_answer:
  assumes "full_inv s" and "wf_sockaddr a"
  shows "\<exists>t. server_step sh (Readable (Recv (get_msg c) a) now) s = Inr t \<and>
    abs_registry t = abs_registry s \<and>
    sent (conn t) = sent (conn s) @
      (case abs_registry s c of
         None \<Rightarrow> [(message kServerSign ERROR_404 0 [], a)]
       | Some (owner, fd) \<Rightarrow>
           [(message kServerSign FILE_DATA sizeof_FileDataAddr
               (filedataaddr_bytes \<lparr>fileData = fd, addr = owner\<rparr>), a),
            (message kServerSign FILE_REQ sizeof_PeerAddr (sockaddr_bytes a), owner)])"
  using get_request_step [OF assms(1) get_msg_request(1) assms(2), of c c sh now] get_msg_request(2,3)
  unfolding get_messages_def by simp

theorem get_file_answer_witness:
  "\<exists>t. server_step same_order (Readable (Recv (get_msg 123456) peer_b) 5) server0 = Inr t \<and>
     sent (conn t) = [(message kServerSign ERROR_404 0 [], peer_b)]"
  using get_file_answer [of server0 peer_b same_order 123456 5] by auto

text \<open>
  The rendezvous: when one peer shares a file and another then asks for the code it was
  given, the second is sent the file's data with the first peer's address, and the first the
  second's address, which is what the two need to talk to each other.
\<close>

theorem share_then_get:
  assumes "is_shuffle sh" and "full_inv s" and "code_room s" and "wf_sockaddr a" and "wf_sockaddr b"
    and "wf_FileData fd" and "\<not> bad_file fd" and "\<not> over_limit s a"
  shows "\<exists>c t. server_run sh [Readable (Recv (share_msg fd) a) t1, Readable (Recv (get_msg c) b) t2] s
      = Inr t \<and>
    sent (conn t) = sent (conn s) @
      [(message kServerSign SHARE_CODE sizeof_ShareCode (u32_bytes c), a),
       (message kServerSign FILE_DATA sizeof_FileDataAddr
          (filedataaddr_bytes \<lparr>fileData = fd, addr = a\<rparr>), b),
       (message kServerSign FILE_REQ sizeof_PeerAddr (sockaddr_bytes b), a)]"
proof -
  from share_accepted [OF assms(1,2,3,4,6,7,8), of t1] obtain c u where
    u: "server_step sh (Readable (Recv (share_msg fd) a) t1) s = Inr u" "full_inv u"
      "abs_registry u = (abs_registry s)(c \<mapsto> (a, fd))"
      "sent (conn u) = sent (conn s) @ [(message kServerSign SHARE_CODE sizeof_ShareCode (u32_bytes c), a)]" by blast
  from u(3) have "abs_registry u c = Some (a, fd)" by simp
  from get_served [OF u(2) assms(5) this, of sh t2] u(4) server_run_two [OF u(1)]
  show ?thesis by fastforce
qed

theorem share_then_get_witness:
  "\<exists>c t. server_run same_order [Readable (Recv (share_msg demo_file) peer_a) 1,
      Readable (Recv (get_msg c) peer_b) 2] server0 = Inr t \<and> length (sent (conn t)) = 3"
proof -
  obtain c t where "server_run same_order [Readable (Recv (share_msg demo_file) peer_a) 1,
      Readable (Recv (get_msg c) peer_b) 2] server0 = Inr t" "length (sent (conn t)) = 3"
    using share_then_get [of same_order server0 peer_a peer_b demo_file 1 2] by force
  then show ?thesis by (intro exI [of _ c] exI [of _ t]) simp
qed

text \<open>
  The timer: an address whose last message is more than five minutes old loses its code,
  its file and its entry; every other address keeps all of them; nothing is sent.
\<close>

theorem timeout_forgets:
  assumes "full_inv s" and "server_step sh (Timer now) s = Inr t"
  shows "abs_registry t = expire {a. silent now s a} (abs_registry s) \<and>
    (\<forall>a. codesMap t a = (if silent now s a then None else codesMap s a)) \<and>
    (\<forall>a. om_find a (activeTimes t) = (if silent now s a then None else om_find a (activeTimes s))) \<and>
    conn t = conn s"
proof -
  have inv: "server_inv s" using assms(1) by (simp add: full_inv_def server_ok_def)
  have "t = removeTimeoutConn now s" using assms(2) by simp
  then show ?thesis
    using removeTimeoutConn_expire [OF inv] removeTimeoutConn_spec(2,4,5) [OF inv] by simp
qed

theorem timeout_forgets_witness:
  "abs_registry (removeTimeoutConn 9 server0) = expire {a. silent 9 server0 a} (abs_registry server0)"
  using timeout_forgets [OF server0_inv(1), of same_order 9] by simp

section \<open>What the handlers read\<close>

text \<open>
  C39. A share request is believed about its own length: a five-byte datagram whose header
  claims 268 bytes is accepted, and the missing bytes are those the buffer holds from the
  datagram before. So a stranger's short request registers, under the stranger's address,
  the file another peer has just shared, with the first byte of the name replaced.
\<close>

theorem short_share_registers_previous_file:
  assumes "is_shuffle sh" and "full_inv s" and "Suc (card (dom (fileDatas s))) < kCodeNums - 1"
    and "wf_sockaddr a" and "wf_sockaddr b" and "wf_FileData fd" and "fileBytes fd \<noteq> 0" and "x \<noteq> 0"
    and "getSockaddrIp a \<noteq> getSockaddrIp b" and "\<not> over_limit s b"
  shows "\<exists>c t. server_run sh [Readable (Recv (share_msg fd) a) t1,
        Readable (Recv (message kServerSign SHARE_FILE sizeof_FileData [x]) b) t2] s = Inr t \<and>
      abs_registry t c = Some (b, fd\<lparr>fileName := x # tl (fileName fd)\<rparr>)"
proof -
  note r = share_msg_request [OF assms(6)]
  have room: "code_room s" using assms(3) by (simp add: code_room_def)
  from share_request_step [OF assms(1,2) room r(1) assms(4), of fd t1] r(2,3)
  obtain u where u: "server_step sh (Readable (Recv (share_msg fd) a) t1) s = Inr u"
    and o: "share_outcome s a fd u" by auto
  have e: "wf_event (Readable (Recv (share_msg fd) a) t1)"
    using assms(4) r(1) by (simp add: wf_event_def is_request_def)
  have inv: "full_inv u" using server_step_inv [OF assms(1,2) e u] .
  have si: "server_inv s" "server_inv u" using assms(2) inv by (auto simp: full_inv_def server_ok_def)
  let ?d = "message kServerSign SHARE_FILE sizeof_FileData [x]"
  have d: "is_request ?d SHARE_FILE" "claimed ?d = sizeof_FileData" "length ?d = 5"
    using message_at by (simp_all add: is_request_def claimed_def sizeof_defs kBufferSize_def)
  let ?fd = "fd\<lparr>fileName := x # tl (fileName fd)\<rparr>"
  have wf: "length (fileName fd) = 256" using assms(6) by (simp add: wf_FileData_def kFileNameLenth_def)
  note v = previous_datagram [OF assms(2) e u]
  have "stale (conn u) ?d = drop 5 (drop kPrependSize (store (tmpbuf (conn u))))"
    unfolding stale_def d(3) by (simp add: add.commute)
  also have "\<dots> = drop 1 (filedata_bytes fd) @ stale (conn s) (share_msg fd)"
    using filedata.length_enc [OF assms(6)] unfolding v
    by (simp add: share_msg_def message_def sizeof_defs header_bytes_def)
  finally have st: "take sizeof_FileData (drop sizeof_Header ?d @ stale (conn u) ?d) =
      x # drop 1 (filedata_bytes fd)"
    using filedata.length_enc [OF assms(6)] message_at(2) by (simp add: sizeof_defs)
  have "filedata_bytes ?fd = x # drop 1 (filedata_bytes fd)"
    using wf by (cases "fileName fd") (simp_all add: filedata_bytes_def)
  moreover have "wf_FileData ?fd" using wf by (simp add: wf_FileData_def kFileNameLenth_def)
  ultimately have fd: "?fd = filedata_of (take sizeof_FileData (drop sizeof_Header ?d @ stale (conn u) ?d))"
    using filedata.dec_enc [of ?fd] st by simp
  from share_request_step [OF assms(1) inv share_outcome_room [OF o si(1) assms(3)] d(1) assms(5) _ fd, of t2]
  obtain t where t: "server_step sh (Readable (Recv ?d b) t2) u = Inr t" "share_outcome u b ?fd t"
    using d(2) by auto
  have "\<not> bad_file ?fd" "\<not> over_limit u b"
    using assms(7,8,10) share_outcome_other [OF o si] assms(9) by (auto simp: bad_file_def)
  with t(2) server_run_two [OF u t(1)] show ?thesis unfolding share_outcome_def by auto
qed

theorem short_share_registers_previous_file_witness:
  "\<exists>c t. server_run same_order [Readable (Recv (share_msg demo_file) peer_a) 1,
        Readable (Recv (message kServerSign SHARE_FILE sizeof_FileData [0x62]) peer_b) 2] server0 = Inr t \<and>
      abs_registry t c = Some (peer_b, demo_file\<lparr>fileName := 0x62 # tl (fileName demo_file)\<rparr>)"
  using short_share_registers_previous_file [of same_order server0 peer_a peer_b demo_file "0x62" 1 2] demo_ip
  by (simp add: kCodeNums_def) (simp add: demo_file_def)


text \<open>
  A failed receive is not ignored: \<open>recvfrom\<close>'s result -1 is handed to \<open>hasWritten\<close>, the
  buffer then claims to hold almost \<open>2 ^ 64\<close> bytes, and the handler runs again on what the
  buffer holds, with the source address 0.0.0.0. After a share request this registers the
  file a second time, for that address.
\<close>

theorem failed_receive_replays_request:
  assumes "is_shuffle sh" and "full_inv s" and "Suc (card (dom (fileDatas s))) < kCodeNums - 1"
    and "wf_sockaddr a" and "wf_FileData fd" and "\<not> bad_file fd"
    and "getSockaddrIp a \<noteq> getSockaddrIp zero_sockaddr" and "\<not> over_limit s zero_sockaddr"
  shows "\<exists>c t. server_run sh [Readable (Recv (share_msg fd) a) t1, Readable Recv_Error t2] s = Inr t \<and>
      abs_registry t c = Some (zero_sockaddr, fd)"
proof -
  note r = share_msg_request [OF assms(5)]
  have room: "code_room s" using assms(3) by (simp add: code_room_def)
  from share_request_step [OF assms(1,2) room r(1) assms(4), of fd t1] r(2,3)
  obtain u where u: "server_step sh (Readable (Recv (share_msg fd) a) t1) s = Inr u"
    and o: "share_outcome s a fd u" by auto
  have e: "wf_event (Readable (Recv (share_msg fd) a) t1)"
    using assms(4) r(1) by (simp add: wf_event_def is_request_def)
  have inv: "full_inv u" using server_step_inv [OF assms(1,2) e u] .
  have si: "server_inv s" "server_inv u" using assms(2) inv by (auto simp: full_inv_def server_ok_def)
  have ui: "udp_inv (conn u)" using inv by (simp add: full_inv_def)
  have e2: "wf_event (Readable Recv_Error t2)" by (simp add: wf_event_def)
  note q = replayed_request [OF ui assms(5) previous_datagram [OF assms(2) e u] refl]
  from share_message [OF assms(1) inv share_outcome_room [OF o si(1) assms(3)] q(1-4) _ q(6)] q(5)
  obtain v where "handleMessage sh u (hasWritten (tmpbuf (conn u)) (sub64 0 1)) zero_sockaddr t2 = Inr v"
    "share_outcome u zero_sockaddr fd v" by auto
  then obtain t where t: "server_step sh (Readable Recv_Error t2) u = Inr t"
    "share_outcome u zero_sockaddr fd t"
    using share_outcome_event [OF inv e2, of sh v zero_sockaddr fd] by (auto simp: seen_def)
  have "\<not> over_limit u zero_sockaddr" using share_outcome_other [OF o si] assms(7,8) by auto
  with t(2) assms(6) server_run_two [OF u t(1)] show ?thesis unfolding share_outcome_def by auto
qed

theorem failed_receive_replays_request_witness:
  "\<exists>c t. server_run same_order [Readable (Recv (share_msg demo_file) peer_a) 1,
        Readable Recv_Error 2] server0 = Inr t \<and>
      abs_registry t c = Some (zero_sockaddr, demo_file)"
  using failed_receive_replays_request [of same_order server0 peer_a demo_file 1 2] demo_ip
  by (simp add: kCodeNums_def)

end
