(* ===== verification/File_Properties.thy ===== *)
theory File_Properties
  imports File_Transfer
begin

text \<open>
  The properties of the two file managers and of a transfer between them, and the concrete
  files the witnesses use.
\<close>

section \<open>A concrete file\<close>

definition demo_content :: bytes where "demo_content = replicate 1500 0x41"

definition demo_data :: FileData where
  "demo_data = \<lparr>fileName = 0x61 # replicate 255 0, fileBytes = 1500, fileCRC32 = crc32_ref demo_content\<rparr>"

definition demo_piece :: "nat \<Rightarrow> u32 \<times> buffer" where
  "demo_piece k = (of_nat k, piece_buffer (chunk 1024 demo_content k))"

lemma demo_sizes: "length demo_content = 1500" "piece_count demo_content = 2" "fits_limit demo_content"
  "fileBytes demo_data = of_nat (length demo_content)"
  by (simp_all add: demo_content_def piece_count_def fits_limit_def demo_data_def)

lemma demo_piece_true: "k < 2 \<Longrightarrow> true_piece demo_content (demo_piece k)"
proof -
  assume k: "k < 2"
  have "length (chunk 1024 demo_content k) \<le> 1024" by (simp add: length_chunk)
  with k piece_buffer_ok [OF this] demo_sizes(2) show ?thesis
    by (auto simp: true_piece_def demo_piece_def)
qed

lemma demo_piece_no: "k < 2 \<Longrightarrow> piece_no (demo_piece k) = k"
  by (simp add: piece_no_def demo_piece_def small_u32)

definition recv0 :: get_file where
  "recv0 = new_GetFileManager [] True demo_data kBytesPerPiece"

definition demo_sender :: send_file where
  "demo_sender = \<lparr>ifileStream = closed_ifile, curPiece = 0, filePath = [], sent_fileName = [],
     sent_fileBytes = 0, sent_fileCRC32 = 0, bytesPerPiece = 0\<rparr>"

definition demo_fs :: "bytes \<rightharpoonup> bytes" where "demo_fs = [[0x61] \<mapsto> demo_content]"

definition opened_sender :: send_file where
  "opened_sender = new_SendFileManager crc_init demo_fs demo_sender [0x61] kBytesPerPiece"

lemma demo_fs: "demo_fs [0x61] = Some demo_content"
  by (simp add: demo_fs_def)

lemmas opened_sender_props =
  new_SendFileManager_open [where fs = demo_fs and path = "[0x61]" and u = demo_sender,
    OF demo_fs crc_init_ok, folded opened_sender_def]

section \<open>Receiving\<close>

text \<open>
  C4. Exactness: whatever true pieces of a file arrive, in any order, any number of times,
  with any losses, the receiver reports \<open>WRITE_FINISH\<close> only when every piece has been written,
  and then the file on disk is byte for byte the sender's. Until then it stays open and keeps
  receiving; it never faults.
\<close>

theorem transfer_exact:
  assumes "fits_limit m" and "fileBytes d = of_nat (length m)" and "\<forall>p \<in> set ps. true_piece m p"
  shows "\<exists>rets g. deliver ps (new_GetFileManager cp True d kBytesPerPiece) = Inr (rets, g) \<and>
    (if WRITE_FINISH \<in> set rets then data (fileStream g) = m \<and> \<not> Get_File.isOpen g
     else Get_File.isOpen g)"
proof -
  from deliver_pieces [OF new_GetFileManager_receiving [OF assms(1,2)] assms(3), of cp]
  obtain rets g where d: "deliver ps (new_GetFileManager cp True d kBytesPerPiece) = Inr (rets, g)"
    and fin: "WRITE_FINISH \<in> set rets \<longleftrightarrow> reached m (map piece_no ps) (0, {})"
    and st: "if reached m (map piece_no ps) (0, {}) then data (fileStream g) = m \<and> \<not> Get_File.isOpen g
      else \<exists>c M. fold accept (map piece_no ps) (0, {}) = (c, M) \<and> receiving g m c M" by blast
  have "receiving g m c M \<Longrightarrow> Get_File.isOpen g" for c M by (simp add: receiving_def)
  with d fin st show ?thesis by (auto split: if_splits)
qed

theorem transfer_exact_witness:
  "\<exists>rets g. deliver [demo_piece 1, demo_piece 1, demo_piece 0] recv0 = Inr (rets, g)"
  using transfer_exact [OF demo_sizes(3,4), of "[demo_piece 1, demo_piece 1, demo_piece 0]" "[]"]
    demo_piece_true [of 0] demo_piece_true [of 1]
  by (auto simp: recv0_def)

text \<open>
  C21. Recovery: when pieces have been lost on the way to the last one (no gap longer than
  \<open>kMaxLossPiecesNum\<close>), delivering the pieces that \<open>getLossPieces\<close> lists, in any order and
  possibly among others, completes the file.
\<close>

theorem transfer_recovers:
  assumes "fits_limit m" and "fileBytes d = of_nat (length m)"
    and "\<forall>p \<in> set ps. true_piece m p" and "\<forall>p \<in> set rs. true_piece m p"
    and "deliver ps (new_GetFileManager cp True d kBytesPerPiece) = Inr (rets, g)"
    and "WRITE_FINISH \<notin> set rets" and "Get_File.curPiece g = of_nat (piece_count m)"
    and "set (getLossPieces g []) \<subseteq> set (map fst rs)"
  shows "\<exists>rets' g'. deliver rs g = Inr (rets', g') \<and> WRITE_FINISH \<in> set rets' \<and> data (fileStream g') = m"
proof -
  from deliver_pieces [OF new_GetFileManager_receiving [OF assms(1,2)] assms(3), of cp] assms(5,6)
  obtain c M where r: "receiving g m c M" and f0: "fold accept (map piece_no ps) (0, {}) = (c, M)"
    and nr: "\<not> reached m (map piece_no ps) (0, {})" by (auto split: if_splits)
  have c: "c = piece_count m"
    using r assms(7) fits_bounds(4) [OF assms(1)] inj_u32 [of c "piece_count m"]
    by (simp add: receiving_def)
  have lt: "\<forall>k \<in> set (map piece_no rs). k < piece_count m"
    using assms(4) true_pieceD(1) [OF _ assms(1)] by auto
  have "M \<subseteq> set (map piece_no rs)"
    using loss_list [OF r] assms(8) by (auto simp: piece_no_def)
  then have "M - set (map piece_no rs) = {}" by blast
  with fold_accept_fill [OF lt, of M] c
  have f: "fold accept (map piece_no rs) (c, M) = (piece_count m, {})" by simp
  from deliver_pieces [OF r assms(4)] obtain rets' g' where d: "deliver rs g = Inr (rets', g')"
    "WRITE_FINISH \<in> set rets' \<longleftrightarrow> reached m (map piece_no rs) (c, M)"
    and s: "if reached m (map piece_no rs) (c, M) then data (fileStream g') = m \<and> \<not> Get_File.isOpen g'
     else \<exists>c' M'. fold accept (map piece_no rs) (c, M) = (c', M') \<and> receiving g' m c' M'" by blast
  show ?thesis
  proof (cases "map piece_no rs = []")
    case True
    with f f0 c have all: "fold accept (map piece_no ps) (0, {}) = (piece_count m, {})" by simp
    then have "map piece_no ps \<noteq> []"
      using assms(1) piece_count_iff [of 0 m] by (auto simp: fits_limit_def)
    with all reached_fold nr show ?thesis by blast
  next
    case False
    from reached_fold [OF f False] d s show ?thesis by simp
  qed
qed


lemma recv0_after_last:
  "\<exists>rets g. deliver [demo_piece 1] recv0 = Inr (rets, g) \<and> WRITE_FINISH \<notin> set rets \<and>
     Get_File.curPiece g = of_nat (piece_count demo_content) \<and> set (getLossPieces g []) \<subseteq> {0}"
proof -
  have r: "receiving recv0 demo_content 0 {}"
    unfolding recv0_def by (rule new_GetFileManager_receiving) (fact demo_sizes)+
  have a: "fold accept (map piece_no [demo_piece 1]) (0, {}) = (2, {0})"
    "\<not> reached demo_content (map piece_no [demo_piece 1]) (0, {})"
    by (auto simp: demo_piece_no accept_def complete_def demo_sizes numeral_2_eq_2)
  from deliver_pieces [OF r, of "[demo_piece 1]"] demo_piece_true [of 1] a
  obtain rets g where "deliver [demo_piece 1] recv0 = Inr (rets, g)" "WRITE_FINISH \<notin> set rets"
    and g: "receiving g demo_content 2 {0}" by auto
  moreover have "set (getLossPieces g []) = {0}"
    using g by (simp add: receiving_def getLossPieces_def om_keys_def)
  ultimately show ?thesis using g demo_sizes(2) by (auto simp: receiving_def)
qed

theorem transfer_recovers_witness:
  "\<exists>g rets' g'. deliver [demo_piece 0] g = Inr (rets', g') \<and> WRITE_FINISH \<in> set rets' \<and>
     data (fileStream g') = demo_content"
proof -
  from recv0_after_last obtain rets g where g: "deliver [demo_piece 1] recv0 = Inr (rets, g)"
    "WRITE_FINISH \<notin> set rets" "Get_File.curPiece g = of_nat (piece_count demo_content)"
    "set (getLossPieces g []) \<subseteq> {0}" by blast
  have f: "set (map fst [demo_piece 0]) = {0}" by (simp add: demo_piece_def)
  from transfer_recovers [OF demo_sizes(3,4) _ _ g(1) [unfolded recv0_def] g(2,3), of "[demo_piece 0]"] g(4) f
    demo_piece_true [of 0] demo_piece_true [of 1]
  show ?thesis by auto
qed

text \<open>
  The undisturbed transfer: the pieces the sender reads one after the other from its
  file, delivered in order, end with the whole file at the receiver, and the checksum the
  sender announced is the checksum of what was written.
\<close>

theorem transfer_in_order:
  assumes "fits_limit m" and "fs path = Some m" and "crc_ok crc" and "fileBytes d = of_nat (length m)"
    and "s = new_SendFileManager crc fs u path kBytesPerPiece" and "fileCRC32 d = sent_fileCRC32 s"
  shows "\<exists>ps s' rets g. next_pieces (piece_count m) s = Inr (ps, s') \<and>
    deliver ps (new_GetFileManager cp True d kBytesPerPiece) = Inr (rets, g) \<and>
    WRITE_FINISH \<in> set rets \<and> data (fileStream g) = m \<and>
    fst (calculateFileCRC32 crc (Some (data (fileStream g)))) = fileCRC32 d"
proof -
  have s: "streaming s m 0" "sent_fileCRC32 s = crc32_ref m"
    using new_SendFileManager_open [where fs = fs and path = path and m = m, OF assms(2,3), of u] assms(5)
    by auto
  have n: "piece_count m \<noteq> 0" using assms(1) piece_count_iff [of 0 m] by (simp add: fits_limit_def)
  from next_pieces_true [OF s(1) _ n] obtain ps s' where p: "next_pieces (piece_count m) s = Inr (ps, s')"
    "\<forall>p \<in> set ps. true_piece m p" "map fst ps = map of_nat [0..<piece_count m]" by auto
  have "map piece_no ps = map unat (map fst ps)" by (simp add: piece_no_def comp_def)
  also have "\<dots> = [0..<piece_count m]"
    unfolding p(3) map_map using fits_bounds(4) [OF assms(1)]
    by (intro map_idI) (simp add: small_u32)
  finally have no: "map piece_no ps = [0..<piece_count m]" .
  have "reached m (map piece_no ps) (0, {})"
    unfolding no using n by (intro reached_fold fold_accept_in_order) simp
  with deliver_pieces [OF new_GetFileManager_receiving [OF assms(1,4)] p(2), of cp]
  obtain rets g where "deliver ps (new_GetFileManager cp True d kBytesPerPiece) = Inr (rets, g)"
    "WRITE_FINISH \<in> set rets" "data (fileStream g) = m" by auto
  with p(1) s(2) assms(3,6) show ?thesis
    by (auto simp: calculateFileCRC32_eq calculateCRC32_ref)
qed

theorem transfer_in_order_witness:
  "\<exists>ps s' rets g. next_pieces 2 opened_sender = Inr (ps, s') \<and>
     deliver ps (new_GetFileManager [] True demo_data kBytesPerPiece) = Inr (rets, g) \<and>
     WRITE_FINISH \<in> set rets \<and> data (fileStream g) = demo_content"
proof -
  have crc: "fileCRC32 demo_data = sent_fileCRC32 opened_sender"
    using opened_sender_props by (simp add: demo_data_def)
  from transfer_in_order [where fs = demo_fs and path = "[0x61]", OF demo_sizes(3) demo_fs crc_init_ok
      demo_sizes(4) opened_sender_def crc, of "[]"] demo_sizes(2)
  show ?thesis by auto
qed

text \<open>
  Retransmission at the sender: for every piece of a file of at most 4 GiB the piece asked
  for is read, whatever the stream's state; the counter of the stream is kept. The position
  is restored when the piece was a full one. After a short one the stream stays failed, so
  the streaming does not go on (the restoring \<open>seekg\<close> has no effect).
\<close>

theorem retransmission_reads_piece:
  assumes "sends s m" and "1024 * k < length m" and "length m \<le> 2 ^ 32"
  shows "\<exists>b s'. getPieceOf s (of_nat k) = Inr (b, s') \<and> contents b = chunk 1024 m k \<and>
    sends s' m \<and> Send_File.curPiece s' = Send_File.curPiece s \<and>
    (if 1024 * Suc k \<le> length m
     then good (ifileStream s') \<and> gpos (ifileStream s') = unat (Send_File.curPiece s * kBytesPerPiece)
     else \<not> good (ifileStream s'))"
  using getPieceOf_spec [OF assms] by (elim exE conjE) (intro exI conjI; assumption)

theorem retransmission_reads_piece_witness:
  "\<exists>b s'. getPieceOf opened_sender (of_nat 1) = Inr (b, s') \<and> contents b = chunk 1024 demo_content 1 \<and>
     \<not> good (ifileStream s')"
proof -
  have s: "sends opened_sender demo_content" using opened_sender_props by (simp add: streaming_def)
  from retransmission_reads_piece [OF s, of 1] demo_sizes(1) show ?thesis by auto
qed

section \<open>Limits\<close>

text \<open>
  The size limit: a receiver opens its file only when the announced size is at most
  \<open>2 ^ 32 - 1024\<close>, because \<open>UINT32_MAX * bytesPerPiece\<close> is computed in 32 bits; the number of
  pieces a \<open>uint32_t\<close> can count would allow 4 TiB. Within this limit no offset wraps.
\<close>

theorem size_limit:
  "Get_File.isOpen (new_GetFileManager cp can d kBytesPerPiece) \<longleftrightarrow>
     can \<and> unat (fileBytes d) \<le> 2 ^ 32 - 1024"
  using new_GetFileManager_open_iff by simp

text \<open>
  C40. Above 4 GiB the sender's offsets wrap: asked for the piece number \<open>2 ^ 22 + k\<close>, it
  reads and sends the piece number \<open>k\<close>.
\<close>

theorem large_file_wrong_piece:
  assumes "sends s m" and "1024 * (2 ^ 22 + k) < length m" and "k < 2 ^ 22"
  shows "\<exists>b s'. getPieceOf s (of_nat (2 ^ 22 + k)) = Inr (b, s') \<and> contents b = chunk 1024 m k"
proof -
  have w: "of_nat (2 ^ 22 + k) * kBytesPerPiece = (of_nat k * kBytesPerPiece :: u32)"
    by (simp add: kBytesPerPiece_def distrib_right)
  let ?f = "if \<not> isGood s then fs_clear (ifileStream s) else ifileStream s"
  obtain s1 where s1_def: "s1 = s\<lparr>ifileStream := seekg ?f (unat (of_nat k * kBytesPerPiece :: u32))\<rparr>" by blast
  have off: "unat (of_nat k * kBytesPerPiece :: u32) = 1024 * k" using assms(3) by (intro offset_small) simp
  have s1: "sends s1 m" "good (ifileStream s1)" "gpos (ifileStream s1) = 1024 * k"
    using assms(1) by (auto simp: s1_def sends_def seekg_def good_def fs_clear_def isGood_def Let_def off)
  from getNextPiece_good [OF s1(1,2)]
  have "\<exists>b s2. getNextPiece s1 = Inr (b, s2) \<and> contents b = chunk 1024 m k"
    unfolding s1(3) chunk_def by (elim exE conjE) (intro exI conjI; assumption)
  then obtain b s2 where b: "getNextPiece s1 = Inr (b, s2)" "contents b = chunk 1024 m k" by blast
  have bpp: "Send_File.bytesPerPiece s = kBytesPerPiece" using assms(1) by (simp add: sends_def)
  have eq: "s\<lparr>ifileStream := seekg ?f (unat (of_nat (2 ^ 22 + k) * Send_File.bytesPerPiece s))\<rparr> = s1"
    unfolding s1_def bpp w ..
  have "\<exists>s'. getPieceOf s (of_nat (2 ^ 22 + k)) = Inr (b, s')"
    unfolding getPieceOf_def Let_def eq using assms(1) b(1) by (simp add: Send_File.isOpen_def sends_def)
  with b(2) show ?thesis by blast
qed


definition big_content :: bytes where "big_content = replicate (2 ^ 32 + 5000) 0"

definition big_sender :: send_file where
  "big_sender = \<lparr>ifileStream = \<lparr>content = big_content, is_open = True, gpos = 0, eofbit = False, failbit = False\<rparr>,
     curPiece = 0, filePath = [], sent_fileName = [], sent_fileBytes = 0, sent_fileCRC32 = 0,
     bytesPerPiece = kBytesPerPiece\<rparr>"

theorem large_file_wrong_piece_witness:
  "\<exists>b s'. getPieceOf big_sender (of_nat (2 ^ 22 + 1)) = Inr (b, s') \<and> contents b = chunk 1024 big_content 1"
proof (rule large_file_wrong_piece)
  show "sends big_sender big_content" by (simp add: sends_def big_sender_def)
  have "length big_content = 2 ^ 32 + 5000" unfolding big_content_def by (rule length_replicate)
  then show "1024 * (2 ^ 22 + 1) < length big_content" by simp
qed simp

section \<open>The end of the file\<close>

text \<open>
  A lost short last piece: when the sender, asked for another piece in between, goes on
  past the end and sends an empty piece, the receiver fills a whole piece with zeros for the
  missing one. The retransmitted last piece then completes the count, \<open>WRITE_FINISH\<close> is
  reported, and the file is longer than the sender's by the zeros.
\<close>

theorem lost_last_piece_pads:
  assumes "receiving g m P {}" and "Suc P = piece_count m" and "buffer_inv e" and "contents e = []"
    and "buffer_inv b" and "contents b = chunk 1024 m P"
  shows "\<exists>g'. deliver [(of_nat (Suc P), e), (of_nat P, b)] g = Inr ([LOSS, WRITE_FINISH], g') \<and>
    data (fileStream g') = m @ replicate (1024 * piece_count m - length m) 0"
proof -
  from empty_piece_pads [OF assms(1-4)] obtain g1 where g1: "writeToFile g e (of_nat (Suc P)) = Inr (LOSS, g1)" "padded g1 m P" by blast
  from padded_finish [OF g1(2) assms(5,6)] g1(1) show ?thesis by (auto simp del: of_nat_Suc)
qed

theorem lost_last_piece_pads_witness:
  "\<exists>g g'. deliver [demo_piece 0, (of_nat (Suc 1), new_Buffer), demo_piece 1] recv0 = Inr (g, g') \<and>
     data (fileStream g') = demo_content @ replicate 548 0"
proof -
  have r: "receiving recv0 demo_content 0 {}"
    unfolding recv0_def by (rule new_GetFileManager_receiving) (fact demo_sizes)+
  have a: "fold accept (map piece_no [demo_piece 0]) (0, {}) = (1, {})"
    "\<not> reached demo_content (map piece_no [demo_piece 0]) (0, {})"
    by (auto simp: demo_piece_no accept_def complete_def demo_sizes)
  from deliver_pieces [OF r, of "[demo_piece 0]"] demo_piece_true [of 0] a
  obtain rets g where d: "deliver [demo_piece 0] recv0 = Inr (rets, g)"
    and g: "receiving g demo_content 1 {}" by auto
  have "length (chunk 1024 demo_content 1) \<le> 1024" by (simp add: length_chunk)
  note b = piece_buffer_ok [OF this]
  have n: "Suc 1 = piece_count demo_content" by (simp add: demo_sizes)
  from lost_last_piece_pads [OF g n new_Buffer_inv new_Buffer_contents b(1,2)] obtain g' where
    "deliver [(of_nat (Suc 1), new_Buffer), demo_piece 1] g = Inr ([LOSS, WRITE_FINISH], g')"
    "data (fileStream g') = demo_content @ replicate 548 0"
    unfolding demo_piece_def by (auto simp: demo_sizes simp del: of_nat_Suc)
  with d show ?thesis by (auto simp: demo_piece_def bindE_eq_Inr simp del: of_nat_Suc)
qed

end
