(* ===== verification/Message_View.thy ===== *)
theory Message_View
  imports Udp_Com
begin

text \<open>
  What a client's handler reads of the receive buffer before it looks at the message itself:
  the length, the sign byte and the type. For a datagram that was built as a message, these
  are the fields of its header, and reading behind the header gives its body.
\<close>

definition msg_sign :: "buffer \<Rightarrow> u8" where "msg_sign b = store b ! kPrependSize"

definition msg_type :: "buffer \<Rightarrow> MessageType option" where
  "msg_type b = type_of (mtype (header_of (slice kPrependSize sizeof_Header (store b))))"

definition known_sign :: "u8 \<Rightarrow> bool" where
  "known_sign sg \<longleftrightarrow> sg = kServerSign \<or> sg = kClientSign"

definition understood :: "buffer \<Rightarrow> bool" where
  "understood b \<longleftrightarrow> sizeof_Header \<le> readableBytes b \<and> known_sign (msg_sign b)"

lemma known_signs [simp]: "known_sign kServerSign" "known_sign kClientSign"
  by (simp_all add: known_sign_def)

lemma slice_1: "i < length xs \<Longrightarrow> slice i 1 xs = [xs ! i]"
  by (simp add: slice_def take_Suc_conv_app_nth flip: Cons_nth_drop_Suc)

lemma peek_sign:
  assumes "msg_view b"
  shows "peek b 0 1 = Inr [msg_sign b]"
  using view_peek [OF assms, of 0 1] slice_1 [of kPrependSize "store b"] assms
  by (simp add: msg_view_def kBufferSize_def msg_sign_def)

lemma peek_header:
  assumes "msg_view b"
  shows "peek b 0 sizeof_Header = Inr (slice kPrependSize sizeof_Header (store b))"
  using view_peek [OF assms, of 0 sizeof_Header] by (simp add: sizeof_Header_def kBufferSize_def)

text \<open>The frame of both clients' handlers.\<close>

definition client_frame :: "buffer \<Rightarrow> 's outcome \<Rightarrow> (u8 \<Rightarrow> MessageType option \<Rightarrow> 's outcome) \<Rightarrow> 's outcome" where
  "client_frame buf skip k =
     (if readableBytes buf < sizeof_Header then skip
      else bindE (peek buf 0 1) (\<lambda>sg.
        let sg = sg ! 0 in
        if sg \<noteq> kServerSign \<and> sg \<noteq> kClientSign then skip
        else bindE (peek buf 0 sizeof_Header) (\<lambda>hb. k sg (type_of (mtype (header_of hb))))))"

lemma client_frame_eq:
  assumes b: "msg_view b"
  shows "client_frame b skip k = (if understood b then k (msg_sign b) (msg_type b) else skip)"
  unfolding client_frame_def peek_sign [OF b] peek_header [OF b] bindE_Inr Let_def nth_Cons_0
    understood_def known_sign_def msg_type_def
  by (auto split: if_splits)

lemma received_msg_view:
  assumes "udp_inv u" and "length d \<le> kBufferSize"
  shows "msg_view (received u d)"
  using received_props [OF assms] by (simp add: msg_view_def)

lemma received_slice:
  assumes "udp_inv u" and "length d \<le> kBufferSize" and "off + n \<le> length d"
  shows "slice (kPrependSize + off) n (store (received u d)) = slice off n d"
  using received_peek [OF assms] view_peek [OF received_msg_view [OF assms(1,2)], of off n] assms(2,3) by simp

lemma received_message:
  assumes u: "udp_inv u" and len: "length (message sg t n body) \<le> kBufferSize"
  shows "msg_sign (received u (message sg t n body)) = sg"
    and "msg_type (received u (message sg t n body)) = Some t"
    and "known_sign sg \<Longrightarrow> understood (received u (message sg t n body))"
    and "off + k \<le> length body \<Longrightarrow>
      slice (kPrependSize + (sizeof_Header + off)) k (store (received u (message sg t n body))) = slice off k body"
proof -
  let ?d = "message sg t n body"
  have h: "slice kPrependSize sizeof_Header (store (received u ?d)) = take sizeof_Header ?d"
    using received_slice [OF u len, of 0 sizeof_Header] by (simp add: slice_def)
  show s: "msg_sign (received u ?d) = sg"
  proof -
    have "slice kPrependSize 1 (store (received u ?d)) = slice 0 1 ?d"
      using received_slice [OF u len, of 0 1] by (simp add: sizeof_Header_def)
    moreover have "slice 0 1 ?d = [sg]" by (simp add: slice_def message_def header_bytes_def)
    moreover have "slice kPrependSize 1 (store (received u ?d)) = [msg_sign (received u ?d)]"
      using slice_1 [of kPrependSize "store (received u ?d)"] received_props(4) [OF u len]
      by (simp add: msg_sign_def kBufferSize_def)
    ultimately show ?thesis by simp
  qed
  show "msg_type (received u ?d) = Some t"
    unfolding msg_type_def h message_header by (simp del: type_code.simps)
  show "known_sign sg \<Longrightarrow> understood (received u ?d)"
    using s received_props(5) [OF u len] by (simp add: understood_def)
  show "off + k \<le> length body \<Longrightarrow>
      slice (kPrependSize + (sizeof_Header + off)) k (store (received u ?d)) = slice off k body"
    using received_slice [OF u len, of "sizeof_Header + off" k]
    by (simp add: slice_def message_def)
qed

end
