(* ===== verification/Conn_Manager.thy ===== *)
theory Conn_Manager
  imports Message_View File_Stream
begin

text \<open>
  What the two connection managers of the client share: the constants of
  \<open>client/ConnManager.h\<close>, the window they agree on, and the loop of their constructors.
\<close>

section \<open>Constants\<close>

definition kPiecesPerWindow :: u32 where "kPiecesPerWindow = 10"
definition kWindowNum :: u32 where "kWindowNum = 3"
definition kTimeoutSec :: int where "kTimeoutSec = 60"
definition kFileStreamTimeoutUS :: int where "kFileStreamTimeoutUS = 100 * 1000"

section \<open>Binding a port\<close>

text \<open>
  The constructor binds random ports until one is free; \<open>bindPort\<close> tries the first port each
  time. \<open>ports\<close> are the random numbers, \<open>os n\<close> answers the n-th \<open>bind\<close>.
\<close>

partial_function (option) bind_loop ::
  "(nat \<Rightarrow> u16) \<Rightarrow> (nat \<Rightarrow> u16 \<Rightarrow> int) \<Rightarrow> nat \<Rightarrow> udp \<Rightarrow> udp option" where
  "bind_loop ports os n u =
     (if bound u then Some u else bind_loop ports os (Suc n) (bindPort u (ports n) (os n)))"

lemma bind_loop_returns:
  assumes "bind_loop ports os n u = Some v"
  shows "bound u \<or> (\<exists>k \<ge> n. 0 \<le> os k (port u))"
proof (rule bind_loop.raw_induct [where P = "\<lambda>ports os n u v. bound u \<or> (\<exists>k \<ge> n. 0 \<le> os k (port u))", OF _ assms])
  fix loop :: "(nat \<Rightarrow> u16) \<Rightarrow> (nat \<Rightarrow> u16 \<Rightarrow> int) \<Rightarrow> nat \<Rightarrow> udp \<Rightarrow> udp option"
    and ports :: "nat \<Rightarrow> u16" and os :: "nat \<Rightarrow> u16 \<Rightarrow> int" and n u v
  assume IH: "\<And>ports os n u v. loop ports os n u = Some v \<Longrightarrow> bound u \<or> (\<exists>k \<ge> n. 0 \<le> os k (port u))"
    and run: "(if bound u then Some u else loop ports os (Suc n) (bindPort u (ports n) (os n))) = Some v"
  show "bound u \<or> (\<exists>k \<ge> n. 0 \<le> os k (port u))"
  proof (cases "bound u \<or> 0 \<le> os n (port u)")
    case True
    then show ?thesis by auto
  next
    case False
    then have "loop ports os (Suc n) (u\<lparr>bound := False\<rparr>) = Some v"
      using run by (simp add: bindPort_def)
    from IH [OF this] False show ?thesis by (auto dest: Suc_leD)
  qed
qed

lemma bind_loop_binds:
  assumes "0 \<le> os (n + k) (port u)"
  shows "\<exists>v. bind_loop ports os n u = Some v"
  using assms
proof (induction k arbitrary: n u)
  case 0
  then have "bound (bindPort u (ports n) (os n))" by (simp add: bindPort_def)
  then show ?case
    by (simp add: bind_loop.simps [of ports os n u]
        bind_loop.simps [of ports os "Suc n" "bindPort u (ports n) (os n)"])
next
  case (Suc k)
  have "port (bindPort u (ports n) (os n)) = port u" by (simp add: bindPort_def)
  with Suc.IH [of "Suc n" "bindPort u (ports n) (os n)"] Suc.prems show ?case
    by (subst bind_loop.simps) simp
qed

lemma bind_loop_result:
  assumes "bind_loop ports os n u = Some v"
  shows "bound v \<and> tmpbuf v = tmpbuf u \<and> sent v = sent u"
proof (rule bind_loop.raw_induct [where P = "\<lambda>ports os n u v. bound v \<and> tmpbuf v = tmpbuf u \<and> sent v = sent u", OF _ assms])
  fix loop :: "(nat \<Rightarrow> u16) \<Rightarrow> (nat \<Rightarrow> u16 \<Rightarrow> int) \<Rightarrow> nat \<Rightarrow> udp \<Rightarrow> udp option"
    and ports :: "nat \<Rightarrow> u16" and os :: "nat \<Rightarrow> u16 \<Rightarrow> int" and n u v
  assume IH: "\<And>ports os n u v. loop ports os n u = Some v \<Longrightarrow> bound v \<and> tmpbuf v = tmpbuf u \<and> sent v = sent u"
    and run: "(if bound u then Some u else loop ports os (Suc n) (bindPort u (ports n) (os n))) = Some v"
  show "bound v \<and> tmpbuf v = tmpbuf u \<and> sent v = sent u"
  proof (cases "bound u")
    case True
    with run show ?thesis by simp
  next
    case False
    with run have "loop ports os (Suc n) (bindPort u (ports n) (os n)) = Some v" by simp
    from IH [OF this] show ?thesis by (simp add: bindPort_def)
  qed
qed

lemma new_socket:
  assumes "0 \<le> fd" and "0 \<le> os k (ports 0)"
  shows "\<exists>u v. new_UdpCom fd (ports 0) (os 0) = Inr u \<and> bind_loop ports os 1 u = Some v \<and>
    bound v \<and> udp_inv v \<and> sent v = []"
proof -
  from new_UdpCom_ok [OF assms(1), of "ports 0" "os 0"] obtain u where
    u: "new_UdpCom fd (ports 0) (os 0) = Inr u" "udp_inv u" "port u = ports 0" "sent u = []"
      "bound u = (0 \<le> os 0 (ports 0))" by blast
  have "\<exists>v. bind_loop ports os 1 u = Some v"
  proof (cases k)
    case 0
    with u(5) assms(2) have "bound u" by simp
    then show ?thesis by (simp add: bind_loop.simps)
  next
    case (Suc j)
    then have "0 \<le> os (1 + j) (port u)" using assms(2) u(3) by simp
    from bind_loop_binds [where os = os and n = 1 and k = j and u = u, OF this, of ports] show ?thesis .
  qed
  then obtain v where v: "bind_loop ports os 1 u = Some v" by blast
  from bind_loop_result [OF v] u v show ?thesis by (auto simp: udp_inv_def)
qed

section \<open>The window\<close>

lemma window_limit: "kPiecesPerWindow * kWindowNum \<le> w \<longleftrightarrow> 30 \<le> unat (w :: u32)"
  by (simp add: kPiecesPerWindow_def kWindowNum_def word_le_nat_alt)

section \<open>The datagram of a piece\<close>

text \<open>Piece numbers are multiplied by the piece size in 32 bits, so only 22 of their bits count.\<close>

definition piece_msg :: "bytes \<Rightarrow> u32 \<Rightarrow> bytes" where
  "piece_msg f k =
     (let d = chunk 1024 f (unat k mod 2 ^ 22)
      in message kClientSign DATA_STREAM (length d + sizeof_DataStream) (u32_bytes k @ d))"

lemma piece_count_small: "length f \<le> 4294966272 \<Longrightarrow> piece_count f \<le> 4194303"
proof -
  assume "length f \<le> 4294966272"
  then have "length f + 1023 < 4194304 * 1024" by simp
  then have "(length f + 1023) div 1024 < 4194304" by (rule less_mult_imp_div_less)
  then show ?thesis by (simp add: piece_count_def)
qed

lemma piece_msg_small:
  assumes "k < piece_count f" and "length f \<le> 4294966272"
  shows "piece_msg f (of_nat k) =
    message kClientSign DATA_STREAM (length (chunk 1024 f k) + sizeof_DataStream) (u32_bytes (of_nat k) @ chunk 1024 f k)"
proof -
  have "k < 2 ^ 22" using assms piece_count_small [OF assms(2)] by simp
  then have "unat (of_nat k :: u32) mod 2 ^ 22 = k" by (simp add: unat_of_nat)
  then show ?thesis by (simp add: piece_msg_def Let_def)
qed

end
