(* ===== verification/Send_Conn.thy ===== *)
theory Send_Conn
  imports Send_File Conn_Manager
begin

text \<open>
  \<open>client/SendConnManager\<close>: one shared file, from the share request to the end of every
  transfer. What the manager asks of its surroundings (the client's tables, functors queued
  in the loop) is collected in \<open>actions\<close>, in order; its timers are the data of their
  callbacks. The buffers the code keeps in static variables are emptied before each use, so
  messages are built as everywhere (\<open>msg_buffer\<close>).
\<close>

section \<open>State\<close>

datatype ConnState = IDLE | WAIT_CODE | WAIT_RECVER | CONN_RECVER | SEND_FILE

datatype action =
    Move_Pend_Conn int u32
  | Close_Send_Conn u32
  | Close_Pend_Conn int
  | Queue_Stream
  | Queue_Loss "u32 list"

record send_conn =
  conn :: udp
  sock :: int
  state :: ConnState
  code :: u32
  serveraddr :: sockaddr
  recveraddr :: sockaddr
  repeattimers :: "(sockaddr \<times> u8) list"
  heartBeat :: "(sockaddr \<times> u8) option"
  sendManager :: "send_file option"
  sendWindow :: u32
  isWindowFull :: bool
  lastServerHelloTime :: timestamp
  lastPeerHelloTime :: timestamp
  actions :: "action list"

definition new_SendConnManager ::
  "int \<Rightarrow> (nat \<Rightarrow> u16) \<Rightarrow> (nat \<Rightarrow> u16 \<Rightarrow> int) \<Rightarrow> sockaddr \<Rightarrow> sockaddr \<Rightarrow> send_conn outcome" where
  "new_SendConnManager sockfd ports os server uninit =
     bindE (new_UdpCom sockfd (ports 0) (os 0)) (\<lambda>u.
       case bind_loop ports os 1 u of
         None \<Rightarrow> Inl Diverge
       | Some u \<Rightarrow> Inr \<lparr>conn = u, sock = sockfd, state = IDLE, code = 0, serveraddr = server,
           recveraddr = uninit, repeattimers = [], heartBeat = None, sendManager = None,
           sendWindow = 0, isWindowFull = False, lastServerHelloTime = invalid,
           lastPeerHelloTime = invalid, actions = []\<rparr>)"

section \<open>Sending\<close>

definition act :: "send_conn \<Rightarrow> action \<Rightarrow> send_conn" where
  "act s a = s\<lparr>actions := actions s @ [a]\<rparr>"

definition send_to ::
  "send_conn \<Rightarrow> u8 \<Rightarrow> MessageType \<Rightarrow> nat \<Rightarrow> bytes list \<Rightarrow> sockaddr \<Rightarrow> send_conn outcome" where
  "send_to s sg t len parts a =
     bindE (msg_buffer sg t len parts) (\<lambda>b. bindE (send (conn s) b a) (\<lambda>u. Inr (s\<lparr>conn := u\<rparr>)))"

definition closeSelf :: "send_conn \<Rightarrow> send_conn" where
  "closeSelf s =
     (if code s \<noteq> 0 then act s (Close_Send_Conn (code s)) else act s (Close_Pend_Conn (sock s)))"

definition closeAllTimer :: "send_conn \<Rightarrow> send_conn" where
  "closeAllTimer s = s\<lparr>repeattimers := []\<rparr>"

text \<open>\<open>strncpy\<close> of the name into the zeroed array of 256 bytes.\<close>

definition name_field :: "bytes \<Rightarrow> bytes outcome" where
  "name_field n =
     (if length n \<le> 256 then Inr (n @ replicate (256 - length n) 0) else Inl Out_Of_Bounds)"

definition shareFile ::
  "crc_state \<Rightarrow> (bytes \<rightharpoonup> bytes) \<Rightarrow> send_file \<Rightarrow> send_conn \<Rightarrow> buffer \<Rightarrow> send_conn outcome" where
  "shareFile crc fs uninit s fileNameBuf =
     require (state s = IDLE) (require (bound (conn s))
     (bindE (retrieveAsString fileNameBuf) (\<lambda>(strFileName, _).
      let m = new_SendFileManager crc fs uninit strFileName kBytesPerPiece;
          s1 = s\<lparr>sendManager := Some m\<rparr>
      in if \<not> isOpen m then Inr (closeSelf s1)
         else bindE (name_field (sent_fileName m)) (\<lambda>nm.
           let fd = \<lparr>fileName = nm, fileBytes = sent_fileBytes m, fileCRC32 = sent_fileCRC32 m\<rparr>
           in bindE (send_to s1 kServerSign SHARE_FILE sizeof_FileData [filedata_bytes fd] (serveraddr s1))
                (\<lambda>s2. Inr (s2\<lparr>state := WAIT_CODE\<rparr>))))))"

definition chatMsg :: "send_conn \<Rightarrow> buffer \<Rightarrow> send_conn outcome" where
  "chatMsg s msg =
     bindE (prepend msg (header_bytes \<lparr>sign = kClientSign, mtype = type_code CHAT,
              dataLenth = of_nat (readableBytes msg)\<rparr>)) (\<lambda>msg.
     bindE (send (conn s) msg (recveraddr s)) (\<lambda>u. Inr (s\<lparr>conn := u\<rparr>)))"

text \<open>\<open>header.dataLenth\<close> is 16 bits wide; a piece and its number fit.\<close>

definition sendPiece :: "send_conn \<Rightarrow> send_file \<Rightarrow> u32 \<Rightarrow> buffer \<Rightarrow> send_conn outcome" where
  "sendPiece s m num buf =
     bindE (peek buf 0 (readableBytes buf)) (\<lambda>d.
     bindE (send_to (s\<lparr>sendManager := Some m\<rparr>) kClientSign DATA_STREAM (readableBytes buf + sizeof_DataStream)
              [u32_bytes num, d] (recveraddr s)) (\<lambda>s1.
     Inr (s1\<lparr>sendWindow := sendWindow s1 + 1\<rparr>)))"

definition sendFileStream :: "send_conn \<Rightarrow> send_conn outcome" where
  "sendFileStream s =
     (case sendManager s of
        None \<Rightarrow> Inl Null_Deref
      | Some m \<Rightarrow>
          if \<not> isGood m \<or> kPiecesPerWindow * kWindowNum \<le> sendWindow s
          then Inr (s\<lparr>isWindowFull := True\<rparr>)
          else
            let num = curPiece m in
            bindE (getNextPiece m) (\<lambda>(buf, m1).
            bindE (sendPiece s m1 num buf) (\<lambda>s1. Inr (act s1 Queue_Stream))))"

definition sendLossPieces :: "send_conn \<Rightarrow> u32 list \<Rightarrow> send_conn outcome" where
  "sendLossPieces s pieces =
     (case sendManager s of
        None \<Rightarrow> Inl Null_Deref
      | Some m \<Rightarrow>
          if \<not> isOpen m \<or> length pieces = 0 \<or> kPiecesPerWindow * kWindowNum \<le> sendWindow s
          then Inr (s\<lparr>isWindowFull := True\<rparr>)
          else
            let num = pieces ! (length pieces - 1);
                rest = take (length pieces - 1) pieces in
            bindE (getPieceOf m num) (\<lambda>(buf, m1).
            bindE (sendPiece s m1 num buf) (\<lambda>s1. Inr (act s1 (Queue_Loss rest)))))"

section \<open>Timers\<close>

definition checkPeerAlive :: "send_conn \<Rightarrow> timestamp \<Rightarrow> send_conn outcome" where
  "checkPeerAlive s now =
     bindE
       (if state s = SEND_FILE \<and> valid (lastPeerHelloTime s) \<and> timed_out now (lastPeerHelloTime s) kTimeoutSec
        then (case sendManager s of
                None \<Rightarrow> Inl Null_Deref
              | Some m \<Rightarrow> Inr (closeAllTimer (s\<lparr>state := WAIT_RECVER, sendWindow := 0,
                  isWindowFull := False, sendManager := Some (initStatu m)\<rparr>)))
        else Inr s) (\<lambda>s1.
     Inr (if valid (lastServerHelloTime s1) \<and> timed_out now (lastServerHelloTime s1) kTimeoutSec
          then closeSelf s1 else s1))"

definition holdConn :: "send_conn \<Rightarrow> sockaddr \<Rightarrow> u8 \<Rightarrow> timestamp \<Rightarrow> send_conn outcome" where
  "holdConn s a sg now = bindE (send_to s sg HELLO 0 [] a) (\<lambda>s1. checkPeerAlive s1 now)"


section \<open>Messages\<close>

text \<open>The array behind a \<open>RetransPieces\<close>, read entry by entry.\<close>

primrec read_pieces :: "buffer \<Rightarrow> nat \<Rightarrow> nat \<Rightarrow> u32 list outcome" where
  "read_pieces buf off 0 = Inr []"
| "read_pieces buf off (Suc n) =
     bindE (peek buf off 4) (\<lambda>d. bindE (read_pieces buf (off + 4) n) (\<lambda>ps. Inr (u32_of d # ps)))"

definition handle_hello_reply :: "send_conn \<Rightarrow> u8 \<Rightarrow> sockaddr \<Rightarrow> timestamp \<Rightarrow> send_conn" where
  "handle_hello_reply s sg a time =
     (let s1 = (if state s = CONN_RECVER \<and> sg = kClientSign \<and> a = recveraddr s
                then s\<lparr>state := SEND_FILE\<rparr> else s)
      in if a = serveraddr s1 then s1\<lparr>lastServerHelloTime := time\<rparr>
         else if a = recveraddr s1 then s1\<lparr>lastPeerHelloTime := time\<rparr>
         else s1)"

definition handle_share_code :: "send_conn \<Rightarrow> buffer \<Rightarrow> send_conn outcome" where
  "handle_share_code s buf =
     (if state s \<noteq> WAIT_CODE then Inr s
      else bindE (peek buf sizeof_Header sizeof_ShareCode) (\<lambda>d.
        let s1 = act (s\<lparr>code := u32_of d\<rparr>) (Move_Pend_Conn (sock s) (u32_of d))
        in Inr (s1\<lparr>heartBeat := Some (serveraddr s1, kServerSign), state := WAIT_RECVER\<rparr>)))"

definition handle_file_req :: "send_conn \<Rightarrow> buffer \<Rightarrow> send_conn outcome" where
  "handle_file_req s buf =
     (if state s \<noteq> WAIT_RECVER then Inr s
      else bindE (peek buf sizeof_Header sizeof_PeerAddr) (\<lambda>d.
        let s1 = s\<lparr>recveraddr := sockaddr_of d\<rparr> in
        bindE (send_to s1 kClientSign HELLO 0 [] (recveraddr s1)) (\<lambda>s2.
        Inr (s2\<lparr>repeattimers := repeattimers s2 @ [(recveraddr s2, kClientSign)],
                 state := CONN_RECVER\<rparr>))))"

definition handle_download_start :: "send_conn \<Rightarrow> send_conn outcome" where
  "handle_download_start s =
     (if state s = SEND_FILE \<or> state s = CONN_RECVER then sendFileStream (s\<lparr>state := SEND_FILE\<rparr>)
      else Inr s)"

definition handle_pack_ack :: "send_conn \<Rightarrow> buffer \<Rightarrow> send_conn outcome" where
  "handle_pack_ack s buf =
     (if state s \<noteq> SEND_FILE then Inr s
      else bindE (peek buf sizeof_Header 4) (\<lambda>d.
        let n = u32_of d;
            s1 = s\<lparr>sendWindow := (if n \<le> sendWindow s then sendWindow s - n else 0)\<rparr>
        in if isWindowFull s1 then sendFileStream (s1\<lparr>isWindowFull := False\<rparr>) else Inr s1))"

text \<open>\<open>pieces.resize(nums)\<close> leaves \<open>nums\<close> zeros in front of the pieces that are pushed.\<close>

definition handle_retran :: "send_conn \<Rightarrow> buffer \<Rightarrow> send_conn outcome" where
  "handle_retran s buf =
     (if state s \<noteq> SEND_FILE then Inr s
      else bindE (peek buf sizeof_Header sizeof_RetransPieces) (\<lambda>d.
        let nums = unat (u32_of d) in
        bindE (read_pieces buf (sizeof_Header + sizeof_RetransPieces) nums) (\<lambda>ps.
        sendLossPieces s (replicate nums 0 @ ps))))"

definition handle_finish :: "send_conn \<Rightarrow> send_conn outcome" where
  "handle_finish s =
     (if state s \<noteq> SEND_FILE then Inr s
      else case sendManager s of
        None \<Rightarrow> Inl Null_Deref
      | Some m \<Rightarrow>
          Inr (closeAllTimer (s\<lparr>state := WAIT_RECVER, sendWindow := 0, isWindowFull := False,
            lastPeerHelloTime := invalid, sendManager := Some (initStatu m)\<rparr>)))"

definition shareFileMsgHandle ::
  "send_conn \<Rightarrow> buffer \<Rightarrow> sockaddr \<Rightarrow> timestamp \<Rightarrow> send_conn outcome" where
  "shareFileMsgHandle s buf a time =
     client_frame buf (Inr s) (\<lambda>sg t.
       case t of
         Some HELLO \<Rightarrow> send_to s sg HELLO_REPLY 0 [] a
       | Some HELLO_REPLY \<Rightarrow> Inr (handle_hello_reply s sg a time)
       | Some SHARE_CODE \<Rightarrow> handle_share_code s buf
       | Some FILE_REQ \<Rightarrow> handle_file_req s buf
       | Some DOWNLOAD_START \<Rightarrow> handle_download_start s
       | Some PACK_ACK \<Rightarrow> handle_pack_ack s buf
       | Some RETRAN \<Rightarrow> handle_retran s buf
       | Some FINISH \<Rightarrow> handle_finish s
       | Some ERROR_FORMAT \<Rightarrow> Inr (closeSelf s)
       | Some ERROR_LIMIT \<Rightarrow> Inr (closeSelf s)
       | _ \<Rightarrow> Inr s)"

section \<open>Events of a connection\<close>

text \<open>
  What the loop does to a connection: a datagram, one of its own timers, or a functor it
  queued.
\<close>

datatype send_event =
    Msg recv timestamp
  | Heart_Beat timestamp
  | Repeat_Timer nat timestamp
  | Run_Stream
  | Run_Loss "u32 list"

definition send_callback :: "send_conn callback" where
  "send_callback u buf src time s =
     bindE (shareFileMsgHandle (s\<lparr>conn := u\<rparr>) buf src time) (\<lambda>s'. Inr (conn s', buf, s'))"

fun send_step :: "send_event \<Rightarrow> send_conn \<Rightarrow> send_conn outcome" where
  "send_step (Msg r now) s =
     bindE (handleRead (if state s = IDLE then None else Some send_callback) (conn s) r now s)
       (\<lambda>(u, s'). Inr (s'\<lparr>conn := u\<rparr>))"
| "send_step (Heart_Beat now) s =
     (case heartBeat s of None \<Rightarrow> Inr s | Some (a, sg) \<Rightarrow> holdConn s a sg now)"
| "send_step (Repeat_Timer i now) s =
     (if i < length (repeattimers s) then holdConn s (fst (repeattimers s ! i)) (snd (repeattimers s ! i)) now
      else Inr s)"
| "send_step Run_Stream s = sendFileStream s"
| "send_step (Run_Loss ps) s = sendLossPieces s ps"

end
