(* ===== verification/Send_Conn_Inv.thy ===== *)
theory Send_Conn_Inv
  imports Send_Conn
begin

text \<open>
  The sender's connection: its invariant, the states it moves through, what its events can
  send, and which events can stop it.
\<close>

section \<open>The file behind the stream\<close>

definition manager_ok :: "send_file \<Rightarrow> bytes \<Rightarrow> bool" where
  "manager_ok m f \<longleftrightarrow> sends m f \<and> length f \<le> 4294966272 \<and> unat (curPiece m) \<le> piece_count f \<and>
     (good (ifileStream m) \<longrightarrow> gpos (ifileStream m) = 1024 * unat (curPiece m))"

lemma next_piece_at:
  assumes "sends s m" and "good (ifileStream s)" and "gpos (ifileStream s) = 1024 * k"
  obtains b s' where "getNextPiece s = Inr (b, s')" "buffer_inv b" "contents b = chunk 1024 m k"
    "sends s' m" "ifileStream s' = snd (fs_read (ifileStream s) 1024)"
    "curPiece s' = (if contents b = [] then curPiece s else curPiece s + 1)"
proof -
  from getNextPiece_good [OF assms(1,2)]
  have "\<exists>b s'. getNextPiece s = Inr (b, s') \<and> buffer_inv b \<and> contents b = chunk 1024 m k \<and>
      sends s' m \<and> ifileStream s' = snd (fs_read (ifileStream s) 1024) \<and>
      curPiece s' = (if contents b = [] then curPiece s else curPiece s + 1)"
    unfolding assms(3) chunk_def by (elim exE conjE) (intro exI conjI; assumption)
  then show ?thesis using that by (elim exE conjE)
qed

lemma manager_next:
  assumes m: "manager_ok m f" and g: "good (ifileStream m)"
  shows "\<exists>b m'. getNextPiece m = Inr (b, m') \<and> buffer_inv b \<and>
    contents b = chunk 1024 f (unat (curPiece m)) \<and> manager_ok m' f"
proof -
  have s: "sends m f" and p: "gpos (ifileStream m) = 1024 * unat (curPiece m)"
    and c: "unat (curPiece m) \<le> piece_count f" and l: "length f \<le> 4294966272"
    using m g by (auto simp: manager_ok_def)
  from next_piece_at [OF s g p] obtain b m' where
    r: "getNextPiece m = Inr (b, m')" "buffer_inv b"
    "contents b = chunk 1024 f (unat (curPiece m))" "sends m' f"
    "ifileStream m' = snd (fs_read (ifileStream m) 1024)"
    "curPiece m' = (if contents b = [] then curPiece m else curPiece m + 1)" .
  have cont: "content (ifileStream m) = f" using s by (simp add: sends_def)
  have st: "good (ifileStream m') \<longleftrightarrow> length (contents b) = 1024"
    "gpos (ifileStream m') = 1024 * unat (curPiece m) + length (contents b)"
    unfolding r(5) fs_read_def if_P [OF g] Let_def cont p r(3) chunk_def by (auto simp: good_def)
  have "manager_ok m' f"
  proof (cases "contents b = []")
    case True
    with r st c l show ?thesis by (simp add: manager_ok_def)
  next
    case False
    then have lt: "unat (curPiece m) < piece_count f"
      using r(3) by (auto simp: piece_count_iff chunk_def)
    have "unat (curPiece m + 1) = Suc (unat (curPiece m))"
      using lt piece_count_small [OF l] by (simp add: unat_word_ariths)
    with False r st l lt show ?thesis by (auto simp: manager_ok_def)
  qed
  with r show ?thesis by blast
qed

lemma offset_wraps: "unat (num * kBytesPerPiece) = 1024 * (unat num mod 2 ^ 22)"
proof -
  have "unat (num * kBytesPerPiece) = (unat num * 1024) mod 2 ^ 32"
    by (simp add: unat_word_ariths)
  also have "\<dots> = (1024 * unat num) mod (1024 * 2 ^ 22)" by (simp add: mult.commute)
  finally show ?thesis by (simp only: mult_mod_right)
qed

lemma manager_piece:
  assumes m: "manager_ok m f"
  shows "\<exists>b m'. getPieceOf m num = Inr (b, m') \<and> buffer_inv b \<and>
    contents b = chunk 1024 f (unat num mod 2 ^ 22) \<and> manager_ok m' f"
proof -
  let ?f = "if \<not> isGood m then fs_clear (ifileStream m) else ifileStream m"
  obtain s1 where s1_def: "s1 = m\<lparr>ifileStream := seekg ?f (unat (num * bytesPerPiece m))\<rparr>" by blast
  have s: "sends m f" and l: "length f \<le> 4294966272" and c: "unat (curPiece m) \<le> piece_count f"
    using m by (auto simp: manager_ok_def)
  have bpp: "bytesPerPiece m = kBytesPerPiece" using s by (simp add: sends_def)
  have s1: "sends s1 f" "good (ifileStream s1)" "gpos (ifileStream s1) = 1024 * (unat num mod 2 ^ 22)"
    using s bpp by (auto simp: s1_def sends_def seekg_def good_def fs_clear_def isGood_def Let_def offset_wraps)
  from next_piece_at [OF s1] obtain b s2 where
    r: "getNextPiece s1 = Inr (b, s2)" "buffer_inv b" "contents b = chunk 1024 f (unat num mod 2 ^ 22)"
    "sends s2 f" "ifileStream s2 = snd (fs_read (ifileStream s1) 1024)"
    "curPiece s2 = (if contents b = [] then curPiece s1 else curPiece s1 + 1)" .
  let ?s3 = "s2\<lparr>curPiece := curPiece m\<rparr>"
  let ?m' = "?s3\<lparr>ifileStream := seekg (ifileStream ?s3) (unat (curPiece ?s3 * bytesPerPiece ?s3))\<rparr>"
  have run: "getPieceOf m num = Inr (b, ?m')"
    using s r(1) by (simp add: getPieceOf_def isOpen_def sends_def Let_def s1_def)
  have cur: "unat (curPiece m) mod 2 ^ 22 = unat (curPiece m)"
    using c piece_count_small [OF l] by simp
  have "manager_ok ?m' f"
    using r(4) l c cur offset_wraps [of "curPiece m"]
    by (auto simp: manager_ok_def sends_def seekg_def good_def Let_def)
  with run r show ?thesis by blast
qed

lemma manager_init: "manager_ok m f \<Longrightarrow> manager_ok (initStatu m) f"
  using initStatu_streaming [of m f] by (simp add: manager_ok_def streaming_def)

section \<open>Invariant\<close>

definition send_inv :: "send_conn \<Rightarrow> bytes \<Rightarrow> bool" where
  "send_inv s f \<longleftrightarrow> bound (conn s) \<and> udp_inv (conn s) \<and> unat (sendWindow s) \<le> 30 \<and> state s \<noteq> IDLE \<and>
     (\<exists>m. sendManager s = Some m \<and> manager_ok m f)"

inductive conn_edge :: "ConnState \<Rightarrow> ConnState \<Rightarrow> bool" where
  stay: "conn_edge s s"
| shared: "conn_edge WAIT_CODE WAIT_RECVER"
| requested: "conn_edge WAIT_RECVER CONN_RECVER"
| connected: "conn_edge CONN_RECVER SEND_FILE"
| finished: "conn_edge SEND_FILE WAIT_RECVER"

inductive_simps conn_edge_simps: "conn_edge s t"

text \<open>Lists of datagrams that carry only true pieces.\<close>

definition honest :: "bytes \<Rightarrow> (bytes \<times> sockaddr) list \<Rightarrow> bool" where
  "honest f ms \<longleftrightarrow> (\<forall>(d, a) \<in> set ms. d ! 1 = type_code DATA_STREAM \<longrightarrow> (\<exists>k. d = piece_msg f k))"

definition sends_only :: "send_conn \<Rightarrow> send_conn \<Rightarrow> (bytes \<times> sockaddr) list \<Rightarrow> bool" where
  "sends_only s s' ms \<longleftrightarrow> sent (conn s') = sent (conn s) @ ms"

definition good_step :: "bytes \<Rightarrow> send_conn \<Rightarrow> send_conn \<Rightarrow> bool" where
  "good_step f s s' \<longleftrightarrow> send_inv s' f \<and> conn_edge (state s) (state s') \<and>
     (\<exists>ms. sends_only s s' ms \<and> honest f ms)"

lemma message_type: "message sg t len body ! 1 = type_code t"
  by (simp add: message_def header_bytes_def)

lemma honest_control: "t \<noteq> DATA_STREAM \<Longrightarrow> honest f [(message sg t len body, a)]"
  by (simp add: honest_def message_type [unfolded One_nat_def] del: type_code.simps)

lemma honest_piece: "honest f [(piece_msg f k, a)]"
  by (auto simp: honest_def)

lemma honest_Nil [simp]: "honest f []" by (simp add: honest_def)

lemma sends_only_refl: "conn s' = conn s \<Longrightarrow> sends_only s s' []"
  by (simp add: sends_only_def)

lemma good_stepI:
  "send_inv s' f \<Longrightarrow> conn_edge (state s) (state s') \<Longrightarrow> sends_only s s' ms \<Longrightarrow> honest f ms \<Longrightarrow> good_step f s s'"
  by (auto simp: good_step_def)

lemma good_step_frame:
  assumes "send_inv s f" and "conn s' = conn s" and "unat (sendWindow s') \<le> 30" and "state s' \<noteq> IDLE"
    and "conn_edge (state s) (state s')" and "sendManager s' = sendManager s"
  shows "good_step f s s'"
  using assms by (intro good_stepI [of s' f s "[]"]) (auto simp: send_inv_def sends_only_def)

lemma send_to_ok:
  assumes "bound (conn s)" and "length (concat parts) < 2 ^ 32"
  shows "send_to s sg t len parts a =
    Inr (s\<lparr>conn := (conn s)\<lparr>sent := sent (conn s) @ [(message sg t len (concat parts), a)]\<rparr>\<rparr>)"
proof -
  obtain b where "msg_buffer sg t len parts = Inr b" "buffer_inv b"
      "contents b = message sg t len (concat parts)"
    using msg_buffer_ok [OF assms(2)] by blast
  with assms(1) show ?thesis by (simp add: send_to_def send_ok)
qed

text \<open>A control message changes nothing but the list of sent messages.\<close>

lemma control_step:
  assumes s: "send_inv s f" and t: "t \<noteq> DATA_STREAM"
  shows "\<exists>s'. send_to s sg t 0 [] a = Inr s' \<and> good_step f s s'"
proof -
  let ?s' = "s\<lparr>conn := (conn s)\<lparr>sent := sent (conn s) @ [(message sg t 0 [], a)]\<rparr>\<rparr>"
  have "send_inv ?s' f" using s by (simp add: send_inv_def udp_inv_def)
  then have "good_step f s ?s'"
    using honest_control [OF t, of f sg 0 "[]" a]
    by (intro good_stepI [of _ f s "[(message sg t 0 [], a)]"]) (auto simp: sends_only_def intro: conn_edge.stay)
  with send_to_ok [of s "[]" sg t 0 a] s show ?thesis by (simp add: send_inv_def)
qed


section \<open>Pieces\<close>

lemma sendPiece_ok:
  assumes s: "send_inv s f" and w: "unat (sendWindow s) < 30" and m: "manager_ok m f"
    and b: "buffer_inv buf" "contents buf = chunk 1024 f (unat num mod 2 ^ 22)"
  shows "\<exists>s'. sendPiece s m num buf = Inr s' \<and> send_inv s' f \<and> state s' = state s \<and>
    sends_only s s' [(piece_msg f num, recveraddr s)] \<and> unat (sendWindow s') = Suc (unat (sendWindow s)) \<and>
    actions s' = actions s \<and> recveraddr s' = recveraddr s \<and> isWindowFull s' = isWindowFull s \<and>
    sendManager s' = Some m"
proof -
  obtain d where d: "d = chunk 1024 f (unat num mod 2 ^ 22)" by blast
  let ?s' = "s\<lparr>sendManager := Some m, conn := (conn s)\<lparr>sent := sent (conn s) @ [(piece_msg f num, recveraddr s)]\<rparr>,
    sendWindow := sendWindow s + 1\<rparr>"
  have pk: "peek buf 0 (readableBytes buf) = Inr d"
    using retrieveAsString_spec [OF b(1)] b(2) unfolding d by (auto simp: retrieveAsString_def bindE_eq_Inr)
  have rb: "readableBytes buf = length d" using length_contents [OF b(1)] b(2) unfolding d by simp
  have len: "length (concat [u32_bytes num, d]) < 2 ^ 32" unfolding d by (simp add: length_chunk)
  have pm: "piece_msg f num = message kClientSign DATA_STREAM (length d + sizeof_DataStream) (u32_bytes num @ d)"
    unfolding d piece_msg_def Let_def ..
  have wn: "unat (sendWindow s + 1) = Suc (unat (sendWindow s))"
    using w by (simp add: unat_word_ariths)
  have "bound (conn (s\<lparr>sendManager := Some m\<rparr>))" using s by (simp add: send_inv_def)
  from send_to_ok [OF this len, of kClientSign DATA_STREAM "length d + sizeof_DataStream" "recveraddr s"]
  have "sendPiece s m num buf = Inr ?s'"
    by (simp add: sendPiece_def pk [unfolded rb] rb pm)
  moreover have "send_inv ?s' f" using s m w wn by (simp add: send_inv_def udp_inv_def)
  ultimately show ?thesis using wn by (simp add: sends_only_def)
qed

lemma sendFileStream_good:
  assumes s: "send_inv s f" and m: "sendManager s = Some m" "isGood m" and w: "unat (sendWindow s) < 30"
  shows "\<exists>s' b m'. sendFileStream s = Inr s' \<and> getNextPiece m = Inr (b, m') \<and> sendManager s' = Some m' \<and>
    send_inv s' f \<and> state s' = state s \<and> sends_only s s' [(piece_msg f (curPiece m), recveraddr s)] \<and>
    unat (sendWindow s') = Suc (unat (sendWindow s)) \<and> actions s' = actions s @ [Queue_Stream] \<and>
    recveraddr s' = recveraddr s \<and> isWindowFull s' = isWindowFull s"
proof -
  have mo: "manager_ok m f" using s m(1) by (auto simp: send_inv_def)
  have g: "good (ifileStream m)" using m(2) by (simp add: isGood_def)
  from manager_next [OF mo g] obtain b m' where n: "getNextPiece m = Inr (b, m')" "buffer_inv b"
    "contents b = chunk 1024 f (unat (curPiece m))" "manager_ok m' f" by blast
  have l: "length f \<le> 4294966272" "unat (curPiece m) \<le> piece_count f" using mo by (auto simp: manager_ok_def)
  have "unat (curPiece m) mod 2 ^ 22 = unat (curPiece m)" using l piece_count_small [OF l(1)] by simp
  with n(3) have "contents b = chunk 1024 f (unat (curPiece m) mod 2 ^ 22)" by simp
  from sendPiece_ok [OF s w n(4,2) this] obtain s' where
    p: "sendPiece s m' (curPiece m) b = Inr s'" "send_inv s' f" "state s' = state s" "sendManager s' = Some m'"
    "sends_only s s' [(piece_msg f (curPiece m), recveraddr s)]" "unat (sendWindow s') = Suc (unat (sendWindow s))"
    "actions s' = actions s" "recveraddr s' = recveraddr s" "isWindowFull s' = isWindowFull s" by blast
  have "sendFileStream s = Inr (act s' Queue_Stream)" using m n(1) p(1) w by (simp add: sendFileStream_def window_limit)
  moreover have "send_inv (act s' Queue_Stream) f" using p(2) by (simp add: act_def send_inv_def)
  ultimately show ?thesis
    using p n(1) by (intro exI [of _ "act s' Queue_Stream"] exI [of _ b] exI [of _ m']) (simp add: act_def sends_only_def)
qed

lemma sendFileStream_ok:
  assumes s: "send_inv s f"
  shows "\<exists>s'. sendFileStream s = Inr s' \<and> send_inv s' f \<and> state s' = state s \<and>
    (\<exists>ms. sends_only s s' ms \<and> honest f ms)"
proof -
  obtain m where m: "sendManager s = Some m" "manager_ok m f" using s by (auto simp: send_inv_def)
  show ?thesis
  proof (cases "isGood m \<and> unat (sendWindow s) < 30")
    case True
    with sendFileStream_good [OF s m(1)] honest_piece show ?thesis by blast
  next
    case False
    then have "sendFileStream s = Inr (s\<lparr>isWindowFull := True\<rparr>)"
      using m(1) by (auto simp: sendFileStream_def window_limit)
    then show ?thesis using s honest_Nil by (auto simp: send_inv_def sends_only_def)
  qed
qed

lemma sendLossPieces_ok:
  assumes s: "send_inv s f"
  shows "\<exists>s'. sendLossPieces s ps = Inr s' \<and> send_inv s' f \<and> state s' = state s \<and>
    (if ps = [] \<or> 30 \<le> unat (sendWindow s) then s' = s\<lparr>isWindowFull := True\<rparr>
     else sends_only s s' [(piece_msg f (last ps), recveraddr s)] \<and> recveraddr s' = recveraddr s \<and>
       actions s' = actions s @ [Queue_Loss (butlast ps)] \<and>
       unat (sendWindow s') = Suc (unat (sendWindow s)))"
proof -
  obtain m where m: "sendManager s = Some m" "manager_ok m f" using s by (auto simp: send_inv_def)
  have op: "isOpen m" using m(2) by (simp add: manager_ok_def sends_def isOpen_def)
  show ?thesis
  proof (cases "ps = [] \<or> 30 \<le> unat (sendWindow s)")
    case True
    then have "sendLossPieces s ps = Inr (s\<lparr>isWindowFull := True\<rparr>)"
      using m(1) by (auto simp: sendLossPieces_def window_limit)
    moreover have "send_inv (s\<lparr>isWindowFull := True\<rparr>) f" using s by (simp add: send_inv_def)
    ultimately show ?thesis using True by simp
  next
    case False
    then have ix: "ps ! (length ps - 1) = last ps" "take (length ps - 1) ps = butlast ps"
      by (simp_all add: last_conv_nth butlast_conv_take)
    from manager_piece [OF m(2), of "last ps"] obtain b m' where n: "getPieceOf m (last ps) = Inr (b, m')"
      "buffer_inv b" "contents b = chunk 1024 f (unat (last ps) mod 2 ^ 22)" "manager_ok m' f" by blast
    from sendPiece_ok [OF s _ n(4,2,3)] False obtain s' where
      p: "sendPiece s m' (last ps) b = Inr s'" "send_inv s' f" "state s' = state s"
      "sends_only s s' [(piece_msg f (last ps), recveraddr s)]" "actions s' = actions s"
      "recveraddr s' = recveraddr s" "unat (sendWindow s') = Suc (unat (sendWindow s))" by auto
    have "sendLossPieces s ps = Inr (act s' (Queue_Loss (butlast ps)))"
      using m(1) n(1) p(1) False op ix by (simp add: sendLossPieces_def window_limit)
    moreover have "send_inv (act s' (Queue_Loss (butlast ps))) f" using p(2) by (simp add: act_def send_inv_def)
    ultimately show ?thesis using p False by (auto simp: act_def sends_only_def)
  qed
qed

lemma sendLossPieces_step:
  assumes "send_inv s f"
  shows "\<exists>s'. sendLossPieces s ps = Inr s' \<and> send_inv s' f \<and> state s' = state s \<and>
    (\<exists>ms. sends_only s s' ms \<and> honest f ms)"
  using sendLossPieces_ok [OF assms, of ps] honest_piece honest_Nil
  by (fastforce simp: sends_only_def split: if_splits)

section \<open>Handlers\<close>

lemma read_pieces_ok:
  assumes b: "msg_view b"
  shows "off + 4 * n \<le> kBufferSize \<Longrightarrow> \<exists>ps. read_pieces b off n = Inr ps \<and> length ps = n"
proof (induction n arbitrary: off)
  case 0
  then show ?case by simp
next
  case (Suc n)
  have "off + 4 + 4 * n \<le> kBufferSize" using Suc.prems by simp
  then obtain ps where "read_pieces b (off + 4) n = Inr ps" "length ps = n"
    using Suc.IH by blast
  moreover have "peek b off 4 = Inr (slice (kPrependSize + off) 4 (store b))"
    using Suc.prems by (intro view_peek [OF b]) simp
  ultimately show ?case by simp
qed

lemma read_pieces_out:
  assumes b: "msg_view b"
  shows "kBufferSize < off + 4 * n \<Longrightarrow> off \<le> kBufferSize \<Longrightarrow> read_pieces b off n = Inl Out_Of_Bounds"
proof (induction n arbitrary: off)
  case 0
  then show ?case by simp
next
  case (Suc n)
  show ?case
  proof (cases "off + 4 \<le> kBufferSize")
    case True
    then have "read_pieces b (off + 4) n = Inl Out_Of_Bounds" using Suc by simp
    with view_peek [OF b True] show ?thesis by simp
  next
    case False
    then show ?thesis using view_peek_out [OF b, of off 4] by simp
  qed
qed

lemma read_pieces_list:
  assumes u: "udp_inv u" and len: "length d \<le> kBufferSize"
  shows "drop off d = concat (map u32_bytes ps) @ rest \<Longrightarrow>
    read_pieces (received u d) off (length ps) = Inr ps"
proof (induction ps arbitrary: off)
  case Nil
  then show ?case by simp
next
  case (Cons p ps)
  then have d: "drop off d = u32_bytes p @ concat (map u32_bytes ps) @ rest" by simp
  then have "4 \<le> length (drop off d)" by simp
  then have "off + 4 \<le> length d" by simp
  moreover have "slice off 4 d = u32_bytes p" using d by (simp add: slice_def)
  ultimately have pk: "peek (received u d) off 4 = Inr (u32_bytes p)"
    using received_peek [OF u len, of off 4] by simp
  have "drop (off + 4) d = drop 4 (drop off d)" by (simp add: add.commute)
  then have "drop (off + 4) d = concat (map u32_bytes ps) @ rest" using d by simp
  from Cons.IH [OF this] pk show ?case by simp
qed

lemma hello_reply_step:
  assumes s: "send_inv s f"
  shows "good_step f s (handle_hello_reply s sg a time)"
proof (rule good_step_frame [OF s])
  show "conn_edge (state s) (state (handle_hello_reply s sg a time))"
    by (auto simp: handle_hello_reply_def Let_def intro: conn_edge.intros)
qed (use s in \<open>auto simp: handle_hello_reply_def Let_def send_inv_def\<close>)

lemma share_code_step:
  assumes s: "send_inv s f" and b: "msg_view b"
  shows "\<exists>s'. handle_share_code s b = Inr s' \<and> good_step f s s'"
proof (cases "state s = WAIT_CODE")
  case True
  let ?d = "slice (kPrependSize + sizeof_Header) sizeof_ShareCode (store b)"
  let ?s = "act (s\<lparr>code := u32_of ?d\<rparr>) (Move_Pend_Conn (sock s) (u32_of ?d))
      \<lparr>heartBeat := Some (serveraddr s, kServerSign), state := WAIT_RECVER\<rparr>"
  have "peek b sizeof_Header sizeof_ShareCode = Inr ?d"
    by (rule view_peek [OF b]) (simp add: sizeof_defs kBufferSize_def)
  then have "handle_share_code s b = Inr ?s"
    using True by (simp add: handle_share_code_def Let_def act_def)
  moreover have "good_step f s ?s"
    using s True by (intro good_step_frame [OF s]) (auto simp: act_def send_inv_def intro: conn_edge.shared)
  ultimately show ?thesis by blast
next
  case False
  then show ?thesis
    using s by (auto simp: handle_share_code_def send_inv_def intro!: good_step_frame intro: conn_edge.stay)
qed

lemma file_req_step:
  assumes s: "send_inv s f" and b: "msg_view b"
  shows "\<exists>s'. handle_file_req s b = Inr s' \<and> good_step f s s'"
proof (cases "state s = WAIT_RECVER")
  case True
  let ?a = "sockaddr_of (slice (kPrependSize + sizeof_Header) sizeof_PeerAddr (store b))"
  let ?s1 = "s\<lparr>recveraddr := ?a\<rparr>"
  have pk: "peek b sizeof_Header sizeof_PeerAddr =
      Inr (slice (kPrependSize + sizeof_Header) sizeof_PeerAddr (store b))"
    by (rule view_peek [OF b]) (simp add: sizeof_defs kBufferSize_def)
  have s1: "send_inv ?s1 f" using s by (simp add: send_inv_def)
  from control_step [OF this, of HELLO kClientSign ?a] obtain s2 where
    s2: "send_to ?s1 kClientSign HELLO 0 [] ?a = Inr s2" "good_step f ?s1 s2" by auto
  have same: "s2 = ?s1\<lparr>conn := conn s2\<rparr>" using s2(1) by (auto simp: send_to_def bindE_eq_Inr)
  let ?s3 = "s2\<lparr>repeattimers := repeattimers s2 @ [(recveraddr s2, kClientSign)], state := CONN_RECVER\<rparr>"
  have "handle_file_req s b = Inr ?s3" using True pk s2(1) by (simp add: handle_file_req_def Let_def)
  moreover have "good_step f s ?s3"
    using s2(2) True by (auto simp: good_step_def send_inv_def sends_only_def intro: conn_edge.requested)
  ultimately show ?thesis by blast
next
  case False
  then show ?thesis
    using s by (auto simp: handle_file_req_def send_inv_def intro!: good_step_frame intro: conn_edge.stay)
qed

lemma stream_step:
  assumes s: "send_inv s0 f" and s1: "send_inv s1 f" "conn s1 = conn s0" "conn_edge (state s0) (state s1)"
  shows "\<exists>s'. sendFileStream s1 = Inr s' \<and> good_step f s0 s'"
  using sendFileStream_ok [OF s1(1)] s1 by (auto simp: good_step_def sends_only_def)

lemma download_start_step:
  assumes s: "send_inv s f"
  shows "\<exists>s'. handle_download_start s = Inr s' \<and> good_step f s s'"
proof (cases "state s = SEND_FILE \<or> state s = CONN_RECVER")
  case True
  have "send_inv (s\<lparr>state := SEND_FILE\<rparr>) f" using s by (simp add: send_inv_def)
  moreover have "conn_edge (state s) SEND_FILE" using True by (auto intro: conn_edge.intros)
  ultimately show ?thesis
    using stream_step [OF s, of "s\<lparr>state := SEND_FILE\<rparr>"] True by (simp add: handle_download_start_def)
next
  case False
  then show ?thesis
    using s by (auto simp: handle_download_start_def send_inv_def intro!: good_step_frame intro: conn_edge.stay)
qed

lemma pack_ack_step:
  assumes s: "send_inv s f" and b: "msg_view b"
  shows "\<exists>s'. handle_pack_ack s b = Inr s' \<and> good_step f s s'"
proof (cases "state s = SEND_FILE")
  case True
  let ?n = "u32_of (slice (kPrependSize + sizeof_Header) 4 (store b))"
  let ?s1 = "s\<lparr>sendWindow := (if ?n \<le> sendWindow s then sendWindow s - ?n else 0)\<rparr>"
  have pk: "peek b sizeof_Header 4 = Inr (slice (kPrependSize + sizeof_Header) 4 (store b))"
    by (rule view_peek [OF b]) (simp add: sizeof_defs kBufferSize_def)
  have "unat (sendWindow ?s1) \<le> 30"
    using s by (auto simp: send_inv_def unat_sub)
  then have s1: "send_inv ?s1 f" using s by (simp add: send_inv_def)
  show ?thesis
  proof (cases "isWindowFull s")
    case full: True
    have "send_inv (?s1\<lparr>isWindowFull := False\<rparr>) f" using s1 by (simp add: send_inv_def)
    from stream_step [OF s this] show ?thesis
      using True pk full by (simp add: handle_pack_ack_def Let_def conn_edge.stay)
  next
    case False
    have "good_step f s ?s1"
      using s1 by (intro good_stepI [of _ _ _ "[]"]) (auto simp: sends_only_def intro: conn_edge.stay)
    then show ?thesis using True pk False by (simp add: handle_pack_ack_def Let_def)
  qed
next
  case False
  then show ?thesis
    using s by (auto simp: handle_pack_ack_def send_inv_def intro!: good_step_frame intro: conn_edge.stay)
qed

text \<open>The number of pieces a retransmission request claims, believed without a check.\<close>

definition retran_count :: "buffer \<Rightarrow> nat" where
  "retran_count b = unat (u32_of (slice (kPrependSize + sizeof_Header) 4 (store b)))"

lemma retran_peek:
  "msg_view b \<Longrightarrow> peek b sizeof_Header sizeof_RetransPieces =
     Inr (slice (kPrependSize + sizeof_Header) 4 (store b))"
  using view_peek [of b sizeof_Header sizeof_RetransPieces] by (simp add: sizeof_defs kBufferSize_def)

lemma retran_step:
  assumes s: "send_inv s f" and b: "msg_view b" and few: "8 + 4 * retran_count b \<le> kBufferSize"
  shows "\<exists>s'. handle_retran s b = Inr s' \<and> good_step f s s'"
proof (cases "state s = SEND_FILE")
  case True
  from read_pieces_ok [OF b, of 8 "retran_count b"] few obtain ps where
    ps: "read_pieces b 8 (retran_count b) = Inr ps" by auto
  from sendLossPieces_step [OF s] obtain s' where
    s': "sendLossPieces s (replicate (retran_count b) 0 @ ps) = Inr s'" "send_inv s' f" "state s' = state s"
    "\<exists>ms. sends_only s s' ms \<and> honest f ms" by blast
  have "handle_retran s b = Inr s'"
    using True retran_peek [OF b] ps s'(1)
    by (simp add: handle_retran_def Let_def retran_count_def sizeof_defs)
  with s' show ?thesis by (auto simp: good_step_def intro: conn_edge.stay)
next
  case False
  then show ?thesis
    using s by (auto simp: handle_retran_def send_inv_def intro!: good_step_frame intro: conn_edge.stay)
qed

lemma retran_out:
  assumes "msg_view b" and "kBufferSize < 8 + 4 * retran_count b" and "state s = SEND_FILE"
  shows "handle_retran s b = Inl Out_Of_Bounds"
  using read_pieces_out [OF assms(1), of 8 "retran_count b"] retran_peek [OF assms(1)] assms(2,3)
  by (simp add: handle_retran_def Let_def retran_count_def sizeof_defs kBufferSize_def)

lemma finish_step:
  assumes s: "send_inv s f"
  shows "\<exists>s'. handle_finish s = Inr s' \<and> good_step f s s'"
proof (cases "state s = SEND_FILE")
  case True
  obtain m where m: "sendManager s = Some m" "manager_ok m f" using s by (auto simp: send_inv_def)
  let ?s = "closeAllTimer (s\<lparr>state := WAIT_RECVER, sendWindow := 0, isWindowFull := False,
      lastPeerHelloTime := invalid, sendManager := Some (initStatu m)\<rparr>)"
  have "send_inv ?s f" using s manager_init [OF m(2)] by (simp add: send_inv_def closeAllTimer_def)
  then have "good_step f s ?s"
    using True by (intro good_stepI [of _ _ _ "[]"]) (auto simp: sends_only_def closeAllTimer_def intro: conn_edge.finished)
  then show ?thesis using True m(1) by (simp add: handle_finish_def)
next
  case False
  then show ?thesis
    using s by (auto simp: handle_finish_def send_inv_def intro!: good_step_frame intro: conn_edge.stay)
qed

end
