(* ===== verification/Endpoint.thy ===== *)
theory Endpoint
  imports Prelude
begin

text \<open>
  What the components driven by events have in common. An event either moves a state of the
  invariant to another one or stops the component with a known fault: the contract of one event
  is stated once, runs of events follow from it. The two ends of a transfer also answer with messages,
  which they append to an outbox.
\<close>

text \<open>A run whose events are all admissible in the states they meet.\<close>

fun good_run :: "('e \<Rightarrow> 's \<Rightarrow> 's outcome) \<Rightarrow> ('s \<Rightarrow> 'e \<Rightarrow> bool) \<Rightarrow> 'e list \<Rightarrow> 's \<Rightarrow> bool" where
  "good_run step ok [] s = True"
| "good_run step ok (e # es) s \<longleftrightarrow>
     ok s e \<and> (case step e s of Inl x \<Rightarrow> True | Inr t \<Rightarrow> good_run step ok es t)"

lemma good_run_always: "\<forall>e \<in> set es. ok e \<Longrightarrow> good_run step (\<lambda>s. ok) es s"
  by (induction es arbitrary: s) (auto split: sum.split)

lemma good_run_append:
  "good_run step ok (as @ bs) s \<longleftrightarrow>
     good_run step ok as s \<and> (case foldE step as s of Inl x \<Rightarrow> True | Inr t \<Rightarrow> good_run step ok bs t)"
  by (induction as arbitrary: s) (auto split: sum.splits)

section \<open>Steps\<close>

locale stepper =
  fixes step :: "'e \<Rightarrow> 's \<Rightarrow> 's outcome"
    and ok :: "'s \<Rightarrow> 'e \<Rightarrow> bool"
    and inv :: "'s \<Rightarrow> bool"
    and stop :: "'s \<Rightarrow> 'e \<Rightarrow> fault option"
    and edge :: "'s \<Rightarrow> 's \<Rightarrow> bool"
  assumes stopped: "\<lbrakk>inv s; ok s e; stop s e = Some x\<rbrakk> \<Longrightarrow> step e s = Inl x"
    and goes: "\<lbrakk>inv s; ok s e; stop s e = None\<rbrakk> \<Longrightarrow> \<exists>s'. step e s = Inr s' \<and> inv s' \<and> edge s s'"
begin

lemma step_Inr:
  assumes "inv s" and "ok s e" and "step e s = Inr t"
  shows "stop s e = None \<and> inv t \<and> edge s t"
  using stopped [OF assms(1,2)] goes [OF assms(1,2)] assms(3) by (cases "stop s e") auto

lemma step_Inl:
  assumes "inv s" and "ok s e" and "step e s = Inl x"
  shows "stop s e = Some x"
  using stopped [OF assms(1,2)] goes [OF assms(1,2)] assms(3) by (cases "stop s e") auto

lemma run_keeps:
  assumes "inv s" and "good_run step ok es s" and "foldE step es s = Inr t"
  shows "inv t \<and> edge\<^sup>*\<^sup>* s t"
  using assms
proof (induction es arbitrary: s)
  case Nil
  then show ?case by simp
next
  case (Cons e es)
  then obtain u where u: "step e s = Inr u" "foldE step es u = Inr t" by (auto simp: bindE_eq_Inr)
  with Cons.prems have e: "ok s e" "good_run step ok es u" by auto
  note su = step_Inr [OF Cons.prems(1) e(1) u(1)]
  with Cons.IH [of u] e(2) u(2) show ?case by (auto intro: converse_rtranclp_into_rtranclp)
qed

lemma run_stops:
  assumes "inv s" and "good_run step ok es s" and "foldE step es s = Inl x"
  shows "\<exists>pre e post t. es = pre @ e # post \<and> foldE step pre s = Inr t \<and> inv t \<and> ok t e \<and> stop t e = Some x"
  using assms
proof (induction es arbitrary: s)
  case Nil
  then show ?case by simp
next
  case (Cons e es)
  then have e: "ok s e" by simp
  show ?case
  proof (cases "step e s")
    case (Inl y)
    with Cons.prems step_Inl [OF Cons.prems(1) e] e show ?thesis by (intro exI [of _ "[]"]) auto
  next
    case (Inr u)
    note su = step_Inr [OF Cons.prems(1) e Inr]
    from Cons.prems Inr have "good_run step ok es u" "foldE step es u = Inl x" by simp_all
    with Cons.IH [of u] su obtain pre e' post t where
      "es = pre @ e' # post" "foldE step pre u = Inr t" "inv t" "ok t e'" "stop t e' = Some x" by auto
    with Inr show ?thesis by (intro exI [of _ "e # pre"]) auto
  qed
qed

end

section \<open>The ends of a transfer\<close>

locale endpoint =
  fixes step :: "'e \<Rightarrow> 's \<Rightarrow> 's outcome"
    and ok :: "'e \<Rightarrow> bool"
    and inv :: "'s \<Rightarrow> bool"
    and stop :: "'s \<Rightarrow> 'e \<Rightarrow> fault option"
    and outbox :: "'s \<Rightarrow> 'm list"
    and fair :: "'m \<Rightarrow> bool"
    and edge :: "'s \<Rightarrow> 's \<Rightarrow> bool"
  assumes step_stops: "\<lbrakk>inv s; ok e; stop s e = Some x\<rbrakk> \<Longrightarrow> step e s = Inl x"
    and step_goes: "\<lbrakk>inv s; ok e; stop s e = None\<rbrakk> \<Longrightarrow>
      \<exists>s' ms. step e s = Inr s' \<and> inv s' \<and> outbox s' = outbox s @ ms \<and> (\<forall>m \<in> set ms. fair m) \<and> edge s s'"

text \<open>Sending is part of the edges of a plain stepper.\<close>

sublocale endpoint \<subseteq> moves: stepper step "\<lambda>s. ok" inv stop
  "\<lambda>s t. edge s t \<and> (\<exists>ms. outbox t = outbox s @ ms \<and> (\<forall>m \<in> set ms. fair m))"
proof
  fix s e x
  assume "inv s" "ok e" "stop s e = Some x"
  then show "step e s = Inl x" by (rule step_stops)
next
  fix s e
  assume "inv s" "ok e" "stop s e = None"
  from step_goes [OF this] show "\<exists>s'. step e s = Inr s' \<and> inv s' \<and>
      edge s s' \<and> (\<exists>ms. outbox s' = outbox s @ ms \<and> (\<forall>m \<in> set ms. fair m))" by blast
qed

context endpoint begin

lemma path_sends:
  assumes "(\<lambda>s t. edge s t \<and> (\<exists>ms. outbox t = outbox s @ ms \<and> (\<forall>m \<in> set ms. fair m)))\<^sup>*\<^sup>* s t"
  shows "edge\<^sup>*\<^sup>* s t \<and> (\<exists>ms. outbox t = outbox s @ ms \<and> (\<forall>m \<in> set ms. fair m))"
  using assms
proof (induction rule: rtranclp_induct)
  case base
  then show ?case by simp
next
  case (step t u)
  then obtain ms ms' where "outbox t = outbox s @ ms" "\<forall>m \<in> set ms. fair m"
    "outbox u = outbox t @ ms'" "\<forall>m \<in> set ms'. fair m" by blast
  then have "outbox u = outbox s @ (ms @ ms')" "\<forall>m \<in> set (ms @ ms'). fair m" by auto
  with step show ?case by (auto intro: rtranclp.rtrancl_into_rtrancl)
qed

lemma run_ok:
  assumes "inv s" and "\<forall>e \<in> set es. ok e" and "foldE step es s = Inr t"
  shows "inv t \<and> edge\<^sup>*\<^sup>* s t \<and> (\<exists>ms. outbox t = outbox s @ ms \<and> (\<forall>m \<in> set ms. fair m))"
  using moves.run_keeps [OF assms(1) good_run_always [OF assms(2)] assms(3)] path_sends by blast

lemma run_fails:
  assumes "inv s" and "\<forall>e \<in> set es. ok e" and "foldE step es s = Inl x"
  shows "\<exists>pre e post t. es = pre @ e # post \<and> foldE step pre s = Inr t \<and> inv t \<and> stop t e = Some x"
  using moves.run_stops [OF assms(1) good_run_always [OF assms(2)] assms(3)] by blast

end

end
