(* ===== verification/Send_Conn_Steps.thy ===== *)
theory Send_Conn_Steps
  imports Send_Conn_Inv Endpoint
begin

text \<open>
  The sender's dispatcher and its events: every event keeps the invariant, moves along the
  state machine and sends only true pieces, unless a retransmission request claims more
  pieces than a datagram holds.
\<close>

lemma shareFileMsgHandle_eq:
  assumes b: "msg_view b"
  shows "shareFileMsgHandle s b a time =
    (if \<not> understood b then Inr s
     else case msg_type b of
            Some HELLO \<Rightarrow> send_to s (msg_sign b) HELLO_REPLY 0 [] a
          | Some HELLO_REPLY \<Rightarrow> Inr (handle_hello_reply s (msg_sign b) a time)
          | Some SHARE_CODE \<Rightarrow> handle_share_code s b
          | Some FILE_REQ \<Rightarrow> handle_file_req s b
          | Some DOWNLOAD_START \<Rightarrow> handle_download_start s
          | Some PACK_ACK \<Rightarrow> handle_pack_ack s b
          | Some RETRAN \<Rightarrow> handle_retran s b
          | Some FINISH \<Rightarrow> handle_finish s
          | Some ERROR_FORMAT \<Rightarrow> Inr (closeSelf s)
          | Some ERROR_LIMIT \<Rightarrow> Inr (closeSelf s)
          | _ \<Rightarrow> Inr s)"
  unfolding shareFileMsgHandle_def client_frame_eq [OF b] by (simp split: if_splits)

lemma same_step: "send_inv s f \<Longrightarrow> good_step f s s"
  by (intro good_step_frame) (auto simp: send_inv_def intro: conn_edge.stay)

lemma closeSelf_step: "send_inv s f \<Longrightarrow> good_step f s (closeSelf s)"
  by (intro good_step_frame) (auto simp: send_inv_def closeSelf_def act_def intro: conn_edge.stay)

text \<open>The one request that stops the sender: a retransmission count the datagram cannot hold.\<close>

definition overlong :: "send_conn \<Rightarrow> buffer \<Rightarrow> bool" where
  "overlong s b \<longleftrightarrow> understood b \<and> msg_type b = Some RETRAN \<and> state s = SEND_FILE \<and>
     kBufferSize < 8 + 4 * retran_count b"

lemma shareFileMsgHandle_ok:
  assumes s: "send_inv s f" and b: "msg_view b"
  shows "if overlong s b then shareFileMsgHandle s b a time = Inl Out_Of_Bounds
    else \<exists>s'. shareFileMsgHandle s b a time = Inr s' \<and> good_step f s s'"
proof (cases "understood b")
  case False
  then show ?thesis using same_step [OF s] by (simp add: shareFileMsgHandle_eq [OF b] overlong_def)
next
  case u: True
  have keep: "\<exists>s'. Inr s = (Inr s' :: send_conn outcome) \<and> good_step f s s'"
    using same_step [OF s] by blast
  have r1: "state s = SEND_FILE \<and> kBufferSize < 8 + 4 * retran_count b \<Longrightarrow>
      handle_retran s b = Inl Out_Of_Bounds"
    using retran_out [OF b] by simp
  have r2: "\<not> (state s = SEND_FILE \<and> kBufferSize < 8 + 4 * retran_count b) \<Longrightarrow>
      \<exists>s'. handle_retran s b = Inr s' \<and> good_step f s s'"
  proof (cases "state s = SEND_FILE")
    case True
    assume "\<not> (state s = SEND_FILE \<and> kBufferSize < 8 + 4 * retran_count b)"
    with True show ?thesis using retran_step [OF s b] by (simp add: not_less)
  next
    case False
    then have "handle_retran s b = Inr s" by (simp add: handle_retran_def)
    then show ?thesis using False same_step [OF s] by simp
  qed
  note steps = control_step [OF s, of HELLO_REPLY "msg_sign b" a] hello_reply_step [OF s]
    share_code_step [OF s b] file_req_step [OF s b] download_start_step [OF s] pack_ack_step [OF s b]
    finish_step [OF s] closeSelf_step [OF s] keep
  show ?thesis
  proof (cases "msg_type b")
    case None
    with u keep show ?thesis by (simp add: shareFileMsgHandle_eq [OF b] overlong_def)
  next
    case (Some t)
    then show ?thesis
      using u steps r1 r2 by (cases t) (simp_all add: shareFileMsgHandle_eq [OF b] overlong_def)
  qed
qed

lemma checkPeerAlive_ok:
  assumes s: "send_inv s f"
  shows "\<exists>s'. checkPeerAlive s now = Inr s' \<and> good_step f s s'"
proof -
  obtain m where m: "sendManager s = Some m" "manager_ok m f" using s by (auto simp: send_inv_def)
  let ?t = "state s = SEND_FILE \<and> valid (lastPeerHelloTime s) \<and> timed_out now (lastPeerHelloTime s) kTimeoutSec"
  let ?s = "closeAllTimer (s\<lparr>state := WAIT_RECVER, sendWindow := 0, isWindowFull := False,
    sendManager := Some (initStatu m)\<rparr>)"
  let ?u = "if ?t then ?s else s"
  have u: "good_step f s ?u"
  proof (cases ?t)
    case True
    have "send_inv ?s f" using s manager_init [OF m(2)] by (simp add: send_inv_def closeAllTimer_def)
    then show ?thesis using True
      by (intro good_stepI [of _ _ _ "[]"]) (auto simp: sends_only_def closeAllTimer_def intro: conn_edge.finished)
  next
    case False
    then have "?u = s" by (simp only: if_False)
    then show ?thesis using same_step [OF s] by (simp only:)
  qed
  have c: "(if ?t then (case sendManager s of
      None \<Rightarrow> Inl Null_Deref
    | Some m \<Rightarrow> Inr (closeAllTimer (s\<lparr>state := WAIT_RECVER, sendWindow := 0,
        isWindowFull := False, sendManager := Some (initStatu m)\<rparr>))) else Inr s) = Inr ?u"
    using m(1) by simp
  have "checkPeerAlive s now =
    Inr (if valid (lastServerHelloTime ?u) \<and> timed_out now (lastServerHelloTime ?u) kTimeoutSec
         then closeSelf ?u else ?u)"
    unfolding checkPeerAlive_def c by (simp only: bindE_Inr)
  moreover have "good_step f s (closeSelf ?u)"
    using u by (auto simp: good_step_def closeSelf_def act_def send_inv_def sends_only_def)
  ultimately show ?thesis using u by auto
qed

lemma conn_edge_then:
  assumes "good_step f s s'" and "state s' = state s" and "good_step f s' s''"
  shows "good_step f s s''"
proof -
  obtain ms ms' where "sends_only s s' ms" "honest f ms" "sends_only s' s'' ms'" "honest f ms'"
    using assms by (auto simp: good_step_def)
  then have "sends_only s s'' (ms @ ms')" "honest f (ms @ ms')"
    by (auto simp: sends_only_def honest_def)
  with assms show ?thesis by (auto simp: good_step_def)
qed

lemma holdConn_ok:
  assumes s: "send_inv s f"
  shows "\<exists>s'. holdConn s a sg now = Inr s' \<and> good_step f s s'"
proof -
  from control_step [OF s, of HELLO sg a] obtain s1 where
    s1: "send_to s sg HELLO 0 [] a = Inr s1" "good_step f s s1" by auto
  have st: "state s1 = state s" using s1(1) by (auto simp: send_to_def outcome_simps)
  from s1(2) have "send_inv s1 f" by (simp add: good_step_def)
  from checkPeerAlive_ok [OF this, of now] obtain s2 where
    "checkPeerAlive s1 now = Inr s2" "good_step f s1 s2" by blast
  with conn_edge_then [OF s1(2) st] s1(1) show ?thesis by (simp add: holdConn_def)
qed

section \<open>Steps\<close>

definition stops :: "send_conn \<Rightarrow> send_event \<Rightarrow> bool" where
  "stops s e \<longleftrightarrow> (case e of Msg r now \<Rightarrow> overlong s (fst (seen (conn s) r)) | _ \<Rightarrow> False)"

definition event_ok :: "send_event \<Rightarrow> bool" where
  "event_ok e \<longleftrightarrow> (case e of Msg r now \<Rightarrow> (case r of Recv d src \<Rightarrow> length d \<le> kBufferSize | _ \<Rightarrow> True) | _ \<Rightarrow> True)"

lemma send_step_ok:
  assumes s: "send_inv s f" and e: "event_ok e"
  shows "if stops s e then send_step e s = Inl Out_Of_Bounds
    else \<exists>s'. send_step e s = Inr s' \<and> good_step f s s'"
proof (cases e)
  case (Msg r now)
  have r: "case r of Recv d src \<Rightarrow> length d \<le> kBufferSize | _ \<Rightarrow> True"
    using e Msg by (simp add: event_ok_def)
  have u: "udp_inv (conn s)" and st: "state s \<noteq> IDLE" using s by (auto simp: send_inv_def)
  let ?b = "fst (seen (conn s) r)"
  have b: "msg_view ?b" by (rule seen_view [OF u r])
  have self: "s\<lparr>conn := conn s\<rparr> = s" by simp
  note ok = shareFileMsgHandle_ok [OF s b, of "snd (seen (conn s) r)" now]
  show ?thesis
  proof (cases "overlong s ?b")
    case True
    with ok st Msg show ?thesis
      by (simp add: stops_def handleRead_seen [OF u r] send_callback_def)
  next
    case False
    with ok obtain s' where s': "shareFileMsgHandle s ?b (snd (seen (conn s) r)) now = Inr s'" "good_step f s s'"
      by auto
    let ?u = "conn s'\<lparr>tmpbuf := retrieveAll ?b\<rparr>"
    have run: "send_step e s = Inr (s'\<lparr>conn := ?u\<rparr>)"
      using s'(1) st Msg by (simp add: handleRead_seen [OF u r] send_callback_def)
    have "good_step f s (s'\<lparr>conn := ?u\<rparr>)"
      using s'(2) view_udp_inv [OF b, of ?b] by (auto simp: good_step_def send_inv_def sends_only_def)
    with run False Msg show ?thesis by (simp add: stops_def)
  qed
next
  case (Heart_Beat now)
  then show ?thesis
    using holdConn_ok [OF s] same_step [OF s] by (auto simp: stops_def split: option.splits)
next
  case (Repeat_Timer i now)
  then show ?thesis using holdConn_ok [OF s] same_step [OF s] by (auto simp: stops_def)
next
  case Run_Stream
  from sendFileStream_ok [OF s] obtain s' where
    "sendFileStream s = Inr s'" "send_inv s' f" "state s' = state s"
    "\<exists>ms. sends_only s s' ms \<and> honest f ms" by blast
  with Run_Stream show ?thesis by (simp add: stops_def good_step_def conn_edge.stay)
next
  case (Run_Loss ps)
  from sendLossPieces_step [OF s, of ps] obtain s' where
    "sendLossPieces s ps = Inr s'" "send_inv s' f" "state s' = state s"
    "\<exists>ms. sends_only s s' ms \<and> honest f ms" by blast
  with Run_Loss show ?thesis by (simp add: stops_def good_step_def conn_edge.stay)
qed

definition send_stop :: "send_conn \<Rightarrow> send_event \<Rightarrow> fault option" where
  "send_stop s e = (if stops s e then Some Out_Of_Bounds else None)"

definition fair_piece :: "bytes \<Rightarrow> bytes \<times> sockaddr \<Rightarrow> bool" where
  "fair_piece f = (\<lambda>(d, a). d ! 1 = type_code DATA_STREAM \<longrightarrow> (\<exists>k. d = piece_msg f k))"

interpretation sender: endpoint send_step event_ok "\<lambda>s. send_inv s f" send_stop "\<lambda>s. sent (conn s)"
  "fair_piece f" "\<lambda>s t. conn_edge (state s) (state t)" for f
proof
  fix s e x
  assume "send_inv s f" "event_ok e" "send_stop s e = Some x"
  then show "send_step e s = Inl x"
    using send_step_ok [of s f e] by (auto simp: send_stop_def split: if_splits)
next
  fix s e
  assume s: "send_inv s f" "event_ok e" "send_stop s e = None"
  then have "\<not> stops s e" by (simp add: send_stop_def split: if_splits)
  with send_step_ok [OF s(1,2)] obtain s' ms where r: "send_step e s = Inr s'" "send_inv s' f"
    "conn_edge (state s) (state s')" "sent (conn s') = sent (conn s) @ ms" "honest f ms"
    by (auto simp: good_step_def sends_only_def)
  then show "\<exists>s' ms. send_step e s = Inr s' \<and> send_inv s' f \<and> sent (conn s') = sent (conn s) @ ms \<and>
      (\<forall>m \<in> set ms. fair_piece f m) \<and> conn_edge (state s) (state s')"
    by (auto simp: honest_def fair_piece_def)
qed

end
