(* ===== verification/Send_Effects.thy ===== *)
theory Send_Effects
  imports Send_Conn_Steps
begin

text \<open>
  What an event of a sender asks of the client, and what it leaves alone: its socket, its
  code (which only a \<open>SHARE_CODE\<close> message sets) and the server's address.
\<close>

declare send_step.simps [simp del]

definition own_close :: "send_conn \<Rightarrow> action" where
  "own_close s = (if code s \<noteq> 0 then Close_Send_Conn (code s) else Close_Pend_Conn (sock s))"

definition harmless :: "send_conn \<Rightarrow> action \<Rightarrow> bool" where
  "harmless s a \<longleftrightarrow> a = own_close s \<or> a = Queue_Stream \<or> (\<exists>ps. a = Queue_Loss ps)"

definition tame :: "send_conn \<Rightarrow> send_conn \<Rightarrow> bool" where
  "tame s s' \<longleftrightarrow> sock s' = sock s \<and> code s' = code s \<and> serveraddr s' = serveraddr s \<and>
     (state s' = WAIT_CODE \<longleftrightarrow> state s = WAIT_CODE) \<and>
     (\<exists>as. actions s' = actions s @ as \<and> (\<forall>a \<in> set as. harmless s a))"

lemma tameI:
  assumes "sock s' = sock s" and "code s' = code s" and "serveraddr s' = serveraddr s"
    and "state s' = WAIT_CODE \<longleftrightarrow> state s = WAIT_CODE"
    and "actions s' = actions s @ as" and "\<forall>a \<in> set as. harmless s a"
  shows "tame s s'"
  using assms unfolding tame_def by blast

lemma tame_same:
  assumes "sock s' = sock s" and "code s' = code s" and "serveraddr s' = serveraddr s"
    and "state s' = WAIT_CODE \<longleftrightarrow> state s = WAIT_CODE" and "actions s' = actions s"
  shows "tame s s'"
  using assms by (intro tameI [of _ _ "[]"]) simp_all

lemma tame_refl: "tame s s"
  by (rule tame_same) simp_all

lemma harmless_cong: "sock s' = sock s \<Longrightarrow> code s' = code s \<Longrightarrow> harmless s' = harmless s"
  by (simp add: fun_eq_iff harmless_def own_close_def)

lemma tame_trans:
  assumes "tame s s1" and "tame s1 s2"
  shows "tame s s2"
proof -
  from assms obtain as bs where "actions s1 = actions s @ as" "\<forall>a \<in> set as. harmless s a"
    "actions s2 = actions s1 @ bs" "\<forall>a \<in> set bs. harmless s1 a" by (auto simp: tame_def)
  moreover have "harmless s1 = harmless s" using assms(1) by (intro harmless_cong) (simp_all add: tame_def)
  ultimately show ?thesis using assms
    by (intro tameI [of _ _ "as @ bs"]) (auto simp: tame_def)
qed

section \<open>Operations\<close>

lemma act_tame: "harmless s a \<Longrightarrow> tame s (act s a)"
  by (rule tameI [of _ _ "[a]"]) (simp_all add: act_def)

lemma closeSelf_tame: "tame s (closeSelf s)"
proof -
  have "closeSelf s = act s (own_close s)" by (simp add: closeSelf_def own_close_def)
  then show ?thesis using act_tame [of s "own_close s"] by (simp add: harmless_def)
qed

lemma send_to_tame: "send_to s sg t n ps a = Inr s' \<Longrightarrow> tame s s'"
  by (auto simp: send_to_def outcome_simps intro: tame_same)

lemma sendPiece_tame:
  assumes "sendPiece s m k b = Inr s'"
  shows "tame s s'"
proof -
  from assms obtain d s1 where 1: "send_to (s\<lparr>sendManager := Some m\<rparr>) kClientSign DATA_STREAM
      (readableBytes b + sizeof_DataStream) [u32_bytes k, d] (recveraddr s) = Inr s1"
    and s': "s' = s1\<lparr>sendWindow := sendWindow s1 + 1\<rparr>"
    by (auto simp: sendPiece_def outcome_simps)
  have "tame s (s\<lparr>sendManager := Some m\<rparr>)" "tame s1 s'" by (rule tame_same; simp add: s')+
  with send_to_tame [OF 1] show ?thesis by (blast intro: tame_trans)
qed

lemma sendFileStream_tame:
  assumes "sendFileStream s = Inr s'"
  shows "tame s s'"
proof -
  obtain m where m: "sendManager s = Some m"
    using assms by (cases "sendManager s") (simp_all add: sendFileStream_def)
  show ?thesis
  proof (cases "\<not> isGood m \<or> kPiecesPerWindow * kWindowNum \<le> sendWindow s")
    case True
    then have "s' = s\<lparr>isWindowFull := True\<rparr>" using assms m by (simp add: sendFileStream_def)
    then show ?thesis by (intro tame_same) simp_all
  next
    case False
    with assms m obtain b m1 s1 where "sendPiece s m1 (curPiece m) b = Inr s1" "s' = act s1 Queue_Stream"
      unfolding sendFileStream_def by (auto simp: Let_def outcome_simps split: if_splits)
    then show ?thesis using tame_trans [OF sendPiece_tame act_tame, of s m1 "curPiece m" b s1 Queue_Stream]
      by (simp add: harmless_def)
  qed
qed

lemma sendLossPieces_tame:
  assumes "sendLossPieces s ps = Inr s'"
  shows "tame s s'"
proof -
  obtain m where m: "sendManager s = Some m"
    using assms by (cases "sendManager s") (simp_all add: sendLossPieces_def)
  show ?thesis
  proof (cases "\<not> isOpen m \<or> length ps = 0 \<or> kPiecesPerWindow * kWindowNum \<le> sendWindow s")
    case True
    then have "s' = s\<lparr>isWindowFull := True\<rparr>" using assms m by (auto simp: sendLossPieces_def)
    then show ?thesis by (intro tame_same) simp_all
  next
    case False
    with assms m obtain b m1 s1 k rest where "sendPiece s m1 k b = Inr s1" "s' = act s1 (Queue_Loss rest)"
      unfolding sendLossPieces_def by (auto simp: Let_def outcome_simps split: if_splits)
    then show ?thesis using tame_trans [OF sendPiece_tame act_tame, of s m1 k b s1 "Queue_Loss rest"]
      by (simp add: harmless_def)
  qed
qed

lemma checkPeerAlive_tame:
  assumes "checkPeerAlive s now = Inr s'"
  shows "tame s s'"
proof -
  from assms obtain s1 where s1: "(if state s = SEND_FILE \<and> valid (lastPeerHelloTime s) \<and> timed_out now (lastPeerHelloTime s) kTimeoutSec
        then (case sendManager s of
                None \<Rightarrow> Inl Null_Deref
              | Some m \<Rightarrow> Inr (closeAllTimer (s\<lparr>state := WAIT_RECVER, sendWindow := 0,
                  isWindowFull := False, sendManager := Some (initStatu m)\<rparr>)))
        else Inr s) = Inr s1"
    and s': "s' = (if valid (lastServerHelloTime s1) \<and> timed_out now (lastServerHelloTime s1) kTimeoutSec
          then closeSelf s1 else s1)"
    unfolding checkPeerAlive_def bindE_eq_Inr sum.inject by blast
  have "tame s s1"
    using s1 by (intro tame_same) (auto simp: closeAllTimer_def split: if_splits option.splits)
  with closeSelf_tame [of s1] tame_refl [of s1] s' show ?thesis by (auto intro: tame_trans)
qed

lemma holdConn_tame: "holdConn s a sg now = Inr s' \<Longrightarrow> tame s s'"
  unfolding holdConn_def bindE_eq_Inr by (blast intro: tame_trans send_to_tame checkPeerAlive_tame)

lemma hello_reply_tame: "tame s (handle_hello_reply s sg a now)"
  by (rule tame_same) (simp_all add: handle_hello_reply_def Let_def)

lemma file_req_tame:
  assumes "handle_file_req s b = Inr s'"
  shows "tame s s'"
proof (cases "state s = WAIT_RECVER")
  case False
  with assms tame_refl show ?thesis by (simp add: handle_file_req_def)
next
  case True
  with assms obtain p s2 where "send_to (s\<lparr>recveraddr := p\<rparr>) kClientSign HELLO 0 [] p = Inr s2"
    and s': "s' = s2\<lparr>repeattimers := repeattimers s2 @ [(recveraddr s2, kClientSign)], state := CONN_RECVER\<rparr>"
    by (auto simp: handle_file_req_def outcome_simps)
  from send_to_tame [OF this(1)] have t: "tame (s\<lparr>recveraddr := p\<rparr>) s2" .
  have "tame s (s\<lparr>recveraddr := p\<rparr>)" by (rule tame_same) simp_all
  from tame_trans [OF this t] True s' show ?thesis by (auto simp: tame_def)
qed

lemma start_tame:
  assumes "handle_download_start s = Inr s'"
  shows "tame s s'"
proof (cases "state s = SEND_FILE \<or> state s = CONN_RECVER")
  case False
  with assms tame_refl show ?thesis by (simp add: handle_download_start_def)
next
  case True
  with assms have "sendFileStream (s\<lparr>state := SEND_FILE\<rparr>) = Inr s'" by (simp add: handle_download_start_def)
  from sendFileStream_tame [OF this] tame_same [of "s\<lparr>state := SEND_FILE\<rparr>" s] True
  show ?thesis by (auto intro: tame_trans)
qed

lemma pack_ack_tame:
  assumes "handle_pack_ack s b = Inr s'"
  shows "tame s s'"
proof (cases "state s = SEND_FILE")
  case False
  with assms tame_refl show ?thesis by (simp add: handle_pack_ack_def)
next
  case True
  with assms obtain w where w: "sendFileStream (s\<lparr>sendWindow := w, isWindowFull := False\<rparr>) = Inr s' \<or>
      s' = s\<lparr>sendWindow := w\<rparr>"
    by (auto simp: handle_pack_ack_def Let_def outcome_simps split: if_splits)
  have "tame s (s\<lparr>sendWindow := w, isWindowFull := False\<rparr>)" "tame s (s\<lparr>sendWindow := w\<rparr>)"
    by (rule tame_same; simp)+
  with w sendFileStream_tame show ?thesis by (blast intro: tame_trans)
qed

lemma retran_tame: "handle_retran s b = Inr s' \<Longrightarrow> tame s s'"
  by (auto simp: handle_retran_def Let_def outcome_simps intro: sendLossPieces_tame tame_refl split: if_splits)

lemma finish_tame: "handle_finish s = Inr s' \<Longrightarrow> tame s s'"
  by (auto simp: handle_finish_def closeAllTimer_def intro!: tame_same split: if_splits option.splits)

section \<open>Messages\<close>

text \<open>The code a message would give to a connection that waits for one.\<close>

definition code_granted :: "send_conn \<Rightarrow> buffer \<Rightarrow> u32 option" where
  "code_granted s b =
     (if state s = WAIT_CODE \<and> understood b \<and> msg_type b = Some SHARE_CODE
      then Some (u32_of (slice (kPrependSize + sizeof_Header) sizeof_ShareCode (store b))) else None)"

definition shared_as :: "send_conn \<Rightarrow> u32 \<Rightarrow> send_conn" where
  "shared_as s k = (act (s\<lparr>code := k\<rparr>) (Move_Pend_Conn (sock s) k))\<lparr>
     heartBeat := Some (serveraddr s, kServerSign), state := WAIT_RECVER\<rparr>"

lemma share_code_eq:
  assumes "msg_view b"
  shows "handle_share_code s b =
    (if state s \<noteq> WAIT_CODE then Inr s
     else Inr (shared_as s (u32_of (slice (kPrependSize + sizeof_Header) sizeof_ShareCode (store b)))))"
  using view_peek [OF assms, of sizeof_Header sizeof_ShareCode]
  by (simp add: handle_share_code_def shared_as_def act_def Let_def sizeof_defs kBufferSize_def)

lemma message_effect:
  assumes b: "msg_view b" and r: "shareFileMsgHandle s b a time = Inr s'"
  shows "case code_granted s b of Some k \<Rightarrow> s' = shared_as s k | None \<Rightarrow> tame s s'"
proof (cases "understood b \<and> msg_type b = Some SHARE_CODE")
  case True
  with r tame_refl show ?thesis
    by (simp add: shareFileMsgHandle_eq [OF b] share_code_eq [OF b] code_granted_def split: if_splits)
next
  case False
  then have none: "code_granted s b = None" by (auto simp: code_granted_def)
  have "tame s s'"
  proof (cases "understood b")
    case True
    note t = send_to_tame [of s "msg_sign b" HELLO_REPLY 0 "[]" a s'] file_req_tame [of s b s'] start_tame [of s s']
      pack_ack_tame [of s b s'] retran_tame [of s b s'] finish_tame [of s s'] hello_reply_tame closeSelf_tame tame_refl
    show ?thesis
    proof (cases "msg_type b")
      case None
      with r True t show ?thesis by (simp add: shareFileMsgHandle_eq [OF b])
    next
      case (Some ty)
      with r True False t show ?thesis by (cases ty) (auto simp: shareFileMsgHandle_eq [OF b])
    qed
  qed (use r tame_refl in \<open>simp add: shareFileMsgHandle_eq [OF b]\<close>)
  with none show ?thesis by simp
qed

section \<open>Events\<close>

definition event_code :: "send_conn \<Rightarrow> send_event \<Rightarrow> u32 option" where
  "event_code s e = (case e of Msg r now \<Rightarrow> code_granted s (fst (seen (conn s) r)) | _ \<Rightarrow> None)"

text \<open>The buffer of the socket aside, an event gives a code or is tame.\<close>

theorem send_step_effect:
  assumes s: "send_inv s f" and e: "event_ok e" and r: "send_step e s = Inr s'"
  shows "case event_code s e of
      Some k \<Rightarrow> \<exists>u. s' = (shared_as s k)\<lparr>conn := u\<rparr>
    | None \<Rightarrow> tame s s'"
proof (cases e)
  case (Msg rc now)
  have u: "udp_inv (conn s)" and st: "state s \<noteq> IDLE" using s by (auto simp: send_inv_def)
  have rc: "case rc of Recv d src \<Rightarrow> length d \<le> kBufferSize | _ \<Rightarrow> True"
    using e Msg by (simp add: event_ok_def)
  let ?b = "fst (seen (conn s) rc)"
  have b: "msg_view ?b" by (rule seen_view [OF u rc])
  from r st Msg obtain s1 v where s1: "shareFileMsgHandle s ?b (snd (seen (conn s) rc)) now = Inr s1" "s' = s1\<lparr>conn := v\<rparr>"
    by (auto simp: send_step.simps handleRead_seen [OF u rc] send_callback_def outcome_simps)
  have "tame s1 s'" unfolding s1(2) by (rule tame_same) simp_all
  with message_effect [OF b s1(1)] s1(2) Msg show ?thesis
    by (auto simp: event_code_def split: option.splits intro: tame_trans)
next
  case (Heart_Beat now)
  with r show ?thesis
    by (auto simp: send_step.simps event_code_def intro: tame_refl holdConn_tame split: option.splits)
next
  case (Repeat_Timer i now)
  with r show ?thesis
    by (auto simp: send_step.simps event_code_def intro: tame_refl holdConn_tame split: if_splits)
next
  case Run_Stream
  with r show ?thesis by (simp add: send_step.simps event_code_def sendFileStream_tame)
next
  case (Run_Loss ps)
  with r show ?thesis by (simp add: send_step.simps event_code_def sendLossPieces_tame)
qed

section \<open>A new connection\<close>

definition fresh_sender :: "int \<Rightarrow> udp \<Rightarrow> sockaddr \<Rightarrow> sockaddr \<Rightarrow> send_conn" where
  "fresh_sender fd u server uninit = \<lparr>conn = u, sock = fd, state = IDLE, code = 0, serveraddr = server,
     recveraddr = uninit, repeattimers = [], heartBeat = None, sendManager = None, sendWindow = 0,
     isWindowFull = False, lastServerHelloTime = invalid, lastPeerHelloTime = invalid, actions = []\<rparr>"

lemma new_sender:
  assumes "0 \<le> fd" and "0 \<le> os k (ports 0)"
  shows "\<exists>u. new_SendConnManager fd ports os server uninit = Inr (fresh_sender fd u server uninit) \<and>
    bound u \<and> udp_inv u \<and> sent u = []"
proof -
  from new_socket [where fd = fd and os = os and k = k and ports = ports, OF assms] obtain u v where
    "new_UdpCom fd (ports 0) (os 0) = Inr u" "bind_loop ports os 1 u = Some v"
    "bound v" "udp_inv v" "sent v = []" by blast
  then show ?thesis by (simp add: new_SendConnManager_def fresh_sender_def)
qed

definition share_request :: "bytes \<Rightarrow> bytes \<Rightarrow> bytes" where
  "share_request path f =
     message kServerSign SHARE_FILE sizeof_FileData
       (filedata_bytes \<lparr>fileName = path_filename path @ replicate (256 - length (path_filename path)) 0,
          fileBytes = of_nat (length f), fileCRC32 = crc32_ref f\<rparr>)"

lemma new_manager_ok:
  assumes "fs path = Some f" and "crc_ok crc" and "length f \<le> 4294966272"
  shows "manager_ok (new_SendFileManager crc fs u path kBytesPerPiece) f"
    and "sent_fileName (new_SendFileManager crc fs u path kBytesPerPiece) = path_filename path"
  using new_SendFileManager_open [where fs = fs and path = path, OF assms(1,2), of u] assms(1,3)
  by (auto simp: manager_ok_def streaming_def new_SendFileManager_def openFile_def Let_def)

lemma shareFile_opens:
  assumes "state s = IDLE" and "bound (conn s)" and "udp_inv (conn s)" and "sendWindow s = 0"
    and b: "buffer_inv b" "contents b = path" and "fs path = Some f" and "crc_ok crc"
    and "length (path_filename path) \<le> 256" and "length f \<le> 4294966272"
  shows "\<exists>s'. shareFile crc fs u s b = Inr s' \<and> send_inv s' f \<and> state s' = WAIT_CODE \<and>
    sent (conn s') = sent (conn s) @ [(share_request path f, serveraddr s)] \<and>
    sock s' = sock s \<and> code s' = code s \<and> serveraddr s' = serveraddr s \<and> actions s' = actions s \<and>
    sendWindow s' = 0 \<and> isWindowFull s' = isWindowFull s \<and> (\<exists>m. sendManager s' = Some m \<and> streaming m f 0)"
proof -
  obtain m where m: "m = new_SendFileManager crc fs u path kBytesPerPiece" by blast
  have ok: "manager_ok m f" and nm: "sent_fileName m = path_filename path"
    unfolding m using new_manager_ok [where fs = fs and path = path, OF assms(7,8,10)] by simp_all
  have fd: "sent_fileBytes m = of_nat (length f)" "sent_fileCRC32 m = crc32_ref f" "Send_File.isOpen m"
    using new_SendFileManager_open [where fs = fs and path = path, OF assms(7,8), of u] ok
    by (simp_all add: m manager_ok_def sends_def Send_File.isOpen_def)
  let ?nm = "path_filename path @ replicate (256 - length (path_filename path)) 0"
  let ?fd = "\<lparr>fileName = ?nm, fileBytes = of_nat (length f), fileCRC32 = crc32_ref f\<rparr>"
  have len: "length (concat [filedata_bytes ?fd]) < 2 ^ 32"
    using assms(9) by (simp add: filedata_bytes_def)
  have bnd: "bound (conn (s\<lparr>sendManager := Some m\<rparr>))" using assms(2) by simp
  have rd: "retrieveAsString b = Inr (path, retrieveAll b)" using retrieveAsString_spec [OF b(1)] b(2) by simp
  let ?s' = "s\<lparr>sendManager := Some m, state := WAIT_CODE,
    conn := (conn s)\<lparr>sent := sent (conn s) @ [(share_request path f, serveraddr s)]\<rparr>\<rparr>"
  have "shareFile crc fs u s b = Inr ?s'"
    using assms(1,2,9) fd send_to_ok [OF bnd len, of kServerSign SHARE_FILE sizeof_FileData "serveraddr s"]
    by (simp add: shareFile_def require_def rd Let_def m [symmetric] nm name_field_def share_request_def)
  moreover have "send_inv ?s' f" using assms(2,3,4) ok by (simp add: send_inv_def udp_inv_def)
  moreover have "streaming m f 0"
    using new_SendFileManager_open [where fs = fs and path = path, OF assms(7,8), of u] by (simp add: m)
  ultimately show ?thesis using assms(4) by simp
qed

lemma shareFile_unreadable:
  assumes "state s = IDLE" and "bound (conn s)" and b: "buffer_inv b" and "fs (contents b) = None"
  shows "\<exists>m. shareFile crc fs u s b = Inr (closeSelf (s\<lparr>sendManager := Some m\<rparr>))"
proof -
  let ?m = "new_SendFileManager crc fs u (contents b) kBytesPerPiece"
  have "\<not> Send_File.isOpen ?m"
    using assms(4) by (simp add: new_SendFileManager_def Send_File.isOpen_def closed_ifile_def Let_def)
  then show ?thesis
    using assms(1,2) retrieveAsString_spec [OF b] by (auto simp: shareFile_def Let_def)
qed

declare send_step.simps [simp]

end
