(* ===== verification/Send_Properties.thy ===== *)
theory Send_Properties
  imports Send_Effects File_Properties Demo
begin

text \<open>
  The properties of a sending connection, from the share request to the end of a transfer.
\<close>

section \<open>Sharing\<close>

text \<open>
  The share request: a fresh connection that is given the path of a readable file opens
  it, sends exactly one message, to the server, which carries the file's name (after the last
  slash), its size and its CRC-32, and waits for a code with the sender's invariant established.
\<close>

theorem share_request_sent:
  assumes "state s = IDLE" and "bound (conn s)" and "udp_inv (conn s)" and "sendWindow s = 0"
    and b: "buffer_inv b" "contents b = path" and "fs path = Some f" and "crc_ok crc"
    and "length (path_filename path) \<le> 256" and "length f \<le> 4294966272"
  shows "\<exists>s'. shareFile crc fs u s b = Inr s' \<and> send_inv s' f \<and> state s' = WAIT_CODE \<and>
    sent (conn s') = sent (conn s) @ [(share_request path f, serveraddr s)]"
  using shareFile_opens [where fs = fs and path = path, OF assms, of u] by blast

definition sender0 :: send_conn where
  "sender0 = \<lparr>conn = socket0, sock = 5, state = IDLE, code = 0, serveraddr = peer_b, recveraddr = zero_sockaddr,
     repeattimers = [], heartBeat = None, sendManager = None, sendWindow = 0, isWindowFull = False,
     lastServerHelloTime = invalid, lastPeerHelloTime = invalid, actions = []\<rparr>"

lemma piece_buffer_a: "buffer_inv (piece_buffer [0x61])" "contents (piece_buffer [0x61]) = [0x61]"
  using piece_buffer_ok [of "[0x61]"] by simp_all

lemma sender0_ready:
  "state sender0 = IDLE" "bound (conn sender0)" "udp_inv (conn sender0)" "sendWindow sender0 = 0"
  "serveraddr sender0 = peer_b" "sent (conn sender0) = []"
  by (simp_all add: sender0_def socket0_inv)

theorem share_request_sent_witness:
  "\<exists>s'. shareFile crc_init demo_fs demo_sender sender0 (piece_buffer [0x61]) = Inr s' \<and>
     send_inv s' demo_content \<and> sent (conn s') = [(share_request [0x61] demo_content, peer_b)]"
proof -
  have "length (path_filename [0x61]) \<le> 256" by (simp add: path_filename_def)
  from share_request_sent [where fs = demo_fs and path = "[0x61]", OF sender0_ready(1-4) piece_buffer_a demo_fs crc_init_ok this]
  show ?thesis using sender0_ready demo_sizes(1) by fastforce
qed

text \<open>The same connection while it waits for its code, and while it sends.\<close>

definition waiting :: send_conn where
  "waiting = sender0\<lparr>state := WAIT_CODE, sendManager := Some opened_sender\<rparr>"

definition sending :: send_conn where
  "sending = waiting\<lparr>state := SEND_FILE, recveraddr := peer_a\<rparr>"

lemma opened_streaming: "streaming opened_sender demo_content 0"
  using opened_sender_props by simp

lemma demo_inv: "send_inv waiting demo_content" "send_inv sending demo_content"
proof -
  have "manager_ok opened_sender demo_content"
    using opened_streaming demo_sizes(1) by (auto simp: manager_ok_def streaming_def)
  then show "send_inv waiting demo_content" "send_inv sending demo_content"
    by (simp_all add: send_inv_def waiting_def sending_def sender0_def socket0_inv)
qed

section \<open>Runs\<close>



section \<open>The handshake\<close>

text \<open>Messages of the handshake leave the stream alone.\<close>

definition same_stream :: "send_conn \<Rightarrow> send_conn \<Rightarrow> bool" where
  "same_stream s t \<longleftrightarrow> sendManager t = sendManager s \<and> sendWindow t = sendWindow s \<and> isWindowFull t = isWindowFull s"

lemma message_step:
  assumes s: "send_inv s f" and len: "length d \<le> kBufferSize"
  shows "send_step (Msg (Recv d a) now) s =
    bindE (shareFileMsgHandle s (received (conn s) d) a now)
      (\<lambda>s'. Inr (s'\<lparr>conn := (conn s')\<lparr>tmpbuf := retrieveAll (received (conn s) d)\<rparr>\<rparr>))"
proof -
  have "udp_inv (conn s)" "state s \<noteq> IDLE" using s by (auto simp: send_inv_def)
  then show ?thesis
    using handleRead_Recv [OF _ len, of "conn s" send_callback a now s]
    by (simp add: send_callback_def bindE_assoc)
qed

lemma fields:
  assumes "send_inv s f" and "known_sign sg" and "length body \<le> 1000"
  shows "shareFileMsgHandle s (received (conn s) (message sg t n body)) a now =
      (case t of
         HELLO \<Rightarrow> send_to s sg HELLO_REPLY 0 [] a
       | HELLO_REPLY \<Rightarrow> Inr (handle_hello_reply s sg a now)
       | SHARE_CODE \<Rightarrow> handle_share_code s (received (conn s) (message sg t n body))
       | FILE_REQ \<Rightarrow> handle_file_req s (received (conn s) (message sg t n body))
       | DOWNLOAD_START \<Rightarrow> handle_download_start s
       | PACK_ACK \<Rightarrow> handle_pack_ack s (received (conn s) (message sg t n body))
       | RETRAN \<Rightarrow> handle_retran s (received (conn s) (message sg t n body))
       | FINISH \<Rightarrow> handle_finish s
       | ERROR_FORMAT \<Rightarrow> Inr (closeSelf s)
       | ERROR_LIMIT \<Rightarrow> Inr (closeSelf s)
       | _ \<Rightarrow> Inr s)"
    and "k \<le> length body \<Longrightarrow>
      peek (received (conn s) (message sg t n body)) sizeof_Header k = Inr (take k body)"
proof -
  have u: "udp_inv (conn s)" using assms(1) by (simp add: send_inv_def)
  have len: "length (message sg t n body) \<le> kBufferSize"
    using assms(3) by (simp add: sizeof_Header_def kBufferSize_def)
  note v = received_msg_view [OF u len] and m = received_message [OF u len]
  show "shareFileMsgHandle s (received (conn s) (message sg t n body)) a now =
      (case t of
         HELLO \<Rightarrow> send_to s sg HELLO_REPLY 0 [] a
       | HELLO_REPLY \<Rightarrow> Inr (handle_hello_reply s sg a now)
       | SHARE_CODE \<Rightarrow> handle_share_code s (received (conn s) (message sg t n body))
       | FILE_REQ \<Rightarrow> handle_file_req s (received (conn s) (message sg t n body))
       | DOWNLOAD_START \<Rightarrow> handle_download_start s
       | PACK_ACK \<Rightarrow> handle_pack_ack s (received (conn s) (message sg t n body))
       | RETRAN \<Rightarrow> handle_retran s (received (conn s) (message sg t n body))
       | FINISH \<Rightarrow> handle_finish s
       | ERROR_FORMAT \<Rightarrow> Inr (closeSelf s)
       | ERROR_LIMIT \<Rightarrow> Inr (closeSelf s)
       | _ \<Rightarrow> Inr s)"
    unfolding shareFileMsgHandle_eq [OF v] m(1,2) using m(3) [OF assms(2)]
    by (simp split: MessageType.split)
  show "k \<le> length body \<Longrightarrow>
      peek (received (conn s) (message sg t n body)) sizeof_Header k = Inr (take k body)"
  proof -
    assume k: "k \<le> length body"
    then have "sizeof_Header + k \<le> kBufferSize" using assms(3) by (simp add: sizeof_Header_def kBufferSize_def)
    from view_peek [OF v this] m(4) [of 0 k] k show ?thesis by (simp add: slice_def)
  qed
qed

lemma share_code_msg:
  assumes s: "send_inv s f" and st: "state s = WAIT_CODE" and sg: "known_sign sg"
  shows "\<exists>t. send_step (Msg (Recv (message sg SHARE_CODE n (u32_bytes c)) a) now) s = Inr t \<and> send_inv t f \<and>
    state t = WAIT_RECVER \<and> code t = c \<and> heartBeat t = Some (serveraddr s, kServerSign) \<and>
    actions t = actions s @ [Move_Pend_Conn (sock s) c] \<and> repeattimers t = repeattimers s \<and>
    serveraddr t = serveraddr s \<and> sent (conn t) = sent (conn s) \<and> same_stream s t"
proof -
  let ?d = "message sg SHARE_CODE n (u32_bytes c)"
  have len: "length ?d \<le> kBufferSize" by (simp add: sizeof_Header_def kBufferSize_def)
  have u: "udp_inv (conn s)" using s by (simp add: send_inv_def same_stream_def)
  note f = fields [OF s sg, where body = "u32_bytes c" and t = SHARE_CODE and n = n]
  have pk: "peek (received (conn s) ?d) sizeof_Header sizeof_ShareCode = Inr (u32_bytes c)"
    using f(2) [where k = 4] by (simp add: sizeof_defs)
  show ?thesis
    using s f(1) [where a = a and now = now] st view_udp_inv [OF received_msg_view [OF u len]]
    by (simp del: send_step.simps add: message_step [OF s len] handle_share_code_def pk act_def Let_def send_inv_def same_stream_def)
qed

lemma file_req_msg:
  assumes s: "send_inv s f" and st: "state s = WAIT_RECVER" and sg: "known_sign sg" and p: "wf_sockaddr p"
  shows "\<exists>t. send_step (Msg (Recv (message sg FILE_REQ n (sockaddr_bytes p)) a) now) s = Inr t \<and> send_inv t f \<and>
    state t = CONN_RECVER \<and> code t = code s \<and> recveraddr t = p \<and> heartBeat t = heartBeat s \<and>
    actions t = actions s \<and> repeattimers t = repeattimers s @ [(p, kClientSign)] \<and>
    serveraddr t = serveraddr s \<and> sent (conn t) = sent (conn s) @ [(message kClientSign HELLO 0 [], p)] \<and> same_stream s t"
proof -
  let ?d = "message sg FILE_REQ n (sockaddr_bytes p)"
  have lp: "length (sockaddr_bytes p) = 16" using sockaddr.length_enc [OF p] by (simp add: sizeof_defs)
  have len: "length ?d \<le> kBufferSize" using lp by (simp add: sizeof_Header_def kBufferSize_def)
  have u: "udp_inv (conn s)" using s by (simp add: send_inv_def same_stream_def)
  have l: "length (sockaddr_bytes p) \<le> 1000" using lp by simp
  note f = fields [OF s sg l, where t = FILE_REQ and n = n]
  have pk: "peek (received (conn s) ?d) sizeof_Header sizeof_PeerAddr = Inr (sockaddr_bytes p)"
    using f(2) [where k = 16] lp by (simp add: sizeof_defs)
  have b: "bound (conn (s\<lparr>recveraddr := p\<rparr>))" using s by (simp add: send_inv_def same_stream_def)
  have q: "sockaddr_of (sockaddr_bytes p) = p" by (rule sockaddr.dec_enc [OF p])
  show ?thesis
    using s f(1) [where a = a and now = now] st view_udp_inv [OF received_msg_view [OF u len]]
      send_to_ok [OF b, of "[]" kClientSign HELLO 0 p]
    by (simp del: send_step.simps add: message_step [OF s len] handle_file_req_def pk q Let_def send_inv_def same_stream_def)
qed

lemma hello_reply_msg:
  assumes s: "send_inv s f" and st: "state s = CONN_RECVER" and p: "p = recveraddr s" "p \<noteq> serveraddr s"
  shows "\<exists>t. send_step (Msg (Recv (message kClientSign HELLO_REPLY n []) p) now) s = Inr t \<and> send_inv t f \<and>
    state t = SEND_FILE \<and> code t = code s \<and> recveraddr t = p \<and> heartBeat t = heartBeat s \<and>
    actions t = actions s \<and> repeattimers t = repeattimers s \<and> lastPeerHelloTime t = now \<and>
    sent (conn t) = sent (conn s) \<and> same_stream s t"
proof -
  let ?d = "message kClientSign HELLO_REPLY n []"
  have len: "length ?d \<le> kBufferSize" by (simp add: sizeof_Header_def kBufferSize_def)
  have u: "udp_inv (conn s)" using s by (simp add: send_inv_def same_stream_def)
  note f = fields [OF s, where sg = kClientSign and body = "[]" and t = HELLO_REPLY and n = n]
  show ?thesis
    using s f(1) [where a = p and now = now] st p view_udp_inv [OF received_msg_view [OF u len]]
    by (simp del: send_step.simps add: message_step [OF s len] handle_hello_reply_def Let_def send_inv_def same_stream_def)
qed

text \<open>
  C32. The handshake: a code, the receiver's address and the receiver's \<open>HELLO_REPLY\<close> take a waiting
  connection to \<open>SEND_FILE\<close>. It has sent one \<open>HELLO\<close> to that receiver, asked the client to file it
  under the code, and beats to the server and to the receiver. Nothing in it depends on who sent
  the code or the receiver's address: \<open>a\<close> and \<open>a'\<close> are arbitrary.
\<close>

theorem sender_handshake:
  assumes s: "send_inv s f" and st: "state s = WAIT_CODE" and p: "wf_sockaddr p" "p \<noteq> serveraddr s"
    and sg: "known_sign sg" "known_sign sg'"
  shows "\<exists>t. foldE send_step
      [Msg (Recv (message sg SHARE_CODE n (u32_bytes c)) a) t1,
       Msg (Recv (message sg' FILE_REQ n' (sockaddr_bytes p)) a') t2,
       Msg (Recv (message kClientSign HELLO_REPLY n'' []) p) t3] s = Inr t \<and>
    send_inv t f \<and> state t = SEND_FILE \<and> code t = c \<and> recveraddr t = p \<and> lastPeerHelloTime t = t3 \<and>
    heartBeat t = Some (serveraddr s, kServerSign) \<and>
    repeattimers t = repeattimers s @ [(p, kClientSign)] \<and>
    actions t = actions s @ [Move_Pend_Conn (sock s) c] \<and>
    sent (conn t) = sent (conn s) @ [(message kClientSign HELLO 0 [], p)]"
proof -
  from share_code_msg [OF s st sg(1), of n c a t1] obtain s1 where
    1: "send_step (Msg (Recv (message sg SHARE_CODE n (u32_bytes c)) a) t1) s = Inr s1" "send_inv s1 f"
      "state s1 = WAIT_RECVER" "code s1 = c" "heartBeat s1 = Some (serveraddr s, kServerSign)"
      "actions s1 = actions s @ [Move_Pend_Conn (sock s) c]" "repeattimers s1 = repeattimers s"
      "serveraddr s1 = serveraddr s" "sent (conn s1) = sent (conn s)" by blast
  from file_req_msg [OF 1(2,3) sg(2) p(1), of n' a' t2] obtain s2 where
    2: "send_step (Msg (Recv (message sg' FILE_REQ n' (sockaddr_bytes p)) a') t2) s1 = Inr s2" "send_inv s2 f"
      "state s2 = CONN_RECVER" "code s2 = code s1" "recveraddr s2 = p" "heartBeat s2 = heartBeat s1"
      "actions s2 = actions s1" "repeattimers s2 = repeattimers s1 @ [(p, kClientSign)]"
      "serveraddr s2 = serveraddr s1" "sent (conn s2) = sent (conn s1) @ [(message kClientSign HELLO 0 [], p)]"
    by blast
  have "p = recveraddr s2" "p \<noteq> serveraddr s2" using 1(8) 2(5,9) p(2) by simp_all
  from hello_reply_msg [OF 2(2,3) this, of n'' t3] obtain s3 where
    3: "send_step (Msg (Recv (message kClientSign HELLO_REPLY n'' []) p) t3) s2 = Inr s3" "send_inv s3 f"
      "state s3 = SEND_FILE" "code s3 = code s2" "recveraddr s3 = p" "heartBeat s3 = heartBeat s2"
      "actions s3 = actions s2" "repeattimers s3 = repeattimers s2" "lastPeerHelloTime s3 = t3"
      "sent (conn s3) = sent (conn s2)" by blast
  show ?thesis using 1 2 3 by (simp del: send_step.simps)
qed

theorem sender_handshake_witness:
  "\<exists>t. foldE send_step
      [Msg (Recv (message kClientSign SHARE_CODE 4 (u32_bytes 9)) peer_a) 1,
       Msg (Recv (message kClientSign FILE_REQ 16 (sockaddr_bytes peer_a)) peer_a) 2,
       Msg (Recv (message kClientSign HELLO_REPLY 0 []) peer_a) 3] waiting = Inr t \<and> state t = SEND_FILE \<and> code t = 9"
proof -
  have s: "state waiting = WAIT_CODE" "wf_sockaddr peer_a" "peer_a \<noteq> serveraddr waiting"
    by (simp_all add: waiting_def sender0_def peers_wf)
  from sender_handshake [OF demo_inv(1) s known_signs(2,2), of 4 9 peer_a 1 16 peer_a 2 0 3]
  show ?thesis by blast
qed

section \<open>Retransmission requests\<close>

lemma retran_count_message:
  assumes u: "udp_inv u" and len: "length (message sg RETRAN n (u32_bytes k @ rest)) \<le> kBufferSize"
  shows "retran_count (received u (message sg RETRAN n (u32_bytes k @ rest))) = unat k"
  using received_message(4) [OF u len, of 0 4]
  by (simp add: retran_count_def slice_def sizeof_Header_def)

text \<open>
  A retransmission request is believed about its own length: it makes the sender read
  past its receive buffer exactly when it claims more than 16381 pieces, whatever it contains.
\<close>

theorem retran_count_unchecked:
  assumes s: "send_inv s f" and st: "state s = SEND_FILE" and sg: "known_sign sg"
    and len: "length (message sg RETRAN n (u32_bytes k @ rest)) \<le> kBufferSize"
  shows "send_step (Msg (Recv (message sg RETRAN n (u32_bytes k @ rest)) a) now) s = Inl Out_Of_Bounds \<longleftrightarrow>
    16381 < unat k"
proof -
  let ?d = "message sg RETRAN n (u32_bytes k @ rest)"
  have u: "udp_inv (conn s)" using s by (simp add: send_inv_def)
  have ok: "event_ok (Msg (Recv ?d a) now)" using len by (simp add: event_ok_def)
  have "stops s (Msg (Recv ?d a) now) \<longleftrightarrow> 16381 < unat k"
    using st received_message(2,3) [OF u len] sg
    by (auto simp: stops_def overlong_def seen_def retran_count_message [OF u len] kBufferSize_def)
  with send_step_ok [OF s ok] show ?thesis by (auto simp del: send_step.simps split: if_splits)
qed

theorem retran_count_unchecked_witness:
  "send_step (Msg (Recv (message kClientSign RETRAN 4 (u32_bytes 20000 @ [])) peer_b) 1) sending = Inl Out_Of_Bounds"
proof -
  have "length (message kClientSign RETRAN 4 (u32_bytes 20000 @ [])) \<le> kBufferSize"
    by (simp add: sizeof_Header_def kBufferSize_def)
  moreover have "state sending = SEND_FILE" by (simp add: sending_def)
  ultimately show ?thesis
    using retran_count_unchecked [OF demo_inv(2), of kClientSign 4 20000 "[]" peer_b 1] by simp
qed

text \<open>The loop runs the functor that the last retransmitted piece left in its queue.\<close>

primrec run_loss :: "nat \<Rightarrow> send_conn \<Rightarrow> send_conn outcome" where
  "run_loss 0 s = Inr s"
| "run_loss (Suc n) s =
     (case last (actions s) of
        Queue_Loss ps \<Rightarrow> bindE (send_step (Run_Loss ps) s) (run_loss n)
      | _ \<Rightarrow> Inr s)"

lemma run_loss_spec:
  assumes "send_inv s f" and "actions s = as @ [Queue_Loss ps]" and "unat (sendWindow s) + length ps \<le> 30"
  shows "\<exists>t. run_loss (length ps) s = Inr t \<and> send_inv t f \<and>
    sent (conn t) = sent (conn s) @ map (\<lambda>k. (piece_msg f k, recveraddr s)) (rev ps)"
  using assms
proof (induction ps arbitrary: s as rule: rev_induct)
  case Nil
  then show ?case by simp
next
  case (snoc k ps)
  from sendLossPieces_ok [OF snoc.prems(1), of "ps @ [k]"] snoc.prems(3) obtain s1 where
    1: "sendLossPieces s (ps @ [k]) = Inr s1" "send_inv s1 f"
      "sent (conn s1) = sent (conn s) @ [(piece_msg f k, recveraddr s)]" "recveraddr s1 = recveraddr s"
      "actions s1 = actions s @ [Queue_Loss ps]" "unat (sendWindow s1) = Suc (unat (sendWindow s))"
    by (auto simp: sends_only_def)
  have w: "unat (sendWindow s1) + length ps \<le> 30" using 1(6) snoc.prems(3) by simp
  from snoc.IH [OF 1(2,5) w] 1 snoc.prems(2) show ?case by simp
qed

text \<open>A retransmitted piece leaves the position of the stream alone, and after the first piece of the file the stream is good again.\<close>

lemma getPieceOf_curPiece: "getPieceOf m num = Inr (b, m') \<Longrightarrow> Send_File.curPiece m' = Send_File.curPiece m"
  by (auto simp: getPieceOf_def Let_def outcome_simps)

lemma loss_manager:
  assumes s: "send_inv s f" "sendManager s = Some m" and ps: "ps \<noteq> []" "\<not> 30 \<le> unat (sendWindow s)"
    and run: "sendLossPieces s ps = Inr s'"
  shows "\<exists>m'. sendManager s' = Some m' \<and> Send_File.curPiece m' = Send_File.curPiece m \<and> isWindowFull s' = isWindowFull s \<and>
    (last ps = 0 \<longrightarrow> 1024 \<le> length f \<longrightarrow> Send_File.isGood m')"
proof -
  have m: "sends m f" "length f \<le> 2 ^ 32" "Send_File.isOpen m"
    using s by (auto simp: send_inv_def manager_ok_def sends_def Send_File.isOpen_def)
  have ix: "ps ! (length ps - 1) = last ps" using ps(1) by (simp add: last_conv_nth)
  from run obtain b m' s1 where r: "getPieceOf m (last ps) = Inr (b, m')" "sendPiece s m' (last ps) b = Inr s1"
    "s' = act s1 (Queue_Loss (take (length ps - 1) ps))"
    using ps s(2) ix m(3) by (auto simp: sendLossPieces_def Let_def outcome_simps window_limit split: if_splits)
  have "sendManager s1 = Some m' \<and> isWindowFull s1 = isWindowFull s"
    using r(2) by (auto simp: sendPiece_def send_to_def outcome_simps)
  moreover have "Send_File.isGood m'" if "last ps = 0" "1024 \<le> length f"
    using getPieceOf_spec [OF m(1) _ m(2), of 0] that r(1) by (cases f) (auto simp: Send_File.isGood_def)
  ultimately show ?thesis using getPieceOf_curPiece [OF r(1)] r(3) by (auto simp: act_def)
qed

text \<open>A request for \<open>n\<close> pieces: the last of them is sent at once, the others and \<open>n\<close> times the first piece of the file are left to a functor.\<close>

lemma retran_taken:
  assumes s: "send_inv s f" and st: "state s = SEND_FILE" and sg: "known_sign sg"
    and ps: "ps \<noteq> []" "unat (sendWindow s) + 2 * length ps \<le> 30"
  shows "\<exists>s1. send_step (Msg (Recv (message sg RETRAN n (u32_bytes (of_nat (length ps)) @ concat (map u32_bytes ps))) a) now) s = Inr s1 \<and>
    send_inv s1 f \<and> sent (conn s1) = sent (conn s) @ [(piece_msg f (last ps), recveraddr s)] \<and> recveraddr s1 = recveraddr s \<and>
    actions s1 = actions s @ [Queue_Loss (replicate (length ps) 0 @ butlast ps)] \<and> unat (sendWindow s1) = Suc (unat (sendWindow s)) \<and>
    state s1 = state s \<and> (\<exists>s'. sendLossPieces s (replicate (length ps) 0 @ ps) = Inr s' \<and> sendManager s1 = sendManager s')"
proof -
  let ?c = "of_nat (length ps) :: u32"
  let ?body = "u32_bytes ?c @ concat (map u32_bytes ps)"
  let ?d = "message sg RETRAN n ?body"
  let ?b = "received (conn s) ?d"
  have cat: "length (concat (map u32_bytes ps)) = 4 * length ps" by (induction ps) simp_all
  have n: "length ps \<le> 15" using ps by simp
  then have c: "unat ?c = length ps" by (simp add: unat_of_nat)
  have len: "length ?d \<le> kBufferSize" using n cat by (simp add: sizeof_Header_def kBufferSize_def)
  have l: "length ?body \<le> 1000" using n cat by simp
  have u: "udp_inv (conn s)" using s by (simp add: send_inv_def)
  note v = received_msg_view [OF u len]
  have pk: "peek ?b sizeof_Header sizeof_RetransPieces = Inr (u32_bytes ?c)"
    using fields(2) [OF s sg l, where t = RETRAN and n = n and k = 4] by (simp add: sizeof_defs)
  have dr: "drop (sizeof_Header + sizeof_RetransPieces) ?d = concat (map u32_bytes ps) @ []"
    by (simp add: message_def sizeof_defs)
  have rp: "read_pieces ?b (sizeof_Header + sizeof_RetransPieces) (length ps) = Inr ps"
    by (rule read_pieces_list [OF u len dr])
  let ?qs = "replicate (length ps) 0 @ ps"
  have pos: "0 < length ps" using ps(1) by (rule length_greater_0_conv [THEN iffD2])
  have ne: "ps \<noteq> []" "\<not> 30 \<le> unat (sendWindow s)" using ps pos by (linarith | simp)+
  from sendLossPieces_ok [OF s, of ?qs] ne obtain s' where
    1: "sendLossPieces s ?qs = Inr s'" "send_inv s' f"
      "sent (conn s') = sent (conn s) @ [(piece_msg f (last ps), recveraddr s)]" "recveraddr s' = recveraddr s"
      "actions s' = actions s @ [Queue_Loss (replicate (length ps) 0 @ butlast ps)]"
      "unat (sendWindow s') = Suc (unat (sendWindow s))" "state s' = state s"
    by (auto simp: sends_only_def butlast_append)
  let ?s1 = "s'\<lparr>conn := (conn s')\<lparr>tmpbuf := retrieveAll ?b\<rparr>\<rparr>"
  have step: "send_step (Msg (Recv ?d a) now) s = Inr ?s1"
    using fields(1) [OF s sg l, where t = RETRAN and n = n and a = a and now = now] st pk rp 1(1) c
    by (simp del: send_step.simps add: message_step [OF s len] handle_retran_def Let_def)
  have i: "send_inv ?s1 f" using 1(2) view_udp_inv [OF v] by (simp add: send_inv_def)
  with step 1 i show ?thesis by (intro exI [of _ ?s1]) simp
qed

text \<open>
  \<open>pieces.resize(nums)\<close> before the pieces are pushed: a request for \<open>n\<close> pieces is answered, once the
  loop has run the functors it leaves behind, with the pieces asked for and then \<open>n\<close> times with
  the first piece of the file, which nobody asked for.
\<close>

theorem retran_repeats_first_piece:
  assumes s: "send_inv s f" and st: "state s = SEND_FILE" and sg: "known_sign sg"
    and ps: "ps \<noteq> []" "unat (sendWindow s) + 2 * length ps \<le> 30"
  shows "\<exists>s1 t. send_step (Msg (Recv (message sg RETRAN n (u32_bytes (of_nat (length ps)) @ concat (map u32_bytes ps))) a) now) s
        = Inr s1 \<and>
    run_loss (2 * length ps - 1) s1 = Inr t \<and> send_inv t f \<and>
    sent (conn t) = sent (conn s) @
      map (\<lambda>k. (piece_msg f k, recveraddr s)) (rev ps @ replicate (length ps) 0)"
proof -
  from retran_taken [OF assms, of n a now] obtain s1 where 1:
    "send_step (Msg (Recv (message sg RETRAN n (u32_bytes (of_nat (length ps)) @ concat (map u32_bytes ps))) a) now) s = Inr s1"
    "send_inv s1 f" "sent (conn s1) = sent (conn s) @ [(piece_msg f (last ps), recveraddr s)]" "recveraddr s1 = recveraddr s"
    "actions s1 = actions s @ [Queue_Loss (replicate (length ps) 0 @ butlast ps)]" "unat (sendWindow s1) = Suc (unat (sendWindow s))"
    by blast
  have pos: "0 < length ps" using ps(1) by (rule length_greater_0_conv [THEN iffD2])
  have w: "unat (sendWindow s1) + length (replicate (length ps) (0 :: u32) @ butlast ps) \<le> 30"
    using 1(6) ps(2) pos by (simp del: length_greater_0_conv)
  from run_loss_spec [OF 1(2,5) w] obtain t where t: "run_loss (length ps + (length ps - 1)) s1 = Inr t" "send_inv t f"
    "sent (conn t) = sent (conn s) @ [(piece_msg f (last ps), recveraddr s)] @
       map (\<lambda>k. (piece_msg f k, recveraddr s)) (rev (butlast ps) @ replicate (length ps) 0)"
    using 1(3,4) by auto
  have rv: "rev ps = last ps # rev (butlast ps)" using ps(1) by (metis append_butlast_last_id rev.simps(2) rev_rev_ident rev_append rev_singleton_conv append_Cons append_Nil)
  have k: "length ps + (length ps - 1) = 2 * length ps - 1" using pos by simp
  have "sent (conn t) = sent (conn s) @
      map (\<lambda>k. (piece_msg f k, recveraddr s)) (rev ps @ replicate (length ps) 0)"
    unfolding t(3) rv by simp
  with 1(1) t(1,2) show ?thesis unfolding k by blast
qed

theorem retran_repeats_first_piece_witness:
  "\<exists>s1 t. send_step (Msg (Recv (message kClientSign RETRAN 8
        (u32_bytes (of_nat (length [1 :: u32])) @ concat (map u32_bytes [1]))) peer_a) 1) sending = Inr s1 \<and>
     run_loss (2 * length [1 :: u32] - 1) s1 = Inr t \<and>
     sent (conn t) = map (\<lambda>k. (piece_msg demo_content k, peer_a)) [1, 0]"
proof -
  have st: "state sending = SEND_FILE" "[1 :: u32] \<noteq> []" "unat (sendWindow sending) + 2 * length [1 :: u32] \<le> 30"
    by (simp_all add: sending_def waiting_def sender0_def)
  have fr: "sent (conn sending) = []" "recveraddr sending = peer_a"
    by (simp_all add: sending_def waiting_def sender0_def socket0_inv)
  from retran_repeats_first_piece [OF demo_inv(2) st(1) known_signs(2) st(2,3), of 8 peer_a 1] obtain s1 t where
    r: "send_step (Msg (Recv (message kClientSign RETRAN 8
        (u32_bytes (of_nat (length [1 :: u32])) @ concat (map u32_bytes [1]))) peer_a) 1) sending = Inr s1"
      "run_loss (2 * length [1 :: u32] - 1) s1 = Inr t"
      "sent (conn t) = sent (conn sending) @
        map (\<lambda>k. (piece_msg demo_content k, recveraddr sending)) (rev [1] @ replicate (length [1 :: u32]) 0)"
    by blast
  have "sent (conn t) = map (\<lambda>k. (piece_msg demo_content k, peer_a)) [1, 0]" using r(3) fr by simp
  with r(1,2) show ?thesis by blast
qed

section \<open>Streaming\<close>

lemma stream_one:
  assumes s: "send_inv s f" and m: "sendManager s = Some m" "streaming m f c"
    and w: "unat (sendWindow s) < 30" and c: "c < piece_count f"
  shows "\<exists>t. send_step Run_Stream s = Inr t \<and> send_inv t f \<and> recveraddr t = recveraddr s \<and>
    sent (conn t) = sent (conn s) @ [(piece_msg f (of_nat c), recveraddr s)] \<and>
    unat (sendWindow t) = Suc (unat (sendWindow s)) \<and> actions t = actions s @ [Queue_Stream] \<and>
    state t = state s \<and> isWindowFull t = isWindowFull s \<and>
    (1024 * Suc c \<le> length f \<longrightarrow> (\<exists>m'. sendManager t = Some m' \<and> streaming m' f (Suc c)))"
proof -
  have g: "Send_File.isGood m" and cp: "Send_File.curPiece m = of_nat c"
    using m(2) by (auto simp: streaming_def Send_File.isGood_def)
  from streaming_next [OF m(2)] c obtain b m' where
    1: "getNextPiece m = Inr (b, m')" "1024 * Suc c \<le> length f \<longrightarrow> streaming m' f (Suc c)"
    unfolding piece_count_iff by (auto split: if_splits)
  from sendFileStream_good [OF s m(1) g w] 1 show ?thesis by (auto simp: sends_only_def cp)
qed

lemma stream_run:
  assumes "send_inv s f" and "sendManager s = Some m" and "streaming m f c"
    and "unat (sendWindow s) + n \<le> 30" and "c + n \<le> piece_count f"
  shows "\<exists>t. foldE send_step (replicate n Run_Stream) s = Inr t \<and> send_inv t f \<and>
    unat (sendWindow t) = unat (sendWindow s) + n \<and> recveraddr t = recveraddr s \<and> state t = state s \<and>
    isWindowFull t = isWindowFull s \<and>
    (1024 * (c + n) \<le> length f \<longrightarrow> (\<exists>m'. sendManager t = Some m' \<and> streaming m' f (c + n))) \<and>
    sent (conn t) = sent (conn s) @ map (\<lambda>k. (piece_msg f (of_nat k), recveraddr s)) [c ..< c + n]"
  using assms
proof (induction n arbitrary: s m c)
  case 0
  then show ?case by auto
next
  case (Suc n)
  have w: "unat (sendWindow s) < 30" and c: "c < piece_count f" using Suc.prems(4,5) by simp_all
  from stream_one [OF Suc.prems(1-3) w c] obtain s1 where
    1: "send_step Run_Stream s = Inr s1" "send_inv s1 f" "recveraddr s1 = recveraddr s"
      "sent (conn s1) = sent (conn s) @ [(piece_msg f (of_nat c), recveraddr s)]"
      "unat (sendWindow s1) = Suc (unat (sendWindow s))" "state s1 = state s" "isWindowFull s1 = isWindowFull s"
      "1024 * Suc c \<le> length f \<longrightarrow> (\<exists>m'. sendManager s1 = Some m' \<and> streaming m' f (Suc c))" by blast
  show ?case
  proof (cases n)
    case 0
    with 1 show ?thesis by (auto simp del: send_step.simps)
  next
    case (Suc n')
    then have "Suc c < piece_count f" using Suc.prems(5) by simp
    then have "1024 * Suc c \<le> length f" by (simp add: piece_count_iff)
    with 1(8) obtain m' where m': "sendManager s1 = Some m'" "streaming m' f (Suc c)" by blast
    have "unat (sendWindow s1) + n \<le> 30" "Suc c + n \<le> piece_count f" using Suc.prems(4,5) 1(5) by simp_all
    from Suc.IH [OF 1(2) m' this] obtain t where
      t: "foldE send_step (replicate n Run_Stream) s1 = Inr t" "send_inv t f"
        "unat (sendWindow t) = unat (sendWindow s1) + n" "recveraddr t = recveraddr s1" "state t = state s1"
        "isWindowFull t = isWindowFull s1"
        "1024 * (Suc c + n) \<le> length f \<longrightarrow> (\<exists>m'. sendManager t = Some m' \<and> streaming m' f (Suc c + n))"
        "sent (conn t) = sent (conn s1) @ map (\<lambda>k. (piece_msg f (of_nat k), recveraddr s1)) [Suc c ..< Suc c + n]"
      by blast
    have "[c ..< c + Suc n] = c # [Suc c ..< Suc c + n]" by (simp add: upt_rec)
    then have "sent (conn t) = sent (conn s) @ map (\<lambda>k. (piece_msg f (of_nat k), recveraddr s)) [c ..< c + Suc n]"
      using t(8) 1(3,4) by simp
    with t 1 show ?thesis by (simp del: send_step.simps)
  qed
qed

text \<open>
  Streaming: run by run the functor of the stream sends the next pieces of the file, in
  order and without a gap, as long as the window has room and the file has pieces.
\<close>

theorem stream_in_order:
  assumes "send_inv s f" and "sendManager s = Some m" and "streaming m f c"
    and "unat (sendWindow s) + n \<le> 30" and "c + n \<le> piece_count f"
  shows "\<exists>t. foldE send_step (replicate n Run_Stream) s = Inr t \<and> send_inv t f \<and>
    unat (sendWindow t) = unat (sendWindow s) + n \<and>
    sent (conn t) = sent (conn s) @ map (\<lambda>k. (piece_msg f (of_nat k), recveraddr s)) [c ..< c + n]"
  using stream_run [OF assms] by blast

theorem stream_in_order_witness:
  "\<exists>t. foldE send_step (replicate 2 Run_Stream) sending = Inr t \<and>
     sent (conn t) = map (\<lambda>k. (piece_msg demo_content (of_nat k), peer_a)) [0 ..< 0 + 2]"
proof -
  have m: "sendManager sending = Some opened_sender" "unat (sendWindow sending) + 2 \<le> 30" "0 + 2 \<le> piece_count demo_content"
    by (simp_all add: sending_def waiting_def sender0_def demo_sizes)
  have fr: "sent (conn sending) = []" "recveraddr sending = peer_a"
    by (simp_all add: sending_def waiting_def sender0_def socket0_inv)
  from stream_in_order [OF demo_inv(2) m(1) opened_streaming m(2,3)] show ?thesis
    unfolding fr by auto
qed

section \<open>Binding\<close>

text \<open>
  The constructor's loop binds the first random port again and again, since \<open>bindPort\<close>
  ignores its argument: it never returns exactly when every \<open>bind\<close> of that one port fails,
  however many other ports are free.
\<close>

theorem constructor_may_hang:
  assumes "0 \<le> sockfd"
  shows "new_SendConnManager sockfd ports os server uninit = Inl Diverge \<longleftrightarrow> (\<forall>k. os k (ports 0) < 0)"
proof -
  from new_UdpCom_ok [OF assms, of "ports 0" "os 0"] obtain u where
    u: "new_UdpCom sockfd (ports 0) (os 0) = Inr u" "port u = ports 0" "bound u = (0 \<le> os 0 (ports 0))" by blast
  have "bind_loop ports os 1 u = None \<longleftrightarrow> (\<forall>k. os k (ports 0) < 0)"
  proof
    assume none: "bind_loop ports os 1 u = None"
    show "\<forall>k. os k (ports 0) < 0"
    proof (rule allI, rule ccontr)
      fix k assume k: "\<not> os k (ports 0) < 0"
      show False
      proof (cases k)
        case 0
        then have "bound u" using k u(3) by simp
        then show False using none by (simp add: bind_loop.simps)
      next
        case (Suc j)
        then have "0 \<le> os (1 + j) (port u)" using k u(2) by simp
        from bind_loop_binds [where os = os and n = 1 and k = j and u = u, OF this, of ports] none show False by simp
      qed
    qed
  next
    assume "\<forall>k. os k (ports 0) < 0"
    then show "bind_loop ports os 1 u = None"
      using bind_loop_returns [of ports os 1 u] u(2,3) by (cases "bind_loop ports os 1 u") (auto simp: not_le [symmetric])
  qed
  with u(1) show ?thesis by (auto simp: new_SendConnManager_def split: option.splits)
qed

theorem constructor_may_hang_witness:
  "new_SendConnManager 5 (\<lambda>k. of_nat (10000 + k)) (\<lambda>k p. if p = 10000 then -1 else 0) peer_a peer_b = Inl Diverge"
  using constructor_may_hang [of 5 "\<lambda>k. of_nat (10000 + k)" "\<lambda>k p. if p = 10000 then -1 else 0" peer_a peer_b] by simp


end
