(* ===== verification/Get_Conn.thy ===== *)
theory Get_Conn
  imports Get_File Conn_Manager
begin

text \<open>
  \<open>client/GetConnManager\<close>: one download, from the request to the end of the transfer. As for
  the sender, what the manager asks of the client is collected in \<open>actions\<close>, and its timers
  are the data of their callbacks.
\<close>

section \<open>State\<close>

datatype ConnState = IDLE | WAIT_CODE | WAIT_SENDER | CONN_SENDER | RECV_FILE

datatype action = Close_Get_Conn u32

datatype repeat_timer = Hold_Conn sockaddr u8 | Send_Retran_Req

record get_conn =
  conn :: udp
  state :: ConnState
  code :: u32
  conn_fileData :: FileData
  serveraddr :: sockaddr
  recveraddr :: sockaddr
  repeattimers :: "repeat_timer list"
  getManager :: "get_file option"
  recvWindow :: u32
  lastServerHelloTime :: timestamp
  lastPeerHelloTime :: timestamp
  lastDataStreamTime :: timestamp
  hasCallback :: bool
  actions :: "action list"

definition new_GetConnManager ::
  "int \<Rightarrow> (nat \<Rightarrow> u16) \<Rightarrow> (nat \<Rightarrow> u16 \<Rightarrow> int) \<Rightarrow> sockaddr \<Rightarrow> sockaddr \<Rightarrow> FileData \<Rightarrow> get_conn outcome" where
  "new_GetConnManager sockfd ports os server uninit_addr uninit_data =
     bindE (new_UdpCom sockfd (ports 0) (os 0)) (\<lambda>u.
       case bind_loop ports os 1 u of
         None \<Rightarrow> Inl Diverge
       | Some u \<Rightarrow> Inr \<lparr>conn = u, state = IDLE, code = 0, conn_fileData = uninit_data, serveraddr = server,
           recveraddr = uninit_addr, repeattimers = [], getManager = None, recvWindow = 0,
           lastServerHelloTime = invalid, lastPeerHelloTime = invalid, lastDataStreamTime = invalid,
           hasCallback = False, actions = []\<rparr>)"

section \<open>Sending\<close>

definition act :: "get_conn \<Rightarrow> action \<Rightarrow> get_conn" where
  "act g a = g\<lparr>actions := actions g @ [a]\<rparr>"

definition send_to ::
  "get_conn \<Rightarrow> u8 \<Rightarrow> MessageType \<Rightarrow> nat \<Rightarrow> bytes list \<Rightarrow> sockaddr \<Rightarrow> get_conn outcome" where
  "send_to g sg t len parts a =
     bindE (msg_buffer sg t len parts) (\<lambda>b. bindE (send (conn g) b a) (\<lambda>u. Inr (g\<lparr>conn := u\<rparr>)))"

definition closeSelf :: "get_conn \<Rightarrow> get_conn" where
  "closeSelf g = (if code g \<noteq> 0 then act g (Close_Get_Conn (code g)) else g)"

definition closeAllTimer :: "get_conn \<Rightarrow> get_conn" where
  "closeAllTimer g = g\<lparr>repeattimers := []\<rparr>"

definition getFile :: "get_conn \<Rightarrow> u32 \<Rightarrow> get_conn outcome" where
  "getFile g c =
     require (state g = IDLE) (require (bound (conn g))
     (bindE (send_to (g\<lparr>code := c, hasCallback := True\<rparr>) kServerSign GET_FILE sizeof_ShareCode
               [u32_bytes c] (serveraddr g)) (\<lambda>g1.
      Inr (g1\<lparr>state := WAIT_SENDER\<rparr>))))"

definition chatMsg :: "get_conn \<Rightarrow> buffer \<Rightarrow> get_conn outcome" where
  "chatMsg g msg =
     bindE (prepend msg (header_bytes \<lparr>sign = kClientSign, mtype = type_code CHAT,
              dataLenth = of_nat (readableBytes msg)\<rparr>)) (\<lambda>msg.
     bindE (send (conn g) msg (recveraddr g)) (\<lambda>u. Inr (g\<lparr>conn := u\<rparr>)))"

definition sendPackAck :: "get_conn \<Rightarrow> u32 \<Rightarrow> get_conn outcome" where
  "sendPackAck g nums =
     send_to g kClientSign PACK_ACK sizeof_PackageAck [u32_bytes nums] (recveraddr g)"

definition sendRetranReq :: "get_conn \<Rightarrow> timestamp \<Rightarrow> get_conn outcome" where
  "sendRetranReq g now =
     (if state g \<noteq> RECV_FILE then Inr g
      else case getManager g of
        None \<Rightarrow> Inr g
      | Some m \<Rightarrow>
          bindE (if lastDataStreamTime g + kFileStreamTimeoutUS < now
                 then sendPackAck g (kWindowNum * kPiecesPerWindow) else Inr g) (\<lambda>g1.
          let pieces = getLossPieces m []; nums = of_nat (length pieces) :: u32
          in if length pieces = 0 then Inr g1
             else send_to g1 kClientSign RETRAN (unat (nums * 4 + of_nat sizeof_RetransPieces))
                    [u32_bytes nums, take (unat nums * 4) (concat (map u32_bytes pieces))] (recveraddr g1)))"

section \<open>Timers\<close>

definition checkPeerAlive :: "get_conn \<Rightarrow> timestamp \<Rightarrow> get_conn" where
  "checkPeerAlive g now =
     (if valid (lastPeerHelloTime g) \<and> timed_out now (lastPeerHelloTime g) kTimeoutSec
      then closeSelf g else g)"

definition holdConn :: "get_conn \<Rightarrow> sockaddr \<Rightarrow> u8 \<Rightarrow> timestamp \<Rightarrow> get_conn outcome" where
  "holdConn g a sg now = bindE (send_to g sg HELLO 0 [] a) (\<lambda>g1. Inr (checkPeerAlive g1 now))"

section \<open>Messages\<close>

text \<open>The reply of the sender starts the download, if the file can be created.\<close>

definition start_download :: "bytes \<Rightarrow> bool \<Rightarrow> get_conn \<Rightarrow> get_conn outcome" where
  "start_download curPath can_create g =
     (let m = new_GetFileManager curPath can_create (conn_fileData g) kBytesPerPiece;
          g1 = g\<lparr>getManager := Some m\<rparr>
      in if isOpen m then
           bindE (send_to (g1\<lparr>repeattimers := repeattimers g1 @ [Send_Retran_Req]\<rparr>)
                    kClientSign DOWNLOAD_START 0 [] (recveraddr g1)) (\<lambda>g2.
           Inr (g2\<lparr>state := RECV_FILE\<rparr>))
         else Inr (closeSelf g1))"

definition handle_hello_reply ::
  "bytes \<Rightarrow> bool \<Rightarrow> get_conn \<Rightarrow> u8 \<Rightarrow> sockaddr \<Rightarrow> timestamp \<Rightarrow> get_conn outcome" where
  "handle_hello_reply curPath can_create g sg a time =
     bindE (if state g = CONN_SENDER \<and> sg = kClientSign \<and> a = recveraddr g
            then start_download curPath can_create g else Inr g) (\<lambda>g1.
     Inr (if a = serveraddr g1 then g1\<lparr>lastServerHelloTime := time\<rparr>
          else if a = recveraddr g1 then g1\<lparr>lastPeerHelloTime := time\<rparr>
          else g1))"

definition handle_file_data :: "get_conn \<Rightarrow> buffer \<Rightarrow> get_conn outcome" where
  "handle_file_data g buf =
     (if state g \<noteq> WAIT_SENDER then Inr g
      else bindE (peek buf sizeof_Header sizeof_FileDataAddr) (\<lambda>d.
        let fda = filedataaddr_of d;
            g1 = g\<lparr>recveraddr := addr fda, conn_fileData := fileData fda\<rparr>
        in bindE (send_to g1 kClientSign HELLO 0 [] (recveraddr g1)) (\<lambda>g2.
           Inr (g2\<lparr>repeattimers := repeattimers g2 @ [Hold_Conn (recveraddr g2) kClientSign],
                   state := CONN_SENDER\<rparr>))))"

text \<open>
  \<open>dataStream\<close> points into the buffer; the piece number is read through it after the buffer
  has been retrieved and the acknowledgement sent.
\<close>

definition count_piece :: "get_conn \<Rightarrow> get_conn outcome" where
  "count_piece g =
     (let g1 = g\<lparr>recvWindow := recvWindow g + 1\<rparr>
      in if kPiecesPerWindow \<le> recvWindow g1
         then bindE (sendPackAck g1 (recvWindow g1)) (\<lambda>g2. Inr (g2\<lparr>recvWindow := 0\<rparr>))
         else Inr g1)"

definition handle_data_stream :: "get_conn \<Rightarrow> buffer \<Rightarrow> timestamp \<Rightarrow> (get_conn \<times> buffer) outcome" where
  "handle_data_stream g buf time =
     (if state g \<noteq> RECV_FILE then Inr (g, buf)
      else
        let g = g\<lparr>lastDataStreamTime := time\<rparr> in
        case getManager g of
          None \<Rightarrow> Inl Assert_Fail
        | Some m \<Rightarrow>
            require (isOpen m)
            (bindE (retrieve buf sizeof_Header) (\<lambda>buf1.
             bindE (retrieve buf1 sizeof_DataStream) (\<lambda>buf2.
             bindE (count_piece g) (\<lambda>g1.
             bindE (mem_read (store buf2) (readIndex buf1) 4) (\<lambda>d.
             bindE (writeToFile m buf2 (u32_of d)) (\<lambda>(ret, m1).
             let g2 = g1\<lparr>getManager := Some m1\<rparr>
             in if ret = WRITE_FINISH
                then bindE (send_to (g2\<lparr>state := IDLE\<rparr>) kClientSign FINISH 0 [] (recveraddr g2)) (\<lambda>g3.
                     Inr (closeSelf g3, buf2))
                else Inr (g2, buf2))))))))"

definition keep_buf :: "buffer \<Rightarrow> get_conn outcome \<Rightarrow> (get_conn \<times> buffer) outcome" where
  "keep_buf buf r = bindE r (\<lambda>g. Inr (g, buf))"

definition getFileMsgHandle ::
  "bytes \<Rightarrow> bool \<Rightarrow> get_conn \<Rightarrow> buffer \<Rightarrow> sockaddr \<Rightarrow> timestamp \<Rightarrow> (get_conn \<times> buffer) outcome" where
  "getFileMsgHandle curPath can_create g buf a time =
     client_frame buf (Inr (g, buf)) (\<lambda>sg t.
       case t of
         Some HELLO \<Rightarrow> keep_buf buf (send_to g sg HELLO_REPLY 0 [] a)
       | Some HELLO_REPLY \<Rightarrow> keep_buf buf (handle_hello_reply curPath can_create g sg a time)
       | Some FILE_DATA \<Rightarrow> keep_buf buf (handle_file_data g buf)
       | Some DATA_STREAM \<Rightarrow> handle_data_stream g buf time
       | Some ERROR_FORMAT \<Rightarrow> Inr (closeSelf g, buf)
       | Some ERROR_404 \<Rightarrow> Inr (closeSelf g, buf)
       | _ \<Rightarrow> Inr (g, buf))"

section \<open>Events of a connection\<close>

text \<open>\<open>Msg\<close> also says what the file system answers if this event creates the file.\<close>

datatype get_event =
    Msg recv timestamp "bytes \<times> bool"
  | Repeat_Timer nat timestamp

definition get_callback :: "bytes \<times> bool \<Rightarrow> get_conn callback" where
  "get_callback os u buf src time g =
     bindE (getFileMsgHandle (fst os) (snd os) (g\<lparr>conn := u\<rparr>) buf src time)
       (\<lambda>(g', buf'). Inr (conn g', buf', g'))"

fun get_step :: "get_event \<Rightarrow> get_conn \<Rightarrow> get_conn outcome" where
  "get_step (Msg r now os) g =
     bindE (handleRead (if hasCallback g then Some (get_callback os) else None) (conn g) r now g)
       (\<lambda>(u, g'). Inr (g'\<lparr>conn := u\<rparr>))"
| "get_step (Repeat_Timer i now) g =
     (if i < length (repeattimers g)
      then case repeattimers g ! i of
             Hold_Conn a sg \<Rightarrow> holdConn g a sg now
           | Send_Retran_Req \<Rightarrow> sendRetranReq g now
      else Inr g)"

end
