(* ===== verification/Get_Conn_Inv.thy ===== *)
theory Get_Conn_Inv
  imports Get_Conn Endpoint
begin

text \<open>
  The receiver's connection: its invariant, the states it moves through, and what stops it.
\<close>

section \<open>Writing\<close>

lemma writeToFile_returns:
  assumes "buffer_inv b"
  shows "\<exists>r. writeToFile m b k = Inr r"
proof -
  have "\<exists>d. peek b 0 (readableBytes b) = Inr d"
    using peek_contents [OF assms, of 0 "readableBytes b"] by auto
  then show ?thesis by (auto simp: writeToFile_def Let_def)
qed

lemma fill_gap_open: "isOpen (fill_gap i n g) = isOpen g"
  by (induction i n g rule: fill_gap.induct) (simp_all add: isOpen_def)

lemma put_bytes_open: "isOpen (put_bytes d g) = isOpen g"
  by (simp add: put_bytes_def isOpen_def)

lemma check_finish_open:
  "check_finish r = (ret, g) \<Longrightarrow> isOpen (snd r) \<Longrightarrow> ret \<noteq> WRITE_FINISH \<Longrightarrow> isOpen g"
  by (auto simp: check_finish_def split: if_splits prod.splits)

lemma writeToFile_open:
  assumes "writeToFile m b k = Inr (ret, m')" and "isOpen m" and "ret \<noteq> WRITE_FINISH"
  shows "isOpen m'"
proof -
  have keep: "isOpen (g\<lparr>curPiece := x\<rparr>) = isOpen g" "isOpen (g\<lparr>fileStream := seekp (fileStream g) n\<rparr>) = isOpen g"
    "isOpen (g\<lparr>fileStream := seekp (fileStream g) n, lossPieces := l\<rparr>) = isOpen g" for g x n l
    by (simp_all add: isOpen_def seekp_def)
  note c = check_finish_open [OF _ _ assms(3)]
  show ?thesis
    using assms(1,2) c
    by (auto simp: writeToFile_def Let_def bindE_eq_Inr keep fill_gap_open put_bytes_open split: if_splits)
qed

section \<open>The receive buffer of a data message\<close>

definition payload :: "buffer \<Rightarrow> buffer" where
  "payload b = b\<lparr>readIndex := kPrependSize + 8\<rparr>"

definition piece_number :: "buffer \<Rightarrow> u32" where
  "piece_number b = u32_of (slice (kPrependSize + 4) 4 (store b))"

text \<open>The buffer of a received datagram, or the one a failed receive leaves.\<close>

definition event_view :: "buffer \<Rightarrow> bool" where
  "event_view b \<longleftrightarrow> msg_view b \<and> (buffer_inv b \<or> writeIndex b = kPrependSize - 1)"

lemma seen_event_view:
  assumes "udp_inv u" and "case r of Recv d src \<Rightarrow> length d \<le> kBufferSize | _ \<Rightarrow> True"
  shows "event_view (fst (seen u r))"
proof (cases r)
  case Recv_Error
  then show ?thesis using seen_view [OF assms] assms(1)
    by (simp add: event_view_def seen_def hasWritten_def udp_inv_def kPrependSize_def add64_def sub64_def)
next
  case (Recv d src)
  then show ?thesis using seen_view [OF assms] received_props(1) [OF assms(1), of d] assms(2)
    by (simp add: event_view_def seen_def)
qed

lemma event_readable:
  assumes "event_view b"
  shows "readIndex b = kPrependSize"
    and "4 \<le> readableBytes b \<Longrightarrow> retrieve b 4 = Inr (b\<lparr>readIndex := kPrependSize + 4\<rparr>)"
    and "readableBytes b < 8 \<Longrightarrow> 4 \<le> readableBytes b \<Longrightarrow> readableBytes (b\<lparr>readIndex := kPrependSize + 4\<rparr>) < 4"
    and "8 \<le> readableBytes b \<Longrightarrow> retrieve (b\<lparr>readIndex := kPrependSize + 4\<rparr>) 4 = Inr (payload b)"
proof -
  show r: "readIndex b = kPrependSize" using assms by (simp add: event_view_def msg_view_def)
  show "4 \<le> readableBytes b \<Longrightarrow> retrieve b 4 = Inr (b\<lparr>readIndex := kPrependSize + 4\<rparr>)"
    using r by (simp add: retrieve_def kPrependSize_def)
  show "readableBytes b < 8 \<Longrightarrow> 4 \<le> readableBytes b \<Longrightarrow> readableBytes (b\<lparr>readIndex := kPrependSize + 4\<rparr>) < 4"
    "8 \<le> readableBytes b \<Longrightarrow> retrieve (b\<lparr>readIndex := kPrependSize + 4\<rparr>) 4 = Inr (payload b)"
  proof -
    have "buffer_inv b \<or> writeIndex b = 7" using assms by (auto simp: event_view_def kPrependSize_def)
    then have "(readableBytes b < 8 \<longrightarrow> 4 \<le> readableBytes b \<longrightarrow> readableBytes (b\<lparr>readIndex := kPrependSize + 4\<rparr>) < 4) \<and>
      (8 \<le> readableBytes b \<longrightarrow> retrieve (b\<lparr>readIndex := kPrependSize + 4\<rparr>) 4 = Inr (payload b))"
    proof
      assume i: "buffer_inv b"
      then have w: "writeIndex b < 2 ^ 64" "readableBytes b = writeIndex b - kPrependSize" "kPrependSize \<le> writeIndex b"
        using r by (auto simp: buffer_inv_def readableBytes_def)
      have "4 \<le> readableBytes b \<Longrightarrow> readableBytes (b\<lparr>readIndex := kPrependSize + 4\<rparr>) = readableBytes b - 4"
        using w by (simp add: readableBytes_def kPrependSize_def)
      then show ?thesis using r by (auto simp: retrieve_def payload_def kPrependSize_def)
    next
      assume w: "writeIndex b = 7"
      then have "readableBytes b = 2 ^ 64 - 1" "readableBytes (b\<lparr>readIndex := kPrependSize + 4\<rparr>) = 2 ^ 64 - 5"
        using r by (simp_all add: readableBytes_def kPrependSize_def sub64_wraps)
      then show ?thesis using r by (simp add: retrieve_def payload_def kPrependSize_def)
    qed
    then show "readableBytes b < 8 \<Longrightarrow> 4 \<le> readableBytes b \<Longrightarrow> readableBytes (b\<lparr>readIndex := kPrependSize + 4\<rparr>) < 4"
      "8 \<le> readableBytes b \<Longrightarrow> retrieve (b\<lparr>readIndex := kPrependSize + 4\<rparr>) 4 = Inr (payload b)" by blast+
  qed
qed

lemma payload_store [simp]: "store (payload b) = store b"
  by (simp add: payload_def)

lemma payload_received:
  assumes "udp_inv u" and "length d \<le> kBufferSize" and "8 \<le> length d"
  shows "buffer_inv (payload (received u d))" and "contents (payload (received u d)) = drop 8 d"
    and "piece_number (received u d) = u32_of (slice 4 4 d)"
proof -
  note p = received_props [OF assms(1,2)]
  from retrieve_spec [OF p(1), of 8] assms(3) p(5) obtain b' where
    r: "retrieve (received u d) 8 = Inr b'" "buffer_inv b'" "contents b' = drop 8 (contents (received u d))" by auto
  have "b' = payload (received u d)"
    using r(1) p(3,5) assms(3) by (simp add: retrieve_def payload_def kPrependSize_def)
  with r p(2) show "buffer_inv (payload (received u d))" "contents (payload (received u d)) = drop 8 d" by simp_all
  show "piece_number (received u d) = u32_of (slice 4 4 d)"
    using received_slice [OF assms(1,2), of 4 4] assms(3) by (simp add: piece_number_def)
qed

section \<open>Invariant\<close>

definition get_inv :: "get_conn \<Rightarrow> bool" where
  "get_inv g \<longleftrightarrow> bound (conn g) \<and> udp_inv (conn g) \<and> hasCallback g \<and> unat (recvWindow g) < 10 \<and>
     (state g = RECV_FILE \<longrightarrow> (\<exists>m. getManager g = Some m \<and> isOpen m))"

inductive get_edge :: "ConnState \<Rightarrow> ConnState \<Rightarrow> bool" where
  stay: "get_edge s s"
| found: "get_edge WAIT_SENDER CONN_SENDER"
| started: "get_edge CONN_SENDER RECV_FILE"
| received: "get_edge RECV_FILE IDLE"

definition quiet_msg :: "bytes \<times> sockaddr \<Rightarrow> bool" where
  "quiet_msg = (\<lambda>(d, a). d ! 1 \<noteq> type_code DATA_STREAM)"

definition get_good :: "get_conn \<Rightarrow> get_conn \<Rightarrow> bool" where
  "get_good g g' \<longleftrightarrow> get_inv g' \<and> get_edge (state g) (state g') \<and>
     (\<exists>ms. sent (conn g') = sent (conn g) @ ms \<and> (\<forall>m \<in> set ms. quiet_msg m))"

lemma get_goodI:
  "get_inv g' \<Longrightarrow> get_edge (state g) (state g') \<Longrightarrow> sent (conn g') = sent (conn g) @ ms \<Longrightarrow>
    \<forall>m \<in> set ms. quiet_msg m \<Longrightarrow> get_good g g'"
  by (auto simp: get_good_def)

lemma get_good_same: "get_inv g \<Longrightarrow> get_good g g"
  by (rule get_goodI [of _ _ "[]"]) (auto intro: get_edge.stay)

lemma get_good_trans:
  assumes "get_good g g1" and "state g1 = state g" and "get_good g1 g2"
  shows "get_good g g2"
proof -
  obtain ms ms' where "sent (conn g1) = sent (conn g) @ ms" "\<forall>m \<in> set ms. quiet_msg m"
    "sent (conn g2) = sent (conn g1) @ ms'" "\<forall>m \<in> set ms'. quiet_msg m"
    using assms by (auto simp: get_good_def)
  then have "sent (conn g2) = sent (conn g) @ (ms @ ms')" "\<forall>m \<in> set (ms @ ms'). quiet_msg m" by auto
  with assms show ?thesis by (auto simp: get_good_def)
qed

lemma quiet_message: "t \<noteq> DATA_STREAM \<Longrightarrow> quiet_msg (message sg t len body, a)"
  by (simp add: quiet_msg_def message_def header_bytes_def del: type_code.simps)

lemma send_to_eq:
  assumes "bound (conn g)" and "length (concat parts) < 2 ^ 40"
  shows "send_to g sg t len parts a =
    Inr (g\<lparr>conn := (conn g)\<lparr>sent := sent (conn g) @ [(message sg t len (concat parts), a)]\<rparr>\<rparr>)"
proof -
  obtain b where "msg_buffer sg t len parts = Inr b" "buffer_inv b"
      "contents b = message sg t len (concat parts)"
    using msg_buffer_big [OF assms(2)] by blast
  with assms(1) show ?thesis by (simp add: send_to_def send_ok)
qed

text \<open>Sending keeps everything but the list of messages.\<close>

definition with_sent :: "get_conn \<Rightarrow> (bytes \<times> sockaddr) list \<Rightarrow> get_conn" where
  "with_sent g ms = g\<lparr>conn := (conn g)\<lparr>sent := sent (conn g) @ ms\<rparr>\<rparr>"

lemma with_sent_sel [simp]:
  "state (with_sent g ms) = state g" "code (with_sent g ms) = code g" "getManager (with_sent g ms) = getManager g"
  "recvWindow (with_sent g ms) = recvWindow g" "hasCallback (with_sent g ms) = hasCallback g"
  "recveraddr (with_sent g ms) = recveraddr g" "serveraddr (with_sent g ms) = serveraddr g"
  "repeattimers (with_sent g ms) = repeattimers g" "actions (with_sent g ms) = actions g"
  "conn_fileData (with_sent g ms) = conn_fileData g" "lastDataStreamTime (with_sent g ms) = lastDataStreamTime g"
  "bound (conn (with_sent g ms)) = bound (conn g)" "tmpbuf (conn (with_sent g ms)) = tmpbuf (conn g)"
  "sent (conn (with_sent g ms)) = sent (conn g) @ ms"
  by (simp_all add: with_sent_def)

lemma with_sent_inv [simp]: "get_inv (with_sent g ms) = get_inv g"
  by (simp add: get_inv_def udp_inv_def)

lemma send_to_with:
  "bound (conn g) \<Longrightarrow> length (concat parts) < 2 ^ 40 \<Longrightarrow>
    send_to g sg t len parts a = Inr (with_sent g [(message sg t len (concat parts), a)])"
  by (simp add: send_to_eq with_sent_def)

lemma get_control:
  assumes "get_inv g" and "t \<noteq> DATA_STREAM" and "length (concat parts) < 2 ^ 40"
  shows "send_to g sg t len parts a = Inr (with_sent g [(message sg t len (concat parts), a)])"
    and "get_good g (with_sent g [(message sg t len (concat parts), a)])"
proof -
  show "send_to g sg t len parts a = Inr (with_sent g [(message sg t len (concat parts), a)])"
    using assms by (simp add: send_to_with get_inv_def)
  show "get_good g (with_sent g [(message sg t len (concat parts), a)])"
    using assms(1) quiet_message [OF assms(2), of sg len "concat parts" a]
    by (intro get_goodI [of _ _ "[(message sg t len (concat parts), a)]"]) (simp_all add: get_edge.stay)
qed

section \<open>Handlers\<close>

lemma get_good_frame:
  assumes "get_inv g" and "conn g' = conn g" and "state g' = state g" and "recvWindow g' = recvWindow g"
    and "hasCallback g' = hasCallback g" and "getManager g' = getManager g"
  shows "get_good g g'"
  using assms by (intro get_goodI [of _ _ "[]"]) (simp_all add: get_inv_def get_edge.stay)

lemma closeSelf_good: "get_inv g \<Longrightarrow> get_good g (closeSelf g)"
  by (rule get_good_frame) (simp_all add: closeSelf_def act_def)

lemma start_download_good:
  assumes g: "get_inv g" and st: "state g = CONN_SENDER"
  shows "\<exists>g'. start_download cp cc g = Inr g' \<and> get_good g g'"
proof -
  obtain m where m: "m = new_GetFileManager cp cc (conn_fileData g) kBytesPerPiece" by blast
  show ?thesis
  proof (cases "isOpen m")
    case True
    let ?g = "g\<lparr>getManager := Some m, repeattimers := repeattimers g @ [Send_Retran_Req]\<rparr>"
    have "get_inv ?g" using g True by (simp add: get_inv_def)
    from get_control [OF this, of DOWNLOAD_START "[]" kClientSign 0 "recveraddr g"] 
    have s: "send_to ?g kClientSign DOWNLOAD_START 0 [] (recveraddr g) =
        Inr (with_sent ?g [(message kClientSign DOWNLOAD_START 0 [], recveraddr g)])"
      and i: "get_good ?g (with_sent ?g [(message kClientSign DOWNLOAD_START 0 [], recveraddr g)])"
      by simp_all
    let ?g' = "(with_sent ?g [(message kClientSign DOWNLOAD_START 0 [], recveraddr g)])\<lparr>state := RECV_FILE\<rparr>"
    have "start_download cp cc g = Inr ?g'"
      using s True by (simp add: start_download_def m [symmetric])
    moreover have "get_inv ?g'" using i True by (simp add: get_good_def get_inv_def)
    then have "get_good g ?g'"
      using st by (intro get_goodI [of _ _ "[(message kClientSign DOWNLOAD_START 0 [], recveraddr g)]"])
        (simp_all add: quiet_message get_edge.started)
    ultimately show ?thesis by blast
  next
    case False
    have i: "get_inv (g\<lparr>getManager := Some m\<rparr>)" using g st by (simp add: get_inv_def)
    then have "get_good g (closeSelf (g\<lparr>getManager := Some m\<rparr>))"
      using closeSelf_good [OF i] by (simp add: get_good_def)
    then show ?thesis using False by (simp add: start_download_def m [symmetric])
  qed
qed

lemma hello_reply_good:
  assumes g: "get_inv g"
  shows "\<exists>g'. handle_hello_reply cp cc g sg a time = Inr g' \<and> get_good g g'"
proof -
  have "\<exists>g1. (if state g = CONN_SENDER \<and> sg = kClientSign \<and> a = recveraddr g
      then start_download cp cc g else Inr g) = Inr g1 \<and> get_good g g1"
    using start_download_good [OF g] get_good_same [OF g] by simp
  then obtain g1 where g1: "(if state g = CONN_SENDER \<and> sg = kClientSign \<and> a = recveraddr g
      then start_download cp cc g else Inr g) = Inr g1" "get_good g g1" by blast
  then show ?thesis unfolding handle_hello_reply_def g1(1) by (auto simp: get_good_def get_inv_def)
qed

lemma file_data_good:
  assumes g: "get_inv g" and b: "msg_view b"
  shows "\<exists>g'. handle_file_data g b = Inr g' \<and> get_good g g'"
proof (cases "state g = WAIT_SENDER")
  case True
  let ?fda = "filedataaddr_of (slice (kPrependSize + sizeof_Header) sizeof_FileDataAddr (store b))"
  let ?g1 = "g\<lparr>recveraddr := addr ?fda, conn_fileData := fileData ?fda\<rparr>"
  have pk: "peek b sizeof_Header sizeof_FileDataAddr =
      Inr (slice (kPrependSize + sizeof_Header) sizeof_FileDataAddr (store b))"
    by (rule view_peek [OF b]) (simp add: sizeof_defs kBufferSize_def)
  have i1: "get_inv ?g1" using g by (simp add: get_inv_def)
  let ?ms = "[(message kClientSign HELLO 0 [], addr ?fda)]"
  have s: "send_to ?g1 kClientSign HELLO 0 [] (addr ?fda) = Inr (with_sent ?g1 ?ms)"
    using get_control(1) [OF i1, of HELLO "[]"] by simp
  let ?g' = "(with_sent ?g1 ?ms)\<lparr>repeattimers := repeattimers g @ [Hold_Conn (addr ?fda) kClientSign],
    state := CONN_SENDER\<rparr>"
  have "handle_file_data g b = Inr ?g'"
    using True pk s by (simp add: handle_file_data_def Let_def)
  moreover have "get_good g ?g'"
    using i1 True by (intro get_goodI [of _ _ ?ms]) (simp_all add: get_inv_def quiet_message get_edge.found udp_inv_def)
  ultimately show ?thesis by blast
next
  case False
  then show ?thesis using get_good_same [OF g] by (simp add: handle_file_data_def)
qed

text \<open>The manager counts a piece, and acknowledges every tenth.\<close>

lemma count_piece_eq:
  assumes g: "get_inv g"
  shows "count_piece g = Inr (if unat (recvWindow g) = 9
    then (with_sent g [(message kClientSign PACK_ACK sizeof_PackageAck (u32_bytes 10), recveraddr g)])\<lparr>recvWindow := 0\<rparr>
    else g\<lparr>recvWindow := recvWindow g + 1\<rparr>)"
proof -
  have w: "unat (recvWindow g) < 10" using g by (simp add: get_inv_def)
  have n: "unat (recvWindow g + 1) = Suc (unat (recvWindow g))" using w by (simp add: unat_word_ariths)
  have k: "kPiecesPerWindow \<le> recvWindow g + 1 \<longleftrightarrow> unat (recvWindow g) = 9"
    using w n by (auto simp: kPiecesPerWindow_def word_le_nat_alt)
  show ?thesis
  proof (cases "unat (recvWindow g) = 9")
    case True
    then have "unat (recvWindow g + 1) = unat (10 :: u32)" using n by simp
    then have e: "recvWindow g + 1 = 10" by (simp only: word_unat_eq_iff)
    let ?g1 = "g\<lparr>recvWindow := 10\<rparr>"
    have "bound (conn ?g1)" using g by (simp add: get_inv_def)
    from send_to_with [OF this, of "[u32_bytes 10]" kClientSign PACK_ACK sizeof_PackageAck "recveraddr g"]
    show ?thesis using True k e by (simp add: count_piece_def sendPackAck_def Let_def with_sent_def)
  next
    case False
    then show ?thesis using k by (simp add: count_piece_def Let_def)
  qed
qed

text \<open>A data message, once its eight bytes are there and the file has taken the piece.\<close>

definition counted :: "get_conn \<Rightarrow> timestamp \<Rightarrow> get_conn" where
  "counted g time =
     (let g = g\<lparr>lastDataStreamTime := time\<rparr> in
      if unat (recvWindow g) = 9
      then (with_sent g [(message kClientSign PACK_ACK sizeof_PackageAck (u32_bytes 10), recveraddr g)])\<lparr>recvWindow := 0\<rparr>
      else g\<lparr>recvWindow := recvWindow g + 1\<rparr>)"

definition after_piece :: "get_conn \<Rightarrow> timestamp \<Rightarrow> WriteState \<Rightarrow> get_file \<Rightarrow> get_conn" where
  "after_piece g time ret m =
     (let g1 = (counted g time)\<lparr>getManager := Some m\<rparr>
      in if ret = WRITE_FINISH
         then closeSelf (with_sent (g1\<lparr>state := IDLE\<rparr>) [(message kClientSign FINISH 0 [], recveraddr g)])
         else g1)"

lemma counted_props:
  assumes "get_inv g" and "isOpen m \<or> state g \<noteq> RECV_FILE"
  shows "get_inv ((counted g time)\<lparr>getManager := Some m\<rparr>)" "state (counted g time) = state g"
    "recveraddr (counted g time) = recveraddr g" "code (counted g time) = code g"
    "\<exists>ms. sent (conn (counted g time)) = sent (conn g) @ ms \<and> (\<forall>m \<in> set ms. quiet_msg m)"
proof -
  have n: "unat (recvWindow g) \<noteq> 9 \<Longrightarrow> unat (recvWindow g + 1) < 10"
    using assms(1) by (simp add: get_inv_def unat_word_ariths)
  show "get_inv ((counted g time)\<lparr>getManager := Some m\<rparr>)"
    using assms n by (auto simp: counted_def Let_def get_inv_def udp_inv_def)
  show "state (counted g time) = state g" "recveraddr (counted g time) = recveraddr g"
    "code (counted g time) = code g" by (simp_all add: counted_def Let_def)
  show "\<exists>ms. sent (conn (counted g time)) = sent (conn g) @ ms \<and> (\<forall>m \<in> set ms. quiet_msg m)"
    by (auto simp: counted_def Let_def quiet_message)
qed

lemma data_stream_short:
  assumes "get_inv g" and "event_view b" and "4 \<le> readableBytes b" and "readableBytes b < 8"
    and "state g = RECV_FILE"
  shows "handle_data_stream g b time = Inl Assert_Fail"
proof -
  obtain m where m: "getManager g = Some m" "isOpen m" using assms(1,5) by (auto simp: get_inv_def)
  show ?thesis
    using m assms(5) event_readable(2,3) [OF assms(2)] assms(3,4)
      retrieve_too_much [of "b\<lparr>readIndex := kPrependSize + 4\<rparr>" 4]
    by (simp add: handle_data_stream_def Let_def sizeof_defs)
qed

lemma data_stream_eq:
  assumes g: "get_inv g" and b: "event_view b" and len: "8 \<le> readableBytes b"
    and st: "state g = RECV_FILE" and m: "getManager g = Some m"
  shows "handle_data_stream g b time =
    bindE (writeToFile m (payload b) (piece_number b)) (\<lambda>(ret, m1). Inr (after_piece g time ret m1, payload b))"
proof -
  have op: "isOpen m" using g st m by (auto simp: get_inv_def)
  have g0: "get_inv (g\<lparr>lastDataStreamTime := time\<rparr>)" using g by (simp add: get_inv_def)
  have cp: "count_piece (g\<lparr>lastDataStreamTime := time\<rparr>) = Inr (counted g time)"
    using count_piece_eq [OF g0] by (simp add: counted_def)
  have sl: "length (store b) = kPrependSize + kBufferSize" using b by (simp add: event_view_def msg_view_def)
  have rd: "mem_read (store (payload b)) (readIndex (b\<lparr>readIndex := kPrependSize + 4\<rparr>)) 4 =
      Inr (slice (kPrependSize + 4) 4 (store b))"
    using sl by (simp add: mem_read_slice kBufferSize_def)
  have bnd: "bound (conn (counted g time))"
    using counted_props(1) [OF g, of m time] op by (simp add: get_inv_def)
  have fin: "send_to ((counted g time)\<lparr>getManager := Some m1, state := IDLE\<rparr>) kClientSign FINISH 0 []
      (recveraddr (counted g time)) = Inr (with_sent ((counted g time)\<lparr>getManager := Some m1, state := IDLE\<rparr>)
      [(message kClientSign FINISH 0 [], recveraddr g)])" for m1
  proof -
    have "bound (conn ((counted g time)\<lparr>getManager := Some m1, state := IDLE\<rparr>))" using bnd by simp
    from send_to_with [OF this, of "[]"] show ?thesis by (simp add: counted_def Let_def)
  qed
  have k: "(\<lambda>(ret, m1). let g2 = (counted g time)\<lparr>getManager := Some m1\<rparr>
             in if ret = WRITE_FINISH
                then bindE (send_to (g2\<lparr>state := IDLE\<rparr>) kClientSign FINISH 0 [] (recveraddr g2)) (\<lambda>g3.
                     Inr (closeSelf g3, payload b))
                else Inr (g2, payload b)) =
      (\<lambda>(ret, m1). Inr (after_piece g time ret m1, payload b) :: (get_conn \<times> buffer) outcome)"
    by (auto simp: fun_eq_iff after_piece_def Let_def fin)
  have r: "retrieve b sizeof_Header = Inr (b\<lparr>readIndex := kPrependSize + 4\<rparr>)"
    "retrieve (b\<lparr>readIndex := kPrependSize + 4\<rparr>) sizeof_DataStream = Inr (payload b)"
    using event_readable(2,4) [OF b] len by (simp_all add: sizeof_defs)
  show ?thesis
    unfolding handle_data_stream_def
    using st op by (simp add: m r cp rd [simplified] piece_number_def Let_def k [unfolded Let_def])
qed

lemma after_piece_good:
  assumes g: "get_inv g" and st: "state g = RECV_FILE" and op: "ret \<noteq> WRITE_FINISH \<Longrightarrow> isOpen m"
  shows "get_good g (after_piece g time ret m)"
    and "state (after_piece g time ret m) = (if ret = WRITE_FINISH then IDLE else RECV_FILE)"
    and "getManager (after_piece g time ret m) = Some m"
proof -
  obtain ms where ms: "sent (conn (counted g time)) = sent (conn g) @ ms" "\<forall>m \<in> set ms. quiet_msg m"
  proof -
    obtain m0 where "isOpen m0" using g st by (auto simp: get_inv_def)
    from counted_props(5) [OF g, of m0 time] this that show ?thesis by blast
  qed
  have c: "state (counted g time) = state g" by (simp add: counted_def Let_def)
  show st': "state (after_piece g time ret m) = (if ret = WRITE_FINISH then IDLE else RECV_FILE)"
    "getManager (after_piece g time ret m) = Some m"
    using st c by (simp_all add: after_piece_def Let_def closeSelf_def act_def)
  show "get_good g (after_piece g time ret m)"
  proof (cases "ret = WRITE_FINISH")
    case True
    let ?g = "(counted g time)\<lparr>getManager := Some m, state := IDLE\<rparr>"
    let ?fin = "(message kClientSign FINISH 0 [], recveraddr g)"
    have "get_inv ?g"
    proof -
      obtain m0 where "isOpen m0" using g st by (auto simp: get_inv_def)
      with counted_props(1) [OF g, of m0 time] show ?thesis by (simp add: get_inv_def)
    qed
    then have "get_good g (with_sent ?g [?fin])"
      using st ms by (intro get_goodI [of _ _ "ms @ [?fin]"]) (auto simp: quiet_message intro: get_edge.received)
    then have "get_good g (closeSelf (with_sent ?g [?fin]))"
      by (auto simp: get_good_def get_inv_def closeSelf_def act_def)
    then show ?thesis using True by (simp add: after_piece_def Let_def)
  next
    case False
    have "get_inv ((counted g time)\<lparr>getManager := Some m\<rparr>)" using counted_props(1) [OF g] op [OF False] by blast
    then have "get_good g ((counted g time)\<lparr>getManager := Some m\<rparr>)"
      using ms c by (intro get_goodI [of _ _ ms]) (auto intro: get_edge.stay)
    then show ?thesis using False by (simp add: after_piece_def Let_def)
  qed
qed

section \<open>The dispatcher\<close>

text \<open>What stops the receiver: a data message too short for its piece number.\<close>

definition stream_stop :: "get_conn \<Rightarrow> buffer \<Rightarrow> fault option" where
  "stream_stop g b =
     (if understood b \<and> msg_type b = Some DATA_STREAM \<and> state g = RECV_FILE
      then if readableBytes b < 8 then Some Assert_Fail
           else case getManager g of
             None \<Rightarrow> None
           | Some m \<Rightarrow> (case writeToFile m (payload b) (piece_number b) of Inl x \<Rightarrow> Some x | Inr _ \<Rightarrow> None)
      else None)"

lemma keep_buf_good:
  "\<exists>g'. r = Inr g' \<and> get_good g g' \<Longrightarrow>
    \<exists>g' b'. keep_buf b r = Inr (g', b') \<and> get_good g g' \<and> store b' = store b"
  by (auto simp: keep_buf_def)

lemma data_stream_ok:
  assumes g: "get_inv g" and b: "event_view b" and u: "understood b" and t: "msg_type b = Some DATA_STREAM"
  shows "case stream_stop g b of
      Some x \<Rightarrow> handle_data_stream g b time = Inl x
    | None \<Rightarrow> \<exists>g' b'. handle_data_stream g b time = Inr (g', b') \<and> get_good g g' \<and> store b' = store b"
proof (cases "state g = RECV_FILE")
  case False
  then show ?thesis using get_good_same [OF g] by (simp add: handle_data_stream_def stream_stop_def)
next
  case st: True
  have r4: "4 \<le> readableBytes b" using u by (simp add: understood_def sizeof_Header_def)
  obtain m where m: "getManager g = Some m" "isOpen m" using g st by (auto simp: get_inv_def)
  show ?thesis
  proof (cases "readableBytes b < 8")
    case True
    with data_stream_short [OF g b r4 True st] show ?thesis using u t st by (simp add: stream_stop_def)
  next
    case False
    then have r8: "8 \<le> readableBytes b" by simp
    note e = data_stream_eq [OF g b r8 st m(1), of time]
    show ?thesis
    proof (cases "writeToFile m (payload b) (piece_number b)")
      case (Inl x)
      then show ?thesis using u t st False m(1) e by (simp add: stream_stop_def)
    next
      case (Inr r)
      obtain ret m1 where r: "r = (ret, m1)" by fastforce
      have "ret \<noteq> WRITE_FINISH \<Longrightarrow> isOpen m1"
        using writeToFile_open [OF Inr [unfolded r] m(2)] by blast
      from after_piece_good(1) [OF g st this, where time = time]
      show ?thesis using u t st False m(1) e Inr r by (simp add: stream_stop_def)
    qed
  qed
qed

lemma getFileMsgHandle_ok:
  assumes g: "get_inv g" and b: "event_view b"
  shows "case stream_stop g b of
      Some x \<Rightarrow> getFileMsgHandle cp cc g b a time = Inl x
    | None \<Rightarrow> \<exists>g' b'. getFileMsgHandle cp cc g b a time = Inr (g', b') \<and> get_good g g' \<and> store b' = store b"
proof -
  have v: "msg_view b" using b by (simp add: event_view_def)
  note eq = client_frame_eq [OF v]
  have same: "\<exists>g' b'. Inr (g, b) = (Inr (g', b') :: (get_conn \<times> buffer) outcome) \<and> get_good g g' \<and> store b' = store b"
    using get_good_same [OF g] by simp
  have cl: "\<exists>g' b'. Inr (closeSelf g, b) = (Inr (g', b') :: (get_conn \<times> buffer) outcome) \<and> get_good g g' \<and> store b' = store b"
    using closeSelf_good [OF g] by simp
  have hello: "\<exists>g'. send_to g (msg_sign b) HELLO_REPLY 0 [] a = Inr g' \<and> get_good g g'"
    using get_control [OF g, of HELLO_REPLY "[]"] by simp
  note k = keep_buf_good [OF hello, of b] keep_buf_good [OF hello_reply_good [OF g, of cp cc "msg_sign b" a time], of b]
    keep_buf_good [OF file_data_good [OF g v], of b]
  consider "\<not> understood b" | "understood b" "msg_type b = Some DATA_STREAM" | "understood b" "msg_type b = None"
    | t where "understood b" "msg_type b = Some t" "t \<noteq> DATA_STREAM" by blast
  then show ?thesis
  proof cases
    case 1
    then show ?thesis using same by (simp add: getFileMsgHandle_def eq stream_stop_def)
  next
    case 2
    then have "getFileMsgHandle cp cc g b a time = handle_data_stream g b time"
      by (simp add: getFileMsgHandle_def eq)
    with data_stream_ok [OF g b 2] show ?thesis by (simp only:)
  next
    case 3
    with same show ?thesis by (simp add: getFileMsgHandle_def eq stream_stop_def)
  next
    case 4
    then have "stream_stop g b = None" by (simp add: stream_stop_def)
    with 4 same cl k show ?thesis by (cases t) (simp_all add: getFileMsgHandle_def eq)
  qed
qed

section \<open>Steps\<close>

definition get_stop :: "get_conn \<Rightarrow> get_event \<Rightarrow> fault option" where
  "get_stop g e = (case e of Msg r now os \<Rightarrow> stream_stop g (fst (seen (conn g) r)) | _ \<Rightarrow> None)"

definition get_event_ok :: "get_event \<Rightarrow> bool" where
  "get_event_ok e \<longleftrightarrow>
     (case e of Msg r now os \<Rightarrow> (case r of Recv d src \<Rightarrow> length d \<le> kBufferSize | _ \<Rightarrow> True) | _ \<Rightarrow> True)"

lemma message_run:
  assumes g: "get_inv g" and ok: "case r of Recv d src \<Rightarrow> length d \<le> kBufferSize | _ \<Rightarrow> True"
  shows "get_step (Msg r now os) g =
    bindE (getFileMsgHandle (fst os) (snd os) g (fst (seen (conn g) r)) (snd (seen (conn g) r)) now)
      (\<lambda>(g', b'). Inr (g'\<lparr>conn := (conn g')\<lparr>tmpbuf := retrieveAll b'\<rparr>\<rparr>))"
proof -
  have "udp_inv (conn g)" "hasCallback g" using g by (simp_all add: get_inv_def)
  then show ?thesis
    by (simp add: handleRead_seen [OF _ ok] get_callback_def bindE_assoc case_prod_beta')
qed

lemma holdConn_good:
  assumes g: "get_inv g"
  shows "\<exists>g'. holdConn g a sg now = Inr g' \<and> get_good g g'"
proof -
  let ?ms = "[(message sg HELLO 0 [], a)]"
  have s: "send_to g sg HELLO 0 [] a = Inr (with_sent g ?ms)" and i: "get_good g (with_sent g ?ms)"
    using get_control [OF g, of HELLO "[]"] by simp_all
  have "get_good (with_sent g ?ms) (checkPeerAlive (with_sent g ?ms) now)"
    using g closeSelf_good [of "with_sent g ?ms"] get_good_same [of "with_sent g ?ms"]
    by (simp add: checkPeerAlive_def)
  from get_good_trans [OF i _ this] s show ?thesis by (simp add: holdConn_def)
qed

lemma concat_u32_length: "length (concat (map u32_bytes ps)) = 4 * length ps"
  by (induction ps) simp_all

lemma sendRetranReq_good:
  assumes g: "get_inv g"
  shows "\<exists>g'. sendRetranReq g now = Inr g' \<and> get_good g g'"
proof (cases "state g = RECV_FILE")
  case False
  then show ?thesis using get_good_same [OF g] by (simp add: sendRetranReq_def)
next
  case True
  then obtain m where m: "getManager g = Some m" using g by (auto simp: get_inv_def)
  let ?late = "lastDataStreamTime g + kFileStreamTimeoutUS < now"
  let ?w = "kWindowNum * kPiecesPerWindow"
  let ?ack = "with_sent g [(message kClientSign PACK_ACK sizeof_PackageAck (u32_bytes ?w), recveraddr g)]"
  have "sendPackAck g ?w = Inr ?ack" "get_good g ?ack"
    using get_control [OF g, of PACK_ACK "[u32_bytes ?w]" kClientSign sizeof_PackageAck "recveraddr g"]
    by (simp_all add: sendPackAck_def)
  then obtain g1 where 1: "(if ?late then sendPackAck g ?w else Inr g) = Inr g1" "get_good g g1"
    and st1: "state g1 = state g" "recveraddr g1 = recveraddr g"
    using get_good_same [OF g] by (cases ?late) auto
  let ?ps = "getLossPieces m []"
  let ?n = "of_nat (length ?ps) :: u32"
  show ?thesis
  proof (cases "length ?ps = 0")
    case True
    with 1 m \<open>state g = RECV_FILE\<close> show ?thesis unfolding sendRetranReq_def by (simp add: 1(1))
  next
    case False
    let ?parts = "[u32_bytes ?n, take (unat ?n * 4) (concat (map u32_bytes ?ps))]"
    have i1: "get_inv g1" using 1(2) by (simp add: get_good_def)
    have len: "length (concat ?parts) < 2 ^ 40"
    proof -
      have "unat ?n < 2 ^ 32" using unsigned_less [of ?n, where 'a = nat] by simp
      then show ?thesis by simp
    qed
    from get_control [OF i1, of RETRAN, OF _ len, of kClientSign "unat (?n * 4 + of_nat sizeof_RetransPieces)" "recveraddr g1"]
    obtain g2 where 2: "send_to g1 kClientSign RETRAN (unat (?n * 4 + of_nat sizeof_RetransPieces)) ?parts (recveraddr g1) = Inr g2"
      "get_good g1 g2" by blast
    have "sendRetranReq g now = Inr g2"
      using m \<open>state g = RECV_FILE\<close> False 2(1) unfolding sendRetranReq_def by (simp add: Let_def 1(1))
    then show ?thesis using get_good_trans [OF 1(2) st1(1) 2(2)] by blast
  qed
qed

lemma get_step_ok:
  assumes g: "get_inv g" and ok: "get_event_ok e"
  shows "case get_stop g e of Some x \<Rightarrow> get_step e g = Inl x
    | None \<Rightarrow> \<exists>g'. get_step e g = Inr g' \<and> get_good g g'"
proof (cases e)
  case (Msg r now os)
  have r: "case r of Recv d src \<Rightarrow> length d \<le> kBufferSize | _ \<Rightarrow> True" using ok Msg by (simp add: get_event_ok_def)
  let ?b = "fst (seen (conn g) r)"
  have u: "udp_inv (conn g)" using g by (simp add: get_inv_def)
  have b: "event_view ?b" by (rule seen_event_view [OF u r])
  then have v: "msg_view ?b" by (simp add: event_view_def)
  note run = message_run [OF g r, of now os]
  note h = getFileMsgHandle_ok [OF g b, of "fst os" "snd os" "snd (seen (conn g) r)" now]
  show ?thesis
  proof (cases "stream_stop g ?b")
    case (Some x)
    with h run Msg show ?thesis by (simp add: get_stop_def)
  next
    case None
    with h obtain g' b' where
      1: "getFileMsgHandle (fst os) (snd os) g ?b (snd (seen (conn g) r)) now = Inr (g', b')" "get_good g g'"
        "store b' = store ?b" by auto
    have "get_step e g = Inr (g'\<lparr>conn := (conn g')\<lparr>tmpbuf := retrieveAll b'\<rparr>\<rparr>)"
      using run 1(1) Msg by simp
    moreover have "get_good g (g'\<lparr>conn := (conn g')\<lparr>tmpbuf := retrieveAll b'\<rparr>\<rparr>)"
      using 1(2,3) view_udp_inv [OF v, of b' "conn g'"] by (auto simp: get_good_def get_inv_def)
    ultimately show ?thesis using None Msg by (simp add: get_stop_def)
  qed
next
  case (Repeat_Timer i now)
  then show ?thesis
    using holdConn_good [OF g] sendRetranReq_good [OF g] get_good_same [OF g]
    by (auto simp: get_stop_def split: repeat_timer.split)
qed

interpretation receiver: endpoint get_step get_event_ok get_inv get_stop "\<lambda>g. sent (conn g)" quiet_msg
  "\<lambda>g g'. get_edge (state g) (state g')"
proof
  fix g e x
  assume "get_inv g" "get_event_ok e" "get_stop g e = Some x"
  then show "get_step e g = Inl x" using get_step_ok [of g e] by simp
next
  fix g e
  assume "get_inv g" "get_event_ok e" "get_stop g e = None"
  then show "\<exists>g' ms. get_step e g = Inr g' \<and> get_inv g' \<and> sent (conn g') = sent (conn g) @ ms \<and>
      (\<forall>m \<in> set ms. quiet_msg m) \<and> get_edge (state g) (state g')"
    using get_step_ok [of g e] by (auto simp: get_good_def)
qed

end
