(* ===== verification/Get_Properties.thy ===== *)
theory Get_Properties
  imports Get_Conn_Inv File_Properties Demo
begin

text \<open>
  The properties of a receiving connection, from the request to the end of a transfer.
\<close>

declare get_step.simps [simp del]

section \<open>A concrete receiver\<close>

definition receiver0 :: get_conn where
  "receiver0 = \<lparr>conn = socket0, state = IDLE, code = 0, conn_fileData = demo_data, serveraddr = peer_b,
     recveraddr = zero_sockaddr, repeattimers = [], getManager = None, recvWindow = 0, lastServerHelloTime = invalid,
     lastPeerHelloTime = invalid, lastDataStreamTime = invalid, hasCallback = False, actions = []\<rparr>"

text \<open>The same connection while it receives the concrete file.\<close>

definition downloading :: get_conn where
  "downloading = receiver0\<lparr>code := 9, state := RECV_FILE, recveraddr := peer_a, hasCallback := True,
     getManager := Some recv0\<rparr>"

lemma recv0_receiving: "receiving recv0 demo_content 0 {}"
  unfolding recv0_def by (rule new_GetFileManager_receiving) (fact demo_sizes)+

lemma downloading_inv: "get_inv downloading" "state downloading = RECV_FILE" "getManager downloading = Some recv0"
  using recv0_receiving
  by (simp_all add: get_inv_def downloading_def receiver0_def socket0_inv receiving_def)

section \<open>What stops a receiver\<close>

lemma received_type:
  assumes "udp_inv u" and "length d \<le> kBufferSize" and "4 \<le> length d"
  shows "msg_sign (received u d) = d ! 0" and "msg_type (received u d) = type_of (d ! 1)"
proof -
  have "slice kPrependSize 1 (store (received u d)) = slice 0 1 d"
    using received_slice [OF assms(1,2), of 0 1] assms(3) by simp
  moreover have "slice kPrependSize 1 (store (received u d)) = [store (received u d) ! kPrependSize]"
    using received_props(4) [OF assms(1,2)] by (intro slice_1) (simp add: kBufferSize_def)
  moreover have "slice 0 1 d = [d ! 0]" using assms(3) by (intro slice_1) auto
  ultimately show "msg_sign (received u d) = d ! 0" by (simp add: msg_sign_def)
  have "slice kPrependSize 4 (store (received u d)) = slice 0 4 d"
    using received_slice [OF assms(1,2), of 0 4] assms(3) by simp
  then show "msg_type (received u d) = type_of (d ! 1)"
    using assms(3) by (simp add: msg_type_def sizeof_Header_def header_of_def nth_slice)
qed

definition short_data :: "bytes \<Rightarrow> bool" where
  "short_data d \<longleftrightarrow> 4 \<le> length d \<and> length d < 8 \<and> known_sign (d ! 0) \<and> d ! 1 = type_code DATA_STREAM"

lemma type_of_iff: "type_of b = Some t \<longleftrightarrow> b = type_code t"
  using type_of_SomeD [of b t] type_of_type_code [of t] by blast

lemma stop_received:
  assumes g: "get_inv g" and len: "length d \<le> kBufferSize"
  shows "get_stop g (Msg (Recv d a) now os) =
    (if state g = RECV_FILE \<and> short_data d then Some Assert_Fail else None)"
proof -
  have u: "udp_inv (conn g)" using g by (simp add: get_inv_def)
  note rb = received_props(5) [OF u len]
  show ?thesis
  proof (cases "4 \<le> length d")
    case False
    then show ?thesis
      using rb by (simp add: get_stop_def stream_stop_def seen_def understood_def short_data_def sizeof_Header_def)
  next
    case True
    note t = received_type [OF u len True]
    have un: "understood (received (conn g) d) \<longleftrightarrow> known_sign (d ! 0)"
      using True rb t(1) by (simp add: understood_def sizeof_Header_def)
    have ds: "msg_type (received (conn g) d) = Some DATA_STREAM \<longleftrightarrow> d ! 1 = type_code DATA_STREAM"
      unfolding t(2) type_of_iff ..
    show ?thesis
    proof (cases "length d < 8")
      case True
      then show ?thesis using un ds rb \<open>4 \<le> length d\<close>
        by (auto simp: get_stop_def stream_stop_def seen_def short_data_def simp del: type_code.simps)
    next
      case False
      then have "8 \<le> length d" by simp
      from writeToFile_returns [OF payload_received(1) [OF u len this]]
      have "\<exists>r. writeToFile m (payload (received (conn g) d)) k = Inr r" for m k .
      then have "(case writeToFile m (payload (received (conn g) d)) k of Inl x \<Rightarrow> Some x | Inr _ \<Rightarrow> None) = None" for m k
        by (metis sum.case(2))
      then show ?thesis using False rb
        by (auto simp: get_stop_def stream_stop_def seen_def short_data_def split: option.splits)
    qed
  qed
qed





section \<open>The handshake\<close>

lemma get_fields:
  assumes g: "get_inv g" and sg: "known_sign sg" and len: "length body \<le> 1000" and t: "t \<noteq> DATA_STREAM"
  shows "get_step (Msg (Recv (message sg t n body) a) now os) g =
    bindE (case t of
         HELLO \<Rightarrow> send_to g sg HELLO_REPLY 0 [] a
       | HELLO_REPLY \<Rightarrow> handle_hello_reply (fst os) (snd os) g sg a now
       | FILE_DATA \<Rightarrow> handle_file_data g (received (conn g) (message sg t n body))
       | ERROR_FORMAT \<Rightarrow> Inr (closeSelf g)
       | ERROR_404 \<Rightarrow> Inr (closeSelf g)
       | _ \<Rightarrow> Inr g)
      (\<lambda>g'. Inr (g'\<lparr>conn := (conn g')\<lparr>tmpbuf := retrieveAll (received (conn g) (message sg t n body))\<rparr>\<rparr>))"
    and "k \<le> length body \<Longrightarrow>
      peek (received (conn g) (message sg t n body)) sizeof_Header k = Inr (take k body)"
proof -
  have u: "udp_inv (conn g)" using g by (simp add: get_inv_def)
  have l: "length (message sg t n body) \<le> kBufferSize"
    using len by (simp add: sizeof_Header_def kBufferSize_def)
  note v = received_msg_view [OF u l] and m = received_message [OF u l]
  have rv: "case Recv (message sg t n body) a of Recv d src \<Rightarrow> length d \<le> kBufferSize | _ \<Rightarrow> True"
    using l by simp
  have h: "getFileMsgHandle (fst os) (snd os) g (received (conn g) (message sg t n body)) a now =
    keep_buf (received (conn g) (message sg t n body)) (case t of
         HELLO \<Rightarrow> send_to g sg HELLO_REPLY 0 [] a
       | HELLO_REPLY \<Rightarrow> handle_hello_reply (fst os) (snd os) g sg a now
       | FILE_DATA \<Rightarrow> handle_file_data g (received (conn g) (message sg t n body))
       | ERROR_FORMAT \<Rightarrow> Inr (closeSelf g)
       | ERROR_404 \<Rightarrow> Inr (closeSelf g)
       | _ \<Rightarrow> Inr g)"
    unfolding getFileMsgHandle_def client_frame_eq [OF v] m(1,2) using m(3) [OF sg] t
    by (simp add: keep_buf_def split: MessageType.split)
  show "get_step (Msg (Recv (message sg t n body) a) now os) g =
    bindE (case t of
         HELLO \<Rightarrow> send_to g sg HELLO_REPLY 0 [] a
       | HELLO_REPLY \<Rightarrow> handle_hello_reply (fst os) (snd os) g sg a now
       | FILE_DATA \<Rightarrow> handle_file_data g (received (conn g) (message sg t n body))
       | ERROR_FORMAT \<Rightarrow> Inr (closeSelf g)
       | ERROR_404 \<Rightarrow> Inr (closeSelf g)
       | _ \<Rightarrow> Inr g)
      (\<lambda>g'. Inr (g'\<lparr>conn := (conn g')\<lparr>tmpbuf := retrieveAll (received (conn g) (message sg t n body))\<rparr>\<rparr>))"
    unfolding message_run [OF g rv] by (simp add: seen_def h keep_buf_def bindE_assoc)
  show "k \<le> length body \<Longrightarrow>
      peek (received (conn g) (message sg t n body)) sizeof_Header k = Inr (take k body)"
  proof -
    assume k: "k \<le> length body"
    then have "sizeof_Header + k \<le> kBufferSize" using len by (simp add: sizeof_Header_def kBufferSize_def)
    from view_peek [OF v this] m(4) [of 0 k] k show ?thesis by (simp add: slice_def)
  qed
qed

lemma file_data_msg:
  assumes g: "get_inv g" and st: "state g = WAIT_SENDER" and sg: "known_sign sg" and fda: "wf_FileDataAddr fda"
  shows "\<exists>t. get_step (Msg (Recv (message sg FILE_DATA n (filedataaddr_bytes fda)) a) now os) g = Inr t \<and> get_inv t \<and>
    state t = CONN_SENDER \<and> code t = code g \<and> recveraddr t = addr fda \<and> conn_fileData t = fileData fda \<and>
    serveraddr t = serveraddr g \<and> repeattimers t = repeattimers g @ [Hold_Conn (addr fda) kClientSign] \<and>
    sent (conn t) = sent (conn g) @ [(message kClientSign HELLO 0 [], addr fda)] \<and> recvWindow t = recvWindow g"
proof -
  have lb: "length (filedataaddr_bytes fda) = 284" using filedataaddr.length_enc [OF fda] by (simp add: sizeof_defs)
  then have l: "length (filedataaddr_bytes fda) \<le> 1000" by simp
  let ?d = "message sg FILE_DATA n (filedataaddr_bytes fda)"
  have len: "length ?d \<le> kBufferSize" using lb by (simp add: sizeof_Header_def kBufferSize_def)
  have u: "udp_inv (conn g)" using g by (simp add: get_inv_def)
  note f = get_fields [OF g sg l, where t = FILE_DATA and n = n]
  have pk: "peek (received (conn g) ?d) sizeof_Header sizeof_FileDataAddr = Inr (filedataaddr_bytes fda)"
    using f(2) [where k = 284] lb by (simp add: sizeof_defs)
  have q: "filedataaddr_of (filedataaddr_bytes fda) = fda" by (rule filedataaddr.dec_enc [OF fda])
  let ?g1 = "g\<lparr>recveraddr := addr fda, conn_fileData := fileData fda\<rparr>"
  have "bound (conn ?g1)" using g by (simp add: get_inv_def)
  from send_to_eq [OF this, of "[]" kClientSign HELLO 0 "addr fda"]
  show ?thesis
    using g st f(1) [where a = a and now = now and os = os] view_udp_inv [OF received_msg_view [OF u len]]
    by (simp add: handle_file_data_def pk q Let_def get_inv_def)
qed

lemma hello_reply_starts:
  assumes g: "get_inv g" and st: "state g = CONN_SENDER" and p: "p = recveraddr g" "p \<noteq> serveraddr g"
    and f: "fits_limit f" "fileBytes (conn_fileData g) = of_nat (length f)"
  shows "\<exists>t m. get_step (Msg (Recv (message kClientSign HELLO_REPLY n []) p) now (cp, True)) g = Inr t \<and> get_inv t \<and>
    state t = RECV_FILE \<and> code t = code g \<and> recveraddr t = p \<and> lastPeerHelloTime t = now \<and>
    getManager t = Some m \<and> receiving m f 0 {} \<and> repeattimers t = repeattimers g @ [Send_Retran_Req] \<and>
    sent (conn t) = sent (conn g) @ [(message kClientSign DOWNLOAD_START 0 [], p)] \<and> recvWindow t = recvWindow g"
proof -
  let ?d = "message kClientSign HELLO_REPLY n []"
  have len: "length ?d \<le> kBufferSize" by (simp add: sizeof_Header_def kBufferSize_def)
  have u: "udp_inv (conn g)" using g by (simp add: get_inv_def)
  obtain m where m: "m = new_GetFileManager cp True (conn_fileData g) kBytesPerPiece" by blast
  have r: "receiving m f 0 {}" unfolding m by (rule new_GetFileManager_receiving [OF f])
  then have op: "Get_File.isOpen m" by (simp add: receiving_def)
  let ?g1 = "g\<lparr>getManager := Some m, repeattimers := repeattimers g @ [Send_Retran_Req]\<rparr>"
  have "bound (conn ?g1)" using g by (simp add: get_inv_def)
  from send_to_eq [OF this, of "[]" kClientSign DOWNLOAD_START 0 p]
  have s: "start_download cp True g = Inr (?g1\<lparr>state := RECV_FILE,
      conn := (conn g)\<lparr>sent := sent (conn g) @ [(message kClientSign DOWNLOAD_START 0 [], p)]\<rparr>\<rparr>)"
    using op p(1) by (simp add: start_download_def m [symmetric])
  note fl = get_fields(1) [OF g known_signs(2), where body = "[]" and t = HELLO_REPLY and n = n and a = p and now = now and os = "(cp, True)"]
  show ?thesis
    using g st p s fl op r view_udp_inv [OF received_msg_view [OF u len]]
    by (simp add: handle_hello_reply_def get_inv_def)
qed

text \<open>
  C33. The handshake of a download: the request, the file data and the sender's reply take a fresh
  connection to \<open>RECV_FILE\<close> with an empty file of the announced size open. It has sent one request, one
  \<open>HELLO\<close> and one \<open>DOWNLOAD_START\<close>, and runs the two timers. The file data may come from anyone.
\<close>

theorem receiver_handshake:
  assumes i: "bound (conn g)" "udp_inv (conn g)" "state g = IDLE" "unat (recvWindow g) < 10"
    and fda: "wf_FileDataAddr fda" "addr fda \<noteq> serveraddr g" and sg: "known_sign sg"
    and f: "fits_limit f" "fileBytes (fileData fda) = of_nat (length f)"
  shows "\<exists>g1 t m. getFile g c = Inr g1 \<and>
    foldE get_step
      [Msg (Recv (message sg FILE_DATA n (filedataaddr_bytes fda)) a) t1 os,
       Msg (Recv (message kClientSign HELLO_REPLY n' []) (addr fda)) t2 (cp, True)] g1 = Inr t \<and>
    get_inv t \<and> state t = RECV_FILE \<and> code t = c \<and> recveraddr t = addr fda \<and> getManager t = Some m \<and>
    receiving m f 0 {} \<and>
    repeattimers t = repeattimers g @ [Hold_Conn (addr fda) kClientSign, Send_Retran_Req] \<and>
    sent (conn t) = sent (conn g) @
      [(message kServerSign GET_FILE sizeof_ShareCode (u32_bytes c), serveraddr g),
       (message kClientSign HELLO 0 [], addr fda), (message kClientSign DOWNLOAD_START 0 [], addr fda)]"
proof -
  let ?g = "g\<lparr>code := c, hasCallback := True\<rparr>"
  let ?g1 = "?g\<lparr>state := WAIT_SENDER,
    conn := (conn g)\<lparr>sent := sent (conn g) @ [(message kServerSign GET_FILE sizeof_ShareCode (u32_bytes c), serveraddr g)]\<rparr>\<rparr>"
  have "bound (conn ?g)" using i by simp
  from send_to_eq [OF this, of "[u32_bytes c]" kServerSign GET_FILE sizeof_ShareCode "serveraddr g"]
  have gf: "getFile g c = Inr ?g1" using i by (simp add: getFile_def)
  have "get_inv ?g1" "state ?g1 = WAIT_SENDER" using i by (simp_all add: get_inv_def udp_inv_def)
  from file_data_msg [OF this sg fda(1), of n a t1 os] obtain g2 where
    2: "get_step (Msg (Recv (message sg FILE_DATA n (filedataaddr_bytes fda)) a) t1 os) ?g1 = Inr g2" "get_inv g2"
      "state g2 = CONN_SENDER" "code g2 = c" "recveraddr g2 = addr fda" "conn_fileData g2 = fileData fda"
      "serveraddr g2 = serveraddr g" "repeattimers g2 = repeattimers g @ [Hold_Conn (addr fda) kClientSign]"
      "sent (conn g2) = sent (conn ?g1) @ [(message kClientSign HELLO 0 [], addr fda)]" by auto
  have "addr fda = recveraddr g2" "addr fda \<noteq> serveraddr g2" using 2(5,7) fda(2) by simp_all
  from hello_reply_starts [OF 2(2,3) this f(1), of n' t2 cp] f(2) 2(6) obtain t m where
    3: "get_step (Msg (Recv (message kClientSign HELLO_REPLY n' []) (addr fda)) t2 (cp, True)) g2 = Inr t" "get_inv t"
      "state t = RECV_FILE" "code t = code g2" "recveraddr t = addr fda" "getManager t = Some m" "receiving m f 0 {}"
      "repeattimers t = repeattimers g2 @ [Send_Retran_Req]"
      "sent (conn t) = sent (conn g2) @ [(message kClientSign DOWNLOAD_START 0 [], addr fda)]" by auto
  show ?thesis using gf 2 3 by (intro exI [of _ ?g1] exI [of _ t] exI [of _ m]) simp
qed

theorem receiver_handshake_witness:
  "\<exists>g1 t. getFile receiver0 9 = Inr g1 \<and>
     foldE get_step
       [Msg (Recv (message kServerSign FILE_DATA 284 (filedataaddr_bytes \<lparr>fileData = demo_data, addr = peer_a\<rparr>)) peer_b) 1 ([], True),
        Msg (Recv (message kClientSign HELLO_REPLY 0 []) peer_a) 2 ([], True)] g1 = Inr t \<and> state t = RECV_FILE"
proof -
  let ?fda = "\<lparr>fileData = demo_data, addr = peer_a\<rparr>"
  have i: "bound (conn receiver0)" "udp_inv (conn receiver0)" "state receiver0 = IDLE" "unat (recvWindow receiver0) < 10"
    by (simp_all add: receiver0_def socket0_inv)
  have f: "wf_FileDataAddr ?fda" "addr ?fda \<noteq> serveraddr receiver0" "fileBytes (fileData ?fda) = of_nat (length demo_content)"
    using peers_wf demo_sizes(4)
    by (simp_all add: wf_FileDataAddr_def wf_FileData_def demo_data_def kFileNameLenth_def receiver0_def)
  from receiver_handshake [OF i f(1,2) known_signs(1) demo_sizes(3) f(3), of 9 284 peer_b 1 "([], True)" 0 2 "[]"]
  show ?thesis by auto
qed

section \<open>Receiving a file\<close>

text \<open>
  Events that carry no data message, and events that carry a given piece of a file. Who
  sends them, and when, is left open.
\<close>

definition no_data :: "get_event \<Rightarrow> bool" where
  "no_data e \<longleftrightarrow>
     (case e of
        Msg r now os \<Rightarrow> (case r of Recv d a \<Rightarrow> length d \<le> kBufferSize \<and> (4 \<le> length d \<longrightarrow> d ! 1 \<noteq> type_code DATA_STREAM)
                         | Recv_Error \<Rightarrow> False)
      | Repeat_Timer i now \<Rightarrow> True)"

definition carries :: "bytes \<Rightarrow> get_event \<Rightarrow> nat option \<Rightarrow> bool" where
  "carries f e k \<longleftrightarrow>
     (case k of None \<Rightarrow> no_data e
      | Some k \<Rightarrow> k < piece_count f \<and> (\<exists>a now os. e = Msg (Recv (piece_msg f (of_nat k)) a) now os))"

definition finished :: "get_conn \<Rightarrow> bytes \<Rightarrow> bool" where
  "finished g f \<longleftrightarrow> state g = IDLE \<and> (\<exists>m. getManager g = Some m \<and> data (fileStream m) = f) \<and>
     (message kClientSign FINISH 0 [], recveraddr g) \<in> set (sent (conn g))"

definition gets :: "get_conn \<Rightarrow> bytes \<Rightarrow> nat \<times> nat set \<Rightarrow> bool" where
  "gets g f st \<longleftrightarrow> state g = RECV_FILE \<and> (\<exists>m. getManager g = Some m \<and> receiving m f (fst st) (snd st))"

text \<open>While a file is received, and afterwards, other events leave the file alone.\<close>

definition same_download :: "get_conn \<Rightarrow> get_conn \<Rightarrow> bool" where
  "same_download g g' \<longleftrightarrow> state g' = state g \<and> getManager g' = getManager g \<and> recveraddr g' = recveraddr g"

lemma send_to_same: "send_to g sg t n parts a = Inr g' \<Longrightarrow> same_download g g'"
  by (auto simp: send_to_def same_download_def outcome_simps)

lemma handler_same:
  assumes v: "msg_view b" and st: "state g = RECV_FILE \<or> state g = IDLE"
    and nd: "understood b \<Longrightarrow> state g = RECV_FILE \<Longrightarrow> msg_type b \<noteq> Some DATA_STREAM"
    and run: "getFileMsgHandle cp cc g b a time = Inr (g', b')"
  shows "same_download g g'"
proof (cases "understood b")
  case False
  with run show ?thesis by (simp add: getFileMsgHandle_def client_frame_eq [OF v] same_download_def)
next
  case u: True
  have hr: "handle_hello_reply cp cc g sg a time = Inr h \<Longrightarrow> same_download g h" for sg h
    using st by (auto simp: handle_hello_reply_def same_download_def)
  have fd: "handle_file_data g b = Inr h \<Longrightarrow> same_download g h" for h
    using st by (auto simp: handle_file_data_def same_download_def)
  have cl: "same_download g (closeSelf g)" by (simp add: closeSelf_def act_def same_download_def)
  have ds: "msg_type b = Some DATA_STREAM \<Longrightarrow> handle_data_stream g b time = Inr (h, b'') \<Longrightarrow> same_download g h" for h b''
    using st nd u by (auto simp: handle_data_stream_def same_download_def)
  have self: "same_download g g" by (simp add: same_download_def)
  show ?thesis
  proof (cases "msg_type b")
    case None
    with run u self show ?thesis by (simp add: getFileMsgHandle_def client_frame_eq [OF v])
  next
    case (Some t)
    with run u hr fd cl ds self send_to_same show ?thesis
      by (cases t) (auto simp: getFileMsgHandle_def client_frame_eq [OF v] keep_buf_def outcome_simps)
  qed
qed

lemma timer_same:
  assumes "get_step (Repeat_Timer i now) g = Inr g'"
  shows "same_download g g'"
proof -
  have pk: "sendPackAck g n = Inr h \<Longrightarrow> same_download g h" for g n h
    unfolding sendPackAck_def by (rule send_to_same)
  have tr: "same_download g h \<Longrightarrow> same_download h k \<Longrightarrow> same_download g k" for g h k
    by (simp add: same_download_def)
  have rt: "sendRetranReq g now = Inr h \<Longrightarrow> same_download g h" for h
    using pk tr send_to_same
    by (auto simp: sendRetranReq_def Let_def outcome_simps same_download_def split: if_splits option.splits)
  have hc: "holdConn g a sg now = Inr h \<Longrightarrow> same_download g h" for a sg h
    using send_to_same
    by (fastforce simp: holdConn_def checkPeerAlive_def closeSelf_def act_def outcome_simps same_download_def)
  show ?thesis
    using assms rt hc
    by (auto simp: get_step.simps same_download_def split: if_splits repeat_timer.splits)
qed

lemma other_event:
  assumes g: "get_inv g" and ok: "get_event_ok e" and st: "state g = RECV_FILE \<or> state g = IDLE"
    and nd: "state g = RECV_FILE \<Longrightarrow> no_data e"
  shows "\<exists>g' ms. get_step e g = Inr g' \<and> get_inv g' \<and> same_download g g' \<and> sent (conn g') = sent (conn g) @ ms"
proof -
  have "get_stop g e = None"
  proof (cases "state g = RECV_FILE")
    case True
    with nd have "no_data e" by simp
    then show ?thesis
    proof (cases e)
      case (Msg r now os)
      with \<open>no_data e\<close> obtain d a where r: "r = Recv d a" "length d \<le> kBufferSize" "\<not> short_data d"
        by (auto simp: no_data_def short_data_def split: recv.splits)
      show ?thesis using stop_received [OF g r(2), of a now os] r Msg by simp
    qed (simp add: get_stop_def)
  next
    case False
    then show ?thesis by (cases e) (simp_all add: get_stop_def stream_stop_def)
  qed
  with get_step_ok [OF g ok] obtain g' where g': "get_step e g = Inr g'" "get_good g g'" by auto
  have "same_download g g'"
  proof (cases e)
    case (Repeat_Timer i now)
    with g'(1) timer_same show ?thesis by simp
  next
    case (Msg r now os)
    have r: "case r of Recv d src \<Rightarrow> length d \<le> kBufferSize | _ \<Rightarrow> True" using ok Msg by (simp add: get_event_ok_def)
    have u: "udp_inv (conn g)" using g by (simp add: get_inv_def)
    let ?b = "fst (seen (conn g) r)"
    have v: "msg_view ?b" by (rule seen_view [OF u r])
    from g'(1) message_run [OF g r, of now os] Msg obtain h b' where
      h: "getFileMsgHandle (fst os) (snd os) g ?b (snd (seen (conn g) r)) now = Inr (h, b')"
      and e: "g' = h\<lparr>conn := (conn h)\<lparr>tmpbuf := retrieveAll b'\<rparr>\<rparr>" by (auto simp: outcome_simps)
    have "msg_type ?b \<noteq> Some DATA_STREAM" if un: "understood ?b" and rc: "state g = RECV_FILE"
    proof -
      from nd [OF rc] Msg obtain d a where d: "r = Recv d a" "4 \<le> length d \<longrightarrow> d ! 1 \<noteq> type_code DATA_STREAM" "length d \<le> kBufferSize"
        by (auto simp: no_data_def split: recv.splits)
      have "4 \<le> length d" using un d received_props(5) [OF u d(3)] by (simp add: understood_def seen_def sizeof_Header_def)
      with received_type(2) [OF u d(3)] d show ?thesis by (simp add: seen_def type_of_iff del: type_code.simps)
    qed
    from handler_same [OF v st this h] show ?thesis by (simp add: e same_download_def)
  qed
  with g' show ?thesis by (auto simp: get_good_def)
qed

text \<open>Any piece of the file, also one numbered behind its end, goes to the file manager.\<close>

lemma piece_msg_length: "8 \<le> length (piece_msg f k)" "length (piece_msg f k) \<le> 1032"
  using length_chunk [of 1024 f "unat k mod 2 ^ 22"] by (simp_all add: piece_msg_def Let_def sizeof_Header_def)

lemma stream_event:
  assumes g: "get_inv g" and st: "state g = RECV_FILE" "getManager g = Some m"
  shows "\<exists>p b. get_step (Msg (Recv (piece_msg f k) a) now os) g =
      bindE (writeToFile m p k) (\<lambda>(ret, m1). Inr ((after_piece g now ret m1)\<lparr>conn := (conn (after_piece g now ret m1))\<lparr>tmpbuf := b\<rparr>\<rparr>)) \<and>
    buffer_inv p \<and> contents p = chunk 1024 f (unat k mod 2 ^ 22) \<and>
    (\<forall>g'. get_inv g' \<longrightarrow> get_inv (g'\<lparr>conn := (conn g')\<lparr>tmpbuf := b\<rparr>\<rparr>))"
proof -
  let ?c = "chunk 1024 f (unat k mod 2 ^ 22)" and ?d = "piece_msg f k"
  have d: "?d = message kClientSign DATA_STREAM (length ?c + sizeof_DataStream) (u32_bytes k @ ?c)" by (simp add: piece_msg_def Let_def)
  have len: "length ?d \<le> kBufferSize" "8 \<le> length ?d" using piece_msg_length [of f k] by (simp_all add: kBufferSize_def)
  have u: "udp_inv (conn g)" using g by (simp add: get_inv_def)
  let ?b = "received (conn g) ?d"
  note p = payload_received [OF u len]
  have dr: "drop 8 ?d = ?c" "slice 4 4 ?d = u32_bytes k"
    unfolding d by (simp_all add: message_def slice_def sizeof_Header_def)
  have rv: "case Recv ?d a of Recv d src \<Rightarrow> length d \<le> kBufferSize | _ \<Rightarrow> True" using len by simp
  have ev: "event_view ?b" using seen_event_view [OF u rv] by (simp add: seen_def)
  then have v: "msg_view ?b" by (simp add: event_view_def)
  have rb: "8 \<le> readableBytes ?b" using received_props(5) [OF u len(1)] len(2) by simp
  have msg: "length (message kClientSign DATA_STREAM (length ?c + sizeof_DataStream) (u32_bytes k @ ?c)) \<le> kBufferSize"
    using len(1) unfolding d .
  have un: "understood ?b" "msg_type ?b = Some DATA_STREAM"
    unfolding d using received_message(2,3) [OF u msg] known_signs(2) by blast+
  have h: "getFileMsgHandle (fst os) (snd os) g ?b a now =
      bindE (writeToFile m (payload ?b) k) (\<lambda>(ret, m1). Inr (after_piece g now ret m1, payload ?b))"
    using data_stream_eq [OF g ev rb st, of now] p(3) dr(2) un
    by (simp add: getFileMsgHandle_def client_frame_eq [OF v])
  have "get_step (Msg (Recv ?d a) now os) g = bindE (writeToFile m (payload ?b) k) (\<lambda>(ret, m1).
      Inr ((after_piece g now ret m1)\<lparr>conn := (conn (after_piece g now ret m1))\<lparr>tmpbuf := retrieveAll (payload ?b)\<rparr>\<rparr>))"
    unfolding message_run [OF g rv] by (cases "writeToFile m (payload ?b) k") (simp_all add: seen_def h split: prod.splits)
  moreover have "\<forall>g'. get_inv g' \<longrightarrow> get_inv (g'\<lparr>conn := (conn g')\<lparr>tmpbuf := retrieveAll (payload ?b)\<rparr>\<rparr>)"
    using view_udp_inv [OF v] by (simp add: get_inv_def)
  ultimately show ?thesis using p(1,2) dr(1) by (intro exI [of _ "payload ?b"] exI [of _ "retrieveAll (payload ?b)"]) simp
qed

lemma piece_event:
  assumes g: "get_inv g" and r: "gets g f st" and k: "k < piece_count f"
  shows "\<exists>g' ret m b. get_step (Msg (Recv (piece_msg f (of_nat k)) a) now os) g = Inr g' \<and> get_inv g' \<and>
    g' = (after_piece g now ret m)\<lparr>conn := (conn (after_piece g now ret m))\<lparr>tmpbuf := b\<rparr>\<rparr> \<and>
    (ret = WRITE_FINISH \<longleftrightarrow> complete f (accept k st)) \<and>
    (if complete f (accept k st) then finished g' f else gets g' f (accept k st))"
proof -
  obtain m c M where st: "state g = RECV_FILE" "getManager g = Some m" "receiving m f c M" "st = (c, M)"
    using r by (cases st) (auto simp: gets_def)
  have "length f \<le> 4294966272" using st(3) by (simp add: receiving_def fits_limit_def)
  then have "k < 2 ^ 22" using k piece_count_small [of f] by simp
  then have kk: "unat (of_nat k :: u32) mod 2 ^ 22 = k" by (simp add: unat_of_nat)
  from stream_event [OF g st(1,2), of f "of_nat k" a now os] obtain p b where
    e: "get_step (Msg (Recv (piece_msg f (of_nat k)) a) now os) g =
      bindE (writeToFile m p (of_nat k)) (\<lambda>(ret, m1). Inr ((after_piece g now ret m1)\<lparr>conn := (conn (after_piece g now ret m1))\<lparr>tmpbuf := b\<rparr>\<rparr>))"
      "buffer_inv p" "contents p = chunk 1024 f k" and keeps: "\<And>g'. get_inv g' \<Longrightarrow> get_inv (g'\<lparr>conn := (conn g')\<lparr>tmpbuf := b\<rparr>\<rparr>)"
    unfolding kk by blast
  obtain c' M' where acc: "accept k (c, M) = (c', M')" by fastforce
  from write_piece [OF st(3) k e(2,3) acc] obtain ret m' where
    w: "writeToFile m p (of_nat k) = Inr (ret, m')"
    and o: "if complete f (c', M') then ret = WRITE_FINISH \<and> \<not> Get_File.isOpen m' \<and> data (fileStream m') = f
      else ret \<noteq> WRITE_FINISH \<and> receiving m' f c' M'" by auto
  have op: "ret \<noteq> WRITE_FINISH \<Longrightarrow> Get_File.isOpen m'"
    using o by (auto simp: receiving_def split: if_splits)
  note ap = after_piece_good [where ret = ret and time = now and m = m', OF g st(1) op]
  let ?g' = "(after_piece g now ret m')\<lparr>conn := (conn (after_piece g now ret m'))\<lparr>tmpbuf := b\<rparr>\<rparr>"
  have run: "get_step (Msg (Recv (piece_msg f (of_nat k)) a) now os) g = Inr ?g'" unfolding e(1) by (simp add: w)
  have inv: "get_inv ?g'" using ap(1) by (intro keeps) (simp add: get_good_def)
  have iff: "ret = WRITE_FINISH \<longleftrightarrow> complete f (accept k st)" using o acc st(4) by (auto split: if_splits)
  have fin: "if complete f (c', M') then finished ?g' f else gets ?g' f (c', M')"
  proof (cases "complete f (c', M')")
    case True
    with o have ret: "ret = WRITE_FINISH" "data (fileStream m') = f" by auto
    have "(message kClientSign FINISH 0 [], recveraddr (after_piece g now ret m')) \<in>
        set (sent (conn (after_piece g now ret m')))"
      using ret(1) by (simp add: after_piece_def Let_def closeSelf_def act_def counted_def)
    moreover have "state (after_piece g now ret m') = IDLE" "getManager (after_piece g now ret m') = Some m'"
      using ap(2,3) ret(1) by simp_all
    ultimately show ?thesis using True ret(2) by (simp add: finished_def)
  next
    case False
    with o ap(2,3) show ?thesis by (simp add: gets_def)
  qed
  show ?thesis
    using run inv iff fin unfolding st(4) acc
    by (intro exI [of _ ?g'] exI [of _ ret] exI [of _ m'] exI [of _ b]) simp
qed

text \<open>The pieces a list of events carries, in order.\<close>

definition pieces :: "nat option list \<Rightarrow> nat list" where
  "pieces ks = map the (filter (\<lambda>k. k \<noteq> None) ks)"

lemma pieces_simps [simp]: "pieces [] = []" "pieces (None # ks) = pieces ks" "pieces (Some k # ks) = k # pieces ks"
  by (simp_all add: pieces_def)

lemma finished_stays:
  assumes "get_inv g" and "finished g f" and "\<forall>e \<in> set es. get_event_ok e"
  shows "\<exists>t. foldE get_step es g = Inr t \<and> get_inv t \<and> finished t f"
  using assms
proof (induction es arbitrary: g)
  case (Cons e es)
  have "state g = RECV_FILE \<or> state g = IDLE" "state g = RECV_FILE \<Longrightarrow> no_data e"
    using Cons.prems(2) by (auto simp: finished_def)
  from other_event [OF Cons.prems(1) _ this] Cons.prems(3) obtain g' ms where
    g': "get_step e g = Inr g'" "get_inv g'" "same_download g g'" "sent (conn g') = sent (conn g) @ ms" by auto
  then have "finished g' f" using Cons.prems(2) by (auto simp: finished_def same_download_def)
  from Cons.IH [OF g'(2) this] Cons.prems(3) g'(1) show ?case by simp
qed simp

lemma carries_ok: "length f \<le> 4294966272 \<Longrightarrow> carries f e k \<Longrightarrow> get_event_ok e"
proof (cases k)
  case None
  assume "carries f e k"
  with None show ?thesis by (auto simp: carries_def no_data_def get_event_ok_def split: get_event.splits recv.splits)
next
  case (Some j)
  assume l: "length f \<le> 4294966272" and c: "carries f e k"
  with Some obtain a now os where "j < piece_count f" "e = Msg (Recv (piece_msg f (of_nat j)) a) now os"
    by (auto simp: carries_def)
  moreover have "length (chunk 1024 f j) \<le> 1024" by (simp add: length_chunk)
  ultimately show ?thesis
    using piece_msg_small [OF _ l, of j] by (simp add: get_event_ok_def sizeof_Header_def kBufferSize_def)
qed

lemma carried_ok:
  assumes "length f \<le> 4294966272" and "list_all2 (carries f) es ks"
  shows "\<forall>e \<in> set es. get_event_ok e"
proof
  fix x assume "x \<in> set es"
  with assms(2) obtain y where "carries f x y" by (auto simp: list_all2_conv_all_nth in_set_conv_nth)
  then show "get_event_ok x" by (rule carries_ok [OF assms(1)])
qed

lemma carried_step:
  assumes g: "get_inv g" "gets g f st" and e: "carries f e k"
  shows "\<exists>g'. get_step e g = Inr g' \<and> get_inv g' \<and>
    (case k of None \<Rightarrow> gets g' f st | Some j \<Rightarrow> if complete f (accept j st) then finished g' f else gets g' f (accept j st))"
proof (cases k)
  case None
  obtain m where "receiving m f (fst st) (snd st)" using g(2) by (auto simp: gets_def)
  then have "length f \<le> 4294966272" by (simp add: receiving_def fits_limit_def)
  from carries_ok [OF this e] have "get_event_ok e" .
  moreover have "state g = RECV_FILE \<or> state g = IDLE" using g(2) by (simp add: gets_def)
  moreover have "no_data e" using e None by (simp add: carries_def)
  ultimately obtain g' ms where "get_step e g = Inr g'" "get_inv g'" "same_download g g'" using other_event [OF g(1)] by blast
  then show ?thesis using g(2) None by (auto simp: gets_def same_download_def)
next
  case (Some j)
  with e obtain a now os where j: "j < piece_count f" "e = Msg (Recv (piece_msg f (of_nat j)) a) now os"
    by (auto simp: carries_def)
  from piece_event [OF g j(1), of a now os] show ?thesis unfolding j(2) Some by auto
qed



section \<open>Asking for what was lost\<close>

lemma loss_pieces_sorted:
  assumes "receiving m f c M"
  shows "getLossPieces m [] = map of_nat (sorted_list_of_set M)"
proof -
  have M: "M \<subseteq> {..<c}" "c \<le> piece_count f" "fits_limit f" using assms by (auto simp: receiving_def)
  then have fin: "finite M" using finite_subset by blast
  have small: "k < 2 ^ 32" if "k \<in> M" for k
    using that M fits_bounds(4) [OF M(3), of k] by auto
  have "sorted_wrt (<) (map (of_nat :: nat \<Rightarrow> u32) (sorted_list_of_set M))"
  proof -
    have "sorted_wrt (\<lambda>j k. (of_nat j :: u32) < of_nat k) (sorted_list_of_set M)"
    proof (rule sorted_wrt_mono_rel [OF _ strict_sorted_list_of_set])
      fix j k assume "j \<in> set (sorted_list_of_set M)" "k \<in> set (sorted_list_of_set M)" "j < k"
      then show "(of_nat j :: u32) < of_nat k" using fin small by (simp add: less_u32)
    qed
    then show ?thesis by (simp add: sorted_wrt_map)
  qed
  moreover have "sorted_wrt (<) (map fst (lossPieces m))"
    using assms by (simp add: receiving_def om_inv_def sorted_wrt_map)
  moreover have "set (map fst (lossPieces m)) = set (map (of_nat :: nat \<Rightarrow> u32) (sorted_list_of_set M))"
    using assms fin by (simp add: receiving_def om_keys_def)
  ultimately show ?thesis unfolding getLossPieces_def append_Nil
    by (rule strict_sorted_equal)
qed

lemma retran_sends:
  assumes g: "get_inv g" and m: "state g = RECV_FILE" "getManager g = Some m" and ps: "getLossPieces m [] = ps" "length ps \<le> 4194303"
  shows "\<exists>g'. sendRetranReq g now = Inr g' \<and> g' = g\<lparr>conn := conn g'\<rparr> \<and> get_inv g' \<and>
    sent (conn g') = sent (conn g) @
      (if lastDataStreamTime g + 100000 < now
       then [(message kClientSign PACK_ACK 4 (u32_bytes 30), recveraddr g)] else []) @
      (if ps = [] then []
       else [(message kClientSign RETRAN (4 * length ps + 4) (u32_bytes (of_nat (length ps)) @ concat (map u32_bytes ps)), recveraddr g)])"
proof -
  let ?n = "of_nat (length ps) :: u32"
  have n: "unat ?n = length ps" using ps(2) by (simp add: unat_of_nat)
  have "?n * 4 + of_nat sizeof_RetransPieces = (of_nat (4 * length ps + 4) :: u32)" by (simp add: sizeof_defs)
  then have n4: "unat (?n * 4 + of_nat sizeof_RetransPieces) = 4 * length ps + 4"
    using ps(2) by (simp add: unat_of_nat del: of_nat_mult of_nat_add)
  let ?late = "lastDataStreamTime g + 100000 < now"
  let ?ack = "[(message kClientSign PACK_ACK 4 (u32_bytes 30), recveraddr g)]"
  have kc: "kFileStreamTimeoutUS = 100000" "kWindowNum * kPiecesPerWindow = 30"
    by (simp_all add: kFileStreamTimeoutUS_def kWindowNum_def kPiecesPerWindow_def)
  have bg: "bound (conn g)" using g by (simp add: get_inv_def)
  define h where "h = (if ?late then with_sent g ?ack else g)"
  have 1: "(if ?late then sendPackAck g 30 else Inr g) = Inr h"
    using send_to_with [OF bg, of "[u32_bytes 30]" kClientSign PACK_ACK 4 "recveraddr g"]
    by (simp add: sendPackAck_def sizeof_defs h_def)
  have h: "get_inv h" "h = g\<lparr>conn := conn h\<rparr>" "recveraddr h = recveraddr g" "sent (conn h) = sent (conn g) @ (if ?late then ?ack else [])"
    using g by (simp_all add: h_def) (simp add: with_sent_def)
  have tk: "take (unat ?n * 4) (concat (map u32_bytes ps)) = concat (map u32_bytes ps)"
    using concat_u32_length [of ps] n by simp
  let ?msg = "(message kClientSign RETRAN (4 * length ps + 4) (u32_bytes ?n @ concat (map u32_bytes ps)), recveraddr g)"
  have bh: "bound (conn h)" using h(1) by (simp add: get_inv_def)
  have len: "length (concat [u32_bytes ?n, concat (map u32_bytes ps)]) < 2 ^ 40"
    using concat_u32_length [of ps] ps(2) by simp
  have s: "send_to h kClientSign RETRAN (4 * length ps + 4) [u32_bytes ?n, concat (map u32_bytes ps)] (recveraddr h) = Inr (with_sent h [?msg])"
    using send_to_with [OF bh len, of kClientSign RETRAN "4 * length ps + 4" "recveraddr h"] h(3) by simp
  have run: "sendRetranReq g now = Inr (if ps = [] then h else with_sent h [?msg])"
    using m unfolding sendRetranReq_def kc by (simp add: 1 ps(1) Let_def n4 tk s split del: if_split) (simp add: n4 tk s)
  have same: "with_sent h [?msg] = g\<lparr>conn := conn (with_sent h [?msg])\<rparr>" by (subst h(2)) (simp add: with_sent_def)
  show ?thesis
    unfolding run using h same by (intro exI [of _ "if ps = [] then h else with_sent h [?msg]"]) simp
qed

lemma retran_request_sent:
  assumes g: "get_inv g" and r: "gets g f (c, M)"
  shows "\<exists>g'. sendRetranReq g now = Inr g' \<and> get_inv g' \<and> gets g' f (c, M) \<and>
    sent (conn g') = sent (conn g) @
      (if lastDataStreamTime g + 100000 < now
       then [(message kClientSign PACK_ACK 4 (u32_bytes 30), recveraddr g)] else []) @
      (if M = {} then []
       else [(message kClientSign RETRAN (4 * card M + 4)
                (u32_bytes (of_nat (card M)) @ concat (map (\<lambda>k. u32_bytes (of_nat k)) (sorted_list_of_set M))),
              recveraddr g)])"
proof -
  obtain m where m: "state g = RECV_FILE" "getManager g = Some m" "receiving m f c M" using r by (auto simp: gets_def)
  let ?ps = "map of_nat (sorted_list_of_set M) :: u32 list"
  have M: "M \<subseteq> {..<c}" "c \<le> piece_count f" "fits_limit f" using m(3) by (auto simp: receiving_def)
  then have fin: "finite M" using finite_subset by blast
  have "card M \<le> c" using card_mono [OF _ M(1)] by simp
  moreover have "piece_count f \<le> 4194303" using M(3) by (intro piece_count_small) (simp add: fits_limit_def)
  ultimately have len: "length ?ps \<le> 4194303" using M(2) by simp
  from retran_sends [OF g m(1,2) loss_pieces_sorted [OF m(3)] len, of now] obtain g' where
    g': "sendRetranReq g now = Inr g'" "g' = g\<lparr>conn := conn g'\<rparr>" "get_inv g'" "sent (conn g') = sent (conn g) @
      (if lastDataStreamTime g + 100000 < now
       then [(message kClientSign PACK_ACK 4 (u32_bytes 30), recveraddr g)] else []) @
      (if ?ps = [] then []
       else [(message kClientSign RETRAN (4 * length ?ps + 4) (u32_bytes (of_nat (length ?ps)) @ concat (map u32_bytes ?ps)), recveraddr g)])"
    by blast
  have "gets g' f (c, M)" by (subst g'(2)) (use m in \<open>simp add: gets_def\<close>)
  with g'(1,3,4) fin show ?thesis by (intro exI [of _ g']) (simp add: comp_def)
qed

end
