(* ===== verification/Transfer_Run.thy ===== *)
theory Transfer_Run
  imports Send_Properties Get_Properties
begin

text \<open>
  A sender and a receiver connected by a network that loses nothing: what the one sends to the
  other is what the other receives next.
\<close>

definition new_msgs :: "udp \<Rightarrow> udp \<Rightarrow> sockaddr \<Rightarrow> bytes list" where
  "new_msgs u u' a = map fst (filter (\<lambda>m. snd m = a) (drop (length (sent u)) (sent u')))"

definition exchange ::
  "sockaddr \<Rightarrow> sockaddr \<Rightarrow> timestamp \<Rightarrow> nat \<Rightarrow> send_conn \<times> get_conn \<Rightarrow> (send_conn \<times> get_conn) outcome" where
  "exchange sa ra now n = (\<lambda>(s, g).
     bindE (foldE send_step (replicate n Run_Stream) s) (\<lambda>s1.
     bindE (foldE get_step (map (\<lambda>d. Get_Conn.Msg (Recv d sa) now ([], False))
              (new_msgs (Send_Conn.conn s) (Send_Conn.conn s1) ra)) g) (\<lambda>g1.
     bindE (foldE send_step (map (\<lambda>d. Send_Conn.Msg (Recv d ra) now)
              (new_msgs (Get_Conn.conn g) (Get_Conn.conn g1) sa)) s1) (\<lambda>s2.
     Inr (s2, g1)))))"

lemma new_msgs_append: "sent u' = sent u @ map (\<lambda>d. (d, a)) ds \<Longrightarrow> new_msgs u u' a = ds"
  by (simp add: new_msgs_def filter_map comp_def)

section \<open>The receiver's answers\<close>

declare send_step.simps [simp del]

lemma accept_next: "accept c (c, {}) = (Suc c, {})"
  by (simp add: accept_def)

definition round_answers :: "bytes \<Rightarrow> nat \<Rightarrow> nat \<Rightarrow> bytes list" where
  "round_answers f w c =
     (if w = 10 then [message kClientSign PACK_ACK 4 (u32_bytes 10)] else []) @
     (if c = piece_count f then [message kClientSign FINISH 0 []] else [])"

lemma piece_answer:
  assumes g: "get_inv g" and r: "gets g f (c, {})" and c: "c < piece_count f"
  shows "\<exists>g'. get_step (Get_Conn.Msg (Recv (piece_msg f (of_nat c)) a) now os) g = Inr g' \<and> get_inv g' \<and>
    Get_Conn.recveraddr g' = Get_Conn.recveraddr g \<and>
    sent (Get_Conn.conn g') = sent (Get_Conn.conn g) @
      map (\<lambda>d. (d, Get_Conn.recveraddr g)) (round_answers f (Suc (unat (recvWindow g))) (Suc c)) \<and>
    unat (recvWindow g') = (if unat (recvWindow g) = 9 then 0 else Suc (unat (recvWindow g))) \<and>
    (if Suc c = piece_count f then finished g' f else gets g' f (Suc c, {}))"
proof -
  from piece_event [OF g r c, of a now os] obtain g' ret m b where
    e: "get_step (Get_Conn.Msg (Recv (piece_msg f (of_nat c)) a) now os) g = Inr g'" "get_inv g'"
    and g': "g' = (after_piece g now ret m)\<lparr>Get_Conn.conn := (Get_Conn.conn (after_piece g now ret m))\<lparr>tmpbuf := b\<rparr>\<rparr>"
    and ret: "ret = WRITE_FINISH \<longleftrightarrow> complete f (accept c (c, {}))"
    and fin: "if complete f (accept c (c, {})) then finished g' f else gets g' f (accept c (c, {}))" by blast
  have cmp: "complete f (accept c (c, {})) \<longleftrightarrow> Suc c = piece_count f"
    by (auto simp: accept_next complete_def)
  have w: "unat (recvWindow g) \<noteq> 9 \<Longrightarrow> unat (recvWindow g + 1) = Suc (unat (recvWindow g))"
    using g by (simp add: get_inv_def unat_word_ariths)
  have 1: "Get_Conn.recveraddr g' = Get_Conn.recveraddr g" "unat (recvWindow g') = (if unat (recvWindow g) = 9 then 0 else Suc (unat (recvWindow g)))"
    using w by (auto simp: g' after_piece_def counted_def Let_def Get_Conn.closeSelf_def Get_Conn.act_def)
  have 2: "sent (Get_Conn.conn g') = sent (Get_Conn.conn g) @
      map (\<lambda>d. (d, Get_Conn.recveraddr g)) (round_answers f (Suc (unat (recvWindow g))) (Suc c))"
    using ret cmp by (auto simp: g' after_piece_def counted_def Let_def Get_Conn.closeSelf_def Get_Conn.act_def
        round_answers_def sizeof_PackageAck_def)
  have "if Suc c = piece_count f then finished g' f else gets g' f (Suc c, {})"
    using fin unfolding cmp unfolding accept_next .
  with e 1 2 show ?thesis by blast
qed

lemma round_received:
  assumes "get_inv g" and "gets g f (c, {})" and "0 < n" and "c + n \<le> piece_count f"
    and "unat (recvWindow g) + n \<le> 10"
  shows "\<exists>g'. foldE get_step (map (\<lambda>d. Get_Conn.Msg (Recv d a) now os) (map (\<lambda>k. piece_msg f (of_nat k)) [c ..< c + n])) g = Inr g' \<and>
    get_inv g' \<and> Get_Conn.recveraddr g' = Get_Conn.recveraddr g \<and>
    sent (Get_Conn.conn g') = sent (Get_Conn.conn g) @
      map (\<lambda>d. (d, Get_Conn.recveraddr g)) (round_answers f (unat (recvWindow g) + n) (c + n)) \<and>
    unat (recvWindow g') = (if unat (recvWindow g) + n = 10 then 0 else unat (recvWindow g) + n) \<and>
    (if c + n = piece_count f then finished g' f else gets g' f (c + n, {}))"
  using assms
proof (induction n arbitrary: g c)
  case 0
  then show ?case by simp
next
  case (Suc n)
  have c: "c < piece_count f" using Suc.prems by simp
  from piece_answer [OF Suc.prems(1,2) c, of a now os] obtain g1 where
    1: "get_step (Get_Conn.Msg (Recv (piece_msg f (of_nat c)) a) now os) g = Inr g1" "get_inv g1"
      "Get_Conn.recveraddr g1 = Get_Conn.recveraddr g"
      "sent (Get_Conn.conn g1) = sent (Get_Conn.conn g) @
        map (\<lambda>d. (d, Get_Conn.recveraddr g)) (round_answers f (Suc (unat (recvWindow g))) (Suc c))"
      "unat (recvWindow g1) = (if unat (recvWindow g) = 9 then 0 else Suc (unat (recvWindow g)))"
    and f1: "if Suc c = piece_count f then finished g1 f else gets g1 f (Suc c, {})" by blast
  show ?case
  proof (cases "n = 0")
    case True
    with 1 f1 show ?thesis by (simp split del: if_split) auto
  next
    case False
    then have lt: "Suc c \<noteq> piece_count f" "unat (recvWindow g) \<noteq> 9" using Suc.prems by auto
    have w1: "unat (recvWindow g1) = Suc (unat (recvWindow g))" using 1(5) lt(2) by simp
    have s1: "sent (Get_Conn.conn g1) = sent (Get_Conn.conn g)"
      using 1(4) lt by (simp add: round_answers_def)
    have "gets g1 f (Suc c, {})" using f1 lt(1) by simp
    from Suc.IH [OF 1(2) this] False Suc.prems w1 obtain g' where
      2: "foldE get_step (map (\<lambda>d. Get_Conn.Msg (Recv d a) now os) (map (\<lambda>k. piece_msg f (of_nat k)) [Suc c ..< Suc c + n])) g1 = Inr g'"
        "get_inv g'" "Get_Conn.recveraddr g' = Get_Conn.recveraddr g1"
        "sent (Get_Conn.conn g') = sent (Get_Conn.conn g1) @
          map (\<lambda>d. (d, Get_Conn.recveraddr g1)) (round_answers f (unat (recvWindow g1) + n) (Suc c + n))"
        "unat (recvWindow g') = (if unat (recvWindow g1) + n = 10 then 0 else unat (recvWindow g1) + n)"
      and f2: "if Suc c + n = piece_count f then finished g' f else gets g' f (Suc c + n, {})" by auto
    have up: "[c ..< c + Suc n] = c # [Suc c ..< Suc c + n]" by (simp add: upt_rec)
    have "foldE get_step (map (\<lambda>d. Get_Conn.Msg (Recv d a) now os) (map (\<lambda>k. piece_msg f (of_nat k)) [c ..< c + Suc n])) g = Inr g'"
      unfolding up using 1(1) 2(1) by simp
    moreover have e: "unat (recvWindow g1) + n = unat (recvWindow g) + Suc n" "Suc c + n = c + Suc n" using w1 by simp_all
    note 2(2-5) [unfolded e 1(3) s1] f2 [unfolded e]
    ultimately show ?thesis by blast
  qed
qed

section \<open>The sender takes the answers\<close>

lemma ack_taken:
  assumes s: "send_inv s f" and st: "Send_Conn.state s = SEND_FILE" and w: "unat (sendWindow s) = 10"
    and nf: "\<not> isWindowFull s"
  shows "\<exists>t. send_step (Send_Conn.Msg (Recv (message kClientSign PACK_ACK 4 (u32_bytes 10)) a) now) s = Inr t \<and>
    send_inv t f \<and> Send_Conn.state t = SEND_FILE \<and> sendWindow t = 0 \<and> \<not> isWindowFull t \<and>
    Send_Conn.recveraddr t = Send_Conn.recveraddr s \<and> sendManager t = sendManager s \<and>
    sent (Send_Conn.conn t) = sent (Send_Conn.conn s) \<and> Send_Conn.actions t = Send_Conn.actions s"
proof -
  let ?d = "message kClientSign PACK_ACK 4 (u32_bytes 10)"
  have len: "length ?d \<le> kBufferSize" by (simp add: sizeof_Header_def kBufferSize_def)
  have u: "udp_inv (Send_Conn.conn s)" using s by (simp add: send_inv_def)
  note f = fields [OF s known_signs(2), where body = "u32_bytes 10" and t = PACK_ACK and n = 4]
  have pk: "peek (received (Send_Conn.conn s) ?d) sizeof_Header 4 = Inr (u32_bytes 10)"
    using f(2) [where k = 4] by simp
  have "unat (sendWindow s) = unat (10 :: u32)" using w by simp
  then have w10: "sendWindow s = 10" by (simp only: word_unat_eq_iff)
  show ?thesis
    using s f(1) [where a = a and now = now] st nf w10 view_udp_inv [OF received_msg_view [OF u len]]
    by (simp add: message_step [OF s len] handle_pack_ack_def pk Let_def send_inv_def)
qed

lemma finish_taken:
  assumes s: "send_inv s f" and st: "Send_Conn.state s = SEND_FILE"
  shows "\<exists>t. send_step (Send_Conn.Msg (Recv (message kClientSign FINISH 0 []) a) now) s = Inr t \<and>
    send_inv t f \<and> Send_Conn.state t = WAIT_RECVER \<and> Send_Conn.repeattimers t = []"
proof -
  let ?d = "message kClientSign FINISH 0 []"
  have len: "length ?d \<le> kBufferSize" by (simp add: sizeof_Header_def kBufferSize_def)
  have u: "udp_inv (Send_Conn.conn s)" using s by (simp add: send_inv_def)
  obtain m where m: "sendManager s = Some m" "manager_ok m f" using s by (auto simp: send_inv_def)
  note f = fields [OF s known_signs(2), where body = "[]" and t = FINISH and n = 0]
  show ?thesis
    using s f(1) [where a = a and now = now] st m manager_init [OF m(2)] view_udp_inv [OF received_msg_view [OF u len]]
    by (simp add: message_step [OF s len] handle_finish_def Send_Conn.closeAllTimer_def send_inv_def)
qed

section \<open>Rounds\<close>

definition linked :: "bytes \<Rightarrow> sockaddr \<Rightarrow> sockaddr \<Rightarrow> nat \<Rightarrow> send_conn \<times> get_conn \<Rightarrow> bool" where
  "linked f sa ra c = (\<lambda>(s, g).
     send_inv s f \<and> Send_Conn.state s = SEND_FILE \<and> Send_Conn.recveraddr s = ra \<and> sendWindow s = 0 \<and>
     \<not> isWindowFull s \<and> (\<exists>m. sendManager s = Some m \<and> streaming m f c) \<and>
     get_inv g \<and> gets g f (c, {}) \<and> Get_Conn.recveraddr g = sa \<and> recvWindow g = 0)"

lemma round_acked:
  assumes s: "send_inv s f" "Send_Conn.state s = SEND_FILE" "unat (sendWindow s) = n" "\<not> isWindowFull s"
    and ra: "Send_Conn.recveraddr s = ra"
  shows "\<exists>t. foldE send_step (map (\<lambda>d. Send_Conn.Msg (Recv d ra) now)
      (if n = 10 then [message kClientSign PACK_ACK 4 (u32_bytes 10)] else [])) s = Inr t \<and>
    send_inv t f \<and> Send_Conn.state t = SEND_FILE \<and> Send_Conn.recveraddr t = ra \<and> \<not> isWindowFull t \<and>
    sendManager t = sendManager s \<and> (n = 10 \<longrightarrow> sendWindow t = 0)"
proof (cases "n = 10")
  case True
  from ack_taken [OF s(1,2) _ s(4), of ra now] s(3) ra True show ?thesis by auto
next
  case False
  with s ra show ?thesis by auto
qed

lemma round:
  assumes l: "linked f sa ra c (s, g)" and n: "0 < n" "n \<le> 10" "c + n \<le> piece_count f"
    and full: "n = 10 \<or> c + n = piece_count f"
  shows "\<exists>t h. exchange sa ra now n (s, g) = Inr (t, h) \<and> send_inv t f \<and> get_inv h \<and>
    (if c + n = piece_count f then finished h f \<and> Send_Conn.state t = WAIT_RECVER else linked f sa ra (c + n) (t, h))"
proof -
  obtain m where s: "send_inv s f" "Send_Conn.state s = SEND_FILE" "Send_Conn.recveraddr s = ra" "sendWindow s = 0"
    "\<not> isWindowFull s" "sendManager s = Some m" "streaming m f c"
    and g: "get_inv g" "gets g f (c, {})" "Get_Conn.recveraddr g = sa" "recvWindow g = 0"
    using l by (auto simp: linked_def)
  have "unat (sendWindow s) + n \<le> 30" using s(4) n by simp
  from stream_run [OF s(1,6,7) this n(3)] obtain s1 where
    1: "foldE send_step (replicate n Run_Stream) s = Inr s1" "send_inv s1 f" "unat (sendWindow s1) = n"
      "Send_Conn.recveraddr s1 = ra" "Send_Conn.state s1 = SEND_FILE" "\<not> isWindowFull s1"
      "1024 * (c + n) \<le> length f \<longrightarrow> (\<exists>m'. sendManager s1 = Some m' \<and> streaming m' f (c + n))"
      "sent (Send_Conn.conn s1) = sent (Send_Conn.conn s) @ map (\<lambda>k. (piece_msg f (of_nat k), ra)) [c ..< c + n]"
    using s by auto
  have out: "new_msgs (Send_Conn.conn s) (Send_Conn.conn s1) ra = map (\<lambda>k. piece_msg f (of_nat k)) [c ..< c + n]"
    by (rule new_msgs_append) (simp add: 1(8) comp_def)
  have w0: "unat (recvWindow g) + n = n" using g(4) by simp
  have w: "unat (recvWindow g) + n \<le> 10" using g(4) n by simp
  from round_received [OF g(1,2) n(1,3) w, of sa now "([], False)", unfolded w0 g(3)] obtain h where
    2: "foldE get_step (map (\<lambda>d. Get_Conn.Msg (Recv d sa) now ([], False)) (map (\<lambda>k. piece_msg f (of_nat k)) [c ..< c + n])) g = Inr h"
      "get_inv h" "Get_Conn.recveraddr h = sa"
      "sent (Get_Conn.conn h) = sent (Get_Conn.conn g) @ map (\<lambda>d. (d, sa)) (round_answers f n (c + n))"
      "unat (recvWindow h) = (if n = 10 then 0 else n)"
    and fin: "if c + n = piece_count f then finished h f else gets h f (c + n, {})"
    by blast
  have bk: "new_msgs (Get_Conn.conn g) (Get_Conn.conn h) sa = round_answers f n (c + n)"
    by (rule new_msgs_append) (rule 2(4))
  let ?fin = "if c + n = piece_count f then [message kClientSign FINISH 0 []] else []"
  let ?ev = "\<lambda>d. Send_Conn.Msg (Recv d ra) now"
  from round_acked [OF 1(2,5,3,6) 1(4), of now] obtain s2 where
    3: "foldE send_step (map ?ev (if n = 10 then [message kClientSign PACK_ACK 4 (u32_bytes 10)] else [])) s1 = Inr s2"
    "send_inv s2 f" "Send_Conn.state s2 = SEND_FILE" "Send_Conn.recveraddr s2 = ra" "\<not> isWindowFull s2"
    "sendManager s2 = sendManager s1" "n = 10 \<longrightarrow> sendWindow s2 = 0" by blast
  have run: "exchange sa ra now n (s, g) = bindE (foldE send_step (map ?ev ?fin) s2) (\<lambda>t. Inr (t, h))"
    using 1(1) 2(1) 3(1)
    by (simp add: exchange_def out bk round_answers_def foldE_append comp_def split del: if_split)
  show ?thesis
  proof (cases "c + n = piece_count f")
    case True
    from finish_taken [OF 3(2,3), of ra now] obtain t where
      "send_step (?ev (message kClientSign FINISH 0 [])) s2 = Inr t" "send_inv t f" "Send_Conn.state t = WAIT_RECVER" by blast
    with run True fin 2(2) show ?thesis by simp
  next
    case False
    with full have n10: "n = 10" by simp
    have "c + n < piece_count f" using False n(3) by simp
    then have "1024 * (c + n) \<le> length f" unfolding piece_count_iff by simp
    with 1(7) obtain m' where "sendManager s1 = Some m'" "streaming m' f (c + n)" by blast
    moreover have "recvWindow h = 0"
    proof -
      have "unat (recvWindow h) = unat (0 :: u32)" using 2(5) n10 by simp
      then show ?thesis by (simp only: word_unat_eq_iff)
    qed
    ultimately have "linked f sa ra (c + n) (s2, h)"
      using 2(2,3) 3 n10 fin False by (auto simp: linked_def)
    with run False 3(2) 2(2) show ?thesis by simp
  qed
qed

text \<open>Rounds of ten pieces, and a last one for the rest.\<close>

definition rounds :: "nat \<Rightarrow> nat list" where
  "rounds k = replicate (k div 10) 10 @ (if k mod 10 = 0 then [] else [k mod 10])"

lemma rounds_small: "0 < k \<Longrightarrow> k < 10 \<Longrightarrow> rounds k = [k]"
  by (simp add: rounds_def)

lemma rounds_step: "10 \<le> k \<Longrightarrow> rounds k = 10 # rounds (k - 10)"
proof -
  assume "10 \<le> k"
  then obtain j where "k = j + 10" by (metis add.commute le_Suc_ex)
  moreover have "(j + 10) div 10 = Suc (j div 10)" by simp
  ultimately show ?thesis by (simp add: rounds_def del: div_add_self2)
qed

text \<open>
  A whole transfer: a sender and a receiver that have shaken hands, over a network that loses
  nothing. In rounds of ten pieces, each answered by its acknowledgement, the complete file is
  transferred, whatever its size up to the limit: the receiver ends idle with the file written
  and \<open>FINISH\<close> sent, the sender takes it and waits for the next receiver.
\<close>

theorem lossless_transfer:
  assumes "linked f sa ra c (s, g)" and "c < piece_count f"
  shows "\<exists>t h. foldE (exchange sa ra now) (rounds (piece_count f - c)) (s, g) = Inr (t, h) \<and>
    finished h f \<and> Send_Conn.state t = WAIT_RECVER \<and> send_inv t f"
  using assms
proof (induction "piece_count f - c" arbitrary: c s g rule: less_induct)
  case less
  let ?k = "piece_count f - c"
  let ?n = "min 10 ?k"
  have n: "0 < ?n" "?n \<le> 10" "c + ?n \<le> piece_count f" "?n = 10 \<or> c + ?n = piece_count f"
    using less.prems(2) by auto
  from round [OF less.prems(1) n, of now] obtain t h where
    r: "exchange sa ra now ?n (s, g) = Inr (t, h)" "send_inv t f"
      "if c + ?n = piece_count f then finished h f \<and> Send_Conn.state t = WAIT_RECVER else linked f sa ra (c + ?n) (t, h)"
    by blast
  show ?case
  proof (cases "c + ?n = piece_count f")
    case True
    then have "rounds ?k = [?n]"
      using less.prems(2) rounds_small [of ?k] by (cases "?k = 10") (auto simp: rounds_def)
    with r True show ?thesis by simp
  next
    case False
    then have k: "10 < ?k" using less.prems(2) by auto
    then have rk: "rounds ?k = ?n # rounds (piece_count f - (c + ?n))"
      using rounds_step [of ?k] by simp
    have l: "linked f sa ra (c + ?n) (t, h)" using r(3) False by simp
    have "piece_count f - (c + ?n) < ?k" "c + ?n < piece_count f" using k n(1,3) False by simp_all
    from less.hyps [OF this(1) l this(2)] show ?thesis using r(1) rk by simp
  qed
qed


lemma demo_linked: "linked demo_content peer_a peer_a 0 (sending, downloading)"
  using demo_inv(2) opened_streaming downloading_inv recv0_receiving
  by (simp add: linked_def gets_def)
    (simp add: sending_def waiting_def sender0_def downloading_def receiver0_def)

theorem lossless_transfer_witness:
  "\<exists>t h. foldE (exchange peer_a peer_a 7) (rounds (piece_count demo_content - 0)) (sending, downloading) = Inr (t, h) \<and>
     finished h demo_content"
  using lossless_transfer [OF demo_linked, of 7] demo_sizes(2) by auto

end
