(* ===== verification/Session.thy ===== *)
theory Session
  imports Transfer_Run Server_Requests
begin

text \<open>
  The three programs at work: a sender and a receiver that find each other through the
  server, over a network that delivers every datagram once and in order. The datagrams are those
  the programs send; what the user does is to share the file and to enter the code. When nothing is
  under way, the sender's loop runs its queued functor.
\<close>

section \<open>Three programs on one network\<close>

record hosts =
  server_at :: sockaddr
  sender_at :: sockaddr
  getter_at :: sockaddr

record session =
  srv :: server
  snd_end :: send_conn
  rcv_end :: get_conn
  wire :: "(sockaddr \<times> sockaddr \<times> bytes) list"   \<comment> \<open>source, destination, datagram\<close>
  streams :: nat                                  \<comment> \<open>queued functors that run \<open>sendFileStream\<close>\<close>

definition posted :: "sockaddr \<Rightarrow> udp \<Rightarrow> udp \<Rightarrow> (sockaddr \<times> sockaddr \<times> bytes) list" where
  "posted a u u' = map (\<lambda>(d, b). (a, b, d)) (drop (length (sent u)) (sent u'))"

definition after_server :: "hosts \<Rightarrow> server outcome \<Rightarrow> session \<Rightarrow> session outcome" where
  "after_server h r st = bindE r (\<lambda>s.
     Inr (st\<lparr>srv := s, wire := wire st @ posted (server_at h) (Server.conn (srv st)) (Server.conn s)\<rparr>))"

definition after_send :: "hosts \<Rightarrow> send_conn outcome \<Rightarrow> session \<Rightarrow> session outcome" where
  "after_send h r st = bindE r (\<lambda>s.
     Inr (st\<lparr>snd_end := s\<lparr>Send_Conn.actions := []\<rparr>,
       streams := streams st + count_list (Send_Conn.actions s) Queue_Stream,
       wire := wire st @ posted (sender_at h) (Send_Conn.conn (snd_end st)) (Send_Conn.conn s)\<rparr>))"

definition after_get :: "hosts \<Rightarrow> get_conn outcome \<Rightarrow> session \<Rightarrow> session outcome" where
  "after_get h r st = bindE r (\<lambda>g.
     Inr (st\<lparr>rcv_end := g\<lparr>Get_Conn.actions := []\<rparr>,
       wire := wire st @ posted (getter_at h) (Get_Conn.conn (rcv_end st)) (Get_Conn.conn g)\<rparr>))"

definition deliver_to ::
  "hosts \<Rightarrow> shuffle \<Rightarrow> timestamp \<Rightarrow> bytes \<Rightarrow> sockaddr \<times> sockaddr \<times> bytes \<Rightarrow> session \<Rightarrow> session outcome" where
  "deliver_to h sh now cp = (\<lambda>(src, dst, d) st.
     if dst = server_at h then after_server h (server_step sh (Readable (Recv d src) now) (srv st)) st
     else if dst = sender_at h then after_send h (send_step (Send_Conn.Msg (Recv d src) now) (snd_end st)) st
     else if dst = getter_at h then after_get h (get_step (Get_Conn.Msg (Recv d src) now (cp, True)) (rcv_end st)) st
     else Inr st)"

definition session_step :: "hosts \<Rightarrow> shuffle \<Rightarrow> timestamp \<Rightarrow> bytes \<Rightarrow> session \<Rightarrow> session outcome" where
  "session_step h sh now cp st =
     (case wire st of
        m # ms \<Rightarrow> deliver_to h sh now cp m (st\<lparr>wire := ms\<rparr>)
      | [] \<Rightarrow> if streams st = 0 then Inr st
              else after_send h (send_step Run_Stream (snd_end st)) (st\<lparr>streams := streams st - 1\<rparr>))"

fun session_run :: "hosts \<Rightarrow> shuffle \<Rightarrow> timestamp \<Rightarrow> bytes \<Rightarrow> nat \<Rightarrow> session \<Rightarrow> session outcome" where
  "session_run h sh now cp 0 st = Inr st"
| "session_run h sh now cp (Suc n) st = bindE (session_step h sh now cp st) (session_run h sh now cp n)"

text \<open>The user's part.\<close>

definition share_file ::
  "hosts \<Rightarrow> crc_state \<Rightarrow> (bytes \<rightharpoonup> bytes) \<Rightarrow> send_file \<Rightarrow> bytes \<Rightarrow> session \<Rightarrow> session outcome" where
  "share_file h crc fs uninit path st =
     bindE (append new_Buffer path) (\<lambda>b. after_send h (shareFile crc fs uninit (snd_end st) b) st)"

definition enter_code :: "hosts \<Rightarrow> session \<Rightarrow> session outcome" where
  "enter_code h st = after_get h (getFile (rcv_end st) (Send_Conn.code (snd_end st))) st"

section \<open>Runs\<close>

definition leads :: "hosts \<Rightarrow> shuffle \<Rightarrow> timestamp \<Rightarrow> bytes \<Rightarrow> session \<Rightarrow> session \<Rightarrow> bool" where
  "leads h sh now cp st st' \<longleftrightarrow> (\<exists>n. session_run h sh now cp n st = Inr st')"

lemma session_run_add:
  "session_run h sh now cp m st = Inr st1 \<Longrightarrow> session_run h sh now cp n st1 = Inr st2 \<Longrightarrow>
    session_run h sh now cp (m + n) st = Inr st2"
  by (induction m arbitrary: st) (auto simp: bindE_eq_Inr)

lemma leads_refl: "leads h sh now cp st st"
  unfolding leads_def by (rule exI [of _ 0]) simp

lemma leads_step: "session_step h sh now cp st = Inr st1 \<Longrightarrow> leads h sh now cp st1 st2 \<Longrightarrow> leads h sh now cp st st2"
  unfolding leads_def by (elim exE) (rule exI [of _ "Suc _"], simp)

lemma leads_trans: "leads h sh now cp st st1 \<Longrightarrow> leads h sh now cp st1 st2 \<Longrightarrow> leads h sh now cp st st2"
  unfolding leads_def using session_run_add by blast

lemma posted_append: "sent u' = sent u @ ms \<Longrightarrow> posted a u u' = map (\<lambda>(d, b). (a, b, d)) ms"
  by (simp add: posted_def)

lemma step_at_server:
  assumes "wire st = (a, server_at h, d) # ms" and "server_step sh (Readable (Recv d a) now) (srv st) = Inr s"
    and "sent (Server.conn s) = sent (Server.conn (srv st)) @ os"
  shows "session_step h sh now cp st = Inr (st\<lparr>srv := s, wire := ms @ map (\<lambda>(d, b). (server_at h, b, d)) os\<rparr>)"
  using assms posted_append [OF assms(3)] by (simp add: session_step_def deliver_to_def after_server_def)

lemma step_at_sender:
  assumes "wire st = (a, sender_at h, d) # ms" and "sender_at h \<noteq> server_at h"
    and "send_step (Send_Conn.Msg (Recv d a) now) (snd_end st) = Inr s"
    and "sent (Send_Conn.conn s) = sent (Send_Conn.conn (snd_end st)) @ os"
  shows "session_step h sh now cp st = Inr (st\<lparr>snd_end := s\<lparr>Send_Conn.actions := []\<rparr>,
    streams := streams st + count_list (Send_Conn.actions s) Queue_Stream, wire := ms @ map (\<lambda>(d, b). (sender_at h, b, d)) os\<rparr>)"
  using assms posted_append [OF assms(4)]
  by (simp add: session_step_def deliver_to_def after_send_def del: send_step.simps)

lemma step_at_getter:
  assumes "wire st = (a, getter_at h, d) # ms" and "getter_at h \<noteq> server_at h" "getter_at h \<noteq> sender_at h"
    and "get_step (Get_Conn.Msg (Recv d a) now (cp, True)) (rcv_end st) = Inr g"
    and "sent (Get_Conn.conn g) = sent (Get_Conn.conn (rcv_end st)) @ os"
  shows "session_step h sh now cp st = Inr (st\<lparr>rcv_end := g\<lparr>Get_Conn.actions := []\<rparr>,
    wire := ms @ map (\<lambda>(d, b). (getter_at h, b, d)) os\<rparr>)"
  using assms posted_append [OF assms(5)] by (simp add: session_step_def deliver_to_def after_get_def)

lemma step_functor:
  assumes "wire st = []" and "0 < streams st" and "send_step Run_Stream (snd_end st) = Inr s"
    and "sent (Send_Conn.conn s) = sent (Send_Conn.conn (snd_end st)) @ os"
  shows "session_step h sh now cp st = Inr (st\<lparr>snd_end := s\<lparr>Send_Conn.actions := []\<rparr>,
    streams := streams st - 1 + count_list (Send_Conn.actions s) Queue_Stream, wire := map (\<lambda>(d, b). (sender_at h, b, d)) os\<rparr>)"
  using assms posted_append [OF assms(4)] by (simp add: session_step_def after_send_def del: send_step.simps)

section \<open>Messages of the handshake\<close>

lemma hello_at_sender:
  assumes s: "send_inv s f"
  shows "\<exists>t. send_step (Send_Conn.Msg (Recv (message kClientSign HELLO n []) p) now) s = Inr t \<and> send_inv t f \<and>
    Send_Conn.state t = Send_Conn.state s \<and> Send_Conn.code t = Send_Conn.code s \<and>
    Send_Conn.recveraddr t = Send_Conn.recveraddr s \<and> Send_Conn.serveraddr t = Send_Conn.serveraddr s \<and>
    Send_Conn.actions t = Send_Conn.actions s \<and> same_stream s t \<and>
    sent (Send_Conn.conn t) = sent (Send_Conn.conn s) @ [(message kClientSign HELLO_REPLY 0 [], p)]"
proof -
  let ?d = "message kClientSign HELLO n []"
  have len: "length ?d \<le> kBufferSize" by (simp add: sizeof_Header_def kBufferSize_def)
  have u: "udp_inv (Send_Conn.conn s)" and b: "bound (Send_Conn.conn s)" using s by (simp_all add: send_inv_def)
  note fl = fields(1) [OF s known_signs(2), where body = "[]" and t = HELLO and n = n and a = p and now = now]
  show ?thesis
    using s fl view_udp_inv [OF received_msg_view [OF u len]] send_to_ok [OF b, of "[]" kClientSign HELLO_REPLY 0 p]
    by (simp del: send_step.simps add: message_step [OF s len] send_inv_def same_stream_def)
qed

lemma hello_at_getter:
  assumes g: "get_inv g"
  shows "\<exists>t. get_step (Get_Conn.Msg (Recv (message kClientSign HELLO n []) p) now os) g = Inr t \<and> get_inv t \<and>
    Get_Conn.state t = Get_Conn.state g \<and> Get_Conn.recveraddr t = Get_Conn.recveraddr g \<and>
    Get_Conn.serveraddr t = Get_Conn.serveraddr g \<and> conn_fileData t = conn_fileData g \<and>
    recvWindow t = recvWindow g \<and>
    sent (Get_Conn.conn t) = sent (Get_Conn.conn g) @ [(message kClientSign HELLO_REPLY 0 [], p)]"
proof -
  let ?d = "message kClientSign HELLO n []"
  have len: "length ?d \<le> kBufferSize" by (simp add: sizeof_Header_def kBufferSize_def)
  have u: "udp_inv (Get_Conn.conn g)" and b: "bound (Get_Conn.conn g)" using g by (simp_all add: get_inv_def)
  note fl = get_fields(1) [OF g known_signs(2), where body = "[]" and t = HELLO and n = n and a = p and now = now and os = os]
  show ?thesis
    using g fl view_udp_inv [OF received_msg_view [OF u len]] Get_Conn_Inv.send_to_eq [OF b, of "[]" kClientSign HELLO_REPLY 0 p]
    by (simp add: get_inv_def)
qed

lemma start_at_sender:
  assumes s: "send_inv s f" and st: "Send_Conn.state s = SEND_FILE" and m: "sendManager s = Some m" "streaming m f 0"
    and w: "sendWindow s = 0" and f: "0 < piece_count f"
  shows "\<exists>t. send_step (Send_Conn.Msg (Recv (message kClientSign DOWNLOAD_START n []) p) now) s = Inr t \<and> send_inv t f \<and>
    Send_Conn.state t = SEND_FILE \<and> Send_Conn.recveraddr t = Send_Conn.recveraddr s \<and>
    Send_Conn.actions t = Send_Conn.actions s @ [Queue_Stream] \<and> unat (sendWindow t) = 1 \<and>
    isWindowFull t = isWindowFull s \<and>
    (1024 \<le> length f \<longrightarrow> (\<exists>m'. sendManager t = Some m' \<and> streaming m' f 1)) \<and>
    sent (Send_Conn.conn t) = sent (Send_Conn.conn s) @ [(piece_msg f 0, Send_Conn.recveraddr s)]"
proof -
  let ?d = "message kClientSign DOWNLOAD_START n []"
  have len: "length ?d \<le> kBufferSize" by (simp add: sizeof_Header_def kBufferSize_def)
  have u: "udp_inv (Send_Conn.conn s)" using s by (simp add: send_inv_def)
  note fl = fields(1) [OF s known_signs(2), where body = "[]" and t = DOWNLOAD_START and n = n and a = p and now = now]
  have "unat (sendWindow s) < 30" using w by simp
  from stream_one [OF s m this f] obtain t where
    t: "sendFileStream s = Inr t" "send_inv t f" "Send_Conn.recveraddr t = Send_Conn.recveraddr s"
      "sent (Send_Conn.conn t) = sent (Send_Conn.conn s) @ [(piece_msg f 0, Send_Conn.recveraddr s)]"
      "unat (sendWindow t) = 1" "Send_Conn.actions t = Send_Conn.actions s @ [Queue_Stream]"
      "Send_Conn.state t = SEND_FILE" "isWindowFull t = isWindowFull s"
      "1024 \<le> length f \<longrightarrow> (\<exists>m'. sendManager t = Some m' \<and> streaming m' f 1)"
    using w st by (auto simp: send_step.simps)
  have self: "s\<lparr>Send_Conn.state := SEND_FILE\<rparr> = s" using st by simp
  have run: "send_step (Send_Conn.Msg (Recv ?d p) now) s =
      Inr (t\<lparr>Send_Conn.conn := (Send_Conn.conn t)\<lparr>tmpbuf := retrieveAll (received (Send_Conn.conn s) ?d)\<rparr>\<rparr>)"
    using fl st t(1) self by (simp del: send_step.simps add: message_step [OF s len] handle_download_start_def)
  show ?thesis
    unfolding run using t view_udp_inv [OF received_msg_view [OF u len]] by (simp add: send_inv_def)
qed

section \<open>The stream\<close>

text \<open>Piece \<open>c\<close> is on its way, everything before has been received and acknowledged by tens.\<close>

definition flow :: "hosts \<Rightarrow> bytes \<Rightarrow> nat \<Rightarrow> session \<Rightarrow> bool" where
  "flow h f c st \<longleftrightarrow>
     wire st = [(sender_at h, getter_at h, piece_msg f (of_nat c))] \<and> streams st = 1 \<and>
     send_inv (snd_end st) f \<and> Send_Conn.state (snd_end st) = SEND_FILE \<and> Send_Conn.actions (snd_end st) = [] \<and>
     Send_Conn.recveraddr (snd_end st) = getter_at h \<and> \<not> isWindowFull (snd_end st) \<and>
     unat (sendWindow (snd_end st)) = Suc (c mod 10) \<and>
     (1024 * Suc c \<le> length f \<longrightarrow> (\<exists>m. sendManager (snd_end st) = Some m \<and> streaming m f (Suc c))) \<and>
     get_inv (rcv_end st) \<and> gets (rcv_end st) f (c, {}) \<and>
     Get_Conn.recveraddr (rcv_end st) = sender_at h \<and> unat (recvWindow (rcv_end st)) = c mod 10"

definition apart :: "hosts \<Rightarrow> bool" where
  "apart h \<longleftrightarrow> sender_at h \<noteq> server_at h \<and> getter_at h \<noteq> server_at h \<and> getter_at h \<noteq> sender_at h"

lemma drop_actions [simp]:
  "send_inv (s\<lparr>Send_Conn.actions := as\<rparr>) f = send_inv s f" "get_inv (g\<lparr>Get_Conn.actions := bs\<rparr>) = get_inv g"
  "gets (g\<lparr>Get_Conn.actions := bs\<rparr>) f p = gets g f p" "finished (g\<lparr>Get_Conn.actions := bs\<rparr>) f = finished g f"
  by (simp_all add: send_inv_def get_inv_def gets_def finished_def)

text \<open>The receiver takes the piece; the sender takes the acknowledgement of ten, if it is one.\<close>

lemma flow_taken:
  assumes h: "apart h" and fl: "flow h f c st" and c: "c < piece_count f"
  shows "\<exists>t g w. leads h sh now cp st (st\<lparr>snd_end := t, rcv_end := g, wire := w\<rparr>) \<and>
    w = (if Suc c = piece_count f then [(getter_at h, sender_at h, message kClientSign FINISH 0 [])] else []) \<and>
    send_inv t f \<and> Send_Conn.state t = SEND_FILE \<and> Send_Conn.recveraddr t = getter_at h \<and> \<not> isWindowFull t \<and>
    Send_Conn.actions t = [] \<and> unat (sendWindow t) = Suc c mod 10 \<and> sendManager t = sendManager (snd_end st) \<and>
    get_inv g \<and> Get_Conn.recveraddr g = sender_at h \<and> unat (recvWindow g) = Suc c mod 10 \<and>
    (if Suc c = piece_count f then finished g f else gets g f (Suc c, {}))"
proof -
  let ?g = "rcv_end st" and ?s = "snd_end st"
  let ?fin = "if Suc c = piece_count f then [(getter_at h, sender_at h, message kClientSign FINISH 0 [])] else []"
  have g: "get_inv ?g" "gets ?g f (c, {})" "unat (recvWindow ?g) = c mod 10" "Get_Conn.recveraddr ?g = sender_at h"
    and w: "wire st = (sender_at h, getter_at h, piece_msg f (of_nat c)) # []" "streams st = 1"
    and s: "send_inv ?s f" "Send_Conn.state ?s = SEND_FILE" "Send_Conn.recveraddr ?s = getter_at h" "\<not> isWindowFull ?s"
      "unat (sendWindow ?s) = Suc (c mod 10)" "Send_Conn.actions ?s = []"
    using fl by (simp_all add: flow_def)
  from piece_answer [OF g(1,2) c, of "sender_at h" now "(cp, True)"] obtain g' where
    1: "get_step (Get_Conn.Msg (Recv (piece_msg f (of_nat c)) (sender_at h)) now (cp, True)) ?g = Inr g'" "get_inv g'"
      "Get_Conn.recveraddr g' = sender_at h"
      "sent (Get_Conn.conn g') = sent (Get_Conn.conn ?g) @ map (\<lambda>d. (d, sender_at h)) (round_answers f (Suc (c mod 10)) (Suc c))"
      "unat (recvWindow g') = (if c mod 10 = 9 then 0 else Suc (c mod 10))"
      "if Suc c = piece_count f then finished g' f else gets g' f (Suc c, {})"
    unfolding g(3,4) by blast
  have m10: "unat (recvWindow g') = Suc c mod 10" using 1(5) by (simp add: mod_Suc)
  let ?g' = "g'\<lparr>Get_Conn.actions := []\<rparr>"
  have r: "map (\<lambda>(d, b). (getter_at h, b, d)) (map (\<lambda>d. (d, sender_at h)) (round_answers f (Suc (c mod 10)) (Suc c))) =
      (if c mod 10 = 9 then [(getter_at h, sender_at h, message kClientSign PACK_ACK 4 (u32_bytes 10))] else []) @ ?fin"
    by (simp add: round_answers_def)
  have ne: "getter_at h \<noteq> server_at h" "getter_at h \<noteq> sender_at h" "sender_at h \<noteq> server_at h"
    using h by (simp_all add: apart_def)
  let ?st1 = "st\<lparr>rcv_end := ?g', wire := (if c mod 10 = 9 then [(getter_at h, sender_at h,
    message kClientSign PACK_ACK 4 (u32_bytes 10))] else []) @ ?fin\<rparr>"
  have step1: "session_step h sh now cp st = Inr ?st1"
    unfolding step_at_getter [OF w(1) ne(1,2) 1(1,4), of sh] r by simp
  show ?thesis
  proof (cases "c mod 10 = 9")
    case False
    have "leads h sh now cp st (st\<lparr>snd_end := ?s, rcv_end := ?g', wire := ?fin\<rparr>)"
      using leads_step [OF step1 leads_refl] False by simp
    moreover have "unat (sendWindow ?s) = Suc c mod 10" using s(5) False by (simp add: mod_Suc)
    ultimately show ?thesis using s 1 m10
      by (intro exI [of _ ?s] exI [of _ ?g'] exI [of _ ?fin]) simp
  next
    case True
    have "unat (sendWindow ?s) = 10" using s(5) True by simp
    from ack_taken [OF s(1,2) this s(4), of "getter_at h" now] obtain t where
      2: "send_step (Send_Conn.Msg (Recv (message kClientSign PACK_ACK 4 (u32_bytes 10)) (getter_at h)) now) ?s = Inr t"
        "send_inv t f" "Send_Conn.state t = SEND_FILE" "sendWindow t = 0" "\<not> isWindowFull t"
        "Send_Conn.recveraddr t = Send_Conn.recveraddr ?s" "sendManager t = sendManager ?s"
        "sent (Send_Conn.conn t) = sent (Send_Conn.conn ?s)" "Send_Conn.actions t = Send_Conn.actions ?s" by blast
    let ?t = "t\<lparr>Send_Conn.actions := []\<rparr>"
    have w1: "wire ?st1 = (getter_at h, sender_at h, message kClientSign PACK_ACK 4 (u32_bytes 10)) # ?fin" using True by simp
    have "sent (Send_Conn.conn t) = sent (Send_Conn.conn (snd_end ?st1)) @ []" using 2(8) by simp
    from step_at_sender [OF w1 ne(3) _ this, of now sh cp] 2(1)
    have "session_step h sh now cp ?st1 = Inr (?st1\<lparr>snd_end := ?t,
        streams := streams st + count_list (Send_Conn.actions t) Queue_Stream, wire := ?fin\<rparr>)"
      by simp
    then have "session_step h sh now cp ?st1 = Inr (st\<lparr>snd_end := ?t, rcv_end := ?g', wire := ?fin\<rparr>)"
      using 2(9) s(6) by simp
    from leads_step [OF step1 leads_step [OF this leads_refl]]
    have "leads h sh now cp st (st\<lparr>snd_end := ?t, rcv_end := ?g', wire := ?fin\<rparr>)" .
    moreover have "Suc c mod 10 = 0" using True by (simp add: mod_Suc)
    ultimately show ?thesis using 2 1 m10 s(3)
      by (intro exI [of _ ?t] exI [of _ ?g'] exI [of _ ?fin]) simp
  qed
qed

lemma flow_next:
  assumes h: "apart h" and fl: "flow h f c st" and c: "Suc c < piece_count f"
  shows "\<exists>st'. leads h sh now cp st st' \<and> flow h f (Suc c) st' \<and> srv st' = srv st"
proof -
  have "c < piece_count f" using c by simp
  from flow_taken [OF h fl this, of sh now cp] c obtain t g where
    1: "leads h sh now cp st (st\<lparr>snd_end := t, rcv_end := g, wire := []\<rparr>)"
      "send_inv t f" "Send_Conn.state t = SEND_FILE" "Send_Conn.recveraddr t = getter_at h" "\<not> isWindowFull t"
      "Send_Conn.actions t = []" "unat (sendWindow t) = Suc c mod 10" "sendManager t = sendManager (snd_end st)"
      "get_inv g" "Get_Conn.recveraddr g = sender_at h" "unat (recvWindow g) = Suc c mod 10" "gets g f (Suc c, {})"
    by auto
  have l: "1024 * Suc c \<le> length f" using c by (simp add: piece_count_iff)
  with fl obtain m where m: "sendManager t = Some m" "streaming m f (Suc c)" using 1(8) by (auto simp: flow_def)
  have "unat (sendWindow t) < 30" unfolding 1(7) by (rule less_trans [of _ 10]) simp_all
  from stream_one [OF 1(2) m this c] obtain u where
    2: "send_step Run_Stream t = Inr u" "send_inv u f" "Send_Conn.recveraddr u = Send_Conn.recveraddr t"
      "sent (Send_Conn.conn u) = sent (Send_Conn.conn t) @ [(piece_msg f (of_nat (Suc c)), Send_Conn.recveraddr t)]"
      "unat (sendWindow u) = Suc (unat (sendWindow t))" "Send_Conn.actions u = Send_Conn.actions t @ [Queue_Stream]"
      "Send_Conn.state u = Send_Conn.state t" "isWindowFull u = isWindowFull t"
      "1024 * Suc (Suc c) \<le> length f \<longrightarrow> (\<exists>m'. sendManager u = Some m' \<and> streaming m' f (Suc (Suc c)))" by blast
  let ?st1 = "st\<lparr>snd_end := t, rcv_end := g, wire := []\<rparr>"
  have a: "0 < streams ?st1" using fl by (simp add: flow_def)
  have b: "send_step Run_Stream (snd_end ?st1) = Inr u" "wire ?st1 = []" using 2(1) by simp_all
  have d: "sent (Send_Conn.conn u) = sent (Send_Conn.conn (snd_end ?st1)) @ [(piece_msg f (of_nat (Suc c)), getter_at h)]"
    using 2(4) 1(4) by simp
  let ?st2 = "st\<lparr>snd_end := u\<lparr>Send_Conn.actions := []\<rparr>, rcv_end := g, streams := 1,
    wire := [(sender_at h, getter_at h, piece_msg f (of_nat (Suc c)))]\<rparr>"
  have "streams st = 1" using fl by (simp add: flow_def)
  then have "session_step h sh now cp ?st1 = Inr ?st2"
    using step_functor [where sh = sh and now = now and cp = cp, OF b(2) a b(1) d] 2(6) 1(6) by simp
  from leads_trans [OF 1(1) leads_step [OF this leads_refl]] have "leads h sh now cp st ?st2" .
  moreover have "flow h f (Suc c) ?st2"
    unfolding flow_def using 1 2 by simp
  ultimately show ?thesis by (intro exI [of _ ?st2]) simp
qed

lemma flow_last:
  assumes h: "apart h" and fl: "flow h f c st" and c: "Suc c = piece_count f"
  shows "\<exists>st'. leads h sh now cp st st' \<and> finished (rcv_end st') f \<and> send_inv (snd_end st') f \<and>
    Send_Conn.state (snd_end st') = WAIT_RECVER \<and> srv st' = srv st"
proof -
  have "c < piece_count f" using c by simp
  from flow_taken [OF h fl this, of sh now cp] c obtain t g where
    1: "leads h sh now cp st (st\<lparr>snd_end := t, rcv_end := g, wire := [(getter_at h, sender_at h, message kClientSign FINISH 0 [])]\<rparr>)"
      "send_inv t f" "Send_Conn.state t = SEND_FILE" "finished g f" by auto
  let ?st1 = "st\<lparr>snd_end := t, rcv_end := g, wire := [(getter_at h, sender_at h, message kClientSign FINISH 0 [])]\<rparr>"
  from finish_taken [OF 1(2,3), of "getter_at h" now] obtain u where
    2: "send_step (Send_Conn.Msg (Recv (message kClientSign FINISH 0 []) (getter_at h)) now) t = Inr u"
      "send_inv u f" "Send_Conn.state u = WAIT_RECVER" by blast
  have "\<exists>w n. session_step h sh now cp ?st1 = Inr (?st1\<lparr>snd_end := u\<lparr>Send_Conn.actions := []\<rparr>, wire := w, streams := n\<rparr>)"
    using 2(1) h
    by (intro exI [of _ "posted (sender_at h) (Send_Conn.conn t) (Send_Conn.conn u)"]
        exI [of _ "streams st + count_list (Send_Conn.actions u) Queue_Stream"])
      (simp add: session_step_def deliver_to_def after_send_def apart_def)
  then obtain w n where "session_step h sh now cp ?st1 = Inr (?st1\<lparr>snd_end := u\<lparr>Send_Conn.actions := []\<rparr>, wire := w, streams := n\<rparr>)"
    by blast
  from leads_trans [OF 1(1) leads_step [OF this leads_refl]] show ?thesis using 2 1(4) by fastforce
qed

lemma flow_all:
  assumes h: "apart h"
  shows "flow h f c st \<Longrightarrow> c < piece_count f \<Longrightarrow>
    \<exists>st'. leads h sh now cp st st' \<and> finished (rcv_end st') f \<and> send_inv (snd_end st') f \<and>
      Send_Conn.state (snd_end st') = WAIT_RECVER \<and> srv st' = srv st"
proof (induction "piece_count f - c" arbitrary: c st rule: less_induct)
  case less
  show ?case
  proof (cases "Suc c = piece_count f")
    case True
    from flow_last [OF h less.prems(1) True] show ?thesis .
  next
    case False
    then have c: "Suc c < piece_count f" using less.prems(2) by simp
    from flow_next [OF h less.prems(1) c, of sh now cp] obtain st1 where
      1: "leads h sh now cp st st1" "flow h f (Suc c) st1" "srv st1 = srv st" by blast
    have "piece_count f - Suc c < piece_count f - c" using c by simp
    from less.hyps [OF this 1(2) c] show ?thesis using leads_trans [OF 1(1)] 1(3) by auto
  qed
qed

end
