(* ===== verification/Get_Effects.thy ===== *)
theory Get_Effects
  imports Get_Conn_Inv
begin

text \<open>What an event of a receiver asks of the client: at most to be closed, under its own code.\<close>

declare get_step.simps [simp del]

definition calm :: "get_conn \<Rightarrow> get_conn \<Rightarrow> bool" where
  "calm g g' \<longleftrightarrow> code g' = code g \<and> serveraddr g' = serveraddr g \<and>
     (\<exists>as. actions g' = actions g @ as \<and> set as \<subseteq> {Close_Get_Conn (code g)})"

lemma calmI:
  assumes "code g' = code g" and "serveraddr g' = serveraddr g" and "actions g' = actions g @ as"
    and "set as \<subseteq> {Close_Get_Conn (code g)}"
  shows "calm g g'"
  using assms unfolding calm_def by blast

lemma calm_same:
  "code g' = code g \<Longrightarrow> serveraddr g' = serveraddr g \<Longrightarrow> actions g' = actions g \<Longrightarrow> calm g g'"
  by (rule calmI [of _ _ "[]"]) simp_all

lemma calm_refl: "calm g g"
  by (rule calm_same) simp_all

lemma calm_trans:
  assumes "calm g g1" and "calm g1 g2"
  shows "calm g g2"
proof -
  from assms obtain as bs where "actions g1 = actions g @ as" "set as \<subseteq> {Close_Get_Conn (code g)}"
    "actions g2 = actions g1 @ bs" "set bs \<subseteq> {Close_Get_Conn (code g1)}" by (auto simp: calm_def)
  with assms show ?thesis by (intro calmI [of _ _ "as @ bs"]) (auto simp: calm_def)
qed

lemma closeSelf_calm: "calm g (closeSelf g)"
  by (rule calmI [of _ _ "if code g \<noteq> 0 then [Close_Get_Conn (code g)] else []"]) (auto simp: closeSelf_def act_def)

lemma send_to_calm: "send_to g sg t n ps a = Inr g' \<Longrightarrow> calm g g'"
  by (auto simp: send_to_def outcome_simps intro: calm_same)

lemma checkPeerAlive_calm: "calm g (checkPeerAlive g now)"
  by (simp add: checkPeerAlive_def closeSelf_calm calm_refl)

lemma holdConn_calm: "holdConn g a sg now = Inr g' \<Longrightarrow> calm g g'"
  by (auto simp: holdConn_def outcome_simps intro: calm_trans send_to_calm checkPeerAlive_calm)

lemma start_download_calm:
  assumes "start_download cp cc g = Inr g'"
  shows "calm g g'"
proof -
  obtain m where m: "m = new_GetFileManager cp cc (conn_fileData g) kBytesPerPiece" by blast
  have c: "calm g (g\<lparr>getManager := Some m\<rparr>)" by (rule calm_same) simp_all
  show ?thesis
  proof (cases "isOpen m")
    case True
    let ?g = "g\<lparr>getManager := Some m, repeattimers := repeattimers g @ [Send_Retran_Req]\<rparr>"
    from assms True obtain g2 where s: "send_to ?g kClientSign DOWNLOAD_START 0 [] (recveraddr g) = Inr g2"
      and g': "g' = g2\<lparr>state := RECV_FILE\<rparr>"
      by (auto simp: start_download_def m [symmetric] outcome_simps)
    have "calm g ?g" "calm g2 g'" by (rule calm_same; simp add: g')+
    with send_to_calm [OF s] show ?thesis by (blast intro: calm_trans)
  next
    case False
    then have "g' = closeSelf (g\<lparr>getManager := Some m\<rparr>)"
      using assms by (simp add: start_download_def m [symmetric])
    with calm_trans [OF c closeSelf_calm] show ?thesis by simp
  qed
qed

lemma hello_reply_calm:
  assumes "handle_hello_reply cp cc g sg a time = Inr g'"
  shows "calm g g'"
proof -
  from assms obtain g1 where g1: "(if state g = CONN_SENDER \<and> sg = kClientSign \<and> a = recveraddr g
            then start_download cp cc g else Inr g) = Inr g1"
    and g': "g' = (if a = serveraddr g1 then g1\<lparr>lastServerHelloTime := time\<rparr>
          else if a = recveraddr g1 then g1\<lparr>lastPeerHelloTime := time\<rparr> else g1)"
    unfolding handle_hello_reply_def bindE_eq_Inr sum.inject by blast
  have "calm g g1" using g1 start_download_calm calm_refl by (auto split: if_splits)
  moreover have "calm g1 g'" unfolding g' by (rule calm_same) simp_all
  ultimately show ?thesis by (rule calm_trans)
qed

lemma file_data_calm:
  assumes "handle_file_data g b = Inr g'"
  shows "calm g g'"
proof (cases "state g = WAIT_SENDER")
  case False
  with assms calm_refl show ?thesis by (simp add: handle_file_data_def)
next
  case True
  with assms obtain p d g2 where s: "send_to (g\<lparr>recveraddr := p, conn_fileData := d\<rparr>) kClientSign HELLO 0 [] p = Inr g2"
    and g': "g' = g2\<lparr>repeattimers := repeattimers g2 @ [Hold_Conn (recveraddr g2) kClientSign], state := CONN_SENDER\<rparr>"
    by (auto simp: handle_file_data_def Let_def outcome_simps)
  have "calm g (g\<lparr>recveraddr := p, conn_fileData := d\<rparr>)" "calm g2 g'" by (rule calm_same; simp add: g')+
  with send_to_calm [OF s] show ?thesis by (blast intro: calm_trans)
qed

lemma count_piece_calm:
  assumes "count_piece g = Inr g'"
  shows "calm g g'"
proof -
  let ?g = "g\<lparr>recvWindow := recvWindow g + 1\<rparr>"
  have c: "calm g ?g" by (rule calm_same) simp_all
  from assms consider "g' = ?g" | g2 where "sendPackAck ?g (recvWindow ?g) = Inr g2" "g' = g2\<lparr>recvWindow := 0\<rparr>"
    by (auto simp: count_piece_def Let_def outcome_simps split: if_splits)
  then show ?thesis
  proof cases
    case 1
    with c show ?thesis by simp
  next
    case (2 g2)
    have "calm g2 g'" using 2(2) by (intro calm_same) simp_all
    with c send_to_calm [OF 2(1) [unfolded sendPackAck_def]] show ?thesis by (blast intro: calm_trans)
  qed
qed

lemma data_stream_calm:
  assumes "handle_data_stream g b time = Inr (g', b')"
  shows "calm g g'"
proof (cases "state g = RECV_FILE")
  case False
  with assms calm_refl show ?thesis by (simp add: handle_data_stream_def)
next
  case True
  let ?g = "g\<lparr>lastDataStreamTime := time\<rparr>"
  obtain m where m: "getManager g = Some m"
    using assms True by (cases "getManager g") (simp_all add: handle_data_stream_def)
  with assms True obtain g1 m1 g3 where c: "count_piece ?g = Inr g1"
    and r: "g' = g1\<lparr>getManager := Some m1\<rparr> \<or>
      send_to (g1\<lparr>getManager := Some m1, state := IDLE\<rparr>) kClientSign FINISH 0 [] (recveraddr g1) = Inr g3 \<and>
      g' = closeSelf g3"
    unfolding handle_data_stream_def by (auto simp: Let_def outcome_simps split: if_splits)
  have "calm g ?g" by (rule calm_same) simp_all
  with count_piece_calm [OF c] have 1: "calm g g1" by (blast intro: calm_trans)
  have 2: "calm g1 (g1\<lparr>getManager := Some m1\<rparr>)" "calm g1 (g1\<lparr>getManager := Some m1, state := IDLE\<rparr>)"
    by (rule calm_same; simp)+
  have "calm g1 g'"
    using r
  proof
    assume "g' = g1\<lparr>getManager := Some m1\<rparr>"
    with 2(1) show ?thesis by simp
  next
    assume "send_to (g1\<lparr>getManager := Some m1, state := IDLE\<rparr>) kClientSign FINISH 0 [] (recveraddr g1) = Inr g3 \<and>
      g' = closeSelf g3"
    with calm_trans [OF calm_trans [OF 2(2) send_to_calm] closeSelf_calm] show ?thesis by blast
  qed
  with 1 show ?thesis by (rule calm_trans)
qed

lemma client_frame_Inr:
  "client_frame b skip k = Inr r \<Longrightarrow> skip = Inr r \<or> (\<exists>sg t. k sg t = Inr r)"
  unfolding client_frame_def by (auto simp: Let_def outcome_simps split: if_splits)

lemma message_calm:
  assumes "getFileMsgHandle cp cc g b a time = Inr (g', b')"
  shows "calm g g'"
proof -
  note t = data_stream_calm [of g b time g' b'] hello_reply_calm [of cp cc g _ a time g'] file_data_calm [of g b g']
    send_to_calm [of g _ HELLO_REPLY 0 "[]" a g'] closeSelf_calm calm_refl
  from client_frame_Inr [OF assms [unfolded getFileMsgHandle_def]] show ?thesis
  proof (elim disjE exE)
    assume "Inr (g, b) = (Inr (g', b') :: (get_conn \<times> buffer) outcome)"
    with calm_refl show ?thesis by simp
  next
    fix sg ty
    assume "(case ty of
         Some HELLO \<Rightarrow> keep_buf b (send_to g sg HELLO_REPLY 0 [] a)
       | Some HELLO_REPLY \<Rightarrow> keep_buf b (handle_hello_reply cp cc g sg a time)
       | Some FILE_DATA \<Rightarrow> keep_buf b (handle_file_data g b)
       | Some DATA_STREAM \<Rightarrow> handle_data_stream g b time
       | Some ERROR_FORMAT \<Rightarrow> Inr (closeSelf g, b)
       | Some ERROR_404 \<Rightarrow> Inr (closeSelf g, b)
       | _ \<Rightarrow> Inr (g, b)) = Inr (g', b')"
    with t show ?thesis
      by (cases ty; cases "the ty") (auto simp: keep_buf_def outcome_simps)
  qed
qed

lemma sendRetranReq_calm:
  assumes "sendRetranReq g now = Inr g'"
  shows "calm g g'"
proof (cases "state g = RECV_FILE \<and> getManager g \<noteq> None")
  case False
  with assms calm_refl show ?thesis by (auto simp: sendRetranReq_def split: if_splits option.splits)
next
  case True
  then obtain m where m: "getManager g = Some m" by blast
  with assms True obtain g1 ps k where
    1: "(if lastDataStreamTime g + kFileStreamTimeoutUS < now
                 then sendPackAck g (kWindowNum * kPiecesPerWindow) else Inr g) = Inr g1"
    and 2: "g' = g1 \<or> send_to g1 kClientSign RETRAN k ps (recveraddr g1) = Inr g'"
    unfolding sendRetranReq_def by (auto simp: Let_def outcome_simps split: if_splits)
  have "calm g g1" using 1 calm_refl send_to_calm by (auto simp: sendPackAck_def split: if_splits)
  with 2 show ?thesis using send_to_calm calm_trans by blast
qed

theorem get_step_effect:
  assumes g: "get_inv g" and e: "get_event_ok e" and r: "get_step e g = Inr g'"
  shows "calm g g'"
proof (cases e)
  case (Msg rc now os)
  have rc: "case rc of Recv d src \<Rightarrow> length d \<le> kBufferSize | _ \<Rightarrow> True"
    using e Msg by (simp add: get_event_ok_def)
  from r Msg obtain g1 b' where
    1: "getFileMsgHandle (fst os) (snd os) g (fst (seen (conn g) rc)) (snd (seen (conn g) rc)) now = Inr (g1, b')"
    and g': "g' = g1\<lparr>conn := (conn g1)\<lparr>tmpbuf := retrieveAll b'\<rparr>\<rparr>"
    by (auto simp: message_run [OF g rc] outcome_simps)
  have "calm g1 g'" unfolding g' by (rule calm_same) simp_all
  with message_calm [OF 1] show ?thesis by (rule calm_trans)
next
  case (Repeat_Timer i now)
  with r show ?thesis
    by (auto simp: get_step.simps intro: calm_refl holdConn_calm sendRetranReq_calm
        split: if_splits repeat_timer.splits)
qed

section \<open>A new connection\<close>

definition fresh_getter :: "udp \<Rightarrow> sockaddr \<Rightarrow> sockaddr \<Rightarrow> FileData \<Rightarrow> get_conn" where
  "fresh_getter u server uninit info = \<lparr>conn = u, state = IDLE, code = 0, conn_fileData = info,
     serveraddr = server, recveraddr = uninit, repeattimers = [], getManager = None, recvWindow = 0,
     lastServerHelloTime = invalid, lastPeerHelloTime = invalid, lastDataStreamTime = invalid,
     hasCallback = False, actions = []\<rparr>"

lemma new_getter:
  assumes "0 \<le> fd" and "0 \<le> os k (ports 0)"
  shows "\<exists>u. new_GetConnManager fd ports os server uninit info = Inr (fresh_getter u server uninit info) \<and>
    bound u \<and> udp_inv u \<and> sent u = []"
proof -
  from new_socket [where fd = fd and os = os and k = k and ports = ports, OF assms] obtain u v where
    "new_UdpCom fd (ports 0) (os 0) = Inr u" "bind_loop ports os 1 u = Some v"
    "bound v" "udp_inv v" "sent v = []" by blast
  then show ?thesis by (simp add: new_GetConnManager_def fresh_getter_def)
qed

lemma getFile_sends:
  assumes "bound u" and "udp_inv u" and "sent u = []"
  shows "\<exists>g. getFile (fresh_getter u server uninit info) k = Inr g \<and> get_inv g \<and> state g = WAIT_SENDER \<and>
    code g = k \<and> actions g = [] \<and> serveraddr g = server \<and> recvWindow g = 0 \<and>
    sent (conn g) = [(message kServerSign GET_FILE sizeof_ShareCode (u32_bytes k), server)]"
proof -
  let ?g = "(fresh_getter u server uninit info)\<lparr>code := k, hasCallback := True\<rparr>"
  let ?ms = "[(message kServerSign GET_FILE sizeof_ShareCode (u32_bytes k), server)]"
  have "send_to ?g kServerSign GET_FILE sizeof_ShareCode [u32_bytes k] server = Inr (with_sent ?g ?ms)"
    using send_to_with [of ?g "[u32_bytes k]"] assms by (simp add: fresh_getter_def)
  then have "getFile (fresh_getter u server uninit info) k = Inr ((with_sent ?g ?ms)\<lparr>state := WAIT_SENDER\<rparr>)"
    using assms by (simp add: getFile_def fresh_getter_def)
  moreover have "get_inv ((with_sent ?g ?ms)\<lparr>state := WAIT_SENDER\<rparr>)"
    using assms by (simp add: get_inv_def fresh_getter_def udp_inv_def)
  ultimately show ?thesis using assms by (simp add: fresh_getter_def)
qed

end
