(* ===== verification/Session_Properties.thy ===== *)
theory Session_Properties
  imports Session Send_Effects Get_Effects Server_Properties
begin

text \<open>
  How the two ends find each other through the server, and the session from the user's share to
  the file on the receiver's disk.
\<close>

section \<open>Finding each other\<close>

lemma share_leads:
  assumes h: "apart h" "wf_sockaddr (sender_at h)"
    and srv: "is_shuffle sh" "full_inv (srv st)" "code_room (srv st)" "\<not> over_limit (srv st) (sender_at h)"
    and fd: "wf_FileData fd" "\<not> bad_file fd"
    and s: "send_inv (snd_end st) f" "Send_Conn.state (snd_end st) = Send_Conn.WAIT_CODE" "Send_Conn.serveraddr (snd_end st) = server_at h"
      "Send_Conn.actions (snd_end st) = []"
    and w: "wire st = [(sender_at h, server_at h, share_msg fd)]"
  shows "\<exists>c u t. leads h sh now cp st (st\<lparr>srv := u, snd_end := t, wire := []\<rparr>) \<and> full_inv u \<and>
    abs_registry u = (abs_registry (srv st))(c \<mapsto> (sender_at h, fd)) \<and> send_inv t f \<and>
    Send_Conn.state t = Send_Conn.WAIT_RECVER \<and> Send_Conn.code t = c \<and> Send_Conn.serveraddr t = server_at h \<and>
    Send_Conn.actions t = [] \<and> same_stream (snd_end st) t"
proof -
  from share_accepted [OF srv(1-3) h(2) fd srv(4), of now] obtain c u where
    1: "server_step sh (Readable (Recv (share_msg fd) (sender_at h)) now) (srv st) = Inr u" "full_inv u"
      "abs_registry u = (abs_registry (srv st))(c \<mapsto> (sender_at h, fd))"
      "sent (Server.conn u) = sent (Server.conn (srv st)) @
        [(message kServerSign SHARE_CODE sizeof_ShareCode (u32_bytes c), sender_at h)]" by blast
  let ?d = "message kServerSign SHARE_CODE sizeof_ShareCode (u32_bytes c)"
  let ?st1 = "st\<lparr>srv := u, wire := [(server_at h, sender_at h, ?d)]\<rparr>"
  have step1: "session_step h sh now cp st = Inr ?st1"
    using step_at_server [OF w 1(1,4), of cp] by simp
  from share_code_msg [OF s(1,2) known_signs(1), of sizeof_ShareCode c "server_at h" now] obtain t where
    2: "send_step (Send_Conn.Msg (Recv ?d (server_at h)) now) (snd_end st) = Inr t" "send_inv t f"
      "Send_Conn.state t = Send_Conn.WAIT_RECVER" "Send_Conn.code t = c" "Send_Conn.serveraddr t = Send_Conn.serveraddr (snd_end st)"
      "Send_Conn.actions t = Send_Conn.actions (snd_end st) @ [Move_Pend_Conn (sock (snd_end st)) c]"
      "sent (Send_Conn.conn t) = sent (Send_Conn.conn (snd_end st))" "same_stream (snd_end st) t" by blast
  have w1: "wire ?st1 = (server_at h, sender_at h, ?d) # []" by simp
  have r1: "send_step (Send_Conn.Msg (Recv ?d (server_at h)) now) (snd_end ?st1) = Inr t"
    "sent (Send_Conn.conn t) = sent (Send_Conn.conn (snd_end ?st1)) @ []" using 2(1,7) by simp_all
  have ne: "sender_at h \<noteq> server_at h" using h(1) by (simp add: apart_def)
  let ?t = "t\<lparr>Send_Conn.actions := []\<rparr>"
  have "session_step h sh now cp ?st1 = Inr (st\<lparr>srv := u, snd_end := ?t, wire := []\<rparr>)"
    using step_at_sender [OF w1 ne r1, of sh cp] 2(6) s(4) by simp
  from leads_step [OF step1 leads_step [OF this leads_refl]]
  have "leads h sh now cp st (st\<lparr>srv := u, snd_end := ?t, wire := []\<rparr>)" .
  moreover have "same_stream (snd_end st) ?t" using 2(8) by (simp add: same_stream_def)
  ultimately show ?thesis using 1(2,3) 2 s(3)
    by (intro exI [of _ c] exI [of _ u] exI [of _ ?t]) simp
qed

text \<open>The sender is ready to stream from the start, with an empty window.\<close>

definition poised :: "send_conn \<Rightarrow> bytes \<Rightarrow> bool" where
  "poised s f \<longleftrightarrow> send_inv s f \<and> sendWindow s = 0 \<and> \<not> isWindowFull s \<and> Send_Conn.actions s = [] \<and>
     (\<exists>m. sendManager s = Some m \<and> streaming m f 0)"

lemma poised_next:
  "poised s f \<Longrightarrow> send_inv t f \<Longrightarrow> same_stream s t \<Longrightarrow> poised (t\<lparr>Send_Conn.actions := []\<rparr>) f"
  by (auto simp: poised_def same_stream_def)

definition about :: "bytes \<Rightarrow> FileData \<Rightarrow> bool" where
  "about f fd \<longleftrightarrow> wf_FileData fd \<and> fileBytes fd = of_nat (length f) \<and> fits_limit f"

definition introduced :: "hosts \<Rightarrow> bytes \<Rightarrow> session \<Rightarrow> bool" where
  "introduced h f st \<longleftrightarrow>
     wire st = [(getter_at h, sender_at h, message kClientSign HELLO 0 []),
       (sender_at h, getter_at h, message kClientSign HELLO 0 [])] \<and> streams st = 0 \<and>
     poised (snd_end st) f \<and> Send_Conn.state (snd_end st) = Send_Conn.CONN_RECVER \<and>
     Send_Conn.recveraddr (snd_end st) = getter_at h \<and> Send_Conn.serveraddr (snd_end st) = server_at h \<and>
     get_inv (rcv_end st) \<and> Get_Conn.state (rcv_end st) = Get_Conn.CONN_SENDER \<and> recvWindow (rcv_end st) = 0 \<and>
     Get_Conn.recveraddr (rcv_end st) = sender_at h \<and> Get_Conn.serveraddr (rcv_end st) = server_at h \<and>
     about f (conn_fileData (rcv_end st))"

lemma introduce:
  assumes h: "apart h" "wf_sockaddr (sender_at h)" "wf_sockaddr (getter_at h)"
    and srv: "full_inv (srv st)" "abs_registry (srv st) c = Some (sender_at h, fd)" "about f fd"
    and s: "poised (snd_end st) f" "Send_Conn.state (snd_end st) = Send_Conn.WAIT_RECVER"
      "Send_Conn.serveraddr (snd_end st) = server_at h"
    and g: "get_inv (rcv_end st)" "Get_Conn.state (rcv_end st) = Get_Conn.WAIT_SENDER" "recvWindow (rcv_end st) = 0"
      "Get_Conn.serveraddr (rcv_end st) = server_at h"
    and w: "wire st = [(getter_at h, server_at h, get_msg c)]" "streams st = 0"
  shows "\<exists>st'. leads h sh now cp st st' \<and> introduced h f st' \<and> abs_registry (srv st') = abs_registry (srv st)"
proof -
  have ne: "sender_at h \<noteq> server_at h" "getter_at h \<noteq> server_at h" "getter_at h \<noteq> sender_at h"
    using h(1) by (simp_all add: apart_def)
  let ?fda = "\<lparr>fileData = fd, addr = sender_at h\<rparr>"
  let ?d1 = "message kServerSign FILE_DATA sizeof_FileDataAddr (filedataaddr_bytes ?fda)"
  let ?d2 = "message kServerSign FILE_REQ sizeof_PeerAddr (sockaddr_bytes (getter_at h))"
  let ?hello = "message kClientSign HELLO 0 []"
  from get_served [OF srv(1) h(3) srv(2), of sh now] obtain u where
    1: "server_step sh (Readable (Recv (get_msg c) (getter_at h)) now) (srv st) = Inr u"
      "abs_registry u = abs_registry (srv st)"
      "sent (Server.conn u) = sent (Server.conn (srv st)) @ [(?d1, getter_at h), (?d2, sender_at h)]" by blast
  let ?st1 = "st\<lparr>srv := u, wire := [(server_at h, getter_at h, ?d1), (server_at h, sender_at h, ?d2)]\<rparr>"
  have step1: "session_step h sh now cp st = Inr ?st1"
    using step_at_server [OF w(1) 1(1,3), of cp] by simp
  have fda: "wf_FileDataAddr ?fda" using srv(3) h(2) by (simp add: about_def wf_FileDataAddr_def)
  from file_data_msg [OF g(1,2) known_signs(1) fda, of sizeof_FileDataAddr "server_at h" now "(cp, True)"] obtain g' where
    2: "get_step (Get_Conn.Msg (Recv ?d1 (server_at h)) now (cp, True)) (rcv_end ?st1) = Inr g'" "get_inv g'"
      "Get_Conn.state g' = Get_Conn.CONN_SENDER" "Get_Conn.recveraddr g' = sender_at h" "conn_fileData g' = fd"
      "Get_Conn.serveraddr g' = Get_Conn.serveraddr (rcv_end st)" "recvWindow g' = recvWindow (rcv_end st)"
      "sent (Get_Conn.conn g') = sent (Get_Conn.conn (rcv_end ?st1)) @ [(?hello, sender_at h)]" by auto
  have w1: "wire ?st1 = (server_at h, getter_at h, ?d1) # [(server_at h, sender_at h, ?d2)]" by simp
  let ?st2 = "?st1\<lparr>rcv_end := g'\<lparr>Get_Conn.actions := []\<rparr>,
    wire := [(server_at h, sender_at h, ?d2), (getter_at h, sender_at h, ?hello)]\<rparr>"
  have step2: "session_step h sh now cp ?st1 = Inr ?st2"
    using step_at_getter [OF w1 ne(2,3) 2(1,8), of sh] by simp
  have inv: "send_inv (snd_end st) f" using s(1) by (simp add: poised_def)
  from file_req_msg [OF inv s(2) known_signs(1) h(3), of sizeof_PeerAddr "server_at h" now] obtain t where
    3: "send_step (Send_Conn.Msg (Recv ?d2 (server_at h)) now) (snd_end ?st2) = Inr t" "send_inv t f"
      "Send_Conn.state t = Send_Conn.CONN_RECVER" "Send_Conn.recveraddr t = getter_at h"
      "Send_Conn.actions t = Send_Conn.actions (snd_end st)" "same_stream (snd_end st) t"
      "Send_Conn.serveraddr t = Send_Conn.serveraddr (snd_end st)"
      "sent (Send_Conn.conn t) = sent (Send_Conn.conn (snd_end ?st2)) @ [(?hello, getter_at h)]" by auto
  have w2: "wire ?st2 = (server_at h, sender_at h, ?d2) # [(getter_at h, sender_at h, ?hello)]" by simp
  let ?st3 = "?st2\<lparr>snd_end := t\<lparr>Send_Conn.actions := []\<rparr>,
    wire := [(getter_at h, sender_at h, ?hello), (sender_at h, getter_at h, ?hello)]\<rparr>"
  have "Send_Conn.actions (snd_end st) = []" using s(1) by (simp add: poised_def)
  then have step3: "session_step h sh now cp ?st2 = Inr ?st3"
    using step_at_sender [OF w2 ne(1) 3(1,8), of sh cp] 3(5) by simp
  have "introduced h f ?st3"
    using 2 3 g s(3) srv(3) w(2) poised_next [OF s(1) 3(2,6)] by (simp add: introduced_def)
  moreover have "leads h sh now cp st ?st3"
    by (rule leads_step [OF step1 leads_step [OF step2 leads_step [OF step3 leads_refl]]])
  ultimately show ?thesis using 1(2) by (intro exI [of _ ?st3]) simp
qed

text \<open>The hellos cross; each side answers the other's, and the answers start the download.\<close>

definition greeted :: "hosts \<Rightarrow> bytes \<Rightarrow> session \<Rightarrow> bool" where
  "greeted h f st \<longleftrightarrow>
     wire st = [(sender_at h, getter_at h, message kClientSign HELLO_REPLY 0 []),
       (getter_at h, sender_at h, message kClientSign HELLO_REPLY 0 [])] \<and> streams st = 0 \<and>
     poised (snd_end st) f \<and> Send_Conn.state (snd_end st) = Send_Conn.CONN_RECVER \<and>
     Send_Conn.recveraddr (snd_end st) = getter_at h \<and> Send_Conn.serveraddr (snd_end st) = server_at h \<and>
     get_inv (rcv_end st) \<and> Get_Conn.state (rcv_end st) = Get_Conn.CONN_SENDER \<and> recvWindow (rcv_end st) = 0 \<and>
     Get_Conn.recveraddr (rcv_end st) = sender_at h \<and> Get_Conn.serveraddr (rcv_end st) = server_at h \<and>
     about f (conn_fileData (rcv_end st))"

lemma greet:
  assumes h: "apart h" and i: "introduced h f st"
  shows "\<exists>st'. leads h sh now cp st st' \<and> greeted h f st' \<and> srv st' = srv st"
proof -
  have ne: "sender_at h \<noteq> server_at h" "getter_at h \<noteq> server_at h" "getter_at h \<noteq> sender_at h"
    using h(1) by (simp_all add: apart_def)
  let ?hello = "message kClientSign HELLO 0 []" and ?reply = "message kClientSign HELLO_REPLY 0 []"
  have w: "wire st = (getter_at h, sender_at h, ?hello) # [(sender_at h, getter_at h, ?hello)]"
    and s: "poised (snd_end st) f" and g: "get_inv (rcv_end st)" using i by (simp_all add: introduced_def)
  have inv: "send_inv (snd_end st) f" using s(1) by (simp add: poised_def)
  from hello_at_sender [OF inv, of 0 "getter_at h" now] obtain t where
    1: "send_step (Send_Conn.Msg (Recv ?hello (getter_at h)) now) (snd_end st) = Inr t" "send_inv t f"
      "Send_Conn.state t = Send_Conn.state (snd_end st)" "Send_Conn.recveraddr t = Send_Conn.recveraddr (snd_end st)"
      "Send_Conn.serveraddr t = Send_Conn.serveraddr (snd_end st)"
      "Send_Conn.actions t = Send_Conn.actions (snd_end st)" "same_stream (snd_end st) t"
      "sent (Send_Conn.conn t) = sent (Send_Conn.conn (snd_end st)) @ [(?reply, getter_at h)]" by blast
  let ?st1 = "st\<lparr>snd_end := t\<lparr>Send_Conn.actions := []\<rparr>,
    wire := [(sender_at h, getter_at h, ?hello), (sender_at h, getter_at h, ?reply)]\<rparr>"
  have "Send_Conn.actions (snd_end st) = []" using s(1) by (simp add: poised_def)
  then have step1: "session_step h sh now cp st = Inr ?st1"
    using step_at_sender [OF w ne(1) 1(1,8), of sh cp] 1(6) by simp
  from hello_at_getter [OF g, of 0 "sender_at h" now "(cp, True)"] obtain g' where
    2: "get_step (Get_Conn.Msg (Recv ?hello (sender_at h)) now (cp, True)) (rcv_end ?st1) = Inr g'" "get_inv g'"
      "Get_Conn.state g' = Get_Conn.state (rcv_end st)" "Get_Conn.recveraddr g' = Get_Conn.recveraddr (rcv_end st)"
      "Get_Conn.serveraddr g' = Get_Conn.serveraddr (rcv_end st)" "conn_fileData g' = conn_fileData (rcv_end st)"
      "recvWindow g' = recvWindow (rcv_end st)"
      "sent (Get_Conn.conn g') = sent (Get_Conn.conn (rcv_end ?st1)) @ [(?reply, sender_at h)]" by auto
  have w1: "wire ?st1 = (sender_at h, getter_at h, ?hello) # [(sender_at h, getter_at h, ?reply)]" by simp
  let ?st2 = "?st1\<lparr>rcv_end := g'\<lparr>Get_Conn.actions := []\<rparr>,
    wire := [(sender_at h, getter_at h, ?reply), (getter_at h, sender_at h, ?reply)]\<rparr>"
  have step2: "session_step h sh now cp ?st1 = Inr ?st2"
    using step_at_getter [OF w1 ne(2,3) 2(1,8), of sh] by simp
  have "greeted h f ?st2"
    using 1 2 i poised_next [OF s 1(2,7)] by (simp add: greeted_def introduced_def)
  moreover have "leads h sh now cp st ?st2" by (rule leads_step [OF step1 leads_step [OF step2 leads_refl]])
  ultimately show ?thesis by (intro exI [of _ ?st2]) simp
qed

lemma start_flow:
  assumes h: "apart h" and i: "greeted h f st"
  shows "\<exists>st'. leads h sh now cp st st' \<and> flow h f 0 st' \<and> srv st' = srv st"
proof -
  have ne: "sender_at h \<noteq> server_at h" "getter_at h \<noteq> server_at h" "getter_at h \<noteq> sender_at h"
    using h(1) by (simp_all add: apart_def)
  let ?reply = "message kClientSign HELLO_REPLY 0 []" and ?start = "message kClientSign DOWNLOAD_START 0 []"
  have w: "wire st = (sender_at h, getter_at h, ?reply) # [(getter_at h, sender_at h, ?reply)]"
    and g: "get_inv (rcv_end st)" "Get_Conn.state (rcv_end st) = Get_Conn.CONN_SENDER"
      "sender_at h = Get_Conn.recveraddr (rcv_end st)" "sender_at h \<noteq> Get_Conn.serveraddr (rcv_end st)"
    and f: "fits_limit f" "fileBytes (conn_fileData (rcv_end st)) = of_nat (length f)"
    and s: "poised (snd_end st) f" "Send_Conn.state (snd_end st) = Send_Conn.CONN_RECVER"
      "getter_at h = Send_Conn.recveraddr (snd_end st)" "getter_at h \<noteq> Send_Conn.serveraddr (snd_end st)"
    using i ne by (simp_all add: greeted_def about_def)
  have inv: "send_inv (snd_end st) f" using s(1) by (simp add: poised_def)
  from hello_reply_starts [OF g f, of 0 now cp] obtain g' m where
    1: "get_step (Get_Conn.Msg (Recv ?reply (sender_at h)) now (cp, True)) (rcv_end st) = Inr g'" "get_inv g'"
      "Get_Conn.state g' = Get_Conn.RECV_FILE" "Get_Conn.recveraddr g' = sender_at h"
      "getManager g' = Some m" "receiving m f 0 {}" "recvWindow g' = recvWindow (rcv_end st)"
      "sent (Get_Conn.conn g') = sent (Get_Conn.conn (rcv_end st)) @ [(?start, sender_at h)]" by blast
  let ?st1 = "st\<lparr>rcv_end := g'\<lparr>Get_Conn.actions := []\<rparr>,
    wire := [(getter_at h, sender_at h, ?reply), (getter_at h, sender_at h, ?start)]\<rparr>"
  have step1: "session_step h sh now cp st = Inr ?st1"
    using step_at_getter [OF w ne(2,3) 1(1,8), of sh] by simp
  from hello_reply_msg [OF inv s(2,3,4), of 0 now] obtain t where
    2: "send_step (Send_Conn.Msg (Recv ?reply (getter_at h)) now) (snd_end ?st1) = Inr t" "send_inv t f"
      "Send_Conn.state t = Send_Conn.SEND_FILE" "Send_Conn.recveraddr t = getter_at h"
      "Send_Conn.actions t = Send_Conn.actions (snd_end st)" "same_stream (snd_end st) t"
      "sent (Send_Conn.conn t) = sent (Send_Conn.conn (snd_end ?st1)) @ []" by auto
  have w1: "wire ?st1 = (getter_at h, sender_at h, ?reply) # [(getter_at h, sender_at h, ?start)]" by simp
  let ?t = "t\<lparr>Send_Conn.actions := []\<rparr>"
  let ?st2 = "?st1\<lparr>snd_end := ?t, wire := [(getter_at h, sender_at h, ?start)]\<rparr>"
  have "Send_Conn.actions (snd_end st) = []" using s(1) by (simp add: poised_def)
  then have step2: "session_step h sh now cp ?st1 = Inr ?st2"
    using step_at_sender [OF w1 ne(1) 2(1,7), of sh cp] 2(5) by simp
  have p: "poised ?t f" using poised_next [OF s(1) 2(2,6)] .
  then obtain m' where m': "send_inv ?t f" "sendManager ?t = Some m'" "streaming m' f 0" "sendWindow ?t = 0"
      "\<not> isWindowFull ?t" by (auto simp: poised_def)
  have pc: "0 < piece_count f" using f(1) by (simp add: fits_limit_def piece_count_iff)
  have st: "Send_Conn.state ?t = Send_Conn.SEND_FILE" using 2(3) by simp
  from start_at_sender [OF m'(1) st m'(2,3,4) pc, of 0 "getter_at h" now] obtain v where
    3: "send_step (Send_Conn.Msg (Recv ?start (getter_at h)) now) ?t = Inr v" "send_inv v f"
      "Send_Conn.state v = Send_Conn.SEND_FILE" "Send_Conn.recveraddr v = Send_Conn.recveraddr ?t"
      "Send_Conn.actions v = Send_Conn.actions ?t @ [Queue_Stream]" "unat (sendWindow v) = 1" "isWindowFull v = isWindowFull ?t"
      "1024 \<le> length f \<longrightarrow> (\<exists>m'. sendManager v = Some m' \<and> streaming m' f 1)"
      "sent (Send_Conn.conn v) = sent (Send_Conn.conn ?t) @ [(piece_msg f 0, Send_Conn.recveraddr ?t)]" by blast
  have w2: "wire ?st2 = (getter_at h, sender_at h, ?start) # []" by simp
  have r2: "send_step (Send_Conn.Msg (Recv ?start (getter_at h)) now) (snd_end ?st2) = Inr v"
    "sent (Send_Conn.conn v) = sent (Send_Conn.conn (snd_end ?st2)) @ [(piece_msg f 0, getter_at h)]"
    using 3(1,9) 2(4) by simp_all
  let ?st3 = "?st2\<lparr>snd_end := v\<lparr>Send_Conn.actions := []\<rparr>, streams := 1,
    wire := [(sender_at h, getter_at h, piece_msg f 0)]\<rparr>"
  have "streams st = 0" using i by (simp add: greeted_def)
  then have step3: "session_step h sh now cp ?st2 = Inr ?st3"
    using step_at_sender [OF w2 ne(1) r2, of sh cp] 3(5) by simp
  have "recvWindow g' = 0" using 1(7) i by (simp add: greeted_def)
  then have "flow h f 0 ?st3"
    using 1 2(4) 3 m'(5) by (simp add: flow_def gets_def)
  moreover have "leads h sh now cp st ?st3"
    by (rule leads_step [OF step1 leads_step [OF step2 leads_step [OF step3 leads_refl]]])
  ultimately show ?thesis by (intro exI [of _ ?st3]) simp
qed

section \<open>The whole session\<close>

definition fresh_session ::
  "hosts \<Rightarrow> server \<Rightarrow> int \<Rightarrow> udp \<Rightarrow> udp \<Rightarrow> sockaddr \<Rightarrow> FileData \<Rightarrow> session" where
  "fresh_session h s fd u v ua info =
     \<lparr>srv = s, snd_end = fresh_sender fd u (server_at h) ua, rcv_end = fresh_getter v (server_at h) ua info,
      wire = [], streams = 0\<rparr>"

definition shared_data :: "bytes \<Rightarrow> bytes \<Rightarrow> FileData" where
  "shared_data path f =
     \<lparr>fileName = path_filename path @ replicate (256 - length (path_filename path)) 0,
      fileBytes = of_nat (length f), fileCRC32 = crc32_ref f\<rparr>"

definition shareable :: "bytes \<Rightarrow> bytes \<Rightarrow> bool" where
  "shareable path f \<longleftrightarrow> length path < 2 ^ 32 \<and> path_filename path \<noteq> [] \<and> hd (path_filename path) \<noteq> 0 \<and>
     length (path_filename path) \<le> 256 \<and> fits_limit f"

lemma shared_data_ok:
  assumes "shareable path f"
  shows "about f (shared_data path f)" "\<not> bad_file (shared_data path f)"
    "share_request path f = share_msg (shared_data path f)"
proof -
  obtain x xs where x: "path_filename path = x # xs" "x \<noteq> 0"
    using assms by (cases "path_filename path") (auto simp: shareable_def)
  have l: "length (path_filename path) \<le> 256" "fits_limit f" using assms by (simp_all add: shareable_def)
  then show "about f (shared_data path f)"
    by (simp add: about_def shared_data_def wf_FileData_def kFileNameLenth_def)
  have "0 < length f" "length f < 2 ^ 64" using l(2) by (simp_all add: fits_limit_def)
  then have "fileBytes (shared_data path f) \<noteq> 0"
    by (simp add: shared_data_def word_of_nat_eq_0_iff nat_dvd_not_less)
  then show "\<not> bad_file (shared_data path f)"
    using x by (simp add: bad_file_def shared_data_def)
  show "share_request path f = share_msg (shared_data path f)"
    by (simp add: share_request_def share_msg_def shared_data_def)
qed

lemma shared_start:
  assumes p: "shareable path f" "fs path = Some f" "crc_ok crc"
    and u: "bound u" "udp_inv u" "sent u = []"
  shows "\<exists>t. share_file h crc fs uf path (fresh_session h s fd u v ua info) =
      Inr ((fresh_session h s fd u v ua info)\<lparr>snd_end := t, wire := [(sender_at h, server_at h, share_msg (shared_data path f))]\<rparr>) \<and>
    poised t f \<and> Send_Conn.state t = Send_Conn.WAIT_CODE \<and> Send_Conn.serveraddr t = server_at h"
proof -
  let ?st = "fresh_session h s fd u v ua info"
  let ?s = "fresh_sender fd u (server_at h) ua"
  have pre: "Send_Conn.state ?s = Send_Conn.IDLE" "bound (Send_Conn.conn ?s)" "udp_inv (Send_Conn.conn ?s)" "sendWindow ?s = 0"
    using u by (simp_all add: fresh_sender_def)
  have lim: "length (path_filename path) \<le> 256" "length f \<le> 4294966272"
    using p(1) by (simp_all add: shareable_def fits_limit_def)
  have "length path < 2 ^ 32" using p(1) by (simp add: shareable_def)
  from append_new [OF this] obtain b where b: "append new_Buffer path = Inr b" "buffer_inv b" "contents b = path" by blast
  from shareFile_opens [where fs = fs and crc = crc and u = uf, OF pre b(2,3) p(2,3) lim] obtain t where
    t: "shareFile crc fs uf ?s b = Inr t" "send_inv t f" "Send_Conn.state t = Send_Conn.WAIT_CODE"
      "sent (Send_Conn.conn t) = sent (Send_Conn.conn ?s) @ [(share_request path f, Send_Conn.serveraddr ?s)]"
      "Send_Conn.serveraddr t = Send_Conn.serveraddr ?s" "Send_Conn.actions t = Send_Conn.actions ?s" "sendWindow t = 0"
      "isWindowFull t = isWindowFull ?s" "\<exists>m. sendManager t = Some m \<and> streaming m f 0" by blast
  have "poised (t\<lparr>Send_Conn.actions := []\<rparr>) f"
    using t by (simp add: poised_def fresh_sender_def)
  moreover have "share_file h crc fs uf path ?st =
      Inr (?st\<lparr>snd_end := t\<lparr>Send_Conn.actions := []\<rparr>, wire := [(sender_at h, server_at h, share_msg (shared_data path f))]\<rparr>)"
    using t(1,6) posted_append [OF t(4)] shared_data_ok(3) [OF p(1)]
    by (simp add: share_file_def b(1) fresh_session_def after_send_def) (simp add: fresh_sender_def)
  ultimately show ?thesis using t(3,5)
    by (intro exI [of _ "t\<lparr>Send_Conn.actions := []\<rparr>"]) (simp add: fresh_sender_def)
qed

lemma entered:
  assumes v: "bound v" "udp_inv v" "sent v = []" and g: "rcv_end st = fresh_getter v (server_at h) ua info"
    and w: "wire st = []"
  shows "\<exists>g. enter_code h st = Inr (st\<lparr>rcv_end := g, wire := [(getter_at h, server_at h, get_msg (Send_Conn.code (snd_end st)))]\<rparr>) \<and>
    get_inv g \<and> Get_Conn.state g = Get_Conn.WAIT_SENDER \<and> recvWindow g = 0 \<and> Get_Conn.serveraddr g = server_at h"
proof -
  let ?c = "Send_Conn.code (snd_end st)"
  from getFile_sends [OF v, of "server_at h" ua info ?c] obtain g where
    1: "getFile (fresh_getter v (server_at h) ua info) ?c = Inr g" "get_inv g" "Get_Conn.state g = Get_Conn.WAIT_SENDER"
      "Get_Conn.actions g = []" "Get_Conn.serveraddr g = server_at h" "recvWindow g = 0"
      "sent (Get_Conn.conn g) = [(message kServerSign GET_FILE sizeof_ShareCode (u32_bytes ?c), server_at h)]" by blast
  have "sent (Get_Conn.conn g) = sent (Get_Conn.conn (fresh_getter v (server_at h) ua info)) @ [(get_msg ?c, server_at h)]"
    using 1(7) v(3) by (simp add: fresh_getter_def get_msg_def)
  from posted_append [OF this] have "enter_code h st =
      Inr (st\<lparr>rcv_end := g\<lparr>Get_Conn.actions := []\<rparr>, wire := [(getter_at h, server_at h, get_msg ?c)]\<rparr>)"
    by (simp add: enter_code_def after_get_def g 1(1) w)
  then show ?thesis using 1 by (intro exI [of _ "g\<lparr>Get_Conn.actions := []\<rparr>"]) simp
qed

text \<open>From the share command to the code, and from the code at the receiver to the file.\<close>

lemma shared_session:
  assumes h: "apart h" "wf_sockaddr (sender_at h)"
    and srv: "is_shuffle sh" "full_inv s" "code_room s" "\<not> over_limit s (sender_at h)"
    and sf: "shareable path f" "fs path = Some f" "crc_ok crc"
    and u: "bound u" "udp_inv u" "sent u = []"
  shows "\<exists>st1 st2. share_file h crc fs uf path (fresh_session h s fd u v ua info) = Inr st1 \<and> leads h sh now cp st1 st2 \<and>
    full_inv (srv st2) \<and> abs_registry (srv st2) = (abs_registry s)(Send_Conn.code (snd_end st2) \<mapsto> (sender_at h, shared_data path f)) \<and>
    poised (snd_end st2) f \<and> Send_Conn.state (snd_end st2) = Send_Conn.WAIT_RECVER \<and> Send_Conn.serveraddr (snd_end st2) = server_at h \<and>
    rcv_end st2 = fresh_getter v (server_at h) ua info \<and> wire st2 = [] \<and> streams st2 = 0"
proof -
  let ?st = "fresh_session h s fd u v ua info"
  from shared_start [where fs = fs and crc = crc and uf = uf and h = h and s = s and v = v and ua = ua, OF sf u]
  obtain t where 1: "share_file h crc fs uf path ?st =
      Inr (?st\<lparr>snd_end := t, wire := [(sender_at h, server_at h, share_msg (shared_data path f))]\<rparr>)"
      "poised t f" "Send_Conn.state t = Send_Conn.WAIT_CODE" "Send_Conn.serveraddr t = server_at h" by blast
  let ?st1 = "?st\<lparr>snd_end := t, wire := [(sender_at h, server_at h, share_msg (shared_data path f))]\<rparr>"
  note d = shared_data_ok [OF sf(1)]
  have wf: "wf_FileData (shared_data path f)" using d(1) by (simp add: about_def)
  have a: "is_shuffle sh" "full_inv (srv ?st1)" "code_room (srv ?st1)" "\<not> over_limit (srv ?st1) (sender_at h)"
    using srv by (simp_all add: fresh_session_def)
  have b: "send_inv (snd_end ?st1) f" "Send_Conn.state (snd_end ?st1) = Send_Conn.WAIT_CODE"
      "Send_Conn.serveraddr (snd_end ?st1) = server_at h" "Send_Conn.actions (snd_end ?st1) = []"
      "wire ?st1 = [(sender_at h, server_at h, share_msg (shared_data path f))]"
    using 1 by (simp_all add: poised_def)
  from share_leads [OF h a wf d(2) b, of now cp] obtain c s' t' where
    2: "leads h sh now cp ?st1 (?st1\<lparr>srv := s', snd_end := t', wire := []\<rparr>)" "full_inv s'"
      "abs_registry s' = (abs_registry s)(c \<mapsto> (sender_at h, shared_data path f))" "send_inv t' f"
      "Send_Conn.state t' = Send_Conn.WAIT_RECVER" "Send_Conn.code t' = c" "Send_Conn.serveraddr t' = server_at h"
      "Send_Conn.actions t' = []" "same_stream (snd_end ?st1) t'"
    by (auto simp: fresh_session_def)
  have "poised t' f" using 1(2) 2(4,8,9) by (auto simp: poised_def same_stream_def)
  with 1(1) 2 show ?thesis
    by (intro exI [of _ ?st1] exI [of _ "?st1\<lparr>srv := s', snd_end := t', wire := []\<rparr>"]) (simp add: fresh_session_def)
qed

lemma fetched_session:
  assumes h: "apart h" "wf_sockaddr (sender_at h)" "wf_sockaddr (getter_at h)"
    and srv: "full_inv (srv st)" "abs_registry (srv st) c = Some (sender_at h, fd)" "about f fd"
    and s: "poised (snd_end st) f" "Send_Conn.state (snd_end st) = Send_Conn.WAIT_RECVER"
      "Send_Conn.serveraddr (snd_end st) = server_at h"
    and g: "get_inv (rcv_end st)" "Get_Conn.state (rcv_end st) = Get_Conn.WAIT_SENDER" "recvWindow (rcv_end st) = 0"
      "Get_Conn.serveraddr (rcv_end st) = server_at h"
    and w: "wire st = [(getter_at h, server_at h, get_msg c)]" "streams st = 0"
  shows "\<exists>st'. leads h sh now cp st st' \<and> finished (rcv_end st') f \<and> Send_Conn.state (snd_end st') = Send_Conn.WAIT_RECVER \<and>
    abs_registry (srv st') = abs_registry (srv st)"
proof -
  from introduce [OF assms, of sh now cp] obtain st4 where
    4: "leads h sh now cp st st4" "introduced h f st4" "abs_registry (srv st4) = abs_registry (srv st)" by auto
  from greet [OF h(1) 4(2), of sh now cp] obtain st5 where
    5: "leads h sh now cp st4 st5" "greeted h f st5" "srv st5 = srv st4" by blast
  from start_flow [OF h(1) 5(2), of sh now cp] obtain st6 where
    6: "leads h sh now cp st5 st6" "flow h f 0 st6" "srv st6 = srv st5" by blast
  have "0 < piece_count f" using srv(3) by (simp add: about_def fits_limit_def piece_count_iff)
  from flow_all [OF h(1) 6(2) this, of sh now cp] obtain st7 where
    7: "leads h sh now cp st6 st7" "finished (rcv_end st7) f" "Send_Conn.state (snd_end st7) = Send_Conn.WAIT_RECVER"
      "srv st7 = srv st6" by (auto simp: Send_Conn.ConnState.distinct)
  have "leads h sh now cp st st7" using leads_trans 4(1) 5(1) 6(1) 7(1) by blast
  then show ?thesis using 7 6(3) 5(3) 4(3) by auto
qed


definition demo_hosts :: hosts where
  "demo_hosts = \<lparr>server_at = Sockaddr 2 [0x13, 0x88, 10, 0, 0, 9, 0, 0, 0, 0, 0, 0, 0, 0],
     sender_at = peer_a, getter_at = peer_b\<rparr>"

lemma demo_hosts_ok: "apart demo_hosts" "wf_sockaddr (sender_at demo_hosts)" "wf_sockaddr (getter_at demo_hosts)"
  "sender_at demo_hosts = peer_a"
  using peers_wf by (simp_all add: demo_hosts_def apart_def) (simp_all add: peer_a_def peer_b_def)

lemma demo_shareable: "shareable [0x61] demo_content"
  using demo_sizes(3) by (simp add: shareable_def path_filename_def)


end
