(* ===== verification/Lossy.thy ===== *)
theory Lossy
  imports Session_Properties
begin

text \<open>
  A sender and a receiver over any network: datagrams between them are lost, repeated and delivered in any order,
  their timers fire at any time, and the sender's queued functors run at any time, in their order. The
  server answers the sender's heart beats. An end that asks the client to close it takes no further part.
\<close>

section \<open>The network\<close>

definition kMaxDatagram :: nat where "kMaxDatagram = 65507"

record talk =
  t_snd :: send_conn
  t_rcv :: get_conn
  todo :: "Send_Conn.action list"
  to_snd :: "bytes list"   \<comment> \<open>every datagram the receiver has sent to the sender\<close>
  to_rcv :: "bytes list"   \<comment> \<open>and the sender to the receiver\<close>
  snd_gone :: bool
  rcv_gone :: bool

datatype talk_event =
    To_Snd nat timestamp
  | To_Rcv nat timestamp
  | Server_Reply timestamp
  | Snd_Beat timestamp
  | Snd_Timer nat timestamp
  | Rcv_Timer nat timestamp
  | Functor

text \<open>UDP takes no datagram longer than that; the others may arrive.\<close>

definition carried :: "bytes list \<Rightarrow> bytes list" where
  "carried = filter (\<lambda>d. length d \<le> kMaxDatagram)"

fun functor_action :: "Send_Conn.action \<Rightarrow> bool" where
  "functor_action Queue_Stream = True"
| "functor_action (Queue_Loss ps) = True"
| "functor_action _ = False"

fun close_action :: "Send_Conn.action \<Rightarrow> bool" where
  "close_action (Close_Send_Conn k) = True"
| "close_action (Close_Pend_Conn fd) = True"
| "close_action _ = False"

definition snd_does :: "hosts \<Rightarrow> send_event \<Rightarrow> talk \<Rightarrow> talk outcome" where
  "snd_does h e tk =
     (if snd_gone tk then Inr tk
      else bindE (send_step e (t_snd tk)) (\<lambda>s.
        Inr (tk\<lparr>t_snd := s\<lparr>Send_Conn.actions := []\<rparr>,
          todo := todo tk @ filter functor_action (Send_Conn.actions s),
          to_rcv := to_rcv tk @ carried (new_msgs (Send_Conn.conn (t_snd tk)) (Send_Conn.conn s) (getter_at h)),
          snd_gone := (\<exists>a \<in> set (Send_Conn.actions s). close_action a)\<rparr>)))"

definition rcv_does :: "hosts \<Rightarrow> get_event \<Rightarrow> talk \<Rightarrow> talk outcome" where
  "rcv_does h e tk =
     (if rcv_gone tk then Inr tk
      else bindE (get_step e (t_rcv tk)) (\<lambda>g.
        Inr (tk\<lparr>t_rcv := g\<lparr>Get_Conn.actions := []\<rparr>,
          to_snd := to_snd tk @ carried (new_msgs (Get_Conn.conn (t_rcv tk)) (Get_Conn.conn g) (sender_at h)),
          rcv_gone := (Get_Conn.actions g \<noteq> [])\<rparr>)))"

definition functor_event :: "Send_Conn.action \<Rightarrow> send_event" where
  "functor_event a = (case a of Queue_Loss ps \<Rightarrow> Run_Loss ps | _ \<Rightarrow> Run_Stream)"

definition talk_step :: "hosts \<Rightarrow> talk_event \<Rightarrow> talk \<Rightarrow> talk outcome" where
  "talk_step h e tk =
     (case e of
        To_Snd i now \<Rightarrow>
          if i < length (to_snd tk) then snd_does h (Send_Conn.Msg (Recv (to_snd tk ! i) (getter_at h)) now) tk else Inr tk
      | To_Rcv i now \<Rightarrow>
          if i < length (to_rcv tk)
          then rcv_does h (Get_Conn.Msg (Recv (to_rcv tk ! i) (sender_at h)) now ([], False)) tk else Inr tk
      | Server_Reply now \<Rightarrow>
          snd_does h (Send_Conn.Msg (Recv (message kServerSign HELLO_REPLY 0 []) (server_at h)) now) tk
      | Snd_Beat now \<Rightarrow> snd_does h (Heart_Beat now) tk
      | Snd_Timer i now \<Rightarrow> snd_does h (Send_Conn.Repeat_Timer i now) tk
      | Rcv_Timer i now \<Rightarrow> rcv_does h (Get_Conn.Repeat_Timer i now) tk
      | Functor \<Rightarrow>
          (case todo tk of
             [] \<Rightarrow> Inr tk
           | a # as \<Rightarrow> snd_does h (functor_event a) (tk\<lparr>todo := as\<rparr>)))"

definition talk_run :: "hosts \<Rightarrow> talk_event list \<Rightarrow> talk \<Rightarrow> talk outcome" where
  "talk_run h = foldE (talk_step h)"

definition new_talk :: "send_conn \<Rightarrow> get_conn \<Rightarrow> Send_Conn.action list \<Rightarrow> talk" where
  "new_talk s g as = \<lparr>t_snd = s, t_rcv = g, todo = as, to_snd = [], to_rcv = [], snd_gone = False, rcv_gone = False\<rparr>"

section \<open>What is on the network\<close>

definition true_request :: "bytes \<Rightarrow> bool" where
  "true_request d \<longleftrightarrow> (d ! 1 = type_code RETRAN \<longrightarrow>
     (\<exists>n ps. d = message kClientSign RETRAN n (u32_bytes (of_nat (length ps)) @ concat (map u32_bytes ps)) \<and>
       length ps < 2 ^ 32))"

definition plain_msg :: "MessageType set \<Rightarrow> bytes \<Rightarrow> bool" where
  "plain_msg T d \<longleftrightarrow> (\<exists>sg t n body. d = message sg t n body \<and> t \<in> T \<and> length body \<le> 4)"

definition true_data :: "bytes \<Rightarrow> bytes \<Rightarrow> bool" where
  "true_data f d \<longleftrightarrow> (d ! 1 = type_code DATA_STREAM \<longrightarrow> (\<exists>k. d = piece_msg f k))"

lemma plain_message: "t \<in> T \<Longrightarrow> length body \<le> 4 \<Longrightarrow> plain_msg T (message sg t n body)"
  by (auto simp: plain_msg_def)

lemma plain_true: "plain_msg T d \<Longrightarrow> RETRAN \<notin> T \<Longrightarrow> true_request d"
  by (auto simp: plain_msg_def true_request_def message_type [unfolded One_nat_def] simp del: type_code.simps)

lemma carried_sub: "d \<in> set (carried ds) \<Longrightarrow> d \<in> set ds \<and> length d \<le> kMaxDatagram"
  by (simp add: carried_def)

lemma new_msgs_sub: "sent u' = sent u @ ms \<Longrightarrow> d \<in> set (new_msgs u u' a) \<Longrightarrow> \<exists>b. (d, b) \<in> set ms"
  by (auto simp: new_msgs_def)

lemma true_request_short:
  assumes d: "true_request d" "length d \<le> kMaxDatagram"
  shows "\<not> stops s (Send_Conn.Msg (Recv d a) now) \<or> \<not> udp_inv (Send_Conn.conn s)"
proof (cases "udp_inv (Send_Conn.conn s) \<and> msg_type (received (Send_Conn.conn s) d) = Some RETRAN \<and>
    understood (received (Send_Conn.conn s) d)")
  case True
  have len: "length d \<le> kBufferSize" using d(2) by (simp add: kMaxDatagram_def kBufferSize_def)
  have "4 \<le> length d" using True received_props(5) [of "Send_Conn.conn s" d] len by (simp add: understood_def sizeof_Header_def)
  then have "type_of (d ! 1) = Some RETRAN" using True received_type(2) [of "Send_Conn.conn s" d] len by simp
  then have "d ! 1 = type_code RETRAN" unfolding type_of_iff .
  with d(1) obtain n ps where m: "d = message kClientSign RETRAN n (u32_bytes (of_nat (length ps)) @ concat (map u32_bytes ps))"
    "length ps < 2 ^ 32" by (auto simp: true_request_def)
  have c: "retran_count (received (Send_Conn.conn s) d) = length ps"
    using retran_count_message [of "Send_Conn.conn s" kClientSign n "of_nat (length ps)" "concat (map u32_bytes ps)"] True len m
    by (simp add: unat_of_nat)
  have "length d = 8 + 4 * length ps" using concat_u32_length [of ps] by (simp add: m(1) sizeof_Header_def)
  then show ?thesis using len c by (simp add: stops_def overlong_def seen_def)
next
  case False
  then show ?thesis by (auto simp: stops_def overlong_def seen_def)
qed


section \<open>The receiver\<close>

definition sends_true :: "get_conn \<Rightarrow> get_conn \<Rightarrow> bool" where
  "sends_true g g' \<longleftrightarrow> (\<exists>ms. sent (Get_Conn.conn g') = sent (Get_Conn.conn g) @ ms \<and> (\<forall>(d, a) \<in> set ms. true_request d))"

definition sends_plain :: "MessageType set \<Rightarrow> get_conn \<Rightarrow> get_conn \<Rightarrow> bool" where
  "sends_plain T g g' \<longleftrightarrow> (\<exists>ms. sent (Get_Conn.conn g') = sent (Get_Conn.conn g) @ ms \<and> (\<forall>(d, a) \<in> set ms. plain_msg T d))"

lemma sends_plain_true: "sends_plain T g g' \<Longrightarrow> RETRAN \<notin> T \<Longrightarrow> sends_true g g'"
  using plain_true by (fastforce simp: sends_plain_def sends_true_def)

lemma sends_plain_mono: "sends_plain T g g' \<Longrightarrow> T \<subseteq> U \<Longrightarrow> sends_plain U g g'"
  by (fastforce simp: sends_plain_def plain_msg_def)

lemma sends_plain_same: "sent (Get_Conn.conn g') = sent (Get_Conn.conn g) \<Longrightarrow> sends_plain T g g'"
  by (simp add: sends_plain_def)

lemma send_to_plain:
  assumes "get_inv g" and "t \<in> T" and "Get_Conn.send_to g sg t n [] a = Inr g'"
  shows "sends_plain T g g'"
proof -
  have "bound (Get_Conn.conn g)" using assms(1) by (simp add: get_inv_def)
  from Get_Conn_Inv.send_to_eq [OF this, of "[]" sg t n a] assms(2,3) show ?thesis
    by (auto simp: sends_plain_def plain_message)
qed

lemma message_plain:
  assumes g: "get_inv g" and st: "Get_Conn.state g = RECV_FILE \<or> Get_Conn.state g = Get_Conn.IDLE"
    and len: "length d \<le> kBufferSize"
    and nd: "Get_Conn.state g = RECV_FILE \<Longrightarrow> no_data (Get_Conn.Msg (Recv d a) now os)" and run: "get_step (Get_Conn.Msg (Recv d a) now os) g = Inr g'"
  shows "sends_plain {HELLO_REPLY} g g'"
proof -
  have u: "udp_inv (Get_Conn.conn g)" using g by (simp add: get_inv_def)
  have t: "4 \<le> length d \<Longrightarrow> d ! 1 \<noteq> type_code DATA_STREAM" if "Get_Conn.state g = RECV_FILE"
    using nd that by (auto simp: no_data_def)
  let ?b = "received (Get_Conn.conn g) d"
  note v = received_msg_view [OF u len]
  have "case Recv d a of Recv d src \<Rightarrow> length d \<le> kBufferSize | _ \<Rightarrow> True" using len by simp
  from message_run [OF g this, of now os] run obtain g1 b1 where
    h: "getFileMsgHandle (fst os) (snd os) g ?b a now = Inr (g1, b1)" "sent (Get_Conn.conn g') = sent (Get_Conn.conn g1)"
    by (cases "getFileMsgHandle (fst os) (snd os) g ?b a now") (auto simp: seen_def)
  have "sends_plain {HELLO_REPLY} g g1"
  proof (cases "understood ?b")
    case False
    with h(1) show ?thesis by (simp add: getFileMsgHandle_def client_frame_eq [OF v] sends_plain_same)
  next
    case True
    then have "4 \<le> length d" using received_props(5) [OF u len] by (simp add: understood_def sizeof_Header_def)
    then have nt: "msg_type ?b \<noteq> Some DATA_STREAM" if "Get_Conn.state g = RECV_FILE"
      using received_type(2) [OF u len] t [OF that] type_of_iff by simp
    have ds: "msg_type ?b = Some DATA_STREAM \<Longrightarrow> handle_data_stream g ?b now = Inr (h, b'') \<Longrightarrow> sends_plain {HELLO_REPLY} g h" for h b''
      using st nt by (auto simp: handle_data_stream_def intro: sends_plain_same)
    have hr: "handle_hello_reply cp cc g sg a now = Inr h \<Longrightarrow> sends_plain {HELLO_REPLY} g h" for cp cc sg h
      using st by (auto simp: handle_hello_reply_def intro!: sends_plain_same)
    have fd: "handle_file_data g ?b = Inr h \<Longrightarrow> sends_plain {HELLO_REPLY} g h" for h
      using st by (auto simp: handle_file_data_def sends_plain_same)
    have cl: "sends_plain {HELLO_REPLY} g (Get_Conn.closeSelf g)" by (simp add: Get_Conn.closeSelf_def Get_Conn.act_def sends_plain_same)
    have he: "Get_Conn.send_to g sg HELLO_REPLY 0 [] a = Inr h \<Longrightarrow> sends_plain {HELLO_REPLY} g h" for sg h
      using send_to_plain [OF g] by simp
    show ?thesis
    proof (cases "msg_type ?b")
      case None
      with h(1) True show ?thesis by (simp add: getFileMsgHandle_def client_frame_eq [OF v] sends_plain_same)
    next
      case (Some ty)
      with h(1) True hr fd cl he ds show ?thesis
        by (cases ty) (auto simp: getFileMsgHandle_def client_frame_eq [OF v] keep_buf_def outcome_simps intro: sends_plain_same)
    qed
  qed
  with h(2) show ?thesis by (simp add: sends_plain_def)
qed

lemma hold_plain:
  assumes g: "get_inv g" and run: "Get_Conn.holdConn g a sg now = Inr h"
  shows "sends_plain {HELLO} g h"
proof -
  from run obtain g1 where 1: "Get_Conn.send_to g sg HELLO 0 [] a = Inr g1" "h = Get_Conn.checkPeerAlive g1 now"
    by (auto simp: Get_Conn.holdConn_def outcome_simps)
  from send_to_plain [OF g _ 1(1)] show ?thesis
    by (simp add: 1(2) Get_Conn.checkPeerAlive_def Get_Conn.closeSelf_def Get_Conn.act_def sends_plain_def)
qed

lemma timer_true:
  assumes g: "get_inv g" and st: "gets g f p \<or> Get_Conn.state g = Get_Conn.IDLE"
    and run: "get_step (Get_Conn.Repeat_Timer i now) g = Inr g'"
  shows "sends_true g g'"
proof -
  have hc: "Get_Conn.holdConn g a sg now = Inr h \<Longrightarrow> sends_true g h" for a sg h
    using sends_plain_true [OF hold_plain [OF g]] by simp
  have rt: "sends_true g h" if r: "sendRetranReq g now = Inr h" for h
    using st
  proof
    assume "Get_Conn.state g = Get_Conn.IDLE"
    with r show ?thesis by (simp add: sendRetranReq_def sends_true_def)
  next
    obtain c M where p: "p = (c, M)" by fastforce
    assume "gets g f p"
    then have gp: "gets g f (c, M)" by (simp add: p)
    then obtain m where "receiving m f c M" by (auto simp: gets_def)
    then have M: "M \<subseteq> {..<c}" "c \<le> piece_count f" "fits_limit f" by (auto simp: receiving_def)
    then have fin: "finite M" "card M \<le> c" using finite_subset card_mono [of "{..<c}" M] by auto
    have "piece_count f \<le> 4194303" using fits_bounds(1) [OF M(3)] .
    with M(2) fin(2) have cm: "card M < 2 ^ 32" by simp
    let ?ps = "map of_nat (sorted_list_of_set M) :: u32 list"
    have ps: "length ?ps = card M" "concat (map u32_bytes ?ps) = concat (map (\<lambda>k. u32_bytes (of_nat k)) (sorted_list_of_set M))"
      by (simp_all add: comp_def)
    have tr: "true_request (message kClientSign RETRAN n (u32_bytes (of_nat (card M)) @
        concat (map (\<lambda>k. u32_bytes (of_nat k)) (sorted_list_of_set M))))" for n
      unfolding true_request_def ps(2) [symmetric] using ps(1) cm by (intro impI exI [of _ n] exI [of _ ?ps]) simp
    have ta: "true_request (message kClientSign PACK_ACK n body)" for n body
      using message_type [of kClientSign PACK_ACK n body] by (simp add: true_request_def)
    from retran_request_sent [OF g gp, of now] r tr ta show ?thesis
      by (auto simp: sends_true_def)
  qed
  show ?thesis
    using run hc rt by (auto simp: get_step.simps sends_true_def split: if_splits repeat_timer.splits)
qed


lemma piece_true:
  assumes g: "get_inv g" and r: "gets g f p" and k: "k < piece_count f"
    and run: "get_step (Get_Conn.Msg (Recv (piece_msg f (of_nat k)) a) now os) g = Inr g'"
  shows "get_inv g' \<and> (finished g' f \<or> gets g' f (accept k p)) \<and> sends_true g g'"
proof -
  from piece_event [OF g r k, of a now os] run obtain ret m b where
    e: "get_inv g'" "g' = (after_piece g now ret m)\<lparr>Get_Conn.conn := (Get_Conn.conn (after_piece g now ret m))\<lparr>tmpbuf := b\<rparr>\<rparr>"
      "if complete f (accept k p) then finished g' f else gets g' f (accept k p)" by auto
  have ta: "true_request (message kClientSign PACK_ACK n body)" "true_request (message kClientSign FINISH n body)" for n body
    by (simp_all add: true_request_def message_type [unfolded One_nat_def] del: type_code.simps)
  then have "sends_true g g'"
    by (auto simp: e(2) sends_true_def after_piece_def counted_def Let_def Get_Conn.closeSelf_def Get_Conn.act_def)
  with e show ?thesis by (auto split: if_splits)
qed

section \<open>Any run\<close>

definition talking :: "bytes \<Rightarrow> talk \<Rightarrow> bool" where
  "talking f tk \<longleftrightarrow> send_inv (t_snd tk) f \<and> get_inv (t_rcv tk) \<and>
     (finished (t_rcv tk) f \<or> (\<exists>p. gets (t_rcv tk) f p)) \<and>
     (\<forall>d \<in> set (to_snd tk). true_request d \<and> length d \<le> kMaxDatagram) \<and>
     (\<forall>d \<in> set (to_rcv tk). true_data f d \<and> length d \<le> kMaxDatagram)"

text \<open>The sender has sent a piece with a number behind the end of the file.\<close>

definition past_end :: "bytes \<Rightarrow> talk \<Rightarrow> bool" where
  "past_end f tk \<longleftrightarrow> (\<exists>k. piece_count f \<le> unat k \<and> piece_msg f k \<in> set (to_rcv tk))"

lemma snd_does_ok:
  assumes t: "talking f tk" and e: "event_ok e" "\<not> stops (t_snd tk) e"
  shows "\<exists>tk'. snd_does h e tk = Inr tk' \<and> talking f tk'"
proof (cases "snd_gone tk")
  case True
  with t show ?thesis by (simp add: snd_does_def)
next
  case False
  have s: "send_inv (t_snd tk) f" using t by (simp add: talking_def)
  from send_step_ok [OF s e(1)] e(2) obtain s' ms where
    1: "send_step e (t_snd tk) = Inr s'" "send_inv s' f" "sent (Send_Conn.conn s') = sent (Send_Conn.conn (t_snd tk)) @ ms" "honest f ms"
    by (auto simp: good_step_def sends_only_def)
  have "\<forall>d \<in> set (carried (new_msgs (Send_Conn.conn (t_snd tk)) (Send_Conn.conn s') (getter_at h))). true_data f d \<and> length d \<le> kMaxDatagram"
    using new_msgs_sub [OF 1(3)] 1(4) carried_sub by (fastforce simp: honest_def true_data_def)
  with t 1(1,2) False show ?thesis by (auto simp: snd_does_def talking_def)
qed

lemma rcv_does_ok:
  assumes t: "talking f tk" and e: "get_step e (t_rcv tk) = Inr g" "get_inv g" "sends_true (t_rcv tk) g"
    "finished g f \<or> (\<exists>p. gets g f p)"
  shows "\<exists>tk'. rcv_does h e tk = Inr tk' \<and> talking f tk'"
proof -
  obtain ms where ms: "sent (Get_Conn.conn g) = sent (Get_Conn.conn (t_rcv tk)) @ ms" "\<forall>(d, a) \<in> set ms. true_request d"
    using e(3) by (auto simp: sends_true_def)
  have "\<forall>d \<in> set (carried (new_msgs (Get_Conn.conn (t_rcv tk)) (Get_Conn.conn g) (sender_at h))). true_request d \<and> length d \<le> kMaxDatagram"
    using new_msgs_sub [OF ms(1)] ms(2) carried_sub by fastforce
  with t e show ?thesis by (auto simp: rcv_does_def talking_def)
qed

lemma same_progress:
  assumes "same_download g g'" and "sent (Get_Conn.conn g') = sent (Get_Conn.conn g) @ ms"
  shows "finished g f \<Longrightarrow> finished g' f" and "gets g f p \<Longrightarrow> gets g' f p"
  using assms by (auto simp: finished_def gets_def same_download_def)

lemma rcv_event_ok:
  assumes t: "talking f tk" and d: "d \<in> set (to_rcv tk)" and np: "\<not> past_end f tk"
  shows "\<exists>tk'. rcv_does h (Get_Conn.Msg (Recv d a) now os) tk = Inr tk' \<and> talking f tk'"
proof -
  have g: "get_inv (t_rcv tk)" "finished (t_rcv tk) f \<or> (\<exists>p. gets (t_rcv tk) f p)" using t by (auto simp: talking_def)
  have dd: "true_data f d" "length d \<le> kBufferSize"
    using t d by (auto simp: talking_def kMaxDatagram_def kBufferSize_def)
  have ok: "get_event_ok (Get_Conn.Msg (Recv d a) now os)" using dd(2) by (simp add: get_event_ok_def)
  let ?e = "Get_Conn.Msg (Recv d a) now os"
  show ?thesis
  proof (cases "Get_Conn.state (t_rcv tk) = RECV_FILE \<and> 4 \<le> length d \<and> d ! 1 = type_code DATA_STREAM")
    case True
    then obtain p where p: "gets (t_rcv tk) f p" using g(2) by (auto simp: finished_def)
    from True dd(1) obtain k where k: "d = piece_msg f k" by (auto simp: true_data_def)
    with d np have lt: "unat k < piece_count f" by (force simp: past_end_def)
    have kk: "d = piece_msg f (of_nat (unat k))" using k by simp
    from piece_event [OF g(1) p lt, of a now os] obtain g' where g': "get_step ?e (t_rcv tk) = Inr g'" unfolding kk by blast
    from piece_true [OF g(1) p lt g' [unfolded kk]] show ?thesis using rcv_does_ok [OF t g'] by blast
  next
    case False
    then have st: "Get_Conn.state (t_rcv tk) = RECV_FILE \<or> Get_Conn.state (t_rcv tk) = Get_Conn.IDLE"
      and nd: "Get_Conn.state (t_rcv tk) = RECV_FILE \<Longrightarrow> no_data ?e"
      using g(2) dd(2) by (auto simp: finished_def gets_def no_data_def)
    from other_event [OF g(1) ok st nd] obtain g' ms where g': "get_step ?e (t_rcv tk) = Inr g'" "get_inv g'" "same_download (t_rcv tk) g'"
      "sent (Get_Conn.conn g') = sent (Get_Conn.conn (t_rcv tk)) @ ms" by blast
    have "sends_true (t_rcv tk) g'" using sends_plain_true [OF message_plain [OF g(1) st dd(2) nd g'(1)]] by simp
    moreover have "finished g' f \<or> (\<exists>p. gets g' f p)"
      using g(2) same_progress [OF g'(3,4)] by blast
    ultimately show ?thesis using rcv_does_ok [OF t g'(1,2)] by blast
  qed
qed


lemma rcv_timer_ok:
  assumes t: "talking f tk"
  shows "\<exists>tk'. rcv_does h (Get_Conn.Repeat_Timer i now) tk = Inr tk' \<and> talking f tk'"
proof -
  have g: "get_inv (t_rcv tk)" "finished (t_rcv tk) f \<or> (\<exists>p. gets (t_rcv tk) f p)" using t by (auto simp: talking_def)
  let ?e = "Get_Conn.Repeat_Timer i now"
  have st: "Get_Conn.state (t_rcv tk) = RECV_FILE \<or> Get_Conn.state (t_rcv tk) = Get_Conn.IDLE"
    using g(2) by (auto simp: finished_def gets_def)
  have ok: "get_event_ok ?e" "no_data ?e" by (simp_all add: get_event_ok_def no_data_def)
  from other_event [OF g(1) ok(1) st ok(2)] obtain g' ms where g': "get_step ?e (t_rcv tk) = Inr g'" "get_inv g'"
    "same_download (t_rcv tk) g'" "sent (Get_Conn.conn g') = sent (Get_Conn.conn (t_rcv tk)) @ ms" by blast
  have "sends_true (t_rcv tk) g'"
    using g(2)
  proof
    assume "finished (t_rcv tk) f"
    then have "Get_Conn.state (t_rcv tk) = Get_Conn.IDLE" by (simp add: finished_def)
    from timer_true [OF g(1) disjI2 [OF this] g'(1)] show ?thesis .
  next
    assume "\<exists>p. gets (t_rcv tk) f p"
    then obtain p where "gets (t_rcv tk) f p" ..
    from timer_true [OF g(1) disjI1 [OF this] g'(1)] show ?thesis .
  qed
  moreover have "finished g' f \<or> (\<exists>p. gets g' f p)"
    using g(2) same_progress [OF g'(3,4)] by blast
  ultimately show ?thesis using rcv_does_ok [OF t g'(1,2)] by blast
qed

lemma talk_step_ok:
  assumes t: "talking f tk" and np: "\<not> past_end f tk"
  shows "\<exists>tk'. talk_step h e tk = Inr tk' \<and> talking f tk'"
proof -
  have u: "udp_inv (Send_Conn.conn (t_snd tk))" using t by (simp add: talking_def send_inv_def)
  have reply: "event_ok (Send_Conn.Msg (Recv (message kServerSign HELLO_REPLY 0 []) a) now)"
    "\<not> stops (t_snd tk) (Send_Conn.Msg (Recv (message kServerSign HELLO_REPLY 0 []) a) now)" for a now
  proof -
    let ?d = "message kServerSign HELLO_REPLY 0 []"
    have l: "length ?d \<le> kMaxDatagram" "length ?d \<le> kBufferSize" by (simp_all add: kMaxDatagram_def kBufferSize_def sizeof_Header_def)
    then show "event_ok (Send_Conn.Msg (Recv ?d a) now)" by (simp add: event_ok_def)
    have "true_request ?d" using message_type [of kServerSign HELLO_REPLY 0 "[]"] by (simp add: true_request_def)
    from true_request_short [OF this l(1)] u show "\<not> stops (t_snd tk) (Send_Conn.Msg (Recv ?d a) now)" by blast
  qed
  show ?thesis
  proof (cases e)
    case (To_Snd i now)
    show ?thesis
    proof (cases "i < length (to_snd tk)")
      case True
      then have "to_snd tk ! i \<in> set (to_snd tk)" by simp
      with t have d: "true_request (to_snd tk ! i)" "length (to_snd tk ! i) \<le> kMaxDatagram" by (auto simp: talking_def)
      then have "event_ok (Send_Conn.Msg (Recv (to_snd tk ! i) (getter_at h)) now)"
        by (simp add: event_ok_def kMaxDatagram_def kBufferSize_def)
      moreover have "\<not> stops (t_snd tk) (Send_Conn.Msg (Recv (to_snd tk ! i) (getter_at h)) now)"
        using true_request_short [OF d] u by blast
      ultimately show ?thesis using snd_does_ok [OF t] True by (simp add: To_Snd talk_step_def)
    qed (use t in \<open>simp add: To_Snd talk_step_def\<close>)
  next
    case (To_Rcv i now)
    then show ?thesis using rcv_event_ok [OF t _ np] t by (simp add: talk_step_def)
  next
    case (Server_Reply now)
    then show ?thesis using snd_does_ok [OF t reply] by (simp add: talk_step_def)
  next
    case Functor
    have "talking f (tk\<lparr>todo := as\<rparr>)" for as using t by (simp add: talking_def)
    moreover have "event_ok (functor_event a)" "\<not> stops s (functor_event a)" for a s
      by (cases a; simp add: functor_event_def event_ok_def stops_def)+
    ultimately show ?thesis
      using snd_does_ok t by (fastforce simp: Functor talk_step_def split: list.split)
  qed (use snd_does_ok [OF t] rcv_timer_ok [OF t] in \<open>simp_all add: talk_step_def event_ok_def stops_def\<close>)
qed


lemma talk_run_ok:
  assumes "talking f tk"
  shows "\<exists>pre post tk'. es = pre @ post \<and> talk_run h pre tk = Inr tk' \<and> talking f tk' \<and> (post = [] \<or> past_end f tk')"
  using assms
proof (induction es arbitrary: tk)
  case Nil
  then show ?case by (simp add: talk_run_def)
next
  case (Cons e es)
  show ?case
  proof (cases "past_end f tk")
    case True
    then show ?thesis using Cons.prems by (intro exI [of _ "[]"] exI [of _ "e # es"] exI [of _ tk]) (simp add: talk_run_def)
  next
    case False
    from talk_step_ok [OF Cons.prems False] obtain tk1 where 1: "talk_step h e tk = Inr tk1" "talking f tk1" by blast
    from Cons.IH [OF 1(2)] obtain pre post tk' where
      2: "es = pre @ post" "talk_run h pre tk1 = Inr tk'" "talking f tk'" "post = [] \<or> past_end f tk'" by blast
    have "talk_run h (e # pre) tk = Inr tk'" using 1(1) 2(2) by (simp add: talk_run_def)
    with 2 show ?thesis by (intro exI [of _ "e # pre"] exI [of _ post] exI [of _ tk']) simp
  qed
qed



end
