(* ===== verification/Lossy_Tail.thy ===== *)
theory Lossy_Tail
  imports Lossy
begin

text \<open>
  What a lost end of a file does. \<open>spent\<close> is a sender whose stream has ended, \<open>stalled\<close> a transfer in which the receiver
  has received every piece below \<open>c\<close> and none from there on: no event of any kind leads out of it.
\<close>

section \<open>The end of the file is lost\<close>

text \<open>When the stream has ended and the receiver misses nothing that it knows of, the two only say hello and acknowledge.\<close>

definition spent :: "send_conn \<Rightarrow> bytes \<Rightarrow> bool" where
  "spent s f \<longleftrightarrow> send_inv s f \<and>
     (Send_Conn.state s = SEND_FILE \<and> (\<exists>m. sendManager s = Some m \<and> \<not> Send_File.isGood m) \<or>
      Send_Conn.state s = WAIT_RECVER)"

definition small_talk :: "send_conn \<Rightarrow> send_conn \<Rightarrow> bytes \<Rightarrow> bool" where
  "small_talk s s' f \<longleftrightarrow> spent s' f \<and>
     (\<exists>ms. sent (Send_Conn.conn s') = sent (Send_Conn.conn s) @ ms \<and> (\<forall>(d, a) \<in> set ms. plain_msg {HELLO, HELLO_REPLY} d)) \<and>
     (\<exists>as. Send_Conn.actions s' = Send_Conn.actions s @ as \<and> (\<forall>a \<in> set as. \<not> functor_action a))"

lemma small_talk_same: "spent s f \<Longrightarrow> small_talk s s f"
  by (simp add: small_talk_def)

lemma spent_hello_reply: "spent s f \<Longrightarrow> small_talk s (Send_Conn.handle_hello_reply s sg a now) f"
  by (auto simp: Send_Conn.handle_hello_reply_def small_talk_def spent_def send_inv_def Let_def)

lemma spent_send:
  assumes s: "spent s f" and t: "t = HELLO \<or> t = HELLO_REPLY"
  shows "\<exists>s'. Send_Conn.send_to s sg t 0 [] a = Inr s' \<and> small_talk s s' f \<and> Send_Conn.actions s' = Send_Conn.actions s"
proof -
  have b: "bound (Send_Conn.conn s)" using s by (simp add: spent_def send_inv_def)
  have "plain_msg {HELLO, HELLO_REPLY} (message sg t 0 [])" using t by (auto intro: plain_message)
  with send_to_ok [OF b, of "[]" sg t 0 a] s show ?thesis
    by (auto simp: small_talk_def spent_def send_inv_def udp_inv_def)
qed

lemma spent_check:
  assumes "spent s f"
  shows "\<exists>s'. Send_Conn.checkPeerAlive s now = Inr s' \<and> small_talk s s' f"
proof -
  obtain m where m: "sendManager s = Some m" "manager_ok m f" using assms by (auto simp: spent_def send_inv_def)
  then show ?thesis
    using assms manager_init [OF m(2)]
    by (auto simp: Send_Conn.checkPeerAlive_def small_talk_def spent_def send_inv_def Send_Conn.closeAllTimer_def
        Send_Conn.closeSelf_def Send_Conn.act_def)
qed

lemma small_talk_trans: "small_talk s s1 f \<Longrightarrow> small_talk s1 s2 f \<Longrightarrow> small_talk s s2 f"
  by (fastforce simp: small_talk_def)

lemma spent_hold:
  assumes "spent s f"
  shows "\<exists>s'. Send_Conn.holdConn s a sg now = Inr s' \<and> small_talk s s' f"
proof -
  from spent_send [OF assms, of HELLO sg a] obtain s1 where 1: "Send_Conn.send_to s sg HELLO 0 [] a = Inr s1" "small_talk s s1 f" by auto
  then have "spent s1 f" by (simp add: small_talk_def)
  from spent_check [OF this, of now] 1 small_talk_trans show ?thesis by (fastforce simp: Send_Conn.holdConn_def)
qed

lemma spent_ack:
  assumes s: "spent s f" and b: "msg_view b"
  shows "\<exists>s'. handle_pack_ack s b = Inr s' \<and> small_talk s s' f"
proof (cases "Send_Conn.state s = SEND_FILE")
  case False
  then show ?thesis using small_talk_same [OF s] by (simp add: handle_pack_ack_def)
next
  case True
  then obtain m where m: "sendManager s = Some m" "\<not> Send_File.isGood m" using s by (auto simp: spent_def)
  obtain d where "peek b sizeof_Header 4 = Inr d" using view_peek [OF b, of sizeof_Header 4] by (simp add: sizeof_Header_def kBufferSize_def)
  then show ?thesis using True m s
    by (auto simp: handle_pack_ack_def sendFileStream_def Let_def small_talk_def spent_def send_inv_def word_le_nat_alt unat_sub)
qed

lemma spent_message:
  assumes s: "spent s f" and d: "plain_msg {HELLO, HELLO_REPLY, PACK_ACK} d"
  shows "\<exists>s'. send_step (Send_Conn.Msg (Recv d a) now) s = Inr s' \<and> small_talk s s' f"
proof -
  obtain sg t n body where m: "d = message sg t n body" "t \<in> {HELLO, HELLO_REPLY, PACK_ACK}" "length body \<le> 4"
    using d by (auto simp: plain_msg_def)
  have i: "send_inv s f" and u: "udp_inv (Send_Conn.conn s)" using s by (simp_all add: spent_def send_inv_def)
  have len: "length (message sg t n body) \<le> kBufferSize" using m(3) by (simp add: sizeof_Header_def kBufferSize_def)
  let ?b = "received (Send_Conn.conn s) d"
  note v = received_msg_view [OF u len, folded m(1)]
  have ty: "msg_type ?b = Some t" using received_message(2) [OF u len] m(1) by simp
  obtain s' where h: "shareFileMsgHandle s ?b a now = Inr s'" "small_talk s s' f"
    using small_talk_same [OF s] spent_hello_reply [OF s] spent_send [OF s, of HELLO_REPLY] spent_ack [OF s v] m(2)
    unfolding shareFileMsgHandle_eq [OF v] ty by (cases "understood ?b") fastforce+
  let ?s = "s'\<lparr>Send_Conn.conn := (Send_Conn.conn s')\<lparr>tmpbuf := retrieveAll ?b\<rparr>\<rparr>"
  have "send_step (Send_Conn.Msg (Recv d a) now) s = Inr ?s"
    using message_step [OF i len, folded m(1)] h(1) by simp
  moreover have "small_talk s ?s f" using h(2) view_udp_inv [OF v] by (auto simp: small_talk_def spent_def send_inv_def)
  ultimately show ?thesis by blast
qed

section \<open>The receiver\<close>

lemma rcv_small_message:
  assumes g: "get_inv g" and r: "gets g f p" and d: "plain_msg {HELLO, HELLO_REPLY} d"
  shows "\<exists>g'. get_step (Get_Conn.Msg (Recv d a) now os) g = Inr g' \<and> get_inv g' \<and> gets g' f p \<and>
    sends_plain {HELLO, HELLO_REPLY, PACK_ACK} g g'"
proof -
  obtain sg t n body where m: "d = message sg t n body" "t \<in> {HELLO, HELLO_REPLY}" "length body \<le> 4"
    using d by (auto simp: plain_msg_def)
  have st: "Get_Conn.state g = RECV_FILE" using r by (simp add: gets_def)
  have len: "length d \<le> kBufferSize" using m by (simp add: sizeof_Header_def kBufferSize_def)
  then have nd: "no_data (Get_Conn.Msg (Recv d a) now os)" and ok: "get_event_ok (Get_Conn.Msg (Recv d a) now os)"
    using m(2) by (auto simp: no_data_def get_event_ok_def m(1) message_type [unfolded One_nat_def] simp del: type_code.simps)
  from other_event [OF g ok disjI1 [OF st] nd] obtain g' ms where
    g': "get_step (Get_Conn.Msg (Recv d a) now os) g = Inr g'" "get_inv g'" "same_download g g'"
      "sent (Get_Conn.conn g') = sent (Get_Conn.conn g) @ ms" by blast
  have "sends_plain {HELLO, HELLO_REPLY, PACK_ACK} g g'"
    using sends_plain_mono [OF message_plain [OF g disjI1 [OF st] len nd g'(1)]] by simp
  with g' same_progress [OF g'(3,4)] r show ?thesis by blast
qed

lemma rcv_small_timer:
  assumes g: "get_inv g" and r: "gets g f (c, {})"
  shows "\<exists>g'. get_step (Get_Conn.Repeat_Timer i now) g = Inr g' \<and> get_inv g' \<and> gets g' f (c, {}) \<and>
    sends_plain {HELLO, HELLO_REPLY, PACK_ACK} g g'"
proof -
  let ?e = "Get_Conn.Repeat_Timer i now"
  have st: "Get_Conn.state g = RECV_FILE" using r by (simp add: gets_def)
  have ok: "get_event_ok ?e" "no_data ?e" by (simp_all add: get_event_ok_def no_data_def)
  from other_event [OF g ok(1) disjI1 [OF st] ok(2)] obtain g' ms where
    g': "get_step ?e g = Inr g'" "get_inv g'" "same_download g g'" "sent (Get_Conn.conn g') = sent (Get_Conn.conn g) @ ms" by blast
  have hc: "Get_Conn.holdConn g a sg now = Inr h \<Longrightarrow> sends_plain {HELLO, HELLO_REPLY, PACK_ACK} g h" for a sg h
    using sends_plain_mono [OF hold_plain [OF g]] by simp
  have rt: "sendRetranReq g now = Inr h \<Longrightarrow> sends_plain {HELLO, HELLO_REPLY, PACK_ACK} g h" for h
    using retran_request_sent [OF g r, of now] by (auto simp: sends_plain_def plain_message)
  have "sends_plain {HELLO, HELLO_REPLY, PACK_ACK} g g'"
    using g'(1) hc rt sends_plain_same [of g g] by (auto simp: get_step.simps split: if_splits repeat_timer.splits)
  with g' same_progress [OF g'(3,4)] r show ?thesis by blast
qed

section \<open>Any run\<close>

definition stalled :: "bytes \<Rightarrow> nat \<Rightarrow> talk \<Rightarrow> bool" where
  "stalled f c tk \<longleftrightarrow> spent (t_snd tk) f \<and> Send_Conn.actions (t_snd tk) = [] \<and> get_inv (t_rcv tk) \<and> gets (t_rcv tk) f (c, {}) \<and> todo tk = [] \<and>
     (\<forall>d \<in> set (to_snd tk). plain_msg {HELLO, HELLO_REPLY, PACK_ACK} d) \<and>
     (\<forall>d \<in> set (to_rcv tk). plain_msg {HELLO, HELLO_REPLY} d)"

lemma stalled_snd:
  assumes t: "stalled f c tk" and e: "send_step e (t_snd tk) = Inr s" "small_talk (t_snd tk) s f"
  shows "\<exists>tk'. snd_does h e tk = Inr tk' \<and> stalled f c tk'"
proof -
  obtain ms where ms: "sent (Send_Conn.conn s) = sent (Send_Conn.conn (t_snd tk)) @ ms" "\<forall>(d, a) \<in> set ms. plain_msg {HELLO, HELLO_REPLY} d"
    using e(2) by (auto simp: small_talk_def)
  have "\<forall>d \<in> set (carried (new_msgs (Send_Conn.conn (t_snd tk)) (Send_Conn.conn s) (getter_at h))). plain_msg {HELLO, HELLO_REPLY} d"
    using new_msgs_sub [OF ms(1)] ms(2) carried_sub by fastforce
  moreover have "filter functor_action (Send_Conn.actions s) = []"
    using e(2) t by (auto simp: small_talk_def stalled_def filter_empty_conv)
  moreover have "spent (s\<lparr>Send_Conn.actions := []\<rparr>) f" using e(2) by (simp add: small_talk_def spent_def send_inv_def)
  ultimately show ?thesis using t e(1) by (auto simp: snd_does_def stalled_def)
qed

lemma stalled_rcv:
  assumes t: "stalled f c tk" and e: "get_step e (t_rcv tk) = Inr g" "get_inv g" "gets g f (c, {})"
    "sends_plain {HELLO, HELLO_REPLY, PACK_ACK} (t_rcv tk) g"
  shows "\<exists>tk'. rcv_does h e tk = Inr tk' \<and> stalled f c tk'"
proof -
  obtain ms where ms: "sent (Get_Conn.conn g) = sent (Get_Conn.conn (t_rcv tk)) @ ms"
    "\<forall>(d, a) \<in> set ms. plain_msg {HELLO, HELLO_REPLY, PACK_ACK} d"
    using e(4) by (auto simp: sends_plain_def)
  have "\<forall>d \<in> set (carried (new_msgs (Get_Conn.conn (t_rcv tk)) (Get_Conn.conn g) (sender_at h))). plain_msg {HELLO, HELLO_REPLY, PACK_ACK} d"
    using new_msgs_sub [OF ms(1)] ms(2) carried_sub by fastforce
  with t e show ?thesis by (auto simp: rcv_does_def stalled_def)
qed

lemma stalled_step:
  assumes t: "stalled f c tk"
  shows "\<exists>tk'. talk_step h e tk = Inr tk' \<and> stalled f c tk'"
proof -
  have s: "spent (t_snd tk) f" and g: "get_inv (t_rcv tk)" "gets (t_rcv tk) f (c, {})" and td: "todo tk = []"
    using t by (simp_all add: stalled_def)
  have msg: "\<exists>tk'. snd_does h (Send_Conn.Msg (Recv d a) now) tk = Inr tk' \<and> stalled f c tk'"
    if "plain_msg {HELLO, HELLO_REPLY, PACK_ACK} d" for d a now
    using spent_message [OF s that] stalled_snd [OF t] by blast
  show ?thesis
  proof (cases e)
    case (To_Snd i now)
    then show ?thesis using msg t by (auto simp: talk_step_def stalled_def)
  next
    case (To_Rcv i now)
    then show ?thesis using rcv_small_message [OF g] stalled_rcv [OF t] t
      by (cases "i < length (to_rcv tk)") (fastforce simp: talk_step_def stalled_def)+
  next
    case (Server_Reply now)
    have "plain_msg {HELLO, HELLO_REPLY, PACK_ACK} (message kServerSign HELLO_REPLY 0 [])" by (simp add: plain_message)
    with msg Server_Reply show ?thesis by (simp add: talk_step_def)
  next
    case (Snd_Beat now)
    have "\<exists>s'. send_step (Heart_Beat now) (t_snd tk) = Inr s' \<and> small_talk (t_snd tk) s' f"
      using spent_hold [OF s] small_talk_same [OF s] by (auto simp: send_step.simps split: option.split prod.split)
    with stalled_snd [OF t] Snd_Beat show ?thesis by (auto simp: talk_step_def)
  next
    case (Snd_Timer i now)
    have "\<exists>s'. send_step (Send_Conn.Repeat_Timer i now) (t_snd tk) = Inr s' \<and> small_talk (t_snd tk) s' f"
      using spent_hold [OF s] small_talk_same [OF s] by (auto simp: send_step.simps)
    with stalled_snd [OF t] Snd_Timer show ?thesis by (auto simp: talk_step_def)
  next
    case (Rcv_Timer i now)
    then show ?thesis using rcv_small_timer [OF g] stalled_rcv [OF t] by (fastforce simp: talk_step_def)
  next
    case Functor
    then show ?thesis using t td by (simp add: talk_step_def)
  qed
qed

text \<open>
  C8. When the last pieces of a file are lost, and no others, the transfer never ends: the receiver only asks for pieces that
  are missing below one it has, and the sender's stream has ended. Whatever the network and the timers do from then on, however
  long, nobody fails, nothing but greetings and acknowledgements is ever sent, and the receiver is still where it was.
\<close>

theorem lost_tail_never_recovered:
  assumes "send_inv s f" and "Send_Conn.state s = SEND_FILE" and "Send_Conn.actions s = []"
    and "sendManager s = Some m" "\<not> Send_File.isGood m"
    and "get_inv g" and "gets g f (c, {})" and "c < piece_count f"
  shows "\<exists>tk. talk_run h es (new_talk s g []) = Inr tk \<and> gets (t_rcv tk) f (c, {}) \<and> \<not> finished (t_rcv tk) f \<and>
    (\<forall>d \<in> set (to_rcv tk). d ! 1 \<noteq> type_code DATA_STREAM)"
proof -
  have "stalled f c (new_talk s g [])" using assms by (auto simp: stalled_def new_talk_def spent_def)
  then have "\<exists>tk. talk_run h es (new_talk s g []) = Inr tk \<and> stalled f c tk"
    unfolding talk_run_def using stalled_step by (intro foldE_total) auto
  then obtain tk where tk: "talk_run h es (new_talk s g []) = Inr tk" "stalled f c tk" by blast
  have "\<not> finished (t_rcv tk) f" using tk(2) by (auto simp: stalled_def gets_def finished_def)
  moreover have "\<forall>d \<in> set (to_rcv tk). d ! 1 \<noteq> type_code DATA_STREAM"
    using tk(2) by (auto simp: stalled_def plain_msg_def message_type [unfolded One_nat_def] simp del: type_code.simps)
  ultimately show ?thesis using tk by (auto simp: stalled_def)
qed

text \<open>The sender of two pieces has read to the end of its file, and both are lost.\<close>

definition all_read :: send_file where
  "all_read = opened_sender\<lparr>ifileStream := (ifileStream opened_sender)\<lparr>gpos := 1500, eofbit := True, failbit := True\<rparr>,
     Send_File.curPiece := 2\<rparr>"

lemma all_read_ok: "manager_ok all_read demo_content" "\<not> Send_File.isGood all_read"
  using demo_inv(2) demo_sizes(1,2)
  by (simp_all add: all_read_def manager_ok_def sends_def send_inv_def sending_def waiting_def Send_File.isGood_def good_def)

theorem lost_tail_never_recovered_witness:
  "\<exists>tk. talk_run demo_hosts [Rcv_Timer 4 9, To_Snd 0 9, Snd_Timer 4 12, To_Rcv 0 13]
      (new_talk (sending\<lparr>sendManager := Some all_read\<rparr>) downloading []) = Inr tk \<and>
    gets (t_rcv tk) demo_content (0, {}) \<and> \<not> finished (t_rcv tk) demo_content"
proof -
  let ?s = "sending\<lparr>sendManager := Some all_read\<rparr>"
  have s: "send_inv ?s demo_content" "Send_Conn.state ?s = SEND_FILE" "Send_Conn.actions ?s = []" "sendManager ?s = Some all_read"
    using demo_inv(2) all_read_ok(1) by (simp_all add: send_inv_def sending_def waiting_def sender0_def)
  have "gets downloading demo_content (0, {})" using demo_linked by (simp add: linked_def)
  from lost_tail_never_recovered [OF s all_read_ok(2) downloading_inv(1) this, of demo_hosts
      "[Rcv_Timer 4 9, To_Snd 0 9, Snd_Timer 4 12, To_Rcv 0 13]"] demo_sizes(2)
  show ?thesis by auto
qed

end
