(* ===== verification/Recovery.thy ===== *)
theory Recovery
  imports Lossy_Tail
begin

text \<open>
  What one round of retransmission does when the network delivers it: the receiver's timer, the request, the functors of the sender, the
  pieces. \<open>round_schedule\<close> is that order of events.
\<close>

section \<open>The sender's functors\<close>

lemma piece_msg_carried: "carried [piece_msg f k] = [piece_msg f k]"
proof -
  have "length (chunk 1024 f (unat k mod 2 ^ 22)) \<le> 1024" by (simp add: length_chunk)
  then show ?thesis by (simp add: carried_def piece_msg_def Let_def sizeof_Header_def kMaxDatagram_def)
qed

definition lossy_sender :: "hosts \<Rightarrow> bytes \<Rightarrow> u32 \<Rightarrow> u32 list \<Rightarrow> talk \<Rightarrow> bool" where
  "lossy_sender h f c ps tk \<longleftrightarrow> send_inv (t_snd tk) f \<and> Send_Conn.state (t_snd tk) = SEND_FILE \<and>
     Send_Conn.recveraddr (t_snd tk) = getter_at h \<and> unat (sendWindow (t_snd tk)) + length ps \<le> 30 \<and> todo tk = [Queue_Loss ps] \<and>
     Send_Conn.actions (t_snd tk) = [] \<and> \<not> snd_gone tk \<and> (\<exists>m. sendManager (t_snd tk) = Some m \<and> Send_File.curPiece m = c)"

definition good_sender :: "talk \<Rightarrow> bool" where
  "good_sender tk \<longleftrightarrow> (\<exists>m. sendManager (t_snd tk) = Some m \<and> Send_File.isGood m)"

lemma functor_sends:
  assumes "lossy_sender h f c (ps @ [k]) tk"
  shows "\<exists>s. talk_step h Functor tk = Inr (tk\<lparr>t_snd := s, todo := [Queue_Loss ps], to_rcv := to_rcv tk @ [piece_msg f k]\<rparr>) \<and>
    lossy_sender h f c ps (tk\<lparr>t_snd := s, todo := [Queue_Loss ps], to_rcv := to_rcv tk @ [piece_msg f k]\<rparr>) \<and>
    (k = 0 \<longrightarrow> 1024 \<le> length f \<longrightarrow> good_sender (tk\<lparr>t_snd := s, todo := [Queue_Loss ps], to_rcv := to_rcv tk @ [piece_msg f k]\<rparr>))"
proof -
  from assms obtain m where tk: "send_inv (t_snd tk) f" "Send_Conn.recveraddr (t_snd tk) = getter_at h" "\<not> 30 \<le> unat (sendWindow (t_snd tk))"
    "unat (sendWindow (t_snd tk)) + length (ps @ [k]) \<le> 30" "todo tk = [Queue_Loss (ps @ [k])]"
    "Send_Conn.actions (t_snd tk) = []" "\<not> snd_gone tk" "sendManager (t_snd tk) = Some m" "Send_File.curPiece m = c"
    "Send_Conn.state (t_snd tk) = SEND_FILE"
    by (auto simp: lossy_sender_def)
  from sendLossPieces_ok [OF tk(1), of "ps @ [k]"] tk(3) obtain s where
    s: "sendLossPieces (t_snd tk) (ps @ [k]) = Inr s" "send_inv s f" "Send_Conn.recveraddr s = getter_at h"
      "sent (Send_Conn.conn s) = sent (Send_Conn.conn (t_snd tk)) @ map (\<lambda>d. (d, getter_at h)) [piece_msg f k]"
      "Send_Conn.actions s = [Queue_Loss ps]" "unat (sendWindow s) = Suc (unat (sendWindow (t_snd tk)))" "Send_Conn.state s = SEND_FILE"
    by (auto simp: sends_only_def tk(2,6,10))
  from loss_manager [OF tk(1,8) _ tk(3) s(1)] obtain m' where
    m: "sendManager s = Some m'" "Send_File.curPiece m' = c" "k = 0 \<longrightarrow> 1024 \<le> length f \<longrightarrow> Send_File.isGood m'" by (auto simp: tk(9))
  let ?s = "s\<lparr>Send_Conn.actions := []\<rparr>"
  let ?tk = "tk\<lparr>t_snd := ?s, todo := [Queue_Loss ps], to_rcv := to_rcv tk @ [piece_msg f k]\<rparr>"
  have "talk_step h Functor tk = Inr ?tk"
    using tk(5,7) s(1,5) new_msgs_append [OF s(4)] piece_msg_carried [of f k]
    by (simp add: talk_step_def functor_event_def snd_does_def send_step.simps)
  moreover have "lossy_sender h f c ps ?tk"
    using s(2,3,6,7) tk(4,7) m(1,2) by (simp add: lossy_sender_def send_inv_def)
  moreover have "k = 0 \<longrightarrow> 1024 \<le> length f \<longrightarrow> good_sender ?tk" using m(1,3) by (simp add: good_sender_def)
  ultimately show ?thesis by blast
qed

text \<open>The whole queue; the functor that finds it empty only notes that the stream has to be woken.\<close>

lemma functors_send:
  assumes "lossy_sender h f c ps tk"
  shows "\<exists>tk'. talk_run h (replicate (length ps) Functor) tk = Inr tk' \<and> to_rcv tk' = to_rcv tk @ map (piece_msg f) (rev ps) \<and>
    t_rcv tk' = t_rcv tk \<and> rcv_gone tk' = rcv_gone tk \<and> to_snd tk' = to_snd tk \<and> lossy_sender h f c [] tk' \<and>
    (ps \<noteq> [] \<longrightarrow> hd ps = 0 \<longrightarrow> 1024 \<le> length f \<longrightarrow> good_sender tk') \<and> (ps = [] \<longrightarrow> tk' = tk)"
  using assms
proof (induction ps arbitrary: tk rule: rev_induct)
  case Nil
  then show ?case by (simp add: talk_run_def)
next
  case (snoc k ps)
  from functor_sends [OF snoc.prems] obtain s where
    s: "talk_step h Functor tk = Inr (tk\<lparr>t_snd := s, todo := [Queue_Loss ps], to_rcv := to_rcv tk @ [piece_msg f k]\<rparr>)"
      "lossy_sender h f c ps (tk\<lparr>t_snd := s, todo := [Queue_Loss ps], to_rcv := to_rcv tk @ [piece_msg f k]\<rparr>)"
      "k = 0 \<longrightarrow> 1024 \<le> length f \<longrightarrow> good_sender (tk\<lparr>t_snd := s, todo := [Queue_Loss ps], to_rcv := to_rcv tk @ [piece_msg f k]\<rparr>)" by blast
  from snoc.IH [OF s(2)] s(1,3) show ?case by (cases "ps = []") (auto simp: talk_run_def)
qed

section \<open>The request\<close>

definition request_msg :: "nat set \<Rightarrow> bytes" where
  "request_msg M = message kClientSign RETRAN (4 * card M + 4)
     (u32_bytes (of_nat (card M)) @ concat (map (\<lambda>k. u32_bytes (of_nat k)) (sorted_list_of_set M)))"

lemma retran_keeps_actions: "sendRetranReq g now = Inr g' \<Longrightarrow> Get_Conn.actions g' = Get_Conn.actions g"
  by (auto simp: sendRetranReq_def Get_Conn.sendPackAck_def Get_Conn.send_to_def Let_def outcome_simps split: if_splits option.splits)

definition asks_at :: "hosts \<Rightarrow> nat \<Rightarrow> get_conn \<Rightarrow> bool" where
  "asks_at h i g \<longleftrightarrow> Get_Conn.recveraddr g = sender_at h \<and> i < length (Get_Conn.repeattimers g) \<and> Get_Conn.repeattimers g ! i = Send_Retran_Req"

text \<open>When the timer also acknowledges, the request is the second message.\<close>

definition late_ack :: "get_conn \<Rightarrow> timestamp \<Rightarrow> bytes list" where
  "late_ack g now = (if lastDataStreamTime g + 100000 < now then [message kClientSign PACK_ACK 4 (u32_bytes 30)] else [])"

lemma retran_keeps_timers:
  "sendRetranReq g now = Inr g' \<Longrightarrow> Get_Conn.repeattimers g' = Get_Conn.repeattimers g \<and> Get_Conn.recveraddr g' = Get_Conn.recveraddr g"
  by (auto simp: sendRetranReq_def Get_Conn.sendPackAck_def Get_Conn.send_to_def Let_def outcome_simps split: if_splits option.splits)

lemma request_goes_out:
  assumes g: "get_inv g" "gets g f (c, M)" and M: "M \<noteq> {}" "card M \<le> 15"
    and a: "Get_Conn.actions g = []" "asks_at h i g"
  shows "\<exists>g'. talk_step h (Rcv_Timer i now) (new_talk s g []) = Inr ((new_talk s g' [])\<lparr>to_snd := late_ack g now @ [request_msg M]\<rparr>) \<and>
    get_inv g' \<and> gets g' f (c, M) \<and> Get_Conn.actions g' = [] \<and> asks_at h i g'"
proof -
  have a2: "Get_Conn.recveraddr g = sender_at h" using a(2) by (simp add: asks_at_def)
  from retran_request_sent [OF g, of now] M(1) obtain g' where
    g': "sendRetranReq g now = Inr g'" "get_inv g'" "gets g' f (c, M)"
      "sent (Get_Conn.conn g') = sent (Get_Conn.conn g) @ map (\<lambda>d. (d, sender_at h)) (late_ack g now @ [request_msg M])"
    by (cases "lastDataStreamTime g + 100000 < now") (auto simp: a2 request_msg_def late_ack_def)
  have fin: "finite M" using M(1,2) g(2) by (auto simp: gets_def receiving_def intro: finite_subset)
  have "length (request_msg M) \<le> 100"
    using concat_u32_length [of "map of_nat (sorted_list_of_set M)"] M(2) fin by (simp add: request_msg_def comp_def sizeof_Header_def)
  then have c: "carried (late_ack g now @ [request_msg M]) = late_ack g now @ [request_msg M]"
    by (simp add: carried_def kMaxDatagram_def sizeof_Header_def late_ack_def)
  have "talk_step h (Rcv_Timer i now) (new_talk s g []) =
      Inr ((new_talk s (g'\<lparr>Get_Conn.actions := []\<rparr>) [])\<lparr>to_snd := late_ack g now @ [request_msg M]\<rparr>)"
    using a(2) g'(1) retran_keeps_actions [OF g'(1)] a(1) new_msgs_append [OF g'(4)] c
    by (simp add: talk_step_def rcv_does_def new_talk_def get_step.simps asks_at_def)
  moreover have "get_inv (g'\<lparr>Get_Conn.actions := []\<rparr>)" "gets (g'\<lparr>Get_Conn.actions := []\<rparr>) f (c, M)"
    "asks_at h i (g'\<lparr>Get_Conn.actions := []\<rparr>)"
    using g'(2,3) retran_keeps_timers [OF g'(1)] a(2) by (simp_all add: get_inv_def gets_def asks_at_def)
  ultimately show ?thesis by (intro exI [of _ "g'\<lparr>Get_Conn.actions := []\<rparr>"]) simp
qed

text \<open>The request is answered with one piece at once, the others and as many copies of the first piece are queued.\<close>

lemma request_comes_in:
  assumes s: "send_inv s f" "Send_Conn.state s = SEND_FILE" "Send_Conn.actions s = []" "Send_Conn.recveraddr s = getter_at h"
    and M: "finite M" "M \<noteq> {}" "unat (sendWindow s) + 2 * card M \<le> 30"
    and tk: "t_snd tk = s" "todo tk = []" "\<not> snd_gone tk" "i < length (to_snd tk)" "to_snd tk ! i = request_msg M"
    and m: "sendManager s = Some m" "Send_File.curPiece m = c"
  defines "ps \<equiv> map of_nat (sorted_list_of_set M) :: u32 list"
  shows "\<exists>t. talk_step h (To_Snd i now) tk = Inr (tk\<lparr>t_snd := t, todo := [Queue_Loss (replicate (card M) 0 @ butlast ps)],
      to_rcv := to_rcv tk @ [piece_msg f (last ps)]\<rparr>) \<and>
    lossy_sender h f c (replicate (card M) 0 @ butlast ps) (tk\<lparr>t_snd := t, todo := [Queue_Loss (replicate (card M) 0 @ butlast ps)],
      to_rcv := to_rcv tk @ [piece_msg f (last ps)]\<rparr>)"
proof -
  have ps: "ps \<noteq> []" "length ps = card M" using M(1,2) by (simp_all add: ps_def)
  have r: "request_msg M = message kClientSign RETRAN (4 * card M + 4) (u32_bytes (of_nat (length ps)) @ concat (map u32_bytes ps))"
    by (simp add: request_msg_def ps(2)) (simp add: ps_def comp_def)
  have w: "unat (sendWindow s) + 2 * length ps \<le> 30" using M(3) ps(2) by simp
  from retran_taken [OF s(1,2) known_signs(2) ps(1) w, of "4 * card M + 4" "getter_at h" now, folded r] obtain t where
    t: "send_step (Send_Conn.Msg (Recv (request_msg M) (getter_at h)) now) s = Inr t" "send_inv t f"
      "sent (Send_Conn.conn t) = sent (Send_Conn.conn s) @ map (\<lambda>d. (d, getter_at h)) [piece_msg f (last ps)]"
      "Send_Conn.recveraddr t = getter_at h" "Send_Conn.actions t = [Queue_Loss (replicate (card M) 0 @ butlast ps)]"
      "unat (sendWindow t) = Suc (unat (sendWindow s))" "Send_Conn.state t = SEND_FILE"
    and l: "\<exists>s'. sendLossPieces s (replicate (length ps) 0 @ ps) = Inr s' \<and> sendManager t = sendManager s'"
    by (auto simp: s(2-4) ps(2))
  have "0 < card M" using M(1,2) by (simp add: card_gt_0_iff)
  with M(3) ps(1) have ne: "replicate (length ps) 0 @ ps \<noteq> []" "\<not> 30 \<le> unat (sendWindow s)" by (simp, linarith)
  from l obtain s' where l': "sendLossPieces s (replicate (length ps) 0 @ ps) = Inr s'" "sendManager t = sendManager s'" by blast
  from loss_manager [OF s(1) m(1) ne l'(1)] l'(2) obtain m' where mt: "sendManager t = Some m'" "Send_File.curPiece m' = c"
    unfolding m(2) by auto
  let ?t = "t\<lparr>Send_Conn.actions := []\<rparr>"
  have "talk_step h (To_Snd i now) tk = Inr (tk\<lparr>t_snd := ?t, todo := [Queue_Loss (replicate (card M) 0 @ butlast ps)],
      to_rcv := to_rcv tk @ [piece_msg f (last ps)]\<rparr>)"
    using tk t(1,5) new_msgs_append [OF t(3)] piece_msg_carried [of f "last ps"]
    by (simp add: talk_step_def snd_does_def)
  moreover have "0 < card M" using M(1,2) by (simp add: card_gt_0_iff)
  ultimately show ?thesis
    using t(2,4,6,7) mt w ps tk(3) by (intro exI [of _ ?t]) (simp add: lossy_sender_def send_inv_def)
qed

section \<open>The pieces\<close>

text \<open>What a delivery leaves alone.\<close>

definition other_side :: "talk \<Rightarrow> talk \<Rightarrow> bool" where
  "other_side tk tk' \<longleftrightarrow> t_snd tk' = t_snd tk \<and> todo tk' = todo tk \<and> snd_gone tk' = snd_gone tk \<and> to_rcv tk' = to_rcv tk \<and>
     (\<exists>ds. to_snd tk' = to_snd tk @ ds)"

definition still_gets :: "bytes \<Rightarrow> nat \<times> nat set \<Rightarrow> talk \<Rightarrow> bool" where
  "still_gets f p tk \<longleftrightarrow> get_inv (t_rcv tk) \<and> gets (t_rcv tk) f p \<and> \<not> rcv_gone tk \<and> Get_Conn.actions (t_rcv tk) = []"

lemma piece_arrives:
  assumes g: "still_gets f (c, M) tk" and k: "k < c" "j < length (to_rcv tk)" "to_rcv tk ! j = piece_msg f (of_nat k)"
  shows "\<exists>tk'. talk_step h (To_Rcv j now) tk = Inr tk' \<and> other_side tk tk' \<and>
    (if c = piece_count f \<and> M - {k} = {} then finished (t_rcv tk') f
     else still_gets f (c, M - {k}) tk' \<and> lastDataStreamTime (t_rcv tk') = now \<and> (asks_at h' i (t_rcv tk) \<longrightarrow> asks_at h' i (t_rcv tk')))"
proof -
  have gt: "get_inv (t_rcv tk)" "gets (t_rcv tk) f (c, M)" "\<not> rcv_gone tk" "Get_Conn.actions (t_rcv tk) = []"
    using g by (simp_all add: still_gets_def)
  have kn: "k < piece_count f" using k(1) gt(2) by (auto simp: gets_def receiving_def)
  have acc: "accept k (c, M) = (c, M - {k})" using k(1) by (simp add: accept_def)
  have c: "complete f (accept k (c, M)) \<longleftrightarrow> c = piece_count f \<and> M - {k} = {}" unfolding acc by (simp add: complete_def)
  from piece_event [OF gt(1,2) kn, of "sender_at h" now "([], False)", unfolded c, unfolded acc] obtain g' ret m b where
    g': "get_step (Get_Conn.Msg (Recv (piece_msg f (of_nat k)) (sender_at h)) now ([], False)) (t_rcv tk) = Inr g'" "get_inv g'"
      "g' = (after_piece (t_rcv tk) now ret m)\<lparr>Get_Conn.conn := (Get_Conn.conn (after_piece (t_rcv tk) now ret m))\<lparr>tmpbuf := b\<rparr>\<rparr>"
      "ret = WRITE_FINISH \<longleftrightarrow> c = piece_count f \<and> M - {k} = {}"
      "if c = piece_count f \<and> M - {k} = {} then finished g' f else gets g' f (c, M - {k})"
    by blast
  let ?g = "g'\<lparr>Get_Conn.actions := []\<rparr>"
  have act: "Get_Conn.actions g' = []" "lastDataStreamTime ?g = now" "asks_at h' i (t_rcv tk) \<longrightarrow> asks_at h' i ?g"
    if "\<not> (c = piece_count f \<and> M - {k} = {})"
    using that g'(4) gt(4) by (auto simp: g'(3) after_piece_def counted_def asks_at_def Let_def)
  have same: "get_inv ?g" "finished g' f \<Longrightarrow> finished ?g f" "gets g' f p \<Longrightarrow> gets ?g f p" for p
    using g'(2) by (simp_all add: get_inv_def finished_def gets_def)
  let ?tk = "tk\<lparr>t_rcv := ?g, to_snd := to_snd tk @ carried (new_msgs (Get_Conn.conn (t_rcv tk)) (Get_Conn.conn g') (sender_at h)),
    rcv_gone := (Get_Conn.actions g' \<noteq> [])\<rparr>"
  have "talk_step h (To_Rcv j now) tk = Inr ?tk" using g'(1) k(2,3) gt(3) by (simp add: talk_step_def rcv_does_def)
  moreover have "other_side tk ?tk" by (simp add: other_side_def)
  moreover have "if c = piece_count f \<and> M - {k} = {} then finished (t_rcv ?tk) f
     else still_gets f (c, M - {k}) ?tk \<and> lastDataStreamTime (t_rcv ?tk) = now \<and> (asks_at h' i (t_rcv tk) \<longrightarrow> asks_at h' i (t_rcv ?tk))"
    using g'(5) same act by (simp add: still_gets_def split: if_splits)
  ultimately show ?thesis by blast
qed

lemma other_side_trans: "other_side tk tk1 \<Longrightarrow> other_side tk1 tk2 \<Longrightarrow> other_side tk tk2"
  by (auto simp: other_side_def)

lemma pieces_arrive:
  assumes "still_gets f (c, set ks) tk" and "ks \<noteq> []" "distinct ks" "\<forall>k \<in> set ks. k < c"
    and "i + length ks \<le> length (to_rcv tk)" "\<forall>j < length ks. to_rcv tk ! (i + j) = piece_msg f (of_nat (ks ! j))"
  shows "\<exists>tk'. talk_run h (map (\<lambda>j. To_Rcv j now) [i ..< i + length ks]) tk = Inr tk' \<and> other_side tk tk' \<and>
    (if c = piece_count f then finished (t_rcv tk') f
     else still_gets f (c, {}) tk' \<and> lastDataStreamTime (t_rcv tk') = now \<and> (asks_at h' t (t_rcv tk) \<longrightarrow> asks_at h' t (t_rcv tk')))"
  using assms
proof (induction ks arbitrary: i tk)
  case (Cons k ks)
  have k: "k < c" "i < length (to_rcv tk)" "to_rcv tk ! i = piece_msg f (of_nat k)"
    using Cons.prems(4-6) by (auto dest: spec [of _ 0])
  have M: "set (k # ks) - {k} = set ks" using Cons.prems(3) by simp
  from piece_arrives [OF Cons.prems(1) k, of h now h' t, unfolded M] obtain tk1 where
    1: "talk_step h (To_Rcv i now) tk = Inr tk1" "other_side tk tk1"
      "if c = piece_count f \<and> set ks = {} then finished (t_rcv tk1) f
       else still_gets f (c, set ks) tk1 \<and> lastDataStreamTime (t_rcv tk1) = now \<and> (asks_at h' t (t_rcv tk) \<longrightarrow> asks_at h' t (t_rcv tk1))"
    by blast
  have es: "[i ..< i + length (k # ks)] = i # [Suc i ..< Suc i + length ks]" by (simp add: upt_conv_Cons del: upt_Suc)
  show ?case
  proof (cases "ks = []")
    case True
    with 1 show ?thesis unfolding es by (simp add: talk_run_def split: if_splits)
  next
    case False
    have r: "to_rcv tk1 = to_rcv tk" using 1(2) by (simp add: other_side_def)
    have "\<forall>j < length ks. to_rcv tk1 ! (Suc i + j) = piece_msg f (of_nat (ks ! j))"
      using Cons.prems(6) r by (auto dest: spec [of _ "Suc _"])
    with Cons.IH [of tk1 "Suc i"] 1(3) False Cons.prems(3-5) r obtain tk' where
      tk': "talk_run h (map (\<lambda>j. To_Rcv j now) [Suc i ..< Suc i + length ks]) tk1 = Inr tk'" "other_side tk1 tk'"
        "if c = piece_count f then finished (t_rcv tk') f
         else still_gets f (c, {}) tk' \<and> lastDataStreamTime (t_rcv tk') = now \<and> (asks_at h' t (t_rcv tk1) \<longrightarrow> asks_at h' t (t_rcv tk'))" by auto
    moreover have "asks_at h' t (t_rcv tk) \<longrightarrow> asks_at h' t (t_rcv tk1)" using 1(3) False by (simp split: if_splits)
    ultimately show ?thesis unfolding es using 1(1) other_side_trans [OF 1(2) tk'(2)] by (auto simp: talk_run_def)
  qed
qed simp

section \<open>The round\<close>

definition request_events :: "get_conn \<Rightarrow> nat \<Rightarrow> nat \<Rightarrow> timestamp \<Rightarrow> talk_event list" where
  "request_events g m i now = [Rcv_Timer i now, To_Snd (length (late_ack g now)) now] @ replicate (2 * m - 1) Functor"

definition round_schedule :: "get_conn \<Rightarrow> nat \<Rightarrow> nat \<Rightarrow> timestamp \<Rightarrow> talk_event list" where
  "round_schedule g m i now = request_events g m i now @ map (\<lambda>j. To_Rcv j now) [0 ..< m]"

lemma talk_run_append: "talk_run h (es @ es') tk = bindE (talk_run h es tk) (talk_run h es')"
  by (simp add: talk_run_def foldE_append)

definition can_send :: "hosts \<Rightarrow> bytes \<Rightarrow> nat \<Rightarrow> send_conn \<Rightarrow> bool" where
  "can_send h f m s \<longleftrightarrow> send_inv s f \<and> Send_Conn.state s = SEND_FILE \<and> Send_Conn.actions s = [] \<and>
     Send_Conn.recveraddr s = getter_at h \<and> unat (sendWindow s) + 2 * m \<le> 30"

text \<open>The request and the answer: all the pieces asked for, the last one first, and the first piece of the file as many times.\<close>

lemma request_answered:
  assumes s: "can_send h f (card M) s" "sendManager s = Some m"
    and g: "get_inv g" "gets g f (c, M)" "Get_Conn.actions g = []" "asks_at h i g" and M: "M \<noteq> {}"
  shows "\<exists>tk. talk_run h (request_events g (card M) i now) (new_talk s g []) = Inr tk \<and>
    to_rcv tk = map (\<lambda>k. piece_msg f (of_nat k)) (rev (sorted_list_of_set M)) @ replicate (card M) (piece_msg f 0) \<and>
    still_gets f (c, M) tk \<and> asks_at h i (t_rcv tk) \<and> to_snd tk = late_ack g now @ [request_msg M] \<and>
    lossy_sender h f (Send_File.curPiece m) [] tk \<and> (1024 \<le> length f \<longrightarrow> good_sender tk)"
proof -
  let ?m = "card M" and ?L = "sorted_list_of_set M"
  let ?ps = "map of_nat ?L :: u32 list"
  have s': "send_inv s f" "Send_Conn.state s = SEND_FILE" "Send_Conn.actions s = []" "Send_Conn.recveraddr s = getter_at h"
    "unat (sendWindow s) + 2 * ?m \<le> 30" using s by (simp_all add: can_send_def)
  have fin: "finite M" using g(2) by (auto simp: gets_def receiving_def intro: finite_subset)
  have pos: "0 < ?m" using fin M by (simp add: card_gt_0_iff)
  have ps: "?ps \<noteq> []" using fin M by simp
  have "?m \<le> 15" using s'(5) by simp
  from request_goes_out [OF g(1,2) M this g(3,4), of now s] obtain g' where
    1: "talk_step h (Rcv_Timer i now) (new_talk s g []) = Inr ((new_talk s g' [])\<lparr>to_snd := late_ack g now @ [request_msg M]\<rparr>)"
      "get_inv g'" "gets g' f (c, M)" "Get_Conn.actions g' = []" "asks_at h i g'" by blast
  let ?t1 = "(new_talk s g' [])\<lparr>to_snd := late_ack g now @ [request_msg M]\<rparr>" and ?n = "length (late_ack g now)"
  let ?qs = "replicate ?m 0 @ butlast ?ps"
  have "t_snd ?t1 = s" "todo ?t1 = []" "\<not> snd_gone ?t1" "?n < length (to_snd ?t1)" "to_snd ?t1 ! ?n = request_msg M"
    by (simp_all add: new_talk_def)
  from request_comes_in [OF s'(1-4) fin M s'(5) this s(2) refl, of now] obtain t where
    2: "talk_step h (To_Snd ?n now) ?t1 = Inr (?t1\<lparr>t_snd := t, todo := [Queue_Loss ?qs], to_rcv := to_rcv ?t1 @ [piece_msg f (last ?ps)]\<rparr>)"
      "lossy_sender h f (Send_File.curPiece m) ?qs (?t1\<lparr>t_snd := t, todo := [Queue_Loss ?qs], to_rcv := to_rcv ?t1 @ [piece_msg f (last ?ps)]\<rparr>)" by blast
  let ?t2 = "?t1\<lparr>t_snd := t, todo := [Queue_Loss ?qs], to_rcv := to_rcv ?t1 @ [piece_msg f (last ?ps)]\<rparr>"
  have hd: "?qs \<noteq> []" "hd ?qs = 0" using pos by (simp_all add: hd_append)
  from functors_send [OF 2(2)] hd obtain tk where
    3: "talk_run h (replicate (length ?qs) Functor) ?t2 = Inr tk" "to_rcv tk = to_rcv ?t2 @ map (piece_msg f) (rev ?qs)"
      "t_rcv tk = g'" "\<not> rcv_gone tk" "to_snd tk = late_ack g now @ [request_msg M]" "lossy_sender h f (Send_File.curPiece m) [] tk"
      "1024 \<le> length f \<longrightarrow> good_sender tk" by (auto simp: new_talk_def)
  have q: "length ?qs = 2 * ?m - 1" using pos by simp
  have rv: "last ?ps # rev (butlast ?ps) = rev ?ps" using append_butlast_last_id [OF ps] by (metis rev_append rev_singleton_conv append_Cons append_Nil)
  have "to_rcv tk = map (piece_msg f) ((last ?ps # rev (butlast ?ps)) @ replicate ?m 0)" using 3(2) by (simp add: new_talk_def)
  note to = this [unfolded rv]
  have "talk_run h (request_events g ?m i now) (new_talk s g []) = Inr tk"
    unfolding request_events_def talk_run_append using 1(1) 2(1) 3(1) [unfolded q] by (simp add: talk_run_def)
  then show ?thesis using to 3(3-7) 1(2-5) by (intro exI [of _ tk]) (simp add: rev_map still_gets_def)
qed

text \<open>They are delivered: what was missing is there.\<close>

lemma round_delivers:
  assumes s: "can_send h f (card M) s" "sendManager s = Some m"
    and g: "get_inv g" "gets g f (c, M)" "Get_Conn.actions g = []" "asks_at h i g" and M: "M \<noteq> {}"
  shows "\<exists>tk. talk_run h (round_schedule g (card M) i now) (new_talk s g []) = Inr tk \<and>
    (if c = piece_count f then finished (t_rcv tk) f
     else still_gets f (c, {}) tk \<and> lastDataStreamTime (t_rcv tk) = now \<and> asks_at h i (t_rcv tk)) \<and>
    length (to_rcv tk) = 2 * card M \<and> (\<exists>ds. to_snd tk = late_ack g now @ ds) \<and> lossy_sender h f (Send_File.curPiece m) [] tk \<and>
    (1024 \<le> length f \<longrightarrow> good_sender tk)"
proof -
  let ?m = "card M" and ?L = "rev (sorted_list_of_set M)"
  have lt: "\<forall>k \<in> M. k < c" using g(2) by (auto simp: gets_def receiving_def)
  then have fin: "finite M" by (auto intro: finite_subset [of _ "{..<c}"])
  then have L: "set ?L = M" "distinct ?L" "\<forall>k \<in> set ?L. k < c" "length ?L = ?m" "?L \<noteq> []" using M(1) lt by simp_all
  from request_answered [OF s g M, of now] obtain tk where
    1: "talk_run h (request_events g ?m i now) (new_talk s g []) = Inr tk"
      "to_rcv tk = map (\<lambda>k. piece_msg f (of_nat k)) ?L @ replicate ?m (piece_msg f 0)"
      "still_gets f (c, M) tk" "asks_at h i (t_rcv tk)" "to_snd tk = late_ack g now @ [request_msg M]"
      "lossy_sender h f (Send_File.curPiece m) [] tk" "1024 \<le> length f \<longrightarrow> good_sender tk"
    by blast
  have gL: "still_gets f (c, set ?L) tk" unfolding L(1) by (rule 1(3))
  have "0 + length ?L \<le> length (to_rcv tk)" "\<forall>j < length ?L. to_rcv tk ! (0 + j) = piece_msg f (of_nat (?L ! j))"
    by (simp_all add: 1(2) nth_append)
  from pieces_arrive [OF gL L(5,2,3) this, of h now h i] L(4) 1(4) obtain tk' where
    2: "talk_run h (map (\<lambda>j. To_Rcv j now) [0 ..< ?m]) tk = Inr tk'" "other_side tk tk'"
      "if c = piece_count f then finished (t_rcv tk') f
       else still_gets f (c, {}) tk' \<and> lastDataStreamTime (t_rcv tk') = now \<and> asks_at h i (t_rcv tk')" by auto
  have "talk_run h (round_schedule g ?m i now) (new_talk s g []) = Inr tk'"
    unfolding round_schedule_def talk_run_append using 1(1) 2(1) by simp
  moreover have "length (to_rcv tk') = 2 * ?m" "\<exists>ds. to_snd tk' = late_ack g now @ ds"
    "lossy_sender h f (Send_File.curPiece m) [] tk'" "1024 \<le> length f \<longrightarrow> good_sender tk'"
    using 1(2,5-7) 2(2) L(4) by (auto simp: other_side_def lossy_sender_def good_sender_def)
  ultimately show ?thesis using 2(3) by blast
qed

text \<open>
  C6. Losses are recovered. A receiver that has the last piece and misses up to 15 others asks for them when its timer fires; if the network
  delivers the request and the answer, and the sender has room in its window, the answer completes the file: what the receiver has on its disk is
  the sender's file, and it says so. Nothing depends on which pieces are missing, nor on whether the sender's stream has ended.
\<close>

theorem losses_recovered:
  assumes "can_send h f (card M) s" and "get_inv g" "gets g f (piece_count f, M)" "Get_Conn.actions g = []" and "asks_at h i g" and "M \<noteq> {}"
  shows "\<exists>tk. talk_run h (round_schedule g (card M) i now) (new_talk s g []) = Inr tk \<and> finished (t_rcv tk) f"
proof -
  obtain m where "sendManager s = Some m" using assms(1) by (auto simp: can_send_def send_inv_def)
  from round_delivers [OF assms(1) this assms(2-6), of now] show ?thesis by auto
qed

text \<open>The second piece has come, the first one not.\<close>

lemma gap_after:
  assumes g: "get_inv g" "gets g f (0, {})" "Get_Conn.recveraddr g = sender_at h" and n: "2 \<le> piece_count f"
  shows "\<exists>g'. get_inv g' \<and> gets g' f (2, {0}) \<and> Get_Conn.actions g' = [] \<and> asks_at h 0 g' \<and> lastDataStreamTime g' = 5"
proof -
  have acc: "accept 1 (0, {}) = (2, {0})" by (auto simp: accept_def)
  have "1 < piece_count f" using n by simp
  from piece_event [OF g(1,2) this, of "sender_at h" 5 "([], False)", unfolded acc] obtain g' ret m b where
    g': "get_inv g'" "g' = (after_piece g 5 ret m)\<lparr>Get_Conn.conn := (Get_Conn.conn (after_piece g 5 ret m))\<lparr>tmpbuf := b\<rparr>\<rparr>"
      "gets g' f (2, {0})" "ret \<noteq> WRITE_FINISH" by (auto simp: complete_def)
  have "Get_Conn.recveraddr g' = sender_at h" "lastDataStreamTime g' = 5"
    using g'(4) g(3) by (simp_all add: g'(2) after_piece_def counted_def Let_def)
  with g'(1,3) show ?thesis
    by (intro exI [of _ "g'\<lparr>Get_Conn.actions := [], Get_Conn.repeattimers := [Send_Retran_Req]\<rparr>"])
      (simp add: get_inv_def gets_def asks_at_def)
qed

theorem losses_recovered_witness:
  "\<exists>g tk. gets g demo_content (2, {0}) \<and>
    talk_run demo_hosts (round_schedule g (card {0 :: nat}) 0 9) (new_talk (sending\<lparr>Send_Conn.recveraddr := peer_b\<rparr>) g []) = Inr tk \<and>
    finished (t_rcv tk) demo_content"
proof -
  have "gets downloading demo_content (0, {})" "Get_Conn.recveraddr downloading = sender_at demo_hosts" "2 \<le> piece_count demo_content"
    using demo_linked by (simp_all add: linked_def downloading_def demo_hosts_ok(4) demo_sizes(2))
  from gap_after [OF downloading_inv(1) this] obtain g where
    g: "get_inv g" "gets g demo_content (piece_count demo_content, {0})" "Get_Conn.actions g = []" "asks_at demo_hosts 0 g"
    by (auto simp: demo_sizes(2))
  let ?s = "sending\<lparr>Send_Conn.recveraddr := peer_b\<rparr>"
  have s: "send_inv ?s demo_content" "Send_Conn.state ?s = SEND_FILE" "Send_Conn.actions ?s = []"
    "Send_Conn.recveraddr ?s = getter_at demo_hosts" "sendWindow ?s = 0"
    using demo_inv(2) by (simp_all add: send_inv_def sending_def waiting_def sender0_def demo_hosts_def)
  have "can_send demo_hosts demo_content (card {0 :: nat}) ?s" using s by (simp add: can_send_def)
  from losses_recovered [OF this g, of 9] g(2) demo_sizes(2) show ?thesis by auto
qed

end
