(* ===== verification/Padding.thy ===== *)
theory Padding
  imports Recovery
begin

text \<open>
  How a transfer ends with a wrong file. The last piece is lost together with an earlier one: recovering the earlier one makes the sender's
  stream good again behind the end of the file, an acknowledgement then makes it send a piece without bytes, and the receiver writes a piece
  of zeros for the last one. The last piece, when it comes, is written over their beginning.
\<close>

section \<open>The sender goes on behind the end\<close>

lemma empty_queue:
  assumes "lossy_sender h f c [] tk"
  shows "talk_step h Functor tk = Inr (tk\<lparr>t_snd := (t_snd tk)\<lparr>isWindowFull := True\<rparr>, todo := []\<rparr>)"
proof -
  from assms obtain m where "todo tk = [Queue_Loss []]" "\<not> snd_gone tk" "sendManager (t_snd tk) = Some m" "Send_Conn.actions (t_snd tk) = []"
    by (auto simp: lossy_sender_def)
  then show ?thesis
    by (simp add: talk_step_def functor_event_def snd_does_def send_step.simps sendLossPieces_def new_msgs_def carried_def)
qed

lemma stream_woken:
  assumes s: "send_inv s f" "Send_Conn.state s = SEND_FILE" "isWindowFull s" "unat (sendWindow s) \<le> 30"
    and m: "sendManager s = Some m" "Send_File.isGood m"
  shows "\<exists>t. send_step (Send_Conn.Msg (Recv (message kClientSign PACK_ACK 4 (u32_bytes 30)) a) now) s = Inr t \<and>
    send_inv t f \<and> Send_Conn.state t = SEND_FILE \<and> unat (sendWindow t) = 1 \<and> Send_Conn.recveraddr t = Send_Conn.recveraddr s \<and>
    sent (Send_Conn.conn t) = sent (Send_Conn.conn s) @ [(piece_msg f (Send_File.curPiece m), Send_Conn.recveraddr s)] \<and>
    Send_Conn.actions t = Send_Conn.actions s @ [Queue_Stream]"
proof -
  let ?d = "message kClientSign PACK_ACK 4 (u32_bytes 30)"
  let ?s = "s\<lparr>sendWindow := 0, isWindowFull := False\<rparr>"
  have len: "length ?d \<le> kBufferSize" by (simp add: sizeof_Header_def kBufferSize_def)
  have u: "udp_inv (Send_Conn.conn s)" using s(1) by (simp add: send_inv_def)
  note f = fields [OF s(1) known_signs(2), where body = "u32_bytes 30" and t = PACK_ACK and n = 4]
  have pk: "peek (received (Send_Conn.conn s) ?d) sizeof_Header 4 = Inr (u32_bytes 30)" using f(2) [where k = 4] by simp
  have i: "send_inv ?s f" using s(1) by (simp add: send_inv_def)
  have w: "(if 30 \<le> sendWindow s then sendWindow s - 30 else 0) = 0"
  proof (cases "30 \<le> sendWindow s")
    case True
    then have "unat (sendWindow s) = unat (30 :: u32)" using s(4) by (simp add: word_le_nat_alt)
    then have "sendWindow s = 30" by (simp only: word_unat_eq_iff)
    then show ?thesis by simp
  qed simp
  from sendFileStream_good [of ?s f m] i m obtain t where
    t: "sendFileStream ?s = Inr t" "send_inv t f" "Send_Conn.state t = SEND_FILE" "unat (sendWindow t) = 1"
      "sent (Send_Conn.conn t) = sent (Send_Conn.conn s) @ [(piece_msg f (Send_File.curPiece m), Send_Conn.recveraddr s)]"
      "Send_Conn.actions t = Send_Conn.actions s @ [Queue_Stream]" "Send_Conn.recveraddr t = Send_Conn.recveraddr s"
    by (auto simp: sends_only_def s(2))
  have "handle_pack_ack s (received (Send_Conn.conn s) ?d) = Inr t"
    using s(2,3) t(1) by (simp add: handle_pack_ack_def pk Let_def w split del: if_split cong: if_cong)
  then show ?thesis
    using f(1) [where a = a and now = now] t view_udp_inv [OF received_msg_view [OF u len]]
    by (simp add: message_step [OF s(1) len] send_inv_def)
qed

section \<open>The receiver takes the piece without bytes\<close>

definition pads :: "bytes \<Rightarrow> nat \<Rightarrow> talk \<Rightarrow> bool" where
  "pads f P tk \<longleftrightarrow> get_inv (t_rcv tk) \<and> Get_Conn.state (t_rcv tk) = RECV_FILE \<and> \<not> rcv_gone tk \<and> Get_Conn.actions (t_rcv tk) = [] \<and>
     (\<exists>m. getManager (t_rcv tk) = Some m \<and> padded m f P)"

lemma message_index:
  assumes "P < 2 ^ 22" shows "unat (of_nat P :: u32) mod 2 ^ 22 = P"
  using assms by (simp add: unat_of_nat)

lemma empty_piece_comes:
  assumes g: "still_gets f (P, {}) tk" "Suc P = piece_count f" and j: "j < length (to_rcv tk)" "to_rcv tk ! j = piece_msg f (of_nat (Suc P))"
    and a: "asks_at h i (t_rcv tk)"
  shows "\<exists>tk'. talk_step h (To_Rcv j now) tk = Inr tk' \<and> other_side tk tk' \<and> pads f P tk' \<and> asks_at h i (t_rcv tk')"
proof -
  obtain m where gt: "get_inv (t_rcv tk)" "Get_Conn.state (t_rcv tk) = RECV_FILE" "getManager (t_rcv tk) = Some m" "receiving m f P {}"
    "\<not> rcv_gone tk" "Get_Conn.actions (t_rcv tk) = []" using g(1) by (auto simp: still_gets_def gets_def)
  have "length f \<le> 4294966272" using gt(4) by (simp add: receiving_def fits_limit_def)
  from piece_count_small [OF this] g(2) have kk: "unat (of_nat (Suc P) :: u32) mod 2 ^ 22 = Suc P" by (intro message_index) simp
  from stream_event [OF gt(1-3), of f "of_nat (Suc P)" "sender_at h" now "([], False)"] obtain p b where
    e: "get_step (Get_Conn.Msg (Recv (piece_msg f (of_nat (Suc P))) (sender_at h)) now ([], False)) (t_rcv tk) =
      bindE (writeToFile m p (of_nat (Suc P))) (\<lambda>(ret, m1). Inr ((after_piece (t_rcv tk) now ret m1)
        \<lparr>Get_Conn.conn := (Get_Conn.conn (after_piece (t_rcv tk) now ret m1))\<lparr>tmpbuf := b\<rparr>\<rparr>))"
      "buffer_inv p" "contents p = chunk 1024 f (Suc P)"
      and keeps: "\<And>g'. get_inv g' \<Longrightarrow> get_inv (g'\<lparr>Get_Conn.conn := (Get_Conn.conn g')\<lparr>tmpbuf := b\<rparr>\<rparr>)"
    unfolding kk by blast
  have "contents p = []" using e(3) g(2) piece_count_iff [of "Suc P" f] by (simp add: chunk_def)
  from empty_piece_pads [OF gt(4) g(2) e(2) this] obtain m' where
    w: "writeToFile m p (of_nat (Suc P)) = Inr (LOSS, m')" "padded m' f P" by blast
  have op: "LOSS \<noteq> WRITE_FINISH \<Longrightarrow> Get_File.isOpen m'" using w(2) by (simp add: padded_def)
  note ap = after_piece_good [where ret = LOSS and time = now and m = m', OF gt(1,2) op]
  let ?a = "after_piece (t_rcv tk) now LOSS m'"
  let ?g = "?a\<lparr>Get_Conn.conn := (Get_Conn.conn ?a)\<lparr>tmpbuf := b\<rparr>\<rparr>"
  have run: "get_step (Get_Conn.Msg (Recv (to_rcv tk ! j) (sender_at h)) now ([], False)) (t_rcv tk) = Inr ?g"
    unfolding j(2) e(1) by (simp add: w(1) del: of_nat_Suc)
  have inv: "get_inv ?g" using ap(1) by (intro keeps) (simp add: get_good_def)
  have same: "Get_Conn.actions ?a = []" "asks_at h i ?g"
    using gt(6) a by (simp_all add: after_piece_def counted_def asks_at_def Let_def)
  let ?tk = "tk\<lparr>t_rcv := ?g\<lparr>Get_Conn.actions := []\<rparr>, to_snd := to_snd tk @ carried (new_msgs (Get_Conn.conn (t_rcv tk)) (Get_Conn.conn ?g) (sender_at h)),
    rcv_gone := False\<rparr>"
  have "talk_step h (To_Rcv j now) tk = Inr ?tk" using run j(1) gt(5) same(1) by (simp add: talk_step_def rcv_does_def)
  moreover have "pads f P ?tk" using inv ap(2,3) w(2) by (simp add: pads_def get_inv_def)
  ultimately show ?thesis using same(2) by (intro exI [of _ ?tk]) (simp add: other_side_def asks_at_def)
qed

section \<open>It asks for the last piece\<close>

lemma padded_piece_comes:
  assumes g: "pads f P tk" and j: "j < length (to_rcv tk)" "to_rcv tk ! j = piece_msg f (of_nat P)"
  shows "\<exists>tk'. talk_step h (To_Rcv j now) tk = Inr tk' \<and> finished (t_rcv tk') (f @ replicate (1024 * piece_count f - length f) 0)"
proof -
  obtain m where gt: "get_inv (t_rcv tk)" "Get_Conn.state (t_rcv tk) = RECV_FILE" "getManager (t_rcv tk) = Some m" "padded m f P"
    "\<not> rcv_gone tk" using g by (auto simp: pads_def)
  have "length f \<le> 4294966272" using gt(4) by (simp add: padded_def fits_limit_def)
  from piece_count_small [OF this] gt(4) have kk: "unat (of_nat P :: u32) mod 2 ^ 22 = P" by (intro message_index) (simp add: padded_def)
  from stream_event [OF gt(1-3), of f "of_nat P" "sender_at h" now "([], False)"] obtain p b where
    e: "get_step (Get_Conn.Msg (Recv (piece_msg f (of_nat P)) (sender_at h)) now ([], False)) (t_rcv tk) =
      bindE (writeToFile m p (of_nat P)) (\<lambda>(ret, m1). Inr ((after_piece (t_rcv tk) now ret m1)
        \<lparr>Get_Conn.conn := (Get_Conn.conn (after_piece (t_rcv tk) now ret m1))\<lparr>tmpbuf := b\<rparr>\<rparr>))"
      "buffer_inv p" "contents p = chunk 1024 f P" unfolding kk by blast
  from padded_finish [OF gt(4) e(2,3)] obtain m' where
    w: "writeToFile m p (of_nat P) = Inr (WRITE_FINISH, m')" "data (fileStream m') = f @ replicate (1024 * piece_count f - length f) 0" by blast
  let ?a = "after_piece (t_rcv tk) now WRITE_FINISH m'"
  let ?g = "?a\<lparr>Get_Conn.conn := (Get_Conn.conn ?a)\<lparr>tmpbuf := b\<rparr>\<rparr>"
  have run: "get_step (Get_Conn.Msg (Recv (to_rcv tk ! j) (sender_at h)) now ([], False)) (t_rcv tk) = Inr ?g"
    unfolding j(2) e(1) by (simp add: w(1))
  have "finished (?g\<lparr>Get_Conn.actions := []\<rparr>) (f @ replicate (1024 * piece_count f - length f) 0)"
    using w(2) by (simp add: finished_def after_piece_def counted_def Let_def Get_Conn.closeSelf_def Get_Conn.act_def)
  with run j(1) gt(5) show ?thesis by (simp add: talk_step_def rcv_does_def)
qed

lemma last_requested:
  assumes g: "pads f P tk" and a: "asks_at h i (t_rcv tk)"
  shows "\<exists>tk'. talk_step h (Rcv_Timer i now) tk = Inr tk' \<and> pads f P tk' \<and> t_snd tk' = t_snd tk \<and> snd_gone tk' = snd_gone tk \<and>
    to_rcv tk' = to_rcv tk \<and> to_snd tk' = to_snd tk @ late_ack (t_rcv tk) now @ [message kClientSign RETRAN 8 (u32_bytes 1 @ u32_bytes (of_nat P))]"
proof -
  obtain m where gt: "get_inv (t_rcv tk)" "Get_Conn.state (t_rcv tk) = RECV_FILE" "getManager (t_rcv tk) = Some m" "padded m f P"
    "\<not> rcv_gone tk" "Get_Conn.actions (t_rcv tk) = []" using g by (auto simp: pads_def)
  let ?d = "message kClientSign RETRAN 8 (u32_bytes 1 @ u32_bytes (of_nat P))"
  from retran_sends [OF gt(1-3) padded_loss [OF gt(4)], of now] obtain g' where
    g': "sendRetranReq (t_rcv tk) now = Inr g'" "g' = (t_rcv tk)\<lparr>Get_Conn.conn := Get_Conn.conn g'\<rparr>" "get_inv g'"
      "sent (Get_Conn.conn g') = sent (Get_Conn.conn (t_rcv tk)) @ map (\<lambda>d. (d, sender_at h)) (late_ack (t_rcv tk) now @ [?d])"
    using a by (auto simp: asks_at_def late_ack_def)
  have same: "Get_Conn.actions g' = []" "Get_Conn.state g' = RECV_FILE" "getManager g' = Some m" by (subst g'(2), simp add: gt)+
  have c: "carried (late_ack (t_rcv tk) now @ [?d]) = late_ack (t_rcv tk) now @ [?d]"
    by (simp add: carried_def kMaxDatagram_def sizeof_Header_def late_ack_def)
  let ?tk = "tk\<lparr>t_rcv := g'\<lparr>Get_Conn.actions := []\<rparr>, to_snd := to_snd tk @ late_ack (t_rcv tk) now @ [?d], rcv_gone := False\<rparr>"
  have "talk_step h (Rcv_Timer i now) tk = Inr ?tk"
    using a g'(1) gt(5) same(1) new_msgs_append [OF g'(4)] c by (simp add: talk_step_def rcv_does_def get_step.simps asks_at_def)
  moreover have "pads f P ?tk" using g'(3) same gt(4) by (simp add: pads_def get_inv_def)
  ultimately show ?thesis by (intro exI [of _ ?tk]) simp
qed

section \<open>The sender's part\<close>

lemma sender_goes_on:
  assumes s: "lossy_sender h f c [] tk" "good_sender tk" and a: "to_snd tk = message kClientSign PACK_ACK 4 (u32_bytes 30) # ds"
  shows "\<exists>tk'. talk_run h [Functor, To_Snd 0 now] tk = Inr tk' \<and> t_rcv tk' = t_rcv tk \<and> rcv_gone tk' = rcv_gone tk \<and>
    to_snd tk' = to_snd tk \<and> to_rcv tk' = to_rcv tk @ [piece_msg f c] \<and> can_send h f 1 (t_snd tk') \<and> \<not> snd_gone tk'"
proof -
  let ?s = "(t_snd tk)\<lparr>isWindowFull := True\<rparr>"
  obtain m where i: "send_inv ?s f" "Send_Conn.state ?s = SEND_FILE" "isWindowFull ?s" "unat (sendWindow ?s) \<le> 30"
    "sendManager ?s = Some m" "Send_File.isGood m"
    and c: "Send_File.curPiece m = c" and o: "Send_Conn.recveraddr (t_snd tk) = getter_at h" "Send_Conn.actions (t_snd tk) = []" "\<not> snd_gone tk"
    using s by (auto simp: lossy_sender_def good_sender_def send_inv_def)
  from stream_woken [OF i, of "getter_at h" now] obtain t where
    t: "send_step (Send_Conn.Msg (Recv (message kClientSign PACK_ACK 4 (u32_bytes 30)) (getter_at h)) now) ?s = Inr t"
      "send_inv t f" "Send_Conn.state t = SEND_FILE" "unat (sendWindow t) = 1" "Send_Conn.recveraddr t = getter_at h"
      "sent (Send_Conn.conn t) = sent (Send_Conn.conn ?s) @ map (\<lambda>d. (d, getter_at h)) [piece_msg f c]"
      "Send_Conn.actions t = [Queue_Stream]" by (auto simp: c o)
  let ?t = "t\<lparr>Send_Conn.actions := []\<rparr>"
  have "can_send h f 1 ?t" using t by (simp add: can_send_def send_inv_def)
  with t(1,7) a o(3) new_msgs_append [OF t(6)] piece_msg_carried [of f c] empty_queue [OF s(1)] show ?thesis
    by (simp add: talk_run_def) (simp add: talk_step_def snd_does_def)
qed

lemma last_sent:
  assumes s: "can_send h f 1 (t_snd tk)" "\<not> snd_gone tk"
    and j: "j < length (to_snd tk)" "to_snd tk ! j = message kClientSign RETRAN 8 (u32_bytes 1 @ u32_bytes k)"
  shows "\<exists>tk'. talk_step h (To_Snd j now) tk = Inr tk' \<and> t_rcv tk' = t_rcv tk \<and> rcv_gone tk' = rcv_gone tk \<and>
    to_rcv tk' = to_rcv tk @ [piece_msg f k]"
proof -
  let ?s = "t_snd tk"
  have i: "send_inv ?s f" "Send_Conn.state ?s = SEND_FILE" "Send_Conn.recveraddr ?s = getter_at h" "unat (sendWindow ?s) + 2 * length [k] \<le> 30"
    using s(1) by (simp_all add: can_send_def)
  from retran_taken [OF i(1,2) known_signs(2) _ i(4), of 8 "getter_at h" now] obtain t where
    t: "send_step (Send_Conn.Msg (Recv (to_snd tk ! j) (getter_at h)) now) ?s = Inr t"
      "sent (Send_Conn.conn t) = sent (Send_Conn.conn ?s) @ map (\<lambda>d. (d, getter_at h)) [piece_msg f k]"
    by (auto simp: i(3) j(2))
  with j(1) s(2) new_msgs_append [OF t(2)] piece_msg_carried [of f k] show ?thesis
    by (simp add: talk_step_def snd_does_def)
qed

section \<open>The transfer\<close>

definition padding_schedule :: "get_conn \<Rightarrow> nat \<Rightarrow> nat \<Rightarrow> nat \<Rightarrow> timestamp \<Rightarrow> timestamp \<Rightarrow> talk_event list" where
  "padding_schedule g m i j now later =
     round_schedule g m i now @ [Functor, To_Snd 0 now] @ [To_Rcv (2 * m) now, Rcv_Timer i later, To_Snd j later, To_Rcv (2 * m + 1) later]"


text \<open>A file of three pieces, of which only the second has come.\<close>

definition three_pieces :: bytes where "three_pieces = replicate 2500 0x42"

definition all_sent :: send_file where
  "all_sent = opened_sender\<lparr>ifileStream := (ifileStream opened_sender)\<lparr>is_open := True, content := three_pieces, gpos := 2500, eofbit := True, failbit := True\<rparr>,
     Send_File.curPiece := 3, Send_File.bytesPerPiece := kBytesPerPiece\<rparr>"

lemma three_pieces_ok: "length three_pieces = 2500" "piece_count three_pieces = 3" "fits_limit three_pieces"
  by (simp_all add: three_pieces_def piece_count_def fits_limit_def)


end
