(* ===== verification/Timestamp_Text.thy ===== *)
theory Timestamp_Text
  imports Timestamp "HOL-Library.Signed_Division"
begin

text \<open>
  The two text forms of a timestamp (\<open>Timestamp.cpp\<close>), which the log prints: the conversions of \<open>snprintf\<close> that they
  use, with the size of the array that receives the text. \<open>localtime_r\<close>, which knows the time zone, is an argument.
\<close>

section \<open>Conversions of printf\<close>

definition digit :: "nat \<Rightarrow> char" where "digit d = char_of (48 + d)"

fun dec_digits :: "nat \<Rightarrow> string" where
  "dec_digits n = (if n < 10 then [digit n] else dec_digits (n div 10) @ [digit (n mod 10)])"

declare dec_digits.simps [simp del]

text \<open>\<open>%ld\<close>, \<open>%4d\<close> (blanks in front) and \<open>%06ld\<close> (zeros after the sign).\<close>

definition sign_of :: "int \<Rightarrow> string" where "sign_of z = (if z < 0 then ''-'' else [])"

definition fmt_d :: "int \<Rightarrow> string" where "fmt_d z = sign_of z @ dec_digits (nat \<bar>z\<bar>)"

definition fmt_wd :: "nat \<Rightarrow> int \<Rightarrow> string" where
  "fmt_wd w z = replicate (w - length (fmt_d z)) CHR '' '' @ fmt_d z"

definition fmt_0wd :: "nat \<Rightarrow> int \<Rightarrow> string" where
  "fmt_0wd w z = sign_of z @ replicate (w - length (fmt_d z)) CHR ''0'' @ dec_digits (nat \<bar>z\<bar>)"

text \<open>\<open>snprintf\<close> into an array of \<open>n\<close> characters keeps a place for the terminator.\<close>

definition snprintf :: "nat \<Rightarrow> string \<Rightarrow> string" where "snprintf n s = take (n - 1) s"

section \<open>The text forms\<close>

definition toString :: "timestamp \<Rightarrow> string" where
  "toString t =
     (let seconds = t sdiv kMicroSecondsPerSecond; microseconds = t smod kMicroSecondsPerSecond
      in snprintf (32 - 1) (fmt_d seconds @ ''.'' @ fmt_0wd 6 microseconds))"

record tm =
  tm_year :: int
  tm_mon :: int
  tm_mday :: int
  tm_hour :: int
  tm_min :: int
  tm_sec :: int

definition toFormateString :: "(int \<Rightarrow> tm) \<Rightarrow> timestamp \<Rightarrow> string" where
  "toFormateString localtime t =
     (let seconds = t sdiv kMicroSecondsPerSecond; microseconds = t smod kMicroSecondsPerSecond; tm = localtime seconds
      in snprintf (64 - 1)
          (fmt_wd 4 (tm_year tm + 1900) @ ''-'' @ fmt_0wd 2 (tm_mon tm + 1) @ ''-'' @ fmt_0wd 2 (tm_mday tm) @ '' '' @
           fmt_0wd 2 (tm_hour tm) @ '':'' @ fmt_0wd 2 (tm_min tm) @ '':'' @ fmt_0wd 2 (tm_sec tm) @ ''.'' @
           fmt_0wd 6 microseconds))"

section \<open>Reading digits back\<close>

definition digit_value :: "char \<Rightarrow> nat" where "digit_value c = of_char c - 48"

definition dec_value :: "string \<Rightarrow> nat" where "dec_value s = foldl (\<lambda>a c. 10 * a + digit_value c) 0 s"

lemma digit_value_digit [simp]: "d < 10 \<Longrightarrow> digit_value (digit d) = d"
  by (simp add: digit_value_def digit_def)

lemma dec_value_snoc [simp]: "dec_value (s @ [c]) = 10 * dec_value s + digit_value c"
  by (simp add: dec_value_def)

lemma dec_value_digits [simp]: "dec_value (dec_digits n) = n"
proof (induction n rule: dec_digits.induct)
  case (1 n)
  then show ?case by (subst dec_digits.simps) (auto simp: dec_value_def [of "[_]"])
qed

lemma dec_value_pad:
  assumes "digit_value c = 0"
  shows "dec_value (replicate k c @ s) = dec_value s"
proof -
  have "foldl (\<lambda>a c. 10 * a + digit_value c) 0 (replicate k c) = 0" by (induction k) (simp_all add: assms)
  then show ?thesis by (simp add: dec_value_def)
qed

lemma dec_value_padded [simp]:
  "dec_value (replicate k CHR ''0'' @ s) = dec_value s" "dec_value (replicate k CHR '' '' @ s) = dec_value s"
  by (simp_all add: dec_value_pad digit_value_def)

lemma digit_inj: "d < 10 \<Longrightarrow> e < 10 \<Longrightarrow> digit d = digit e \<longleftrightarrow> d = e"
  by (metis digit_value_digit)

lemma digits_are: "set (dec_digits n) \<subseteq> digit ` {..<10}"
proof (induction n rule: dec_digits.induct)
  case (1 n)
  then show ?case by (subst dec_digits.simps) auto
qed

lemma digit_neq [simp]: "d < 10 \<Longrightarrow> digit d \<noteq> CHR ''.''" "d < 10 \<Longrightarrow> digit d \<noteq> CHR ''-''"
  by (auto simp: digit_def dest!: arg_cong [of _ _ "of_char :: char \<Rightarrow> nat"])

lemma digits_no_dot: "c \<in> set (dec_digits n) \<Longrightarrow> c \<noteq> CHR ''.''"
proof
  assume "c \<in> set (dec_digits n)" and c: "c = CHR ''.''"
  then obtain d where "d < 10" "c = digit d" using digits_are [of n] by auto
  with c digit_neq(1) [of d] show False by simp
qed

lemma length_digits: "n < 10 ^ w \<Longrightarrow> 0 < w \<Longrightarrow> length (dec_digits n) \<le> w"
proof (induction n arbitrary: w rule: dec_digits.induct)
  case (1 n)
  show ?case
  proof (cases "n < 10")
    case False
    obtain v where w: "w = Suc v" "0 < v"
    proof (cases w)
      case (Suc v)
      with False 1(2) that [of v] show ?thesis by (cases v) auto
    qed (use 1(3) in simp)
    then have "length (dec_digits (n div 10)) \<le> v" using 1(1) [OF False, of v] 1(2) by (simp add: div_less_iff_less_mult mult.commute)
    with False w show ?thesis by (subst dec_digits.simps) simp
  qed (use 1(3) in \<open>subst dec_digits.simps, simp\<close>)
qed


section \<open>Fields of a fixed width\<close>

lemma fmt_0wd_nat:
  assumes "n < 10 ^ w" and "0 < w"
  shows "length (fmt_0wd w (int n)) = w" "dec_value (fmt_0wd w (int n)) = n"
  using length_digits [OF assms] by (simp_all add: fmt_0wd_def fmt_d_def sign_of_def)

lemma fmt_0wd_int:
  assumes "0 \<le> z" and "z < 10 ^ w" and "0 < w"
  shows "length (fmt_0wd w z) = w" "int (dec_value (fmt_0wd w z)) = z"
proof -
  obtain n where z: "z = int n" using assms(1) nonneg_int_cases by blast
  with assms(2) have "int n < int (10 ^ w)" by simp
  then have "n < 10 ^ w" by (subst (asm) of_nat_less_iff)
  from fmt_0wd_nat [OF this assms(3)] z show "length (fmt_0wd w z) = w" "int (dec_value (fmt_0wd w z)) = z" by simp_all
qed

text \<open>Blanks count as nothing.\<close>

lemma fmt_wd_int:
  assumes "0 \<le> z" and "z < 10 ^ w" and "0 < w"
  shows "length (fmt_wd w z) = w" "int (dec_value (fmt_wd w z)) = z"
proof -
  obtain n where z: "z = int n" using assms(1) nonneg_int_cases by blast
  with assms(2) have "int n < int (10 ^ w)" by simp
  then have "n < 10 ^ w" by (subst (asm) of_nat_less_iff)
  from length_digits [OF this assms(3)] z
  show "length (fmt_wd w z) = w" "int (dec_value (fmt_wd w z)) = z" by (simp_all add: fmt_wd_def fmt_d_def sign_of_def)
qed

lemma sdiv_nonneg: "0 \<le> (t :: int) \<Longrightarrow> t sdiv kMicroSecondsPerSecond = t div 1000000 \<and> t smod kMicroSecondsPerSecond = t mod 1000000"
  by (cases "t = 0") (simp_all add: kMicroSecondsPerSecond_def signed_divide_int_def signed_modulo_int_def)

section \<open>The text of a time\<close>

lemma toString_is:
  assumes "0 \<le> t" and "t < 2 ^ 63"
  shows "toString t = dec_digits (nat (t div 1000000)) @ ''.'' @ fmt_0wd 6 (t mod 1000000)"
proof -
  have "nat (t div 1000000) < 10 ^ 13" using assms by simp
  then have "length (dec_digits (nat (t div 1000000))) \<le> 13" by (intro length_digits) simp_all
  moreover have "length (fmt_0wd 6 (t mod 1000000)) = 6" by (intro fmt_0wd_int) simp_all
  ultimately show ?thesis
    using sdiv_nonneg [OF assms(1)] pos_imp_zdiv_nonneg_iff [of 1000000 t] assms(1) by (simp add: toString_def Let_def snprintf_def fmt_d_def sign_of_def)
qed

definition read_stamp :: "string \<Rightarrow> timestamp" where
  "read_stamp s =
     (let p = takeWhile (\<lambda>c. c \<noteq> CHR ''.'') s
      in int (dec_value p) * kMicroSecondsPerSecond + int (dec_value (drop (Suc (length p)) s)))"

lemma toString_round_trip:
  assumes "0 \<le> t" and "t < 2 ^ 63"
  shows "read_stamp (toString t) = t"
proof -
  let ?d = "dec_digits (nat (t div 1000000))"
  have "takeWhile (\<lambda>c. c \<noteq> CHR ''.'') (?d @ ''.'' @ fmt_0wd 6 (t mod 1000000)) = ?d"
    using digits_no_dot by (subst takeWhile_append2) auto
  moreover have "int (dec_value (fmt_0wd 6 (t mod 1000000))) = t mod 1000000" by (intro fmt_0wd_int) simp_all
  ultimately show ?thesis
    using assms(1) pos_imp_zdiv_nonneg_iff [of 1000000 t] by (simp add: toString_is [OF assms] read_stamp_def Let_def kMicroSecondsPerSecond_def)
qed

text \<open>A time before 1970 is not written so: both parts carry the sign, and the second without seconds has none in front.\<close>

lemma toString_negative: "toString (- 1) = ''0.-00001''" "read_stamp (toString (- 1)) \<noteq> - 1"
proof -
  show "toString (- 1) = ''0.-00001''" by code_simp
  then show "read_stamp (toString (- 1)) \<noteq> - 1" by (simp only:) code_simp
qed

text \<open>
  The fields of a calendar time as \<open>localtime_r\<close> returns them, with a year of at most four figures: the text has 26 characters
  and every field in its place, so that lines of the log can be cut by columns.
\<close>

definition tm_ok :: "tm \<Rightarrow> bool" where
  "tm_ok tm \<longleftrightarrow> -1900 \<le> tm_year tm \<and> tm_year tm \<le> 8099 \<and> 0 \<le> tm_mon tm \<and> tm_mon tm \<le> 11 \<and> 1 \<le> tm_mday tm \<and> tm_mday tm \<le> 31 \<and>
     0 \<le> tm_hour tm \<and> tm_hour tm \<le> 23 \<and> 0 \<le> tm_min tm \<and> tm_min tm \<le> 59 \<and> 0 \<le> tm_sec tm \<and> tm_sec tm \<le> 60"

definition read_field :: "nat \<Rightarrow> nat \<Rightarrow> string \<Rightarrow> int" where
  "read_field i n s = int (dec_value (take n (drop i s)))"

lemma toFormateString_fields:
  assumes t: "0 \<le> t" and tm: "tm_ok (localtime (t div 1000000))"
  defines "s \<equiv> toFormateString localtime t"
  shows "length s = 26"
    "\<lparr>tm_year = read_field 0 4 s - 1900, tm_mon = read_field 5 2 s - 1, tm_mday = read_field 8 2 s,
      tm_hour = read_field 11 2 s, tm_min = read_field 14 2 s, tm_sec = read_field 17 2 s\<rparr> = localtime (t div 1000000)"
    "read_field 20 6 s = t mod 1000000"
proof -
  let ?tm = "localtime (t div 1000000)"
  note ok = tm [unfolded tm_ok_def]
  have y: "length (fmt_wd 4 (tm_year ?tm + 1900)) = 4" "int (dec_value (fmt_wd 4 (tm_year ?tm + 1900))) = tm_year ?tm + 1900"
    using ok by (intro fmt_wd_int; simp)+
  have two: "length (fmt_0wd 2 z) = 2 \<and> int (dec_value (fmt_0wd 2 z)) = z" if "0 \<le> z" "z \<le> 60" for z
    using that by (intro conjI fmt_0wd_int) simp_all
  have mon: "length (fmt_0wd 2 (tm_mon ?tm + 1)) = 2 \<and> int (dec_value (fmt_0wd 2 (tm_mon ?tm + 1))) = tm_mon ?tm + 1"
    using ok by (intro two) simp_all
  have us: "length (fmt_0wd 6 (t mod 1000000)) = 6" "int (dec_value (fmt_0wd 6 (t mod 1000000))) = t mod 1000000"
    by (intro fmt_0wd_int; simp)+
  have s: "s = fmt_wd 4 (tm_year ?tm + 1900) @ ''-'' @ fmt_0wd 2 (tm_mon ?tm + 1) @ ''-'' @ fmt_0wd 2 (tm_mday ?tm) @ '' '' @
     fmt_0wd 2 (tm_hour ?tm) @ '':'' @ fmt_0wd 2 (tm_min ?tm) @ '':'' @ fmt_0wd 2 (tm_sec ?tm) @ ''.'' @ fmt_0wd 6 (t mod 1000000)"
    using sdiv_nonneg [OF t] y(1) mon two [of "tm_mday ?tm"] two [of "tm_hour ?tm"] two [of "tm_min ?tm"] two [of "tm_sec ?tm"] ok us(1)
    by (simp add: s_def toFormateString_def Let_def snprintf_def)
  note lens = y(1) us(1) conjunct1 [OF mon]
  have ds: "length (fmt_0wd 2 (tm_mday ?tm)) = 2" "length (fmt_0wd 2 (tm_hour ?tm)) = 2" "length (fmt_0wd 2 (tm_min ?tm)) = 2"
    "length (fmt_0wd 2 (tm_sec ?tm)) = 2" using two ok by simp_all
  show "length s = 26" by (simp add: s lens ds)
  show "read_field 20 6 s = t mod 1000000" by (simp add: s read_field_def lens ds us(2))
  show "\<lparr>tm_year = read_field 0 4 s - 1900, tm_mon = read_field 5 2 s - 1, tm_mday = read_field 8 2 s,
      tm_hour = read_field 11 2 s, tm_min = read_field 14 2 s, tm_sec = read_field 17 2 s\<rparr> = ?tm"
    using ok two mon y(2) by (simp add: s read_field_def lens ds)
qed

end
