(* ===== verification/Event_Loop.thy ===== *)
theory Event_Loop
  imports Prelude
begin

text \<open>
  \<open>netlib/EventLoop.cpp\<close>: the loop that polls, runs the handlers of the active channels and
  then the functors queued meanwhile, the descriptor that wakes it up, and its operations for
  this and for other threads. A functor is data (type \<open>'f\<close>); what running it does is an
  argument, as is what the handler of an active channel does. \<open>isInLoopThread()\<close> is an argument
  of the operations that ask for it.
\<close>

section \<open>State and operations\<close>

record 'f event_loop =
  looping :: bool
  quit_flag :: bool
  callingPendingFunc :: bool
  pendingFunctors :: "'f list"
  wakeupCount :: nat        \<comment> \<open>the counter of the eventfd\<close>

definition new_EventLoop :: "int \<Rightarrow> bool \<Rightarrow> 'f event_loop outcome" where
  "new_EventLoop evefd has_loop =
     (if evefd < 0 \<or> has_loop then Inl Abort
      else Inr \<lparr>looping = False, quit_flag = False, callingPendingFunc = False, pendingFunctors = [],
        wakeupCount = 0\<rparr>)"

definition destroy_EventLoop :: "'f event_loop \<Rightarrow> unit outcome" where
  "destroy_EventLoop l = require (\<not> looping l) (Inr ())"

definition assertInLoopThread :: "bool \<Rightarrow> 'a outcome \<Rightarrow> 'a outcome" where
  "assertInLoopThread here m = (if here then m else Inl Abort)"

text \<open>Writing to the eventfd adds one to its counter; a write that would overflow it fails and is logged.\<close>

definition kMaxWakeups :: nat where "kMaxWakeups = 2 ^ 64 - 2"

definition wakeup :: "'f event_loop \<Rightarrow> 'f event_loop" where
  "wakeup l = (if wakeupCount l < kMaxWakeups then l\<lparr>wakeupCount := Suc (wakeupCount l)\<rparr> else l)"

text \<open>Reading it takes the counter to zero; on a zero counter the read fails and is logged.\<close>

definition handleRead :: "'f event_loop \<Rightarrow> 'f event_loop" where
  "handleRead l = l\<lparr>wakeupCount := 0\<rparr>"

definition push_functor :: "'f \<Rightarrow> 'f event_loop \<Rightarrow> 'f event_loop" where
  "push_functor f l = l\<lparr>pendingFunctors := pendingFunctors l @ [f]\<rparr>"

definition queueInLoop :: "bool \<Rightarrow> 'f \<Rightarrow> 'f event_loop \<Rightarrow> 'f event_loop" where
  "queueInLoop here f l =
     (let l1 = push_functor f l
      in if \<not> here \<or> callingPendingFunc l1 then wakeup l1 else l1)"

definition quit :: "bool \<Rightarrow> 'f event_loop \<Rightarrow> 'f event_loop" where
  "quit here l = (let l1 = l\<lparr>quit_flag := True\<rparr> in if \<not> here then wakeup l1 else l1)"

type_synonym ('f, 's) runner = "'f \<Rightarrow> 'f event_loop \<times> 's \<Rightarrow> ('f event_loop \<times> 's) outcome"

definition runInLoop :: "('f, 's) runner \<Rightarrow> bool \<Rightarrow> ('f, 's) runner" where
  "runInLoop run here f st =
     (if here then run f st else Inr (queueInLoop here f (fst st), snd st))"

definition doPendingFunctors ::
  "('f, 's) runner \<Rightarrow> 'f event_loop \<times> 's \<Rightarrow> ('f event_loop \<times> 's) outcome" where
  "doPendingFunctors run st =
     (let l = fst st;
          functors = pendingFunctors l;
          l1 = l\<lparr>callingPendingFunc := True, pendingFunctors := []\<rparr>
      in bindE (foldE run functors (l1, snd st)) (\<lambda>(l2, s).
           Inr (l2\<lparr>callingPendingFunc := False\<rparr>, s)))"

text \<open>One turn of the loop: \<open>active\<close> are the channels \<open>poll\<close> reports, with what they received.\<close>

definition loop_turn ::
  "('e \<Rightarrow> 'f event_loop \<times> 's \<Rightarrow> ('f event_loop \<times> 's) outcome) \<Rightarrow> ('f, 's) runner \<Rightarrow> 'e list \<Rightarrow>
     'f event_loop \<times> 's \<Rightarrow> ('f event_loop \<times> 's) outcome" where
  "loop_turn handle run active st =
     bindE (foldE handle active st) (\<lambda>st1.
       if pendingFunctors (fst st1) \<noteq> [] then doPendingFunctors run st1 else Inr st1)"

partial_function (option) loop_while ::
  "('e \<Rightarrow> 'f event_loop \<times> 's \<Rightarrow> ('f event_loop \<times> 's) outcome) \<Rightarrow> ('f, 's) runner \<Rightarrow> (nat \<Rightarrow> 'e list) \<Rightarrow> nat \<Rightarrow>
     'f event_loop \<times> 's \<Rightarrow> ('f event_loop \<times> 's) outcome option" where
  "loop_while handle run polls n st =
     (if quit_flag (fst st) then Some (Inr st)
      else case loop_turn handle run (polls n) st of
             Inl x \<Rightarrow> Some (Inl x)
           | Inr st' \<Rightarrow> loop_while handle run polls (Suc n) st')"

definition loop ::
  "('e \<Rightarrow> 'f event_loop \<times> 's \<Rightarrow> ('f event_loop \<times> 's) outcome) \<Rightarrow> ('f, 's) runner \<Rightarrow> bool \<Rightarrow> (nat \<Rightarrow> 'e list) \<Rightarrow>
     'f event_loop \<times> 's \<Rightarrow> ('f event_loop \<times> 's) outcome" where
  "loop handle run here polls st =
     require (\<not> looping (fst st)) (assertInLoopThread here
       (case loop_while handle run polls 0 ((fst st)\<lparr>looping := True, quit_flag := False\<rparr>, snd st) of
          None \<Rightarrow> Inl Diverge
        | Some r \<Rightarrow> bindE r (\<lambda>(l, s). Inr (l\<lparr>looping := False\<rparr>, s))))"

section \<open>When the loop returns\<close>

text \<open>The turns of the loop, one after the other, whatever they do to \<open>quit_\<close>.\<close>

fun turns ::
  "('e \<Rightarrow> 'f event_loop \<times> 's \<Rightarrow> ('f event_loop \<times> 's) outcome) \<Rightarrow> ('f, 's) runner \<Rightarrow> (nat \<Rightarrow> 'e list) \<Rightarrow> nat \<Rightarrow> nat \<Rightarrow>
     'f event_loop \<times> 's \<Rightarrow> ('f event_loop \<times> 's) outcome" where
  "turns handle run polls n 0 st = Inr st"
| "turns handle run polls n (Suc k) st =
     bindE (loop_turn handle run (polls n) st) (turns handle run polls (Suc n) k)"

text \<open>The first turn after which \<open>quit_\<close> is set, or that faults.\<close>

definition ends_at ::
  "('e \<Rightarrow> 'f event_loop \<times> 's \<Rightarrow> ('f event_loop \<times> 's) outcome) \<Rightarrow> ('f, 's) runner \<Rightarrow> (nat \<Rightarrow> 'e list) \<Rightarrow> nat \<Rightarrow>
     'f event_loop \<times> 's \<Rightarrow> nat \<Rightarrow> bool" where
  "ends_at handle run polls n st k \<longleftrightarrow>
     (case turns handle run polls n k st of Inl x \<Rightarrow> True | Inr t \<Rightarrow> quit_flag (fst t)) \<and>
     (\<forall>j < k. case turns handle run polls n j st of Inl x \<Rightarrow> False | Inr t \<Rightarrow> \<not> quit_flag (fst t))"

lemma loop_while_ends:
  "ends_at handle run polls n st k \<Longrightarrow>
     loop_while handle run polls n st = Some (turns handle run polls n k st)"
proof (induction k arbitrary: n st)
  case 0
  then show ?case by (subst loop_while.simps) (simp add: ends_at_def)
next
  case (Suc k)
  have q: "\<not> quit_flag (fst st)" using Suc.prems by (auto simp: ends_at_def dest: spec [of _ 0])
  show ?case
  proof (cases "loop_turn handle run (polls n) st")
    case (Inl x)
    with q show ?thesis by (subst loop_while.simps) simp
  next
    case (Inr st')
    have "ends_at handle run polls (Suc n) st' k"
      using Suc.prems Inr by (auto simp: ends_at_def dest!: spec [of _ "Suc _"])
    from Suc.IH [OF this] q Inr show ?thesis by (subst loop_while.simps) simp
  qed
qed

lemma loop_while_Some:
  assumes "loop_while handle run polls n st = Some r"
  shows "\<exists>k. ends_at handle run polls n st k"
proof (rule loop_while.raw_induct [where P = "\<lambda>handle run polls n st r. \<exists>k. ends_at handle run polls n st k", OF _ assms])
  fix lw :: "('e \<Rightarrow> 'f event_loop \<times> 's \<Rightarrow> ('f event_loop \<times> 's) outcome) \<Rightarrow> ('f, 's) runner \<Rightarrow> (nat \<Rightarrow> 'e list) \<Rightarrow> nat \<Rightarrow>
     'f event_loop \<times> 's \<Rightarrow> ('f event_loop \<times> 's) outcome option"
    and handle run polls n st r
  assume IH: "\<And>handle run polls n st r. lw handle run polls n st = Some r \<Longrightarrow> \<exists>k. ends_at handle run polls n st k"
    and body: "(if quit_flag (fst st) then Some (Inr st)
      else case loop_turn handle run (polls n) st of
             Inl x \<Rightarrow> Some (Inl x)
           | Inr st' \<Rightarrow> lw handle run polls (Suc n) st') = Some r"
  show "\<exists>k. ends_at handle run polls n st k"
  proof (cases "quit_flag (fst st)")
    case True
    then show ?thesis by (intro exI [of _ 0]) (simp add: ends_at_def)
  next
    case q: False
    show ?thesis
    proof (cases "loop_turn handle run (polls n) st")
      case (Inl x)
      with q show ?thesis by (intro exI [of _ 1]) (simp add: ends_at_def)
    next
      case (Inr st')
      with body q have "lw handle run polls (Suc n) st' = Some r" by simp
      from IH [OF this] obtain k where k: "ends_at handle run polls (Suc n) st' k" by blast
      have "ends_at handle run polls n st (Suc k)"
        unfolding ends_at_def
      proof (intro conjI allI impI)
        show "case turns handle run polls n (Suc k) st of Inl x \<Rightarrow> True | Inr t \<Rightarrow> quit_flag (fst t)"
          using k Inr by (simp add: ends_at_def)
        fix j assume "j < Suc k"
        then show "case turns handle run polls n j st of Inl x \<Rightarrow> False | Inr t \<Rightarrow> \<not> quit_flag (fst t)"
          using k Inr q by (cases j) (simp_all add: ends_at_def)
      qed
      then show ?thesis by blast
    qed
  qed
qed

section \<open>Interleaving with other threads\<close>

text \<open>
  The loop's thread in small steps, and other threads that queue functors: first the push,
  later the write to the eventfd. \<open>owed\<close> counts the writes still to come, \<open>queued\<close> and \<open>ran\<close>
  record the functors in the order they were queued and started. Appending is taken to be atomic,
  which is what the mutex is there for.
\<close>

datatype 'f phase = Polling | Handling | Running "'f list"

record 'f world =
  the_loop :: "'f event_loop"
  phase :: "'f phase"
  owed :: nat
  queued :: "'f list"
  ran :: "'f list"

definition queue_all :: "'f list \<Rightarrow> 'f event_loop \<Rightarrow> 'f event_loop" where
  "queue_all = fold (queueInLoop True)"

inductive loop_step :: "'f world \<Rightarrow> 'f world \<Rightarrow> bool" where
  poll_returns: "phase w = Polling \<Longrightarrow> loop_step w (w\<lparr>phase := Handling\<rparr>)"
| woken: "phase w = Handling \<Longrightarrow> loop_step w (w\<lparr>the_loop := handleRead (the_loop w)\<rparr>)"
| handled: "phase w = Handling \<Longrightarrow>
    loop_step w (w\<lparr>the_loop := queue_all gs (the_loop w), queued := queued w @ gs\<rparr>)"
| nothing_pending: "\<lbrakk>phase w = Handling; pendingFunctors (the_loop w) = []\<rbrakk> \<Longrightarrow>
    loop_step w (w\<lparr>phase := Polling\<rparr>)"
| swapped: "\<lbrakk>phase w = Handling; pendingFunctors (the_loop w) \<noteq> []\<rbrakk> \<Longrightarrow>
    loop_step w (w\<lparr>phase := Running (pendingFunctors (the_loop w)),
      the_loop := (the_loop w)\<lparr>callingPendingFunc := True, pendingFunctors := []\<rparr>\<rparr>)"
| runs: "phase w = Running (f # fs) \<Longrightarrow>
    loop_step w (w\<lparr>phase := Running fs, the_loop := queue_all gs (the_loop w),
      queued := queued w @ gs, ran := ran w @ [f]\<rparr>)"
| all_run: "phase w = Running [] \<Longrightarrow>
    loop_step w (w\<lparr>phase := Polling, the_loop := (the_loop w)\<lparr>callingPendingFunc := False\<rparr>\<rparr>)"
| other_pushes: "loop_step w (w\<lparr>the_loop := push_functor f (the_loop w), owed := Suc (owed w),
    queued := queued w @ [f]\<rparr>)"
| other_wakes: "owed w = Suc n \<Longrightarrow> loop_step w (w\<lparr>the_loop := wakeup (the_loop w), owed := n\<rparr>)"

lemma queueInLoop_other: "queueInLoop False f l = wakeup (push_functor f l)"
  by (simp add: queueInLoop_def Let_def)

definition to_run :: "'f world \<Rightarrow> 'f list" where
  "to_run w = (case phase w of Running fs \<Rightarrow> fs | _ \<Rightarrow> [])"

definition world_inv :: "'f world \<Rightarrow> bool" where
  "world_inv w \<longleftrightarrow>
     (callingPendingFunc (the_loop w) \<longleftrightarrow> (\<exists>fs. phase w = Running fs)) \<and>
     (phase w \<noteq> Handling \<longrightarrow> pendingFunctors (the_loop w) \<noteq> [] \<longrightarrow> 0 < wakeupCount (the_loop w) + owed w) \<and>
     queued w = ran w @ to_run w @ pendingFunctors (the_loop w)"

lemma wakeup_sel [simp]:
  "pendingFunctors (wakeup l) = pendingFunctors l" "callingPendingFunc (wakeup l) = callingPendingFunc l"
  "quit_flag (wakeup l) = quit_flag l" "looping (wakeup l) = looping l"
  by (simp_all add: wakeup_def)

lemma wakeup_pos [simp]: "0 < wakeupCount (wakeup l)"
  by (simp add: wakeup_def kMaxWakeups_def)

lemma queueInLoop_sel [simp]:
  "pendingFunctors (queueInLoop here f l) = pendingFunctors l @ [f]"
  "callingPendingFunc (queueInLoop here f l) = callingPendingFunc l"
  "quit_flag (queueInLoop here f l) = quit_flag l" "looping (queueInLoop here f l) = looping l"
  by (simp_all add: queueInLoop_def push_functor_def Let_def)

lemma queueInLoop_count:
  "callingPendingFunc l \<Longrightarrow> 0 < wakeupCount (queueInLoop True f l)"
  by (simp add: queueInLoop_def push_functor_def Let_def)

lemma queue_all_sel:
  "pendingFunctors (queue_all gs l) = pendingFunctors l @ gs"
  "callingPendingFunc (queue_all gs l) = callingPendingFunc l"
  by (induction gs arbitrary: l) (simp_all add: queue_all_def)

lemma queue_all_count:
  "callingPendingFunc l \<Longrightarrow> gs \<noteq> [] \<or> 0 < wakeupCount l \<Longrightarrow> 0 < wakeupCount (queue_all gs l)"
proof (induction gs arbitrary: l)
  case (Cons g gs)
  have "queue_all (g # gs) l = queue_all gs (queueInLoop True g l)" by (simp add: queue_all_def)
  with Cons.IH [of "queueInLoop True g l"] Cons.prems(1) queueInLoop_count [of l g] show ?case by simp
qed (simp add: queue_all_def)

lemma loop_step_inv: "loop_step w w' \<Longrightarrow> world_inv w \<Longrightarrow> world_inv w'"
proof (induction rule: loop_step.induct)
  case (runs w f fs gs)
  then have c: "callingPendingFunc (the_loop w)" by (simp add: world_inv_def)
  have "0 < wakeupCount (queue_all gs (the_loop w)) + owed w"
    if "pendingFunctors (the_loop w) @ gs \<noteq> []"
  proof (cases "gs \<noteq> [] \<or> 0 < wakeupCount (the_loop w)")
    case True
    then show ?thesis using queue_all_count [OF c] by simp
  next
    case False
    with that runs show ?thesis by (auto simp: world_inv_def)
  qed
  with runs show ?case by (simp add: world_inv_def queue_all_sel to_run_def)
qed (auto simp: world_inv_def handleRead_def queue_all_sel push_functor_def to_run_def)

end
