(* ===== verification/EPoller.thy ===== *)
theory EPoller
  imports Event_Loop
begin

text \<open>
  \<open>netlib/Channel\<close> and \<open>netlib/EPoller\<close>: descriptors with the events asked for and the callbacks to run,
  and the object that keeps the kernel's interest list in step with them. Channels live at addresses of a heap; the
  poller holds addresses. The calls of \<open>epoll_ctl\<close>, whose results the code ignores, are
  recorded in order.
\<close>

unbundle bit_operations_syntax

section \<open>Channels\<close>

definition POLLIN :: u32 where "POLLIN = 0x1"
definition POLLPRI :: u32 where "POLLPRI = 0x2"
definition POLLOUT :: u32 where "POLLOUT = 0x4"
definition POLLERR :: u32 where "POLLERR = 0x8"
definition POLLHUP :: u32 where "POLLHUP = 0x10"
definition POLLNVAL :: u32 where "POLLNVAL = 0x20"
definition POLLRDHUP :: u32 where "POLLRDHUP = 0x2000"

definition kNoneEvent :: u32 where "kNoneEvent = 0"
definition kReadEvent :: u32 where "kReadEvent = POLLIN OR POLLPRI"
definition kWriteEvent :: u32 where "kWriteEvent = POLLOUT"

record 'c channel =
  ch_fd :: int
  events :: u32
  revents :: u32
  ch_index :: int
  eventHandling :: bool
  readCallback :: "'c option"
  writeCallback :: "'c option"
  errorCallback :: "'c option"
  closeCallback :: "'c option"

definition new_Channel :: "int \<Rightarrow> 'c channel" where
  "new_Channel fd = \<lparr>ch_fd = fd, events = 0, revents = 0, ch_index = -1, eventHandling = False,
     readCallback = None, writeCallback = None, errorCallback = None, closeCallback = None\<rparr>"

definition isNoneEvent :: "'c channel \<Rightarrow> bool" where
  "isNoneEvent ch \<longleftrightarrow> events ch = kNoneEvent"

definition destroy_Channel :: "'c channel \<Rightarrow> unit outcome" where
  "destroy_Channel ch = require (\<not> eventHandling ch) (Inr ())"

definition fire :: "('c \<Rightarrow> 's \<Rightarrow> 's outcome) \<Rightarrow> bool \<Rightarrow> 'c option \<Rightarrow> 's \<Rightarrow> 's outcome" where
  "fire run due callback s =
     (if due then (case callback of None \<Rightarrow> Inr s | Some c \<Rightarrow> run c s) else Inr s)"

text \<open>The flag \<open>eventHandling_\<close> is set while this runs and cleared at the end.\<close>

definition handleEvent :: "('c \<Rightarrow> 's \<Rightarrow> 's outcome) \<Rightarrow> 'c channel \<Rightarrow> 's \<Rightarrow> 's outcome" where
  "handleEvent run ch s =
     (let r = revents ch in
      bindE (fire run (r AND POLLHUP \<noteq> 0 \<and> r AND POLLIN = 0) (closeCallback ch) s) (\<lambda>s.
      bindE (fire run (r AND (POLLERR OR POLLNVAL) \<noteq> 0) (errorCallback ch) s) (\<lambda>s.
      bindE (fire run (r AND (POLLIN OR POLLPRI OR POLLRDHUP) \<noteq> 0) (readCallback ch) s) (\<lambda>s.
      fire run (r AND POLLOUT \<noteq> 0) (writeCallback ch) s))))"

section \<open>The poller\<close>

datatype ctl = CTL_ADD int u32 | CTL_MOD int u32 | CTL_DEL int

record 'c epoller =
  pollfds :: "(int \<times> u32) list"
  channels :: "int \<rightharpoonup> nat"
  chans :: "nat \<rightharpoonup> 'c channel"
  ctl_calls :: "ctl list"

definition new_EPoller :: "int \<Rightarrow> 'c epoller outcome" where
  "new_EPoller epollfd =
     (if epollfd \<le> 0 then Inl Abort
      else Inr \<lparr>pollfds = [], channels = Map.empty, chans = Map.empty, ctl_calls = []\<rparr>)"

definition deref :: "'c epoller \<Rightarrow> nat \<Rightarrow> 'c channel outcome" where
  "deref st p = (case chans st p of None \<Rightarrow> Inl Use_After_Free | Some ch \<Rightarrow> Inr ch)"

definition updateChannel :: "bool \<Rightarrow> nat \<Rightarrow> 'c epoller \<Rightarrow> 'c epoller outcome" where
  "updateChannel here p st =
     assertInLoopThread here (bindE (deref st p) (\<lambda>ch.
       let fd = ch_fd ch in
       if ch_index ch < 0
       then require (channels st fd = None)
         (Inr (st\<lparr>pollfds := pollfds st @ [(fd, events ch)],
                  chans := (chans st)(p \<mapsto> ch\<lparr>ch_index := int (length (pollfds st))\<rparr>),
                  channels := (channels st)(fd \<mapsto> p),
                  ctl_calls := ctl_calls st @ [CTL_ADD fd (events ch)]\<rparr>))
       else require (channels st fd \<noteq> None) (require (channels st fd = Some p)
         (let idx = ch_index ch in
          require (0 \<le> idx \<and> idx < int (length (pollfds st)))
            (let efd = fst (pollfds st ! nat idx) in
             require (efd = fd \<or> efd = - fd - 1)
               (if isNoneEvent ch
                then Inr (st\<lparr>pollfds := (pollfds st)[nat idx := (- fd - 1, events ch)],
                             ctl_calls := ctl_calls st @ [CTL_DEL efd]\<rparr>)
                else Inr (st\<lparr>pollfds := (pollfds st)[nat idx := (efd, events ch)],
                             ctl_calls := ctl_calls st @ [CTL_MOD efd (events ch)]\<rparr>)))))))"

text \<open>The assertion admits an index one past the end, which the access behind it does not.\<close>

definition removeChannel :: "bool \<Rightarrow> nat \<Rightarrow> 'c epoller \<Rightarrow> 'c epoller outcome" where
  "removeChannel here p st =
     assertInLoopThread here (bindE (deref st p) (\<lambda>ch.
       let fd = ch_fd ch; idx = ch_index ch; n = length (pollfds st) in
       require (channels st fd \<noteq> None) (require (channels st fd = Some p) (require (isNoneEvent ch)
       (require (0 \<le> idx \<and> idx \<le> int n)
         (if nat idx \<ge> n then Inl Out_Of_Bounds
          else
            let ev = pollfds st ! nat idx in
            require (fst ev = - fd - 1 \<and> snd ev = events ch)
              (let chs = (channels st)(fd := None) in
               if nat idx = n - 1
               then Inr (st\<lparr>channels := chs, pollfds := butlast (pollfds st)\<rparr>)
               else
                 let atEnd = fst (last (pollfds st));
                     atEnd = (if atEnd < 0 then - atEnd - 1 else atEnd)
                 in case chs atEnd of
                      None \<Rightarrow> Inl Null_Deref
                    | Some q \<Rightarrow>
                        bindE (deref st q) (\<lambda>ch'.
                        Inr (st\<lparr>channels := chs,
                                pollfds := butlast ((pollfds st)[nat idx := last (pollfds st)]),
                                chans := (chans st)(q \<mapsto> ch'\<lparr>ch_index := idx\<rparr>)\<rparr>)))))))))"

text \<open>\<open>epoll_wait\<close> has filled the array with pairs of a descriptor and its events.\<close>

fun fillActiveChannels :: "(int \<times> u32) list \<Rightarrow> 'c epoller \<Rightarrow> nat list \<Rightarrow> ('c epoller \<times> nat list) outcome" where
  "fillActiveChannels [] st active = Inr (st, active)"
| "fillActiveChannels ((fd, revts) # evs) st active =
     (if 0 < revts
      then case channels st fd of
             None \<Rightarrow> Inl Assert_Fail
           | Some p \<Rightarrow>
               bindE (deref st p) (\<lambda>ch.
               require (ch_fd ch = fd)
                 (fillActiveChannels evs (st\<lparr>chans := (chans st)(p \<mapsto> ch\<lparr>revents := revts\<rparr>)\<rparr>) (active @ [p])))
      else fillActiveChannels evs st active)"

definition kMaxEvents :: nat where "kMaxEvents = 64"

text \<open>A timeout or an error of \<open>epoll_wait\<close> yields no events.\<close>

definition poll :: "(int \<times> u32) list \<Rightarrow> 'c epoller \<Rightarrow> ('c epoller \<times> nat list) outcome" where
  "poll ready st = fillActiveChannels (take kMaxEvents ready) st []"

section \<open>The operations of a channel on its loop\<close>

text \<open>They go through the loop, which checks the thread once more; a channel has one loop for its life.\<close>

definition loop_updateChannel :: "bool \<Rightarrow> nat \<Rightarrow> 'c epoller \<Rightarrow> 'c epoller outcome" where
  "loop_updateChannel here p st = assertInLoopThread here (updateChannel here p st)"

definition loop_removeChannel :: "bool \<Rightarrow> nat \<Rightarrow> 'c epoller \<Rightarrow> 'c epoller outcome" where
  "loop_removeChannel here p st = assertInLoopThread here (removeChannel here p st)"

lemma loop_checks_twice [simp]:
  "loop_updateChannel here p st = updateChannel here p st" "loop_removeChannel here p st = removeChannel here p st"
  by (simp_all add: loop_updateChannel_def loop_removeChannel_def updateChannel_def removeChannel_def assertInLoopThread_def)

definition change_events :: "bool \<Rightarrow> nat \<Rightarrow> (u32 \<Rightarrow> u32) \<Rightarrow> 'c epoller \<Rightarrow> 'c epoller outcome" where
  "change_events here p f st =
     bindE (deref st p) (\<lambda>ch.
     loop_updateChannel here p (st\<lparr>chans := (chans st)(p \<mapsto> ch\<lparr>events := f (events ch)\<rparr>)\<rparr>))"

definition enableReading :: "bool \<Rightarrow> nat \<Rightarrow> 'c epoller \<Rightarrow> 'c epoller outcome" where
  "enableReading here p = change_events here p (\<lambda>e. e OR kReadEvent)"

definition enableWriting :: "bool \<Rightarrow> nat \<Rightarrow> 'c epoller \<Rightarrow> 'c epoller outcome" where
  "enableWriting here p = change_events here p (\<lambda>e. e OR kWriteEvent)"

definition disableWriting :: "bool \<Rightarrow> nat \<Rightarrow> 'c epoller \<Rightarrow> 'c epoller outcome" where
  "disableWriting here p = change_events here p (\<lambda>e. e AND NOT kWriteEvent)"

definition disableAll :: "bool \<Rightarrow> nat \<Rightarrow> 'c epoller \<Rightarrow> 'c epoller outcome" where
  "disableAll here p = change_events here p (\<lambda>e. kNoneEvent)"

definition remove :: "bool \<Rightarrow> nat \<Rightarrow> 'c epoller \<Rightarrow> 'c epoller outcome" where
  "remove here p st =
     bindE (deref st p) (\<lambda>ch. require (isNoneEvent ch) (loop_removeChannel here p st))"

text \<open>The end of a socket: its channel is disabled, removed and destroyed, and its descriptor given back.\<close>

definition destroy_UdpCom :: "bool \<Rightarrow> nat \<Rightarrow> 'c epoller \<Rightarrow> 'c epoller outcome" where
  "destroy_UdpCom here p st =
     bindE (disableAll here p st) (\<lambda>st1.
     bindE (remove here p st1) (\<lambda>st2.
     Inr (st2\<lparr>chans := (chans st2)(p := None)\<rparr>)))"

end
