(* ===== verification/EPoller_Inv.thy ===== *)
theory EPoller_Inv
  imports EPoller Endpoint
begin

text \<open>
  The poller in step with its channels: its vector and its map agree with the channels' indices,
  and the kernel watches exactly what the channels ask for, as long as a channel that has been
  disabled is removed next.
\<close>

section \<open>What the kernel watches\<close>

text \<open>
  \<open>epoll_ctl\<close>, as documented: adding a descriptor that is there, and modifying or deleting one that is not,
  fails and changes nothing.
\<close>

fun ctl_effect :: "ctl \<Rightarrow> (int \<rightharpoonup> u32) \<Rightarrow> (int \<rightharpoonup> u32)" where
  "ctl_effect (CTL_ADD fd e) m = (if m fd = None then m(fd \<mapsto> e) else m)"
| "ctl_effect (CTL_MOD fd e) m = (if m fd = None then m else m(fd \<mapsto> e))"
| "ctl_effect (CTL_DEL fd) m = m(fd := None)"

definition interest :: "'c epoller \<Rightarrow> (int \<rightharpoonup> u32)" where
  "interest st = fold ctl_effect (ctl_calls st) Map.empty"

definition wanted :: "'c epoller \<Rightarrow> (int \<rightharpoonup> u32)" where
  "wanted st fd =
     (case channels st fd of
        None \<Rightarrow> None
      | Some p \<Rightarrow>
          (case chans st p of
             None \<Rightarrow> None
           | Some ch \<Rightarrow> if isNoneEvent ch then None else Some (events ch)))"

lemma interest_snoc:
  "ctl_calls st' = ctl_calls st @ [k] \<Longrightarrow> interest st' = ctl_effect k (interest st)"
  by (simp add: interest_def)

section \<open>Invariant\<close>

definition entry_for :: "'c channel \<Rightarrow> int \<times> u32" where
  "entry_for ch = (if isNoneEvent ch then - ch_fd ch - 1 else ch_fd ch, events ch)"

definition registered :: "'c epoller \<Rightarrow> nat \<Rightarrow> 'c channel \<Rightarrow> nat \<Rightarrow> bool" where
  "registered st p ch i \<longleftrightarrow> chans st p = Some ch \<and> channels st (ch_fd ch) = Some p \<and> ch_index ch = int i"

definition ep_inv :: "'c epoller \<Rightarrow> bool" where
  "ep_inv st \<longleftrightarrow>
     (\<forall>p ch. chans st p = Some ch \<longrightarrow> 0 \<le> ch_fd ch) \<and>
     (\<forall>p q ch ch'. chans st p = Some ch \<longrightarrow> chans st q = Some ch' \<longrightarrow> ch_fd ch = ch_fd ch' \<longrightarrow> p = q) \<and>
     (\<forall>p ch. chans st p = Some ch \<longrightarrow> 0 \<le> ch_index ch \<longrightarrow> channels st (ch_fd ch) = Some p) \<and>
     (\<forall>fd p. channels st fd = Some p \<longrightarrow>
        (\<exists>ch i. registered st p ch i \<and> ch_fd ch = fd \<and> i < length (pollfds st) \<and> pollfds st ! i = entry_for ch)) \<and>
     (\<forall>i < length (pollfds st). \<exists>p ch. registered st p ch i)"

lemma ep_invD:
  assumes "ep_inv st"
  shows "chans st p = Some ch \<Longrightarrow> 0 \<le> ch_fd ch"
    and "chans st p = Some ch \<Longrightarrow> chans st q = Some ch' \<Longrightarrow> ch_fd ch = ch_fd ch' \<Longrightarrow> p = q"
    and "chans st p = Some ch \<Longrightarrow> 0 \<le> ch_index ch \<Longrightarrow> channels st (ch_fd ch) = Some p"
    and "channels st fd = Some p \<Longrightarrow>
      \<exists>ch i. registered st p ch i \<and> ch_fd ch = fd \<and> i < length (pollfds st) \<and> pollfds st ! i = entry_for ch"
    and "i < length (pollfds st) \<Longrightarrow> \<exists>p ch. registered st p ch i"
  using assms unfolding ep_inv_def by blast+

lemma registered_entry:
  assumes "ep_inv st" and "registered st p ch i"
  shows "i < length (pollfds st)" and "pollfds st ! i = entry_for ch"
proof -
  from ep_invD(4) [OF assms(1), of "ch_fd ch" p] assms(2) obtain ch' j where
    "registered st p ch' j" "j < length (pollfds st)" "pollfds st ! j = entry_for ch'" by (auto simp: registered_def)
  with assms(2) show "i < length (pollfds st)" "pollfds st ! i = entry_for ch" by (auto simp: registered_def)
qed

text \<open>The descriptor can be read off an entry, enabled or not, so an index belongs to one channel.\<close>

lemma entry_fd:
  "0 \<le> ch_fd ch \<Longrightarrow> (let x = fst (entry_for ch) in if x < 0 then - x - 1 else x) = ch_fd ch"
  by (simp add: entry_for_def Let_def)

lemma registered_unique:
  assumes "ep_inv st" and "registered st p ch i" and "registered st q ch' i"
  shows "p = q"
proof -
  have "entry_for ch = entry_for ch'" using registered_entry(2) [OF assms(1)] assms(2,3) by metis
  moreover have "0 \<le> ch_fd ch" "0 \<le> ch_fd ch'" using ep_invD(1) [OF assms(1)] assms(2,3) by (auto simp: registered_def)
  ultimately have "ch_fd ch = ch_fd ch'" using entry_fd [of ch] entry_fd [of ch'] by simp
  with ep_invD(2) [OF assms(1)] assms(2,3) show ?thesis by (auto simp: registered_def)
qed

text \<open>
  How the operations keep the invariant: descriptors stay with their channels; every channel with an index is \<open>placed\<close> in the new state;
  every entry of the map and of the array has its channel.
\<close>

definition placed :: "'c epoller \<Rightarrow> nat \<Rightarrow> 'c channel \<Rightarrow> bool" where
  "placed st p ch \<longleftrightarrow> channels st (ch_fd ch) = Some p \<and> nat (ch_index ch) < length (pollfds st) \<and>
     pollfds st ! nat (ch_index ch) = entry_for ch"

lemma registered_iff: "registered st p ch i \<longleftrightarrow> chans st p = Some ch \<and> channels st (ch_fd ch) = Some p \<and> 0 \<le> ch_index ch \<and> i = nat (ch_index ch)"
  by (auto simp: registered_def)

lemma ep_inv_placed:
  assumes "ep_inv st" and "chans st p = Some ch" and "0 \<le> ch_index ch"
  shows "placed st p ch"
  using registered_entry [OF assms(1), of p ch "nat (ch_index ch)"] ep_invD(3) [OF assms] assms(2,3)
  by (simp add: placed_def registered_iff)

lemma ep_inv_channel:
  assumes "ep_inv st" and "channels st fd = Some p"
  obtains ch where "chans st p = Some ch" "ch_fd ch = fd" "0 \<le> ch_index ch"
  using ep_invD(4) [OF assms] by (auto simp: registered_iff)

lemma ep_inv_entry:
  assumes "ep_inv st" and "i < length (pollfds st)"
  obtains p ch where "chans st p = Some ch" "ch_index ch = int i"
  using ep_invD(5) [OF assms] by (auto simp: registered_def)

lemma ep_inv_index:
  assumes inv: "ep_inv st" and "chans st p = Some c" "chans st q = Some d" and "0 \<le> ch_index c" "ch_index d = ch_index c"
  shows "p = q"
  using registered_unique [OF inv, of p c "nat (ch_index c)" q d] ep_invD(3) [OF inv] assms by (simp add: registered_iff)

lemma ep_invI:
  assumes inv: "ep_inv st"
    and fds: "\<And>q c. chans st' q = Some c \<Longrightarrow> \<exists>d. chans st q = Some d \<and> ch_fd d = ch_fd c"
    and pl: "\<And>q c. chans st' q = Some c \<Longrightarrow> 0 \<le> ch_index c \<Longrightarrow> placed st' q c"
    and chs: "\<And>fd q. channels st' fd = Some q \<Longrightarrow> \<exists>c. chans st' q = Some c \<and> ch_fd c = fd \<and> 0 \<le> ch_index c"
    and ent: "\<And>i. i < length (pollfds st') \<Longrightarrow> \<exists>q c. chans st' q = Some c \<and> ch_index c = int i"
  shows "ep_inv st'"
  unfolding ep_inv_def
proof (intro conjI allI impI)
  fix q c assume "chans st' q = Some c"
  from fds [OF this] show "0 \<le> ch_fd c" using ep_invD(1) [OF inv] by metis
next
  fix q r c d assume "chans st' q = Some c" "chans st' r = Some d" "ch_fd c = ch_fd d"
  with fds [of q c] fds [of r d] show "q = r" using ep_invD(2) [OF inv] by metis
next
  fix q c assume "chans st' q = Some c" "0 \<le> ch_index c"
  from pl [OF this] show "channels st' (ch_fd c) = Some q" by (simp add: placed_def)
next
  fix fd q assume "channels st' fd = Some q"
  from chs [OF this] pl show "\<exists>c i. registered st' q c i \<and> ch_fd c = fd \<and> i < length (pollfds st') \<and> pollfds st' ! i = entry_for c"
    by (fastforce simp: registered_iff placed_def)
next
  fix i assume "i < length (pollfds st')"
  from ent [OF this] pl show "\<exists>q c. registered st' q c i" by (fastforce simp: registered_iff placed_def)
qed

definition ep_ok :: "'c epoller \<Rightarrow> bool" where
  "ep_ok st \<longleftrightarrow> ep_inv st \<and> interest st = wanted st"

text \<open>What the channels ask for changes at the descriptor of the channel that changes.\<close>

lemma wanted_put:
  assumes inv: "ep_inv st" and ch: "chans st p = Some ch" and fd: "ch_fd ch' = ch_fd ch"
    and st': "chans st' = (chans st)(p \<mapsto> ch')" "channels st' = (channels st)(ch_fd ch \<mapsto> p)"
  shows "wanted st' = (wanted st)(ch_fd ch := (if isNoneEvent ch' then None else Some (events ch')))"
proof
  fix f
  show "wanted st' f = ((wanted st)(ch_fd ch := (if isNoneEvent ch' then None else Some (events ch')))) f"
  proof (cases "f = ch_fd ch")
    case True
    then show ?thesis by (simp add: wanted_def st')
  next
    case False
    have "q \<noteq> p" if "channels st f = Some q" for q
      using ep_inv_channel [OF inv that] False ch by (metis option.inject)
    then show ?thesis using False by (auto simp: wanted_def st' split: option.split)
  qed
qed

section \<open>Changing what a channel asks for\<close>

text \<open>A channel is registered, or changed while it is enabled.\<close>

lemma change_new:
  assumes ok: "ep_ok st" and ch: "chans st p = Some ch" and i: "ch_index ch < 0" and e: "f (events ch) \<noteq> kNoneEvent"
  shows "\<exists>st'. change_events True p f st = Inr st' \<and> ep_ok st'"
proof -
  let ?n = "length (pollfds st)" and ?fd = "ch_fd ch"
  let ?ch = "ch\<lparr>events := f (events ch), ch_index := int ?n\<rparr>"
  let ?st = "st\<lparr>pollfds := pollfds st @ [(?fd, f (events ch))], chans := (chans st)(p \<mapsto> ?ch),
    channels := (channels st)(?fd \<mapsto> p), ctl_calls := ctl_calls st @ [CTL_ADD ?fd (f (events ch))]\<rparr>"
  have inv: "ep_inv st" and eq: "interest st = wanted st" using ok by (simp_all add: ep_ok_def)
  have none: "channels st ?fd = None"
  proof (cases "channels st ?fd")
    case (Some q)
    from ep_inv_channel [OF inv Some] obtain c where c: "chans st q = Some c" "ch_fd c = ?fd" "0 \<le> ch_index c" .
    with ep_invD(2) [OF inv ch c(1)] ch i show ?thesis by simp
  qed
  have run: "change_events True p f st = Inr ?st"
    using ch i none by (simp add: change_events_def deref_def updateChannel_def assertInLoopThread_def Let_def)
  have "ep_inv ?st"
  proof (rule ep_invI [OF inv])
    fix q c assume "chans ?st q = Some c"
    then show "\<exists>d. chans st q = Some d \<and> ch_fd d = ch_fd c" using ch by (auto split: if_splits)
  next
    fix q c assume q: "chans ?st q = Some c" "0 \<le> ch_index c"
    show "placed ?st q c"
    proof (cases "q = p")
      case True
      then have "c = ?ch" using q by simp
      with True e show ?thesis by (simp add: placed_def entry_for_def isNoneEvent_def)
    next
      case False
      with q have "chans st q = Some c" by simp
      from ep_inv_placed [OF inv this q(2)] none show ?thesis by (auto simp: placed_def nth_append)
    qed
  next
    fix fd q assume "channels ?st fd = Some q"
    then show "\<exists>c. chans ?st q = Some c \<and> ch_fd c = fd \<and> 0 \<le> ch_index c"
      using ep_inv_channel [OF inv, of fd q] ch i by (cases "fd = ?fd") fastforce+
  next
    fix j assume j: "j < length (pollfds ?st)"
    show "\<exists>q c. chans ?st q = Some c \<and> ch_index c = int j"
    proof (cases "j < ?n")
      case True
      from ep_inv_entry [OF inv this] obtain q c where "chans st q = Some c" "ch_index c = int j" .
      with ch i show ?thesis by (intro exI [of _ q] exI [of _ c]) auto
    qed (use j in \<open>auto intro!: exI [of _ p]\<close>)
  qed
  moreover have "interest ?st = wanted ?st"
  proof -
    have "interest ?st = (wanted st)(?fd \<mapsto> f (events ch))"
      using none by (simp add: interest_snoc [of ?st st] eq wanted_def)
    then show ?thesis using wanted_put [OF inv ch, of ?ch ?st] e by (simp add: isNoneEvent_def)
  qed
  ultimately show ?thesis using run by (auto simp: ep_ok_def)
qed

lemma change_registered:
  assumes ok: "ep_ok st" and r: "registered st p ch i" and e: "\<not> isNoneEvent ch"
  shows "\<exists>st'. change_events True p f st = Inr st' \<and> ep_ok st' \<and> registered st' p (ch\<lparr>events := f (events ch)\<rparr>) i"
proof -
  let ?fd = "ch_fd ch" and ?e = "f (events ch)"
  let ?ch = "ch\<lparr>events := ?e\<rparr>"
  let ?call = "if ?e = kNoneEvent then CTL_DEL ?fd else CTL_MOD ?fd ?e"
  let ?st = "st\<lparr>pollfds := (pollfds st)[i := entry_for ?ch], chans := (chans st)(p \<mapsto> ?ch),
    ctl_calls := ctl_calls st @ [?call]\<rparr>"
  have inv: "ep_inv st" and eq: "interest st = wanted st" using ok by (simp_all add: ep_ok_def)
  have ch: "chans st p = Some ch" "channels st ?fd = Some p" "ch_index ch = int i" using r by (auto simp: registered_def)
  note en = registered_entry [OF inv r]
  have run: "change_events True p f st = Inr ?st"
    using ch en e by (simp add: change_events_def deref_def updateChannel_def assertInLoopThread_def Let_def
        isNoneEvent_def entry_for_def)
  have "ep_inv ?st"
  proof (rule ep_invI [OF inv])
    fix q c assume "chans ?st q = Some c"
    then show "\<exists>d. chans st q = Some d \<and> ch_fd d = ch_fd c" using ch by (auto split: if_splits)
  next
    fix q c assume q: "chans ?st q = Some c" "0 \<le> ch_index c"
    show "placed ?st q c"
    proof (cases "q = p")
      case True
      with q ch en(1) show ?thesis by (auto simp: placed_def)
    next
      case False
      with q have c: "chans st q = Some c" by simp
      have "nat (ch_index c) \<noteq> i" using ep_inv_index [OF inv c ch(1)] False q(2) ch(3) by auto
      with ep_inv_placed [OF inv c q(2)] show ?thesis by (simp add: placed_def)
    qed
  next
    fix fd q assume "channels ?st fd = Some q"
    then have "channels st fd = Some q" by simp
    from ep_inv_channel [OF inv this] ch show "\<exists>c. chans ?st q = Some c \<and> ch_fd c = fd \<and> 0 \<le> ch_index c" by fastforce
  next
    fix j assume "j < length (pollfds ?st)"
    then have "j < length (pollfds st)" by simp
    from ep_inv_entry [OF inv this] obtain q c where c: "chans st q = Some c" "ch_index c = int j" .
    show "\<exists>q c. chans ?st q = Some c \<and> ch_index c = int j"
    proof (cases "q = p")
      case True
      then show ?thesis using c ch by (intro exI [of _ p] exI [of _ ?ch]) simp
    next
      case False
      then show ?thesis using c by (intro exI [of _ q] exI [of _ c]) simp
    qed
  qed
  moreover have "interest ?st = wanted ?st"
  proof -
    have w: "wanted st ?fd = Some (events ch)" using ch e by (simp add: wanted_def)
    have "interest ?st = ctl_effect ?call (interest st)" by (rule interest_snoc) simp
    with w show ?thesis using wanted_put [OF inv ch(1), of ?ch ?st] ch(2) by (simp add: eq isNoneEvent_def fun_upd_idem)
  qed
  ultimately have "ep_ok ?st" by (simp add: ep_ok_def)
  with run ch show ?thesis by (intro exI [of _ ?st]) (simp add: registered_def)
qed

section \<open>Removing a channel\<close>

text \<open>The poller without the channel at \<open>p\<close>: the last entry takes its place \<open>i\<close> in the array, and the channel of that entry, at \<open>q\<close>, learns it.\<close>

definition without :: "nat \<Rightarrow> nat \<Rightarrow> nat \<Rightarrow> 'c epoller \<Rightarrow> 'c epoller" where
  "without p i q st =
     st\<lparr>channels := (channels st)(ch_fd (the (chans st p)) := None),
        pollfds := butlast ((pollfds st)[i := last (pollfds st)]),
        chans := (chans st)(q := map_option (ch_index_update (\<lambda>_. int i)) (chans st q), p := None)\<rparr>"

lemma without_inv:
  assumes inv: "ep_inv st" and ch: "chans st p = Some ch" "ch_index ch = int i"
    and q: "chans st q = Some c" "ch_index c = int (length (pollfds st) - 1)"
  shows "ep_inv (without p i q st)"
proof -
  let ?n = "length (pollfds st)" and ?st = "without p i q st" and ?c = "c\<lparr>ch_index := int i\<rparr>"
  have pi: "placed st p ch" and pq: "placed st q c" using ep_inv_placed [OF inv] ch q by simp_all
  then have i: "i < ?n" and ne: "pollfds st \<noteq> []" using ch(2) by (auto simp: placed_def)
  have last: "last (pollfds st) = entry_for c" using pq q(2) ne by (simp add: placed_def last_conv_nth)
  have fdp: "ch_fd d \<noteq> ch_fd ch" if "chans st r = Some d" "r \<noteq> p" for r d using ep_invD(2) [OF inv that(1) ch(1)] that(2) by blast
  have sel: "chans ?st r = (if r = p then None else if r = q then Some ?c else chans st r)"
    "channels ?st = (channels st)(ch_fd ch := None)" "length (pollfds ?st) = ?n - 1" for r
    using ch q by (auto simp: without_def)
  have nth: "j < ?n - 1 \<Longrightarrow> pollfds ?st ! j = (if j = i then entry_for c else pollfds st ! j)" for j
    by (simp add: without_def nth_butlast last nth_list_update)
  show ?thesis
  proof (rule ep_invI [OF inv])
    fix r d assume "chans ?st r = Some d"
    then show "\<exists>d'. chans st r = Some d' \<and> ch_fd d' = ch_fd d" using q by (auto simp: sel split: if_splits)
  next
    fix r d assume d: "chans ?st r = Some d" "0 \<le> ch_index d"
    then have rp: "r \<noteq> p" by (auto simp: sel)
    show "placed ?st r d"
    proof (cases "r = q")
      case True
      then have "i \<noteq> ?n - 1" using ep_inv_index [OF inv ch(1) q(1)] ch(2) q(2) rp by auto
      then have "i < ?n - 1" using i by simp
      moreover have "d = ?c" using d True rp by (simp add: sel)
      ultimately show ?thesis using True rp pq fdp [OF q(1)] by (simp add: placed_def sel nth entry_for_def isNoneEvent_def)
    next
      case False
      then have dr: "chans st r = Some d" using d rp by (simp add: sel)
      have "ch_index d \<noteq> int i" "ch_index d \<noteq> int (?n - 1)"
        using ep_inv_index [OF inv dr ch(1) d(2)] ep_inv_index [OF inv dr q(1) d(2)] rp False ch(2) q(2) by metis+
      then have ni: "nat (ch_index d) \<noteq> i" "nat (ch_index d) \<noteq> ?n - 1" using d(2) by (metis nat_0_le)+
      have pd: "placed st r d" using ep_inv_placed [OF inv dr d(2)] .
      then have "nat (ch_index d) < ?n - 1" using ni(2) unfolding placed_def by linarith
      then show ?thesis using pd ni(1) fdp [OF dr rp] nth [of "nat (ch_index d)"] by (simp add: placed_def sel)
    qed
  next
    fix fd r assume "channels ?st fd = Some r"
    then have f: "channels st fd = Some r" "fd \<noteq> ch_fd ch" by (auto simp: sel split: if_splits)
    from ep_inv_channel [OF inv f(1)] obtain d where d: "chans st r = Some d" "ch_fd d = fd" "0 \<le> ch_index d" .
    with f(2) ch q show "\<exists>d. chans ?st r = Some d \<and> ch_fd d = fd \<and> 0 \<le> ch_index d" by (auto simp: sel)
  next
    fix j assume "j < length (pollfds ?st)"
    then have j: "j < ?n - 1" by (simp add: sel)
    show "\<exists>r d. chans ?st r = Some d \<and> ch_index d = int j"
    proof (cases "j = i")
      case True
      then have "q \<noteq> p" using j ch q by auto
      then show ?thesis using True by (intro exI [of _ q] exI [of _ ?c]) (simp add: sel)
    next
      case False
      from j have "j < ?n" by simp
      from ep_inv_entry [OF inv this] obtain r d where d: "chans st r = Some d" "ch_index d = int j" .
      moreover have "r \<noteq> p" "r \<noteq> q" using d ch q False j by auto
      ultimately show ?thesis by (intro exI [of _ r] exI [of _ d]) (simp add: sel)
    qed
  qed
qed

lemma without_wanted:
  assumes inv: "ep_inv st" and ch: "chans st p = Some ch" "isNoneEvent ch" and q: "chans st q = Some c"
  shows "wanted (without p i q st) = wanted st"
proof
  fix fd
  show "wanted (without p i q st) fd = wanted st fd"
  proof (cases "channels st fd")
    case (Some r)
    from ep_inv_channel [OF inv Some] obtain d where d: "chans st r = Some d" "ch_fd d = fd" .
    have "r = p" if "fd = ch_fd ch" using ep_invD(2) [OF inv d(1) ch(1)] d(2) that by simp
    with d Some ch q show ?thesis by (auto simp: wanted_def without_def isNoneEvent_def)
  qed (simp add: wanted_def without_def)
qed

lemma remove_registered:
  assumes ok: "ep_ok st" and r: "registered st p ch i" and e: "isNoneEvent ch"
  shows "\<exists>st'. remove True p st = Inr st' \<and> ep_ok (st'\<lparr>chans := (chans st')(p := None)\<rparr>)"
proof -
  let ?n = "length (pollfds st)"
  have inv: "ep_inv st" and eq: "interest st = wanted st" using ok by (simp_all add: ep_ok_def)
  have ch: "chans st p = Some ch" "channels st (ch_fd ch) = Some p" "ch_index ch = int i" using r by (auto simp: registered_def)
  note en = registered_entry [OF inv r]
  have n: "?n - 1 < ?n" using en(1) by simp
  from ep_inv_entry [OF inv n] obtain q c where q: "chans st q = Some c" "ch_index c = int (?n - 1)" .
  have pq: "placed st q c" using ep_inv_placed [OF inv q(1)] q(2) by simp
  moreover have "nat (ch_index c) = ?n - 1" by (simp only: q(2) nat_int)
  ultimately have "last (pollfds st) = entry_for c" using n by (subst last_conv_nth) (auto simp: placed_def)
  then have at_end: "(if fst (last (pollfds st)) < 0 then - fst (last (pollfds st)) - 1 else fst (last (pollfds st))) = ch_fd c"
    using entry_fd [of c] ep_invD(1) [OF inv q(1)] by (simp add: Let_def split: if_splits)
  have guards: "ch_index ch = int i" "\<not> ?n \<le> i" "fst (pollfds st ! i) = - ch_fd ch - 1" "snd (pollfds st ! i) = events ch"
    using ch en e by (simp_all add: entry_for_def)
  have "\<exists>st'. remove True p st = Inr st' \<and> st'\<lparr>chans := (chans st')(p := None)\<rparr> = without p i q st"
  proof (cases "q = p")
    case True
    then have "?n = Suc i" using ch q n by simp
    then show ?thesis
      using ch guards e True by (simp add: remove_def removeChannel_def deref_def assertInLoopThread_def Let_def without_def butlast_list_update)
  next
    case False
    then have "i \<noteq> ?n - 1" using ep_inv_index [OF inv ch(1) q(1)] ch(3) q(2) by auto
    moreover have "((channels st)(ch_fd ch := None)) (ch_fd c) = Some q"
      using ep_invD(2) [OF inv q(1) ch(1)] False pq by (auto simp: placed_def)
    ultimately show ?thesis
      using ch guards e q(1)
      by (simp add: remove_def removeChannel_def deref_def assertInLoopThread_def Let_def at_end without_def del: fun_upd_apply)
  qed
  moreover have "ep_ok (without p i q st)"
    using without_inv [OF inv ch(1,3) q] without_wanted [OF inv ch(1) e q(1), of i] eq by (simp add: ep_ok_def interest_def without_def)
  ultimately show ?thesis by auto
qed

section \<open>Operations in the order the program uses them\<close>

text \<open>
  A channel comes with a new descriptor; \<open>Close\<close> is what the owners' destructors do.
\<close>

datatype ep_op = Create nat int | Enable_Reading nat | Enable_Writing nat | Disable_Writing nat | Close nat

fun ep_step :: "ep_op \<Rightarrow> 'c epoller \<Rightarrow> 'c epoller outcome" where
  "ep_step (Create p fd) st = Inr (st\<lparr>chans := (chans st)(p \<mapsto> new_Channel fd)\<rparr>)"
| "ep_step (Enable_Reading p) st = enableReading True p st"
| "ep_step (Enable_Writing p) st = enableWriting True p st"
| "ep_step (Disable_Writing p) st = disableWriting True p st"
| "ep_step (Close p) st = destroy_UdpCom True p st"

definition active_channel :: "'c epoller \<Rightarrow> nat \<Rightarrow> bool" where
  "active_channel st p \<longleftrightarrow> (\<exists>ch. chans st p = Some ch \<and> 0 \<le> ch_index ch \<and> \<not> isNoneEvent ch)"

definition new_or_active :: "'c epoller \<Rightarrow> nat \<Rightarrow> bool" where
  "new_or_active st p \<longleftrightarrow> active_channel st p \<or> (\<exists>ch. chans st p = Some ch \<and> ch_index ch < 0)"

definition ep_legal :: "'c epoller \<Rightarrow> ep_op \<Rightarrow> bool" where
  "ep_legal st x \<longleftrightarrow>
     (case x of
        Create p fd \<Rightarrow> chans st p = None \<and> 0 \<le> fd \<and> (\<forall>q ch. chans st q = Some ch \<longrightarrow> ch_fd ch \<noteq> fd)
      | Enable_Reading p \<Rightarrow> new_or_active st p
      | Enable_Writing p \<Rightarrow> new_or_active st p
      | Disable_Writing p \<Rightarrow> active_channel st p
      | Close p \<Rightarrow> active_channel st p)"

lemma active_registered:
  assumes "ep_ok st" and "active_channel st p"
  obtains ch i where "registered st p ch i" "\<not> isNoneEvent ch"
proof -
  from assms(2) obtain ch where ch: "chans st p = Some ch" "0 \<le> ch_index ch" "\<not> isNoneEvent ch"
    by (auto simp: active_channel_def)
  from assms(1) have "channels st (ch_fd ch) = Some p" using ep_invD(3) [OF _ ch(1,2)] by (simp add: ep_ok_def)
  with ch have "registered st p ch (nat (ch_index ch))" by (simp add: registered_def)
  with ch(3) that show thesis by blast
qed

lemma enable_ok:
  assumes ok: "ep_ok st" and p: "new_or_active st p" and f: "\<And>e. f e \<noteq> kNoneEvent"
  shows "\<exists>st'. change_events True p f st = Inr st' \<and> ep_ok st'"
  using p unfolding new_or_active_def
proof (elim disjE exE conjE)
  assume "active_channel st p"
  from active_registered [OF ok this] obtain ch i where "registered st p ch i" "\<not> isNoneEvent ch" .
  from change_registered [OF ok this] show ?thesis by blast
next
  fix ch assume "chans st p = Some ch" "ch_index ch < 0"
  from change_new [OF ok this f] show ?thesis .
qed

lemma masks: "e OR kReadEvent \<noteq> kNoneEvent" "e OR kWriteEvent \<noteq> kNoneEvent"
proof -
  have "bit (e OR kReadEvent) 0" "bit (e OR kWriteEvent) 2"
    by (simp_all add: kReadEvent_def kWriteEvent_def POLLIN_def POLLPRI_def POLLOUT_def bit_or_iff bit_simps)
  then show "e OR kReadEvent \<noteq> kNoneEvent" "e OR kWriteEvent \<noteq> kNoneEvent" by (auto simp: kNoneEvent_def)
qed

lemma create_ok:
  assumes ok: "ep_ok st" and n: "chans st p = None" "0 \<le> ch_fd ch" "\<And>q c. chans st q = Some c \<Longrightarrow> ch_fd c \<noteq> ch_fd ch"
    and i: "ch_index ch < 0"
  shows "ep_ok (st\<lparr>chans := (chans st)(p \<mapsto> ch)\<rparr>)"
proof -
  let ?st = "st\<lparr>chans := (chans st)(p \<mapsto> ch)\<rparr>"
  have inv: "ep_inv st" and eq: "interest st = wanted st" using ok by (simp_all add: ep_ok_def)
  have np: "channels st f \<noteq> Some p" for f using ep_invD(4) [OF inv, of f p] n(1) by (auto simp: registered_def)
  have reg: "registered ?st q c j \<longleftrightarrow> registered st q c j" for q c j
    using n(1) i by (auto simp: registered_def)
  have "ep_inv ?st"
    unfolding ep_inv_def
  proof (intro conjI allI impI)
    fix q c assume "chans ?st q = Some c"
    then show "0 \<le> ch_fd c" using ep_invD(1) [OF inv] n by (auto split: if_splits)
  next
    fix q r c c' assume "chans ?st q = Some c" "chans ?st r = Some c'" "ch_fd c = ch_fd c'"
    then show "q = r" using ep_invD(2) [OF inv] by (auto dest: n(3) split: if_splits)
  next
    fix q c assume "chans ?st q = Some c" "0 \<le> ch_index c"
    then show "channels ?st (ch_fd c) = Some q" using ep_invD(3) [OF inv] i by (auto split: if_splits)
  next
    fix f q assume "channels ?st f = Some q"
    then have "channels st f = Some q" by simp
    from ep_invD(4) [OF inv this]
    show "\<exists>c j. registered ?st q c j \<and> ch_fd c = f \<and> j < length (pollfds ?st) \<and> pollfds ?st ! j = entry_for c"
      by (simp add: reg)
  next
    fix j assume "j < length (pollfds ?st)"
    then show "\<exists>q c. registered ?st q c j" using ep_invD(5) [OF inv, of j] by (simp add: reg)
  qed
  moreover have "wanted ?st = wanted st" using np by (auto simp: wanted_def fun_eq_iff split: option.split)
  ultimately show ?thesis using eq by (simp add: ep_ok_def interest_def)
qed

lemma ep_step_ok:
  assumes ok: "ep_ok st" and l: "ep_legal st x"
  shows "\<exists>st'. ep_step x st = Inr st' \<and> ep_ok st'"
proof (cases x)
  case (Create p fd)
  then show ?thesis using create_ok [OF ok, of p "new_Channel fd"] l by (auto simp: ep_legal_def new_Channel_def)
next
  case (Enable_Reading p)
  then show ?thesis using enable_ok [OF ok _ masks(1)] l by (simp add: ep_legal_def enableReading_def)
next
  case (Enable_Writing p)
  then show ?thesis using enable_ok [OF ok _ masks(2)] l by (simp add: ep_legal_def enableWriting_def)
next
  case (Disable_Writing p)
  then have "active_channel st p" using l by (simp add: ep_legal_def)
  from active_registered [OF ok this] obtain ch i where r: "registered st p ch i" "\<not> isNoneEvent ch" .
  from change_registered [OF ok r, of "\<lambda>e. e AND NOT kWriteEvent"] show ?thesis
    by (auto simp: Disable_Writing disableWriting_def)
next
  case (Close p)
  then have "active_channel st p" using l by (simp add: ep_legal_def)
  from active_registered [OF ok this] obtain ch i where r: "registered st p ch i" "\<not> isNoneEvent ch" .
  from change_registered [OF ok r, of "\<lambda>e. kNoneEvent"] obtain st1 where
    1: "disableAll True p st = Inr st1" "ep_ok st1" "registered st1 p (ch\<lparr>events := kNoneEvent\<rparr>) i"
    by (auto simp: disableAll_def)
  from remove_registered [OF 1(2,3)] obtain st2 where
    "remove True p st1 = Inr st2" "ep_ok (st2\<lparr>chans := (chans st2)(p := None)\<rparr>)" by (auto simp: isNoneEvent_def)
  with 1(1) show ?thesis by (simp add: Close destroy_UdpCom_def)
qed

interpretation poller: stepper ep_step ep_legal ep_ok "\<lambda>st x. None" "\<lambda>st st'. True"
proof
  fix st :: "'a epoller" and x
  assume "ep_ok st" "ep_legal st x" "(None :: fault option) = None"
  from ep_step_ok [OF this(1,2)] show "\<exists>st'. ep_step x st = Inr st' \<and> ep_ok st' \<and> True" by simp
qed simp

lemma new_poller_ok: "new_EPoller fd = Inr st \<Longrightarrow> ep_ok st"
  by (auto simp: new_EPoller_def ep_ok_def ep_inv_def interest_def wanted_def fun_eq_iff split: if_splits)

section \<open>Reporting events\<close>

lemma revents_inv:
  assumes inv: "ep_inv st" and ch: "chans st p = Some ch"
  shows "ep_inv (st\<lparr>chans := (chans st)(p \<mapsto> ch\<lparr>revents := r\<rparr>)\<rparr>)"
proof (rule ep_invI [OF inv])
  let ?st = "st\<lparr>chans := (chans st)(p \<mapsto> ch\<lparr>revents := r\<rparr>)\<rparr>"
  have old: "\<exists>d r. chans st q = Some d \<and> (c = d \<or> c = d\<lparr>revents := r\<rparr>)" if "chans ?st q = Some c" for q c
    using that ch by (auto split: if_splits)
  have new: "\<exists>c. chans ?st q = Some c \<and> ch_fd c = ch_fd d \<and> ch_index c = ch_index d" if "chans st q = Some d" for q d
    using that ch by auto
  fix q c assume c: "chans ?st q = Some c"
  from old [OF c] show "\<exists>d. chans st q = Some d \<and> ch_fd d = ch_fd c" by auto
  assume i: "0 \<le> ch_index c"
  from old [OF c] show "placed ?st q c"
    using ep_inv_placed [OF inv, of q] i by (fastforce simp: placed_def entry_for_def isNoneEvent_def)
next
  let ?st = "st\<lparr>chans := (chans st)(p \<mapsto> ch\<lparr>revents := r\<rparr>)\<rparr>"
  show "\<exists>c. chans ?st q = Some c \<and> ch_fd c = fd \<and> 0 \<le> ch_index c" if "channels ?st fd = Some q" for fd q
    using ep_inv_channel [OF inv, of fd q] that ch by fastforce
  show "\<exists>q c. chans ?st q = Some c \<and> ch_index c = int j" if j: "j < length (pollfds ?st)" for j
  proof -
    from j have "j < length (pollfds st)" by simp
    from ep_inv_entry [OF inv this] obtain q c where "chans st q = Some c" "ch_index c = int j" .
    then show ?thesis using ch by (cases "q = p") (auto intro!: exI [of _ q])
  qed
qed

lemma fill_ok:
  assumes "ep_inv st" and "\<forall>(fd, r) \<in> set evs. 0 < r \<longrightarrow> channels st fd \<noteq> None"
  shows "\<exists>st'. fillActiveChannels evs st ps =
      Inr (st', ps @ map (\<lambda>(fd, r). the (channels st fd)) (filter (\<lambda>(fd, r). 0 < r) evs)) \<and>
    ep_inv st' \<and> channels st' = channels st \<and> pollfds st' = pollfds st \<and> ctl_calls st' = ctl_calls st \<and>
    (distinct (map fst evs) \<longrightarrow>
      (\<forall>(fd, r) \<in> set evs. 0 < r \<longrightarrow> (\<exists>ch. chans st' (the (channels st fd)) = Some ch \<and> ch_fd ch = fd \<and> revents ch = r))) \<and>
    (\<forall>p. (\<forall>fd \<in> fst ` set evs. channels st fd \<noteq> Some p) \<longrightarrow> chans st' p = chans st p)"
  using assms
proof (induction evs arbitrary: st ps)
  case Nil
  then show ?case by simp
next
  case (Cons ev evs)
  obtain fd r where ev: "ev = (fd, r)" by (cases ev)
  show ?case
  proof (cases "0 < r")
    case False
    then have run: "fillActiveChannels (ev # evs) st ps = fillActiveChannels evs st ps" by (simp add: ev)
    from Cons.prems(2) have "\<forall>(fd, r) \<in> set evs. 0 < r \<longrightarrow> channels st fd \<noteq> None" by simp
    from Cons.IH [OF Cons.prems(1) this, of ps] show ?thesis unfolding run using False by (auto simp: ev)
  next
    case True
    then obtain p where p: "channels st fd = Some p" using Cons.prems(2) ev by auto
    from ep_inv_channel [OF Cons.prems(1) p] obtain ch where ch: "chans st p = Some ch" "ch_fd ch = fd" .
    let ?st = "st\<lparr>chans := (chans st)(p \<mapsto> ch\<lparr>revents := r\<rparr>)\<rparr>"
    have run: "fillActiveChannels (ev # evs) st ps = fillActiveChannels evs ?st (ps @ [p])"
      using True p ch by (simp add: ev deref_def)
    have pre: "\<forall>(fd, r) \<in> set evs. 0 < r \<longrightarrow> channels ?st fd \<noteq> None" using Cons.prems(2) by simp
    from Cons.IH [OF revents_inv [OF Cons.prems(1) ch(1)] pre, of "ps @ [p]"] obtain st' where
      st': "fillActiveChannels evs ?st (ps @ [p]) =
        Inr (st', (ps @ [p]) @ map (\<lambda>(fd, r). the (channels ?st fd)) (filter (\<lambda>(fd, r). 0 < r) evs))"
      "ep_inv st'" "channels st' = channels ?st" "pollfds st' = pollfds ?st" "ctl_calls st' = ctl_calls ?st"
      and d: "distinct (map fst evs) \<longrightarrow>
        (\<forall>(fd, r) \<in> set evs. 0 < r \<longrightarrow> (\<exists>ch. chans st' (the (channels ?st fd)) = Some ch \<and> ch_fd ch = fd \<and> revents ch = r))"
      and fr: "\<forall>p. (\<forall>fd \<in> fst ` set evs. channels ?st fd \<noteq> Some p) \<longrightarrow> chans st' p = chans ?st p"
      by blast
    have "channels st f \<noteq> Some p" if "f \<noteq> fd" for f
      using ep_inv_channel [OF Cons.prems(1), of f p] ch that by (metis option.inject)
    then have one: "chans st' p = Some (ch\<lparr>revents := r\<rparr>)" if "fd \<notin> fst ` set evs"
      using fr [THEN spec, of p] that by (metis (no_types, lifting) epoller.select_convs(2) epoller.select_convs(3) epoller.surjective epoller.update_convs(3) fun_upd_same)
    have each: "\<forall>(f, s) \<in> set (ev # evs). 0 < s \<longrightarrow> (\<exists>ch. chans st' (the (channels st f)) = Some ch \<and> ch_fd ch = f \<and> revents ch = s)"
      if "distinct (map fst (ev # evs))"
    proof -
      have nf: "fd \<notin> fst ` set evs" "distinct (map fst evs)" using that by (simp_all add: ev)
      show ?thesis using d nf one [OF nf(1)] p ch(2) by (simp add: ev)
    qed
    have keep: "chans st' q = chans st q" if "\<forall>f \<in> fst ` set (ev # evs). channels st f \<noteq> Some q" for q
    proof -
      have "q \<noteq> p" using that p by (auto simp: ev)
      with fr that show ?thesis by simp
    qed
    show ?thesis unfolding run using st' True p keep each by (intro exI [of _ st'] conjI impI allI) (simp_all add: ev)
  qed
qed

end
