(* ===== verification/Timer_Properties.thy ===== *)
theory Timer_Properties
  imports Timer_Queue
begin

text \<open>The properties of the timer queue.\<close>

section \<open>Entering timers\<close>

lemma addTimer_schedule:
  assumes inv: "tq_inv q"
  shows "if om_find when (timers q) \<noteq> None then addTimer q c when i now = Inl Assert_Fail
    else \<exists>q'. addTimer q c when i now = Inr (fresh q, q') \<and> tq_inv q' \<and> schedule q' = (schedule q)(fresh q \<mapsto> when)"
proof (cases "om_find when (timers q)")
  case Some
  then show ?thesis by (simp add: addTimer_def addTimerInLoop_def insert_timer_def new_Timer_def Let_def)
next
  case None
  let ?t = "new_Timer c when i"
  let ?q1 = "q\<lparr>heap := (heap q)(fresh q \<mapsto> ?t), fresh := Suc (fresh q)\<rparr>"
  obtain b q2 where ins: "insert_timer ?q1 (fresh q) = Inr (b, q2)"
    using None insert_timer_ok [of ?q1 "fresh q" ?t] by (auto simp: new_Timer_def)
  then obtain q' where add: "addTimerInLoop ?q1 (fresh q) now = Inr q'" by (simp add: addTimerInLoop_def)
  from add obtain b' r a where r: "insert_timer ?q1 (fresh q) = Inr (b', r)" "q' = r\<lparr>armed := a\<rparr>"
    by (rule addTimerInLoop_Inr)
  have i1: "tq_inv ?q1" "fresh q \<notin> entered ?q1"
    using inv by (auto simp: tq_inv_def heap_ok_def entry_ok_def entered_def new_Timer_def)
  have e: "entered ?q1 = entered q" by (simp add: entered_def)
  from insert_timer_inv [OF i1(1) _ i1(2) _ r(1)] e have n: "tq_inv r" "heap r = (heap q)(fresh q \<mapsto> ?t)"
    "entered r = insert (fresh q) (entered q)" by simp_all
  have "schedule q' = (schedule q)(fresh q \<mapsto> when)"
    using n by (auto simp: schedule_def r(2) new_Timer_def fun_eq_iff split: option.split)
  moreover have "addTimer q c when i now = Inr (fresh q, q')" using add by (simp add: addTimer_def)
  ultimately show ?thesis using n(1) None r(2) by simp
qed

text \<open>
  The timers the loop hands out: each is entered for its time, and a timer for a microsecond
  at which another one is entered ends the program.
\<close>

lemma loop_timers:
  assumes "tq_inv q"
  shows "if om_find (addTime t d) (timers q) \<noteq> None
    then runAfter q d c t now = Inl Assert_Fail \<and> runEvery q d c t now = Inl Assert_Fail
    else \<exists>q' r. runAfter q d c t now = Inr (fresh q, q') \<and> runEvery q d c t now = Inr (fresh q, r) \<and> tq_inv q' \<and> tq_inv r \<and>
      schedule q' = (schedule q)(fresh q \<mapsto> addTime t d) \<and> schedule r = (schedule q)(fresh q \<mapsto> addTime t d)"
  using addTimer_schedule [OF assms, of "addTime t d" c 0 now] addTimer_schedule [OF assms, of "addTime t d" c d now]
  unfolding runAfter_def runAt_def runEvery_def by (auto split: if_splits)

section \<open>A tick\<close>

text \<open>
  C16. One tick of the timer queue, with callbacks that leave the queue alone. It fails, by an
  assertion, exactly when an entry stands at the very microsecond of the tick or two timers
  would have to be entered at one time. Otherwise the callbacks of the live timers that are due
  run once each, in the order of their times; afterwards exactly the repeating ones are due
  again, one interval after the tick, the waiting ones are unchanged, the others are gone, and
  the descriptor is armed for the earliest.
\<close>

theorem timer_tick:
  assumes "tq_inv q"
  shows "if om_find now (timers q) \<noteq> None \<or> clash q now
    then handleRead (quiet f) now now' (q, s) = Inl Assert_Fail
    else \<exists>q'. handleRead (quiet f) now now' (q, s) = Inr (q', fold f (due_callbacks q now) s) \<and>
      tq_inv q' \<and> schedule q' = tick q now \<and> head_armed q' now'"
proof (cases "om_find now (timers q) \<noteq> None \<or> clash q now")
  case True
  from tick_fails [OF assms True] show ?thesis unfolding if_P [OF True] .
next
  case False
  then have "om_find now (timers q) = None" "\<not> clash q now" by simp_all
  from tick_result [OF assms this] show ?thesis unfolding if_not_P [OF False] .
qed

text \<open>Two heartbeats, ten seconds each, the second started a microsecond after the first.\<close>

definition two_beats :: "nat timer_queue" where
  "two_beats = \<lparr>heap = [0 \<mapsto> new_Timer 7 100 10, 1 \<mapsto> new_Timer 8 101 10], fresh = 2,
     timers = [(100, 0), (101, 1)], armed = None\<rparr>"

lemma two_beats_inv: "tq_inv two_beats"
  by (auto simp: two_beats_def tq_inv_def om_inv_def entry_ok_def heap_ok_def new_Timer_def)

theorem timer_tick_witness:
  "\<exists>q'. handleRead (quiet (\<lambda>c s. s @ [c])) 101 101 (two_beats\<lparr>timers := [(100, 0)], heap := [0 \<mapsto> new_Timer 7 100 10]\<rparr>, [])
     = Inr (q', [7]) \<and> schedule q' 0 = Some 10000101"
proof -
  let ?q = "two_beats\<lparr>timers := [(100, 0)], heap := [0 \<mapsto> new_Timer 7 100 10]\<rparr>"
  have i: "tq_inv ?q"
    by (auto simp: two_beats_def tq_inv_def om_inv_def entry_ok_def heap_ok_def new_Timer_def)
  have d: "due ?q 101 = [(100, 0)]" by (simp add: due_def)
  have n: "om_find 101 (timers ?q) = None" by simp
  have c: "\<not> clash ?q 101"
    unfolding clash_def d by (simp add: restart_times_def again_def new_Timer_def om_keys_def)
  have t: "tick ?q 101 0 = Some 10000101"
    by (simp add: tick_def schedule_def entered_def again_def new_Timer_def addTime_def kMicroSecondsPerSecond_def)
  have callbacks: "due_callbacks ?q 101 = [7]"
    unfolding due_callbacks_def d by (simp add: new_Timer_def)
  from timer_tick [OF i, of 101 "\<lambda>c s. s @ [c]" 101 "[]"] n c show ?thesis
    unfolding callbacks using t by auto
qed

section \<open>Any callbacks\<close>

text \<open>
  C34. Callbacks that use the queue: over any number of ticks, with callbacks that add timers
  and destroy \<open>TimerId\<close>s in any way they like, a queue that has not failed is in order: entries
  sorted and unique, every live timer entered at most once and under its own time, the
  descriptor armed for the earliest live one after each tick.
\<close>

definition ticks ::
  "('c \<Rightarrow> 's \<Rightarrow> 'c timer_call list) \<Rightarrow> ('c \<Rightarrow> 's \<Rightarrow> 's) \<Rightarrow> (timestamp \<times> timestamp) list \<Rightarrow>
     'c timer_queue \<times> 's \<Rightarrow> ('c timer_queue \<times> 's) outcome" where
  "ticks prog f = foldE (\<lambda>(now, now'). handleRead (run_calls prog f) now now')"

theorem timers_survive_callbacks:
  assumes "tq_inv q" and "ticks prog f ts (q, s) = Inr (q', s')"
  shows "tq_inv q' \<and> (ts \<noteq> [] \<longrightarrow> head_armed q' (snd (last ts)))"
  using assms
proof (induction ts arbitrary: q s)
  case Nil
  then show ?case by (simp add: ticks_def)
next
  case (Cons t ts)
  obtain now now' where t: "t = (now, now')" by (cases t)
  from Cons.prems(2) obtain q1 s1 where
    1: "handleRead (run_calls prog f) now now' (q, s) = Inr (q1, s1)" "ticks prog f ts (q1, s1) = Inr (q', s')"
    by (auto simp: ticks_def t bindE_eq_Inr)
  from calls.tick_keeps [OF Cons.prems(1) 1(1)] have i: "tq_inv q1" "head_armed q1 now'" by auto
  from Cons.IH [OF i(1) 1(2)] show ?case
  proof (cases ts)
    case Nil
    with 1(2) i t show ?thesis by (simp add: ticks_def)
  next
    case (Cons u us)
    with \<open>tq_inv q' \<and> (ts \<noteq> [] \<longrightarrow> head_armed q' (snd (last ts)))\<close> show ?thesis by simp
  qed
qed

text \<open>The first timer's callback adds a timer and destroys the second timer's id.\<close>

definition demo_prog :: "nat \<Rightarrow> nat \<Rightarrow> nat timer_call list" where
  "demo_prog c s = (if c = 7 then [Add_Timer 9 500 0 200, Drop_Id 1] else [])"

lemma demo_ticks:
  "\<exists>q'. ticks demo_prog (\<lambda>c s. s + c) [(200, 200)] (two_beats, 0) = Inr (q', 7)"
  by (simp add: ticks_def handleRead_def getExpired_def two_beats_def run_calls_def demo_prog_def addTimer_def
      addTimerInLoop_def insert_timer_def new_Timer_def cancel_def reset_def restart_def addTime_def
      kMicroSecondsPerSecond_def Let_def bindE_assoc resetTimerfd_def split: prod.split)

theorem timers_survive_callbacks_witness:
  "\<exists>q'. ticks demo_prog (\<lambda>c s. s + c) [(200, 200)] (two_beats, 0) = Inr (q', 7) \<and> tq_inv q'"
  using demo_ticks timers_survive_callbacks [OF two_beats_inv, of demo_prog "\<lambda>c s. s + c" "[(200, 200)]" 0] by blast

section \<open>Timers of one interval\<close>

text \<open>
  Two repeating timers of the same interval cannot both be due at one tick: they are
  restarted at the same microsecond, the set orders by time alone, the second insertion finds
  the place taken and the assertion fails. The connections of the client all beat every ten
  seconds.
\<close>

theorem same_interval_timers_abort:
  assumes "tq_inv q" and "p1 \<noteq> p2" and "(k1, p1) \<in> set (timers q)" and "(k2, p2) \<in> set (timers q)"
    and "k1 < now" and "k2 < now" and "heap q p1 = Some t1" and "heap q p2 = Some t2"
    and "repeat t1" and "repeat t2" and "interval t1 = interval t2"
  shows "handleRead (quiet f) now now' (q, s) = Inl Assert_Fail"
proof -
  let ?r = "restart_times (heap q) now (due q now)"
  let ?k = "addTime now (interval t1)"
  have r: "(?k, p1) \<in> set ?r" "(?k, p2) \<in> set ?r"
    using assms by (force simp: restart_times_def due_def again_def)+
  have "\<not> distinct (map fst ?r)"
  proof
    assume d: "distinct (map fst ?r)"
    have "p1 = p2" by (rule eq_key_imp_eq_value [OF d r])
    with assms(2) show False by simp
  qed
  then have "clash q now" by (simp add: clash_def)
  with timer_tick [OF assms(1), of now f now' s] show ?thesis by simp
qed

theorem same_interval_timers_abort_witness:
  "handleRead (quiet (\<lambda>c s. s @ [c])) 200 200 (two_beats, []) = Inl Assert_Fail"
  by (rule same_interval_timers_abort [OF two_beats_inv, where ?p1.0 = 0 and ?p2.0 = 1 and ?k1.0 = 100
        and ?k2.0 = 101 and ?t1.0 = "new_Timer 7 100 10" and ?t2.0 = "new_Timer 8 101 10"])
    (simp_all add: two_beats_def new_Timer_def)

section \<open>The setting of the descriptor\<close>

text \<open>
  The relative time handed to \<open>timerfd_settime\<close> is a proper \<open>timespec\<close>, never zero (which would disarm
  the timer), and is exactly the distance to the expiration, or 100 microseconds when that is
  nearer or past.
\<close>

theorem timespec_bounds:
  "case howMuchTimeFromNow when now of (sec, nsec) \<Rightarrow>
     0 \<le> sec \<and> 0 \<le> nsec \<and> nsec < 1000000000 \<and> 0 < sec + nsec \<and>
     sec * 1000000000 + nsec = 1000 * max 100 (when - now)"
proof -
  obtain u where u: "u = max 100 (when - now)" by blast
  have h: "howMuchTimeFromNow when now = (u div 1000000, (u mod 1000000) * 1000)"
    by (auto simp: howMuchTimeFromNow_def u kMicroSecondsPerSecond_def Let_def max_def)
  have pos: "100 \<le> u" using u by simp
  have m: "0 \<le> u mod 1000000" "u mod 1000000 < 1000000" by simp_all
  have e: "u div 1000000 * 1000000 + u mod 1000000 = u" by (rule div_mult_mod_eq)
  have d: "0 \<le> u div 1000000" using pos by (simp add: pos_imp_zdiv_nonneg_iff)
  show ?thesis unfolding h u [symmetric] prod.case using m e d pos by (intro conjI; linarith)
qed

end
