(* ===== verification/Loop_Process.thy ===== *)
theory Loop_Process
  imports EPoller_Inv Timer_Properties Udp_Com
begin

text \<open>
  What the two programs have in common: the constructors of \<open>EventLoop\<close>, \<open>TimerQueue\<close> and \<open>UdpCom\<close>, which give their descriptors
  to the poller through channels, and the part of \<open>EventLoop::loop\<close> between \<open>epoll_wait\<close> and the handlers. What the kernel reports in one turn
  is an argument, as is what a callback does.
\<close>

section \<open>Construction\<close>

text \<open>A process has a poller and whatever the program adds to it; the descriptors of its loop are what the system calls return.\<close>

record 'c loop_process =
  sp_poller :: "'c epoller"

record loop_fds =
  epollfd :: int
  timerfd :: int
  wakeupfd :: int

text \<open>What the owners of a channel do with it at first: make it, set its callback, enable it. The addresses are the order of construction.\<close>

definition open_channel :: "nat \<Rightarrow> int \<Rightarrow> 'c \<Rightarrow> 'c epoller \<Rightarrow> 'c epoller outcome" where
  "open_channel p fd c st = enableReading True p (st\<lparr>chans := (chans st)(p \<mapsto> (new_Channel fd)\<lparr>readCallback := Some c\<rparr>)\<rparr>)"

definition make_TimerQueue :: "int \<Rightarrow> 'c \<Rightarrow> 'c epoller \<Rightarrow> ('t timer_queue \<times> 'c epoller) outcome" where
  "make_TimerQueue fd c ep = bindE (new_TimerQueue fd) (\<lambda>q. bindE (open_channel 0 fd c ep) (\<lambda>ep. Inr (q, ep)))"

definition make_EventLoop ::
  "'z loop_fds_scheme \<Rightarrow> 'c \<Rightarrow> 'c \<Rightarrow> ('f event_loop \<times> 't timer_queue \<times> 'c epoller) outcome" where
  "make_EventLoop d on_tick on_wake =
     bindE (new_EPoller (epollfd d)) (\<lambda>ep.
     bindE (make_TimerQueue (timerfd d) on_tick ep) (\<lambda>(q, ep).
     bindE (new_EventLoop (wakeupfd d) False) (\<lambda>l.
     bindE (open_channel 1 (wakeupfd d) on_wake ep) (\<lambda>ep. Inr (l, q, ep)))))"

definition make_UdpCom :: "nat \<Rightarrow> int \<Rightarrow> u16 \<Rightarrow> (u16 \<Rightarrow> int) \<Rightarrow> 'c \<Rightarrow> 'c epoller \<Rightarrow> (udp \<times> 'c epoller) outcome" where
  "make_UdpCom p fd pt bind c ep =
     bindE (new_UdpCom fd pt bind) (\<lambda>u. bindE (open_channel p fd c ep) (\<lambda>ep. Inr (u, ep)))"

section \<open>Handling what is ready\<close>

type_synonym ('f, 'c, 'z) process_state = "'f event_loop \<times> ('c, 'z) loop_process_scheme"

definition handle_active ::
  "('c \<Rightarrow> ('f, 'c, 'z) process_state \<Rightarrow> ('f, 'c, 'z) process_state outcome) \<Rightarrow> nat \<Rightarrow>
     ('f, 'c, 'z) process_state \<Rightarrow> ('f, 'c, 'z) process_state outcome" where
  "handle_active run p st = bindE (deref (sp_poller (snd st)) p) (\<lambda>ch. handleEvent run ch st)"

definition poll_and_handle ::
  "('c \<Rightarrow> ('f, 'c, 'z) process_state \<Rightarrow> ('f, 'c, 'z) process_state outcome) \<Rightarrow> (int \<times> u32) list \<Rightarrow>
     ('f, 'c, 'z) process_state \<Rightarrow> ('f, 'c, 'z) process_state outcome" where
  "poll_and_handle run ready st =
     bindE (poll ready (sp_poller (snd st))) (\<lambda>(ep, active).
     foldE (handle_active run) active (fst st, (snd st)\<lparr>sp_poller := ep\<rparr>))"

definition readable :: "u32 \<Rightarrow> bool" where "readable r \<longleftrightarrow> r AND (POLLIN OR POLLPRI OR POLLRDHUP) \<noteq> 0"

lemma handleEvent_read:
  assumes "readCallback ch = Some c" and "writeCallback ch = None" and "errorCallback ch = None" and "closeCallback ch = None"
  shows "handleEvent run ch s = (if readable (revents ch) then run c s else Inr s)"
proof -
  have "fire run b None s = Inr s" for b s by (simp add: fire_def)
  then show ?thesis by (simp add: handleEvent_def assms readable_def Let_def fire_def [of _ _ "Some c"] bindE_right)
qed

lemma kReadEvent_3: "kReadEvent = 3"
  by (simp add: kReadEvent_def POLLIN_def POLLPRI_def)

section \<open>Channels that only read\<close>

text \<open>What the handler of a channel looks at, and what a poller that changes indices leaves of it.\<close>

definition reads_only :: "'c \<Rightarrow> 'c channel \<Rightarrow> bool" where
  "reads_only c ch \<longleftrightarrow> readCallback ch = Some c \<and> writeCallback ch = None \<and> errorCallback ch = None \<and> closeCallback ch = None"

definition moved_channel :: "'c channel \<Rightarrow> 'c channel \<Rightarrow> bool" where
  "moved_channel ch ch' \<longleftrightarrow> ch'\<lparr>ch_index := 0\<rparr> = ch\<lparr>ch_index := 0\<rparr> \<and> (0 \<le> ch_index ch \<longrightarrow> 0 \<le> ch_index ch')"

lemma moved_channel_sel:
  assumes "moved_channel ch ch'"
  shows "ch_fd ch' = ch_fd ch" "events ch' = events ch" "reads_only c ch' \<longleftrightarrow> reads_only c ch" "isNoneEvent ch' \<longleftrightarrow> isNoneEvent ch"
    "revents ch' = revents ch" "0 \<le> ch_index ch \<longrightarrow> 0 \<le> ch_index ch'"
  using assms by (cases ch; cases ch'; simp add: moved_channel_def reads_only_def isNoneEvent_def)+

lemma moved_channel_refl [simp]: "moved_channel ch ch"
  by (simp add: moved_channel_def)

lemma moved_channel_trans: "moved_channel a b \<Longrightarrow> moved_channel b c \<Longrightarrow> moved_channel a c"
  by (simp add: moved_channel_def)

text \<open>A channel is opened.\<close>

lemma open_channel_ok:
  assumes ok: "ep_ok st" and n: "chans st p = None" "0 \<le> fd" "\<And>q c. chans st q = Some c \<Longrightarrow> ch_fd c \<noteq> fd"
  shows "\<exists>st' ch. open_channel p fd c st = Inr st' \<and> ep_ok st' \<and> chans st' = (chans st)(p \<mapsto> ch) \<and> ch_fd ch = fd \<and> reads_only c ch \<and>
    0 \<le> ch_index ch \<and> \<not> isNoneEvent ch"
proof -
  let ?ch = "(new_Channel fd)\<lparr>readCallback := Some c\<rparr>"
  let ?st = "st\<lparr>chans := (chans st)(p \<mapsto> ?ch)\<rparr>"
  have "ep_ok ?st" using n by (intro create_ok [OF ok]) (auto simp: new_Channel_def)
  moreover have "new_or_active ?st p" by (simp add: new_or_active_def new_Channel_def)
  ultimately obtain st' where st': "enableReading True p ?st = Inr st'" "ep_ok st'"
    using enable_ok [of ?st p "\<lambda>e. e OR kReadEvent"] masks(1) by (auto simp: enableReading_def)
  from st'(1) have "chans st' = (chans st)(p \<mapsto> ?ch\<lparr>events := 0 OR kReadEvent, ch_index := int (length (pollfds st))\<rparr>)"
    by (auto simp: enableReading_def change_events_def deref_def updateChannel_def assertInLoopThread_def new_Channel_def
        Let_def outcome_simps split: if_splits)
  with st' show ?thesis
    using masks(1) [of 0] by (auto simp: open_channel_def reads_only_def new_Channel_def isNoneEvent_def)
qed

text \<open>A channel is closed; the one that takes its place in the poller's array learns its new index.\<close>

definition rest_same :: "nat \<Rightarrow> 'c epoller \<Rightarrow> 'c epoller \<Rightarrow> bool" where
  "rest_same p st st' \<longleftrightarrow> (\<forall>q. q \<noteq> p \<longrightarrow> rel_option moved_channel (chans st q) (chans st' q))"

lemma removeChannel_rest:
  assumes "removeChannel True p st = Inr st'"
  shows "rest_same p st st'"
  using assms
  by (auto simp: removeChannel_def assertInLoopThread_def deref_def Let_def outcome_simps rest_same_def moved_channel_def
      option.rel_refl split: if_splits option.splits)

lemma disableAll_rest: "disableAll True p st = Inr st' \<Longrightarrow> rest_same p st st'"
  by (auto simp: disableAll_def change_events_def updateChannel_def assertInLoopThread_def deref_def Let_def outcome_simps rest_same_def
      option.rel_refl split: if_splits option.splits)

lemma rest_same_trans: "rest_same p st st1 \<Longrightarrow> rest_same p st1 st2 \<Longrightarrow> rest_same p st st2"
  unfolding rest_same_def by (metis option.rel_transp transpD transpI moved_channel_trans)

lemma destroy_channel_ok:
  assumes ok: "ep_ok st" and p: "active_channel st p"
  shows "\<exists>st'. destroy_UdpCom True p st = Inr st' \<and> ep_ok st' \<and> chans st' p = None \<and> rest_same p st st'"
proof -
  from ep_step_ok [OF ok, of "Close p"] p obtain st' where st': "destroy_UdpCom True p st = Inr st'" "ep_ok st'"
    by (auto simp: ep_legal_def)
  from st'(1) obtain st1 st2 where
    s: "disableAll True p st = Inr st1" "remove True p st1 = Inr st2" "st' = st2\<lparr>chans := (chans st2)(p := None)\<rparr>"
    by (auto simp: destroy_UdpCom_def outcome_simps)
  have "removeChannel True p st1 = Inr st2" using s(2) by (auto simp: remove_def outcome_simps)
  from rest_same_trans [OF disableAll_rest [OF s(1)] removeChannel_rest [OF this]]
  have "rest_same p st st'" by (simp add: s(3) rest_same_def)
  then show ?thesis using st' by (simp add: s(3))
qed

section \<open>What poll reports\<close>

lemma fill_keeps:
  assumes "fillActiveChannels evs st ps = Inr (st', ps')"
  shows "channels st' = channels st \<and> ctl_calls st' = ctl_calls st \<and> pollfds st' = pollfds st \<and>
    (\<forall>q. case chans st q of None \<Rightarrow> chans st' q = None | Some ch \<Rightarrow> \<exists>r. chans st' q = Some (ch\<lparr>revents := r\<rparr>))"
  using assms
proof (induction evs arbitrary: st ps)
  case Nil
  have "\<exists>r. ch = ch\<lparr>revents := r\<rparr>" for ch :: "'a channel" by (rule exI [of _ "revents ch"]) simp
  with Nil show ?case by (auto split: option.splits)
next
  case (Cons e evs)
  obtain fd r where e: "e = (fd, r)" by (cases e)
  show ?case
  proof (cases "0 < r")
    case False
    with Cons show ?thesis by (simp add: e)
  next
    case True
    with Cons.prems obtain p ch where p: "channels st fd = Some p" "chans st p = Some ch"
      "fillActiveChannels evs (st\<lparr>chans := (chans st)(p \<mapsto> ch\<lparr>revents := r\<rparr>)\<rparr>) (ps @ [p]) = Inr (st', ps')"
      by (auto simp: e deref_def outcome_simps split: option.splits)
    from Cons.IH [OF p(3)] p(2) show ?thesis by (fastforce split: option.splits if_splits)
  qed
qed

lemma poll_ok:
  assumes ok: "ep_ok st" and d: "distinct (map fst evs)" and f: "\<forall>fd \<in> fst ` set evs. channels st fd \<noteq> None"
  shows "\<exists>st'. fillActiveChannels evs st [] = Inr (st', map (\<lambda>(fd, r). the (channels st fd)) (filter (\<lambda>(fd, r). 0 < r) evs)) \<and>
    ep_ok st' \<and> channels st' = channels st \<and>
    (\<forall>q. case chans st q of None \<Rightarrow> chans st' q = None | Some ch \<Rightarrow> \<exists>r. chans st' q = Some (ch\<lparr>revents := r\<rparr>)) \<and>
    (\<forall>(fd, r) \<in> set evs. 0 < r \<longrightarrow> (\<exists>ch. chans st' (the (channels st fd)) = Some ch \<and> revents ch = r))"
proof -
  have inv: "ep_inv st" and eq: "interest st = wanted st" using ok by (simp_all add: ep_ok_def)
  have "\<forall>(fd, r) \<in> set evs. 0 < r \<longrightarrow> channels st fd \<noteq> None" using f by auto
  from fill_ok [OF inv this, of "[]"] d obtain st' where
    st': "fillActiveChannels evs st [] = Inr (st', map (\<lambda>(fd, r). the (channels st fd)) (filter (\<lambda>(fd, r). 0 < r) evs))" "ep_inv st'"
      "\<forall>(fd, r) \<in> set evs. 0 < r \<longrightarrow> (\<exists>ch. chans st' (the (channels st fd)) = Some ch \<and> ch_fd ch = fd \<and> revents ch = r)" by auto
  note k = fill_keeps [OF st'(1)]
  have "wanted st' = wanted st"
  proof
    fix fd
    show "wanted st' fd = wanted st fd"
    proof (cases "channels st fd")
      case (Some p)
      have "case chans st p of None \<Rightarrow> chans st' p = None | Some ch \<Rightarrow> \<exists>r. chans st' p = Some (ch\<lparr>revents := r\<rparr>)" using k by blast
      with Some k show ?thesis by (cases "chans st p") (auto simp: wanted_def isNoneEvent_def)
    qed (use k in \<open>simp add: wanted_def\<close>)
  qed
  moreover have "interest st' = interest st" using k by (simp add: interest_def)
  ultimately have "ep_ok st'" using st'(2) eq by (simp add: ep_ok_def)
  with st' k show ?thesis by (intro exI [of _ st']) auto
qed

section \<open>A loop that nobody quits\<close>

lemma turns_append: "turns handle run polls n (j + k) st = bindE (turns handle run polls n j st) (turns handle run polls (n + j) k)"
proof (induction j arbitrary: n st)
  case (Suc j)
  then show ?case by (cases "loop_turn handle run (polls n) st") simp_all
qed simp

lemma turns_fault_stays:
  assumes "turns handle run polls n j st = Inl f" and "j \<le> k"
  shows "turns handle run polls n k st = Inl f"
  using turns_append [of handle run polls n j "k - j" st] assms by simp

text \<open>The first turn that faults, if there is one, ends the loop; otherwise it never ends.\<close>

lemma loop_without_quit:
  assumes nq: "\<And>k a. turns handle run polls n k st = Inr a \<Longrightarrow> \<not> quit_flag (fst a)"
  shows "turns handle run polls n k st = Inl f \<Longrightarrow> loop_while handle run polls n st = Some (Inl f)"
    and "\<forall>k. \<exists>a. turns handle run polls n k st = Inr a \<Longrightarrow> loop_while handle run polls n st = None"
proof -
  have ends: "ends_at handle run polls n st k \<longleftrightarrow>
      (\<exists>f. turns handle run polls n k st = Inl f) \<and> (\<forall>j < k. \<exists>a. turns handle run polls n j st = Inr a)" for k
  proof -
    have "(case turns handle run polls n j st of Inl x \<Rightarrow> True | Inr a \<Rightarrow> quit_flag (fst a)) \<longleftrightarrow> (\<exists>f. turns handle run polls n j st = Inl f)"
      "(case turns handle run polls n j st of Inl x \<Rightarrow> False | Inr a \<Rightarrow> \<not> quit_flag (fst a)) \<longleftrightarrow> (\<exists>a. turns handle run polls n j st = Inr a)" for j
      using nq [of j] by (cases "turns handle run polls n j st"; simp)+
    then show ?thesis by (simp only: ends_at_def)
  qed
  show "loop_while handle run polls n st = Some (Inl f)" if f: "turns handle run polls n k st = Inl f"
  proof -
    obtain j where j: "\<exists>g. turns handle run polls n j st = Inl g" "\<forall>i < j. \<nexists>g. turns handle run polls n i st = Inl g"
      using exists_least_iff [where P = "\<lambda>k. \<exists>g. turns handle run polls n k st = Inl g"] f by blast
    have "\<exists>a. turns handle run polls n i st = Inr a" if "i < j" for i
      using j(2) that by (cases "turns handle run polls n i st") auto
    with j(1) have "ends_at handle run polls n st j" by (simp add: ends)
    from loop_while_ends [OF this] have w: "loop_while handle run polls n st = Some (turns handle run polls n j st)" .
    have "j \<le> k" using j(2) f not_le by blast
    with j(1) turns_fault_stays f have "turns handle run polls n j st = Inl f" by fastforce
    with w show ?thesis by simp
  qed
  show "loop_while handle run polls n st = None" if "\<forall>k. \<exists>a. turns handle run polls n k st = Inr a"
  proof (cases "loop_while handle run polls n st")
    case (Some r)
    then obtain k where "ends_at handle run polls n st k" using loop_while_Some by blast
    then obtain g where "turns handle run polls n k st = Inl g" by (auto simp: ends)
    moreover have "\<exists>a. turns handle run polls n k st = Inr a" using that ..
    ultimately show ?thesis by simp
  qed
qed

section \<open>Two programs in step\<close>

text \<open>The two outcomes are the same fault, or states that correspond.\<close>

definition in_step :: "('a \<Rightarrow> 'b \<Rightarrow> bool) \<Rightarrow> 'a outcome \<Rightarrow> 'b outcome \<Rightarrow> bool" where
  "in_step R x y \<longleftrightarrow> (case x of Inl f \<Rightarrow> y = Inl f | Inr a \<Rightarrow> \<exists>b. y = Inr b \<and> R a b)"

lemma in_step_simps [simp]:
  "in_step R (Inl f) y \<longleftrightarrow> y = Inl f" "in_step R (Inr a) y \<longleftrightarrow> (\<exists>b. y = Inr b \<and> R a b)"
  by (simp_all add: in_step_def)

lemma in_step_bind:
  assumes "in_step R x y" and "\<And>a b. R a b \<Longrightarrow> in_step S (f a) (g b)"
  shows "in_step S (bindE x f) (bindE y g)"
  using assms by (cases x) auto

end
