(* ===== verification/Server_Process.thy ===== *)
theory Server_Process
  imports Loop_Process Server_Properties
begin

text \<open>
  The server as a process: \<open>main\<close>, the constructor of \<open>DiretransServer\<close>, and the
  loop that dispatches what \<open>epoll_wait\<close> reports through channels to the timer queue, the wake-up descriptor and the socket. What
  the kernel answers in one turn is an input. The server queues no functors, so that their type does not matter.
\<close>

section \<open>Construction\<close>

datatype reader = Timer_Read | Wakeup_Read | Socket_Read

record process = "reader loop_process" +
  sp_timers :: "unit timer_queue"
  sp_server :: server

record fds = loop_fds +
  sockfd :: int

definition make_server :: "shuffle \<Rightarrow> fds \<Rightarrow> u16 \<Rightarrow> (u16 \<Rightarrow> int) \<Rightarrow> (unit event_loop \<times> process) outcome" where
  "make_server sh d pt bind =
     bindE (make_EventLoop d Timer_Read Wakeup_Read) (\<lambda>(l, q, ep).
     bindE (make_UdpCom 2 (sockfd d) pt bind Socket_Read ep) (\<lambda>(u, ep).
     Inr (l, \<lparr>sp_poller = ep, sp_timers = q, sp_server = new_DiretransServer sh u\<rparr>)))"

section \<open>The loop\<close>

text \<open>One turn: what \<open>epoll_wait\<close> reports, what \<open>recvfrom\<close> returns, and the times the handlers read.\<close>

record turn_input =
  ready :: "(int \<times> u32) list"
  datagram :: recv
  recv_time :: timestamp
  tick_time :: timestamp
  drop_time :: timestamp
  arm_time :: timestamp

definition run_reader :: "shuffle \<Rightarrow> turn_input \<Rightarrow> reader \<Rightarrow> unit event_loop \<times> process \<Rightarrow> (unit event_loop \<times> process) outcome" where
  "run_reader sh i c st =
     (let (l, pr) = st in
      case c of
        Timer_Read \<Rightarrow>
          bindE (Timer_Queue.handleRead (\<lambda>_ (q, s). Inr (q, removeTimeoutConn (drop_time i) s)) (tick_time i) (arm_time i)
              (sp_timers pr, sp_server pr)) (\<lambda>(q, s).
          Inr (l, pr\<lparr>sp_timers := q, sp_server := s\<rparr>))
      | Wakeup_Read \<Rightarrow> Inr (Event_Loop.handleRead l, pr)
      | Socket_Read \<Rightarrow>
          bindE (server_step sh (Readable (datagram i) (recv_time i)) (sp_server pr)) (\<lambda>s. Inr (l, pr\<lparr>sp_server := s\<rparr>)))"

abbreviation server_turn :: "shuffle \<Rightarrow> turn_input \<Rightarrow> unit event_loop \<times> process \<Rightarrow> (unit event_loop \<times> process) outcome" where
  "server_turn sh i \<equiv> poll_and_handle (run_reader sh i) (ready i)"

definition start ::
  "shuffle \<Rightarrow> timestamp \<Rightarrow> timestamp \<Rightarrow> (nat \<Rightarrow> turn_input) \<Rightarrow> unit event_loop \<times> process \<Rightarrow> (unit event_loop \<times> process) outcome" where
  "start sh now now' inputs st =
     bindE (runEvery (sp_timers (snd st)) Server.kTimeoutSec () now now') (\<lambda>(timer, q).
     loop (server_turn sh) (\<lambda>_. Inr) True (\<lambda>n. [inputs n]) (fst st, (snd st)\<lparr>sp_timers := q\<rparr>))"

definition server_port :: u16 where "server_port = 19987"

definition server_main ::
  "shuffle \<Rightarrow> fds \<Rightarrow> (u16 \<Rightarrow> int) \<Rightarrow> timestamp \<Rightarrow> timestamp \<Rightarrow> (nat \<Rightarrow> turn_input) \<Rightarrow> (unit event_loop \<times> process) outcome" where
  "server_main sh d bind now now' inputs =
     bindE (make_server sh d server_port bind) (\<lambda>st. start sh now now' inputs st)"

section \<open>What it does\<close>

text \<open>
  The server behind it all, with the time at which its timer is due next. A tick at the very microsecond stops the program, an
  early one does nothing.
\<close>

definition tick_spec :: "timestamp \<Rightarrow> timestamp \<Rightarrow> server \<times> timestamp \<Rightarrow> (server \<times> timestamp) outcome" where
  "tick_spec now dropped st =
     (if now = snd st then Inl Assert_Fail
      else if snd st < now then Inr (removeTimeoutConn dropped (fst st), addTime now Server.kTimeoutSec)
      else Inr st)"

definition report_spec :: "shuffle \<Rightarrow> fds \<Rightarrow> turn_input \<Rightarrow> int \<times> u32 \<Rightarrow> server \<times> timestamp \<Rightarrow> (server \<times> timestamp) outcome" where
  "report_spec sh d i e st =
     (if \<not> readable (snd e) then Inr st
      else if fst e = timerfd d then tick_spec (tick_time i) (drop_time i) st
      else if fst e = sockfd d then
        bindE (server_step sh (Readable (datagram i) (recv_time i)) (fst st)) (\<lambda>s. Inr (s, snd st))
      else Inr st)"

definition turn_spec :: "shuffle \<Rightarrow> fds \<Rightarrow> turn_input \<Rightarrow> server \<times> timestamp \<Rightarrow> (server \<times> timestamp) outcome" where
  "turn_spec sh d i st = foldE (report_spec sh d i) (take kMaxEvents (ready i)) st"

definition server_spec :: "shuffle \<Rightarrow> fds \<Rightarrow> (nat \<Rightarrow> turn_input) \<Rightarrow> nat \<Rightarrow> server \<times> timestamp \<Rightarrow> (server \<times> timestamp) outcome" where
  "server_spec sh d inputs k st = foldE (\<lambda>n. turn_spec sh d (inputs n)) [0..<k] st"

section \<open>Wiring\<close>

definition fds_ok :: "fds \<Rightarrow> bool" where
  "fds_ok d \<longleftrightarrow> 0 < epollfd d \<and> 0 \<le> timerfd d \<and> 0 \<le> wakeupfd d \<and> 0 \<le> sockfd d \<and> distinct [epollfd d, timerfd d, wakeupfd d, sockfd d]"

definition channel_map :: "fds \<Rightarrow> int \<rightharpoonup> nat" where
  "channel_map d = [timerfd d \<mapsto> 0, wakeupfd d \<mapsto> 1, sockfd d \<mapsto> 2]"

definition reads_with :: "'c epoller \<Rightarrow> nat \<Rightarrow> int \<Rightarrow> 'c \<Rightarrow> bool" where
  "reads_with st p fd c \<longleftrightarrow>
     (\<exists>ch. chans st p = Some ch \<and> ch_fd ch = fd \<and> readCallback ch = Some c \<and> writeCallback ch = None \<and> errorCallback ch = None \<and>
        closeCallback ch = None)"

definition wired :: "fds \<Rightarrow> reader epoller \<Rightarrow> bool" where
  "wired d st \<longleftrightarrow> channels st = channel_map d \<and> reads_with st 0 (timerfd d) Timer_Read \<and>
     reads_with st 1 (wakeupfd d) Wakeup_Read \<and> reads_with st 2 (sockfd d) Socket_Read"

text \<open>The three channels, as the constructors leave them.\<close>

definition wired_poller :: "fds \<Rightarrow> reader epoller" where
  "wired_poller d =
     (let ch = (\<lambda>fd i c. (new_Channel fd)\<lparr>events := 3, ch_index := i, readCallback := Some c\<rparr>) in
      \<lparr>pollfds = [(timerfd d, 3), (wakeupfd d, 3), (sockfd d, 3)], channels = channel_map d,
       chans = [0 \<mapsto> ch (timerfd d) 0 Timer_Read, 1 \<mapsto> ch (wakeupfd d) 1 Wakeup_Read, 2 \<mapsto> ch (sockfd d) 2 Socket_Read],
       ctl_calls = [CTL_ADD (timerfd d) 3, CTL_ADD (wakeupfd d) 3, CTL_ADD (sockfd d) 3]\<rparr>)"

lemma make_server_ok:
  assumes "fds_ok d" and "new_UdpCom (sockfd d) pt bind = Inr u"
  shows "make_server sh d pt bind =
    Inr (\<lparr>looping = False, quit_flag = False, callingPendingFunc = False, pendingFunctors = [], wakeupCount = 0\<rparr>,
      \<lparr>sp_poller = wired_poller d, sp_timers = \<lparr>heap = Map.empty, fresh = 0, timers = [], armed = None\<rparr>,
       sp_server = new_DiretransServer sh u\<rparr>)"
  using assms
  by (simp add: make_server_def make_EventLoop_def make_TimerQueue_def make_UdpCom_def open_channel_def fds_ok_def new_EPoller_def
      new_TimerQueue_def new_EventLoop_def enableReading_def change_events_def updateChannel_def assertInLoopThread_def deref_def Let_def
      new_Channel_def kReadEvent_3 wired_poller_def channel_map_def fun_eq_iff)

lemma wired_poller: "wired d (wired_poller d)"
  by (simp add: wired_def wired_poller_def reads_with_def new_Channel_def Let_def)

section \<open>What poll reports\<close>

definition addr_of :: "fds \<Rightarrow> int \<Rightarrow> nat" where "addr_of d fd = the (channel_map d fd)"

definition reported :: "fds \<Rightarrow> (int \<times> u32) list \<Rightarrow> bool" where
  "reported d evs \<longleftrightarrow> distinct (map fst evs) \<and> (\<forall>fd \<in> fst ` set evs. fd \<in> {timerfd d, wakeupfd d, sockfd d})"

lemma addr_of [simp]:
  assumes "fds_ok d"
  shows "addr_of d (timerfd d) = 0" "addr_of d (wakeupfd d) = 1" "addr_of d (sockfd d) = 2"
    "channel_map d (timerfd d) = Some 0" "channel_map d (wakeupfd d) = Some 1" "channel_map d (sockfd d) = Some 2"
  using assms by (auto simp: addr_of_def channel_map_def fds_ok_def)

definition kind_of :: "fds \<Rightarrow> int \<Rightarrow> reader" where
  "kind_of d fd = (if fd = timerfd d then Timer_Read else if fd = wakeupfd d then Wakeup_Read else Socket_Read)"

definition will_handle :: "fds \<Rightarrow> reader epoller \<Rightarrow> int \<times> u32 \<Rightarrow> bool" where
  "will_handle d st e \<longleftrightarrow> (\<exists>ch. chans st (addr_of d (fst e)) = Some ch \<and> revents ch = snd e \<and>
     readCallback ch = Some (kind_of d (fst e)) \<and> writeCallback ch = None \<and> errorCallback ch = None \<and> closeCallback ch = None)"

lemma wired_report:
  assumes d: "fds_ok d" and w: "wired d st" and fd: "fd \<in> {timerfd d, wakeupfd d, sockfd d}"
  obtains ch where "channels st fd = Some (addr_of d fd)" "chans st (addr_of d fd) = Some ch" "ch_fd ch = fd"
    "wired d (st\<lparr>chans := (chans st)(addr_of d fd \<mapsto> ch\<lparr>revents := r\<rparr>)\<rparr>)"
    "will_handle d (st\<lparr>chans := (chans st)(addr_of d fd \<mapsto> ch\<lparr>revents := r\<rparr>)\<rparr>) (fd, r)"
  using fd w d that by (auto simp: wired_def reads_with_def will_handle_def kind_of_def fds_ok_def)

lemma addr_of_inj: "fds_ok d \<Longrightarrow> fd \<in> {timerfd d, wakeupfd d, sockfd d} \<Longrightarrow> fd' \<in> {timerfd d, wakeupfd d, sockfd d} \<Longrightarrow>
    addr_of d fd = addr_of d fd' \<longleftrightarrow> fd = fd'"
  by (auto simp: fds_ok_def)

lemma poll_wired:
  assumes "fds_ok d" and "wired d st" and "reported d evs"
  shows "\<exists>st'. fillActiveChannels evs st ps = Inr (st', ps @ map (addr_of d \<circ> fst) (filter (\<lambda>e. 0 < snd e) evs)) \<and> wired d st' \<and>
    (\<forall>e \<in> set (filter (\<lambda>e. 0 < snd e) evs). will_handle d st' e) \<and>
    (\<forall>fd \<in> {timerfd d, wakeupfd d, sockfd d}. fd \<notin> fst ` set evs \<longrightarrow> chans st' (addr_of d fd) = chans st (addr_of d fd))"
  using assms(2,3)
proof (induction evs arbitrary: st ps)
  case (Cons e evs)
  obtain fd r where e: "e = (fd, r)" by (cases e)
  have fd: "fd \<in> {timerfd d, wakeupfd d, sockfd d}" "fd \<notin> fst ` set evs" and r: "reported d evs"
    using Cons.prems(2) by (auto simp: reported_def e)
  show ?case
  proof (cases "0 < r")
    case False
    with Cons.IH [OF Cons.prems(1) r, of ps] show ?thesis by (auto simp: e)
  next
    case True
    let ?upd = "\<lambda>ch. st\<lparr>chans := (chans st)(addr_of d fd \<mapsto> ch\<lparr>revents := r\<rparr>)\<rparr>"
    from wired_report [OF assms(1) Cons.prems(1) fd(1), of r] obtain ch where
      ch: "channels st fd = Some (addr_of d fd)" "chans st (addr_of d fd) = Some ch" "ch_fd ch = fd" and
      w: "wired d (?upd ch)" and h: "will_handle d (?upd ch) (fd, r)" .
    let ?st = "?upd ch"
    from Cons.IH [OF w r, of "ps @ [addr_of d fd]"] obtain st' where
      st': "fillActiveChannels evs ?st (ps @ [addr_of d fd]) =
          Inr (st', (ps @ [addr_of d fd]) @ map (addr_of d \<circ> fst) (filter (\<lambda>e. 0 < snd e) evs))" "wired d st'"
        "\<forall>e \<in> set (filter (\<lambda>e. 0 < snd e) evs). will_handle d st' e"
      and rest: "\<And>fd'. fd' \<in> {timerfd d, wakeupfd d, sockfd d} \<Longrightarrow> fd' \<notin> fst ` set evs \<Longrightarrow>
          chans st' (addr_of d fd') = chans ?st (addr_of d fd')" by blast
    have "will_handle d st' (fd, r)" using h rest [OF fd] by (simp add: will_handle_def)
    moreover have "chans st' (addr_of d fd') = chans st (addr_of d fd')"
      if "fd' \<in> {timerfd d, wakeupfd d, sockfd d}" "fd' \<notin> fst ` set (e # evs)" for fd'
      using rest [of fd'] that addr_of_inj [OF assms(1) that(1) fd(1)] by (auto simp: e)
    ultimately show ?thesis using True ch st' by (auto simp: e deref_def)
  qed
qed simp

section \<open>One turn\<close>

definition one_timer :: "unit timer_queue \<Rightarrow> timestamp \<Rightarrow> bool" where
  "one_timer q t \<longleftrightarrow> heap q = [0 \<mapsto> new_Timer () t Server.kTimeoutSec] \<and> timers q = [(t, 0)]"

lemma tick_one:
  assumes "one_timer q t"
  shows "case Timer_Queue.handleRead (\<lambda>_ (q, s). Inr (q, removeTimeoutConn dropped s)) now now' (q, s) of
      Inl x \<Rightarrow> tick_spec now dropped (s, t) = Inl x
    | Inr (q', s') \<Rightarrow> \<exists>t'. one_timer q' t' \<and> tick_spec now dropped (s, t) = Inr (s', t')"
  using assms
  by (cases now t rule: linorder_cases)
    (auto simp: one_timer_def Timer_Queue.handleRead_def getExpired_def tick_spec_def new_Timer_def reset_def insert_timer_def restart_def
      resetTimerfd_def Server.kTimeoutSec_def Let_def)

definition runs_as :: "fds \<Rightarrow> reader epoller \<Rightarrow> unit event_loop \<times> process \<Rightarrow> server \<times> timestamp \<Rightarrow> bool" where
  "runs_as d ep st u \<longleftrightarrow> \<not> quit_flag (fst st) \<and> pendingFunctors (fst st) = [] \<and> sp_poller (snd st) = ep \<and>
     one_timer (sp_timers (snd st)) (snd u) \<and> sp_server (snd st) = fst u"

lemma reader_in_step:
  assumes d: "fds_ok d" and e: "fst e \<in> {timerfd d, wakeupfd d, sockfd d}"
    and u: "runs_as d ep st u" and h: "will_handle d ep e"
  shows "in_step (runs_as d ep) (handle_active (run_reader sh i) (addr_of d (fst e)) st) (report_spec sh d i e u)"
proof -
  obtain l pr s t where st: "st = (l, pr)" "u = (s, t)" by (cases st; cases u) auto
  have pr: "\<not> quit_flag l" "pendingFunctors l = []" "sp_poller pr = ep" "one_timer (sp_timers pr) t" "sp_server pr = s"
    using u by (simp_all add: runs_as_def st)
  obtain ch where ch: "chans ep (addr_of d (fst e)) = Some ch" "revents ch = snd e"
    "readCallback ch = Some (kind_of d (fst e))" "writeCallback ch = None" "errorCallback ch = None" "closeCallback ch = None"
    using h by (auto simp: will_handle_def)
  have run: "handle_active (run_reader sh i) (addr_of d (fst e)) st = (if readable (snd e) then run_reader sh i (kind_of d (fst e)) st else Inr st)"
    by (simp add: handle_active_def deref_def st pr(3) ch(1,2) handleEvent_read [OF ch(3-6)])
  note tick = tick_one [OF pr(4), where dropped = "drop_time i" and now = "tick_time i" and now' = "arm_time i" and s = s]
  show ?thesis
  proof (cases "kind_of d (fst e)")
    case Timer_Read
    then have "fst e = timerfd d" by (auto simp: kind_of_def split: if_splits)
    moreover have "in_step (runs_as d ep) (run_reader sh i Timer_Read st) (tick_spec (tick_time i) (drop_time i) u)"
      using tick pr by (auto simp: st run_reader_def runs_as_def in_step_def outcome_simps split: sum.splits prod.splits)
    ultimately show ?thesis unfolding run Timer_Read using u by (simp add: report_spec_def)
  next
    case Wakeup_Read
    then have "fst e = wakeupfd d" "fst e \<noteq> timerfd d" "fst e \<noteq> sockfd d" using d by (auto simp: kind_of_def fds_ok_def split: if_splits)
    then show ?thesis unfolding run Wakeup_Read using pr
      by (simp add: st run_reader_def report_spec_def runs_as_def Event_Loop.handleRead_def)
  next
    case Socket_Read
    then have "fst e \<noteq> timerfd d" "fst e = sockfd d" using e by (auto simp: kind_of_def split: if_splits)
    then show ?thesis unfolding run Socket_Read using pr
      by (cases "server_step sh (Readable (datagram i) (recv_time i)) s")
        (simp_all add: st run_reader_def report_spec_def runs_as_def del: server_step.simps)
  qed
qed

lemma readers_in_step:
  assumes "fds_ok d" and "\<forall>e \<in> set evs. fst e \<in> {timerfd d, wakeupfd d, sockfd d}" and "runs_as d ep st u"
    and "\<forall>e \<in> set (filter (\<lambda>e. 0 < snd e) evs). will_handle d ep e"
  shows "in_step (runs_as d ep) (foldE (handle_active (run_reader sh i)) (map (addr_of d \<circ> fst) (filter (\<lambda>e. 0 < snd e) evs)) st)
    (foldE (report_spec sh d i) evs u)"
  using assms(2-4)
proof (induction evs arbitrary: st u)
  case (Cons e evs)
  show ?case
  proof (cases "0 < snd e")
    case True
    then have "in_step (runs_as d ep) (handle_active (run_reader sh i) (addr_of d (fst e)) st) (report_spec sh d i e u)"
      using Cons.prems by (intro reader_in_step [OF assms(1)]) simp_all
    with True Cons show ?thesis by (auto intro!: in_step_bind)
  next
    case False
    then have "snd e = 0" by (simp add: word_gt_0)
    then have "report_spec sh d i e u = Inr u" by (simp add: report_spec_def readable_def)
    with False Cons show ?thesis by simp
  qed
qed simp

definition runs :: "fds \<Rightarrow> unit event_loop \<times> process \<Rightarrow> server \<times> timestamp \<Rightarrow> bool" where
  "runs d st u \<longleftrightarrow> runs_as d (sp_poller (snd st)) st u \<and> wired d (sp_poller (snd st))"

lemma turn_in_step:
  assumes d: "fds_ok d" and u: "runs d st u" and i: "reported d (take kMaxEvents (ready i))"
  shows "in_step (runs d) (loop_turn (server_turn sh) (\<lambda>_. Inr) [i] st) (turn_spec sh d i u)"
proof -
  let ?evs = "take kMaxEvents (ready i)"
  obtain l pr where st: "st = (l, pr)" by (cases st)
  have w: "wired d (sp_poller pr)" and r: "runs_as d (sp_poller pr) (l, pr) u" using u by (simp_all add: runs_def st)
  from poll_wired [OF d w i, of "[]"] obtain ep where
    ep: "poll (ready i) (sp_poller pr) = Inr (ep, map (addr_of d \<circ> fst) (filter (\<lambda>e. 0 < snd e) ?evs))" "wired d ep"
      "\<forall>e \<in> set (filter (\<lambda>e. 0 < snd e) ?evs). will_handle d ep e" by (auto simp: poll_def)
  have "runs_as d ep (l, pr\<lparr>sp_poller := ep\<rparr>) u" using r by (simp add: runs_as_def)
  then have "in_step (runs_as d ep) (server_turn sh i st) (turn_spec sh d i u)"
    using readers_in_step [OF d _ _ ep(3), of "(l, pr\<lparr>sp_poller := ep\<rparr>)" u sh i] i
    by (auto simp: poll_and_handle_def st ep(1) turn_spec_def reported_def)
  then show ?thesis
    using ep(2) by (cases "server_turn sh i st") (auto simp: loop_turn_def runs_as_def runs_def)
qed

lemma turns_in_step:
  assumes d: "fds_ok d" and i: "\<And>n. reported d (take kMaxEvents (ready (inputs n)))" and u: "runs d st u"
  shows "in_step (runs d) (turns (server_turn sh) (\<lambda>_. Inr) (\<lambda>n. [inputs n]) m k st)
    (foldE (\<lambda>n. turn_spec sh d (inputs n)) [m..<m + k] u)"
  using u
proof (induction k arbitrary: m st u)
  case (Suc k)
  have "[m..<m + Suc k] = m # [Suc m..<Suc m + k]" by (simp add: upt_conv_Cons del: upt_Suc)
  moreover have "in_step (runs d)
      (bindE (loop_turn (server_turn sh) (\<lambda>_. Inr) [inputs m] st) (turns (server_turn sh) (\<lambda>_. Inr) (\<lambda>n. [inputs n]) (Suc m) k))
      (bindE (turn_spec sh d (inputs m) u) (foldE (\<lambda>n. turn_spec sh d (inputs n)) [Suc m..<Suc m + k]))"
    by (rule in_step_bind [OF turn_in_step [OF d Suc.prems i]]) (rule Suc.IH)
  ultimately show ?case by (simp only: turns.simps foldE.simps)
qed simp

section \<open>The process\<close>

text \<open>The first turn that faults, if there is one, ends the program; otherwise the loop never ends, because nobody calls \<open>quit\<close>.\<close>

lemma server_loop:
  assumes "fds_ok d" and "\<And>n. reported d (take kMaxEvents (ready (inputs n)))" and "runs d st u"
  shows "server_spec sh d inputs k u = Inl f \<Longrightarrow>
      loop_while (server_turn sh) (\<lambda>_. Inr) (\<lambda>n. [inputs n]) 0 st = Some (Inl f)"
    and "\<forall>k. \<exists>t. server_spec sh d inputs k u = Inr t \<Longrightarrow>
      loop_while (server_turn sh) (\<lambda>_. Inr) (\<lambda>n. [inputs n]) 0 st = None"
proof -
  let ?t = "\<lambda>k. turns (server_turn sh) (\<lambda>_. Inr) (\<lambda>n. [inputs n]) 0 k st"
  have eq: "in_step (runs d) (?t k) (server_spec sh d inputs k u)" for k
    using turns_in_step [OF assms(1,2,3), where sh = sh and m = 0 and k = k] by (simp add: server_spec_def)
  have inl: "?t k = Inl f \<longleftrightarrow> server_spec sh d inputs k u = Inl f" for k f
    using eq [of k] by (cases "?t k") auto
  have nq: "\<not> quit_flag (fst a)" if "?t k = Inr a" for k a
    using eq [of k] that by (auto simp: runs_def runs_as_def)
  note lp = loop_without_quit [where handle = "server_turn sh" and run = "\<lambda>_. Inr" and polls = "\<lambda>n. [inputs n]" and n = 0 and st = st, OF nq]
  show "loop_while (server_turn sh) (\<lambda>_. Inr) (\<lambda>n. [inputs n]) 0 st = Some (Inl f)"
    if "server_spec sh d inputs k u = Inl f" using that by (intro lp(1)) (simp_all only: inl)
  show "loop_while (server_turn sh) (\<lambda>_. Inr) (\<lambda>n. [inputs n]) 0 st = None"
    if u: "\<forall>k. \<exists>t. server_spec sh d inputs k u = Inr t"
  proof (intro lp(2) allI)
    show "\<exists>a. ?t k = Inr a" for k using inl [of k] u by (cases "?t k") (simp, metis Inr_not_Inl, simp)
  qed
qed

lemma started:
  assumes "fds_ok d" and "new_UdpCom (sockfd d) server_port bind = Inr u"
  shows "\<exists>st. runs d st (new_DiretransServer sh u, addTime now Server.kTimeoutSec) \<and>
    server_main sh d bind now now' inputs =
      (case loop_while (server_turn sh) (\<lambda>_. Inr) (\<lambda>n. [inputs n]) 0 st of
         None \<Rightarrow> Inl Diverge
       | Some r \<Rightarrow> bindE r (\<lambda>(l, s). Inr (l\<lparr>looping := False\<rparr>, s)))"
proof -
  let ?l = "\<lparr>looping = True, quit_flag = False, callingPendingFunc = False, pendingFunctors = [], wakeupCount = 0\<rparr> :: unit event_loop"
  let ?t = "addTime now Server.kTimeoutSec"
  let ?q = "\<lparr>heap = [0 \<mapsto> new_Timer () ?t Server.kTimeoutSec], fresh = 1, timers = [(?t, 0)], armed = Some (howMuchTimeFromNow ?t now')\<rparr>"
  let ?st = "(?l, \<lparr>sp_poller = wired_poller d, sp_timers = ?q, sp_server = new_DiretransServer sh u\<rparr>)"
  have "runs d ?st (new_DiretransServer sh u, ?t)"
    using wired_poller [of d] by (simp add: runs_def runs_as_def one_timer_def)
  moreover have "server_main sh d bind now now' inputs =
      (case loop_while (server_turn sh) (\<lambda>_. Inr) (\<lambda>n. [inputs n]) 0 ?st of
         None \<Rightarrow> Inl Diverge
       | Some r \<Rightarrow> bindE r (\<lambda>(l, s). Inr (l\<lparr>looping := False\<rparr>, s)))"
    by (simp add: server_main_def make_server_ok [OF assms] start_def runEvery_def addTimer_def addTimerInLoop_def insert_timer_def
        new_Timer_def resetTimerfd_def loop_def assertInLoopThread_def Let_def)
  ultimately show ?thesis by blast
qed

lemma server_process:
  assumes "fds_ok d" and "new_UdpCom (sockfd d) server_port bind = Inr u" and "\<And>n. reported d (take kMaxEvents (ready (inputs n)))"
  shows "(\<exists>k f. server_spec sh d inputs k (new_DiretransServer sh u, addTime now Server.kTimeoutSec) = Inl f \<and>
      server_main sh d bind now now' inputs = Inl f) \<or>
    (\<forall>k. \<exists>t. server_spec sh d inputs k (new_DiretransServer sh u, addTime now Server.kTimeoutSec) = Inr t) \<and>
      server_main sh d bind now now' inputs = Inl Diverge"
proof -
  let ?u = "(new_DiretransServer sh u, addTime now Server.kTimeoutSec)"
  from started [OF assms(1,2), of sh now now' inputs] obtain st where st: "runs d st ?u"
    "server_main sh d bind now now' inputs = (case loop_while (server_turn sh) (\<lambda>_. Inr) (\<lambda>n. [inputs n]) 0 st of
         None \<Rightarrow> Inl Diverge | Some r \<Rightarrow> bindE r (\<lambda>(l, s). Inr (l\<lparr>looping := False\<rparr>, s)))" by blast
  show ?thesis
  proof (cases "\<exists>k f. server_spec sh d inputs k ?u = Inl f")
    case True
    then show ?thesis using server_loop(1) [OF assms(1,3) st(1)] st(2) by fastforce
  next
    case False
    then have "\<forall>k. \<exists>t. server_spec sh d inputs k ?u = Inr t" by (metis sum.exhaust)
    with server_loop(2) [OF assms(1,3) st(1)] st(2) show ?thesis by simp
  qed
qed

end
