(* ===== verification/Process_Properties.thy ===== *)
theory Process_Properties
  imports Server_Process
begin

text \<open>The properties of the server as a process: what it does from \<open>main\<close> on, and what ends it.\<close>

section \<open>What ends it\<close>

text \<open>Without a free code the search for one runs for ever; nothing else than this and the fatal datagrams stops a handler.\<close>

lemma assign_code_stops:
  assumes "is_shuffle sh" and "server_inv s" and "bound (conn s)" and "codesMap s a = None"
    and "assign_code sh (s\<lparr>shareFileNum := (shareFileNum s)(getSockaddrIp a \<mapsto> n)\<rparr>) fd a = Inl f"
  shows "f = Diverge"
proof (cases "find_code sh (fileDatas s) (shareCodes s)")
  case (Some r)
  have rc: "rc_inv (shareCodes s)" using assms(2) by (simp add: server_inv_def)
  obtain c rc where "r = Inr (c, rc)" using Some find_code_no_fault [OF _ assms(1) rc] by (cases r) auto
  with assign_code_found [of sh s, OF _ assms(3,4)] assms(5) Some show ?thesis by simp
qed (use assms(5) in \<open>simp add: assign_code_def\<close>)

lemma handleMessage_stops:
  assumes sh: "is_shuffle sh" and s: "server_ok s" and space: "req_space buf" and a: "wf_sockaddr a" and ok: "\<not> fatal_request buf"
    and stop: "handleMessage sh s buf a time = Inl f"
  shows "f = Diverge"
proof -
  let ?s = "s\<lparr>activeTimes := om_put a time (activeTimes s)\<rparr>"
  have s1: "server_inv ?s" "bound (conn ?s)" "data_ok ?s"
    using s by (auto simp: server_ok_def touch_inv) (simp add: server_inv_def data_ok_def)
  have "sign (req_header buf) = kServerSign" "\<not> readableBytes buf < sizeof_Header"
    using stop space by (auto simp: handleMessage_cases [OF _ refl] split: if_splits)
  moreover have strict: "sizeof_Header < readableBytes buf"
    if "mtype (req_header buf) = type_code SHARE_FILE \<or> mtype (req_header buf) = type_code GET_FILE"
    using that ok calculation by (auto simp: fatal_request_def)
  moreover have "f = Diverge" if "handleShareFile sh ?s buf a = Inl f" "mtype (req_header buf) = type_code SHARE_FILE"
    using that assign_code_stops [OF sh s1(1,2), of a]
    by (auto simp: handleShareFile_eq [OF s1(1,2) space strict _ refl refl] over_limit_def split: if_splits)
  ultimately show ?thesis
    using stop space s1(2) handleGetFile_result [OF s1(2,3) space strict a]
    by (auto simp: handleMessage_cases [OF _ refl] handleHello_ok type_of_eq split: option.splits MessageType.splits)
qed

lemma server_step_stops:
  assumes sh: "is_shuffle sh" and s: "full_inv s" and e: "wf_event e" and stop: "server_step sh e s = Inl f"
  shows "f = Diverge \<or> f = Assert_Fail \<and> fatal_event e"
proof (cases "fatal_event e")
  case True
  with server_step_fatal [OF s e, of sh] stop show ?thesis by simp
next
  case False
  from stop obtain r now where r: "e = Readable r now" by (cases e) auto
  with s e have u: "udp_inv (conn s)" "wf_event (Readable r now)" "server_ok s" by (auto simp: full_inv_def)
  have "\<not> fatal_request (fst (seen (conn s) r))" using seen_fatal [OF u(1,2)] False r by simp
  moreover have "handleMessage sh s (fst (seen (conn s) r)) (snd (seen (conn s) r)) now = Inl f"
    using stop unfolding r server_step_Readable [OF u(1,2)] by (auto simp: outcome_simps)
  ultimately show ?thesis using handleMessage_stops [OF sh u(3) seen_space [OF u(1,2)] seen_wf [OF u(2)]] by blast
qed

definition fatal_turn :: "fds \<Rightarrow> turn_input \<Rightarrow> timestamp \<Rightarrow> bool" where
  "fatal_turn d i t \<longleftrightarrow> timerfd d \<in> fst ` set (ready i) \<and> tick_time i = t \<or>
     sockfd d \<in> fst ` set (ready i) \<and> fatal_event (Readable (datagram i) (recv_time i))"

lemma report_keeps:
  assumes sh: "is_shuffle sh" and s: "full_inv (fst st)" and e: "wf_event (Readable (datagram i) (recv_time i))"
  shows "report_spec sh d i x st = Inr st' \<Longrightarrow> full_inv (fst st')"
    and "report_spec sh d i x st = Inr st' \<Longrightarrow> fst x \<noteq> timerfd d \<Longrightarrow> snd st' = snd st"
    and "report_spec sh d i x st = Inl f \<Longrightarrow> f = Diverge \<or> f = Assert_Fail \<and>
      (fst x = timerfd d \<and> tick_time i = snd st \<or> fst x = sockfd d \<and> fatal_event (Readable (datagram i) (recv_time i)))"
proof -
  show "full_inv (fst st')" if "report_spec sh d i x st = Inr st'"
    using that s server_step_inv [OF sh s e] server_step_inv [OF sh s, of "Timer (drop_time i)"]
    by (auto simp: report_spec_def tick_spec_def wf_event_def outcome_simps split: if_splits simp del: server_step.simps(1))
  show "snd st' = snd st" if "report_spec sh d i x st = Inr st'" "fst x \<noteq> timerfd d"
    using that by (auto simp: report_spec_def outcome_simps split: if_splits simp del: server_step.simps(1))
  show "f = Diverge \<or> f = Assert_Fail \<and>
      (fst x = timerfd d \<and> tick_time i = snd st \<or> fst x = sockfd d \<and> fatal_event (Readable (datagram i) (recv_time i)))"
    if "report_spec sh d i x st = Inl f"
    using that server_step_stops [OF sh s e]
    by (auto simp: report_spec_def tick_spec_def outcome_simps split: if_splits simp del: server_step.simps(1))
qed

lemma turn_stops:
  assumes sh: "is_shuffle sh" and e: "wf_event (Readable (datagram i) (recv_time i))"
    and "full_inv (fst st)" and "set evs \<subseteq> set (ready i)" and "distinct (map fst evs)" and "timerfd d \<in> fst ` set evs \<longrightarrow> snd st = t"
  shows "case foldE (report_spec sh d i) evs st of
      Inl f \<Rightarrow> f = Diverge \<or> f = Assert_Fail \<and> fatal_turn d i t
    | Inr st' \<Rightarrow> full_inv (fst st')"
  using assms(3-6)
proof (induction evs arbitrary: st)
  case (Cons x evs)
  note keeps = report_keeps [OF sh Cons.prems(1) e, where x = x and d = d]
  show ?case
  proof (cases "report_spec sh d i x st")
    case (Inl f)
    obtain fd r where x: "x = (fd, r)" by (cases x)
    have "(fd, r) \<in> set (ready i)" "fd = timerfd d \<Longrightarrow> snd st = t" using Cons.prems(2,4) by (auto simp: x)
    with keeps(3) [OF Inl] Inl show ?thesis unfolding fatal_turn_def by (force simp: x)
  next
    case (Inr st')
    have "timerfd d \<in> fst ` set evs \<longrightarrow> snd st' = t"
    proof
      assume t: "timerfd d \<in> fst ` set evs"
      have "fst x \<notin> fst ` set evs" using Cons.prems(3) by simp
      with t have "fst x \<noteq> timerfd d" by metis
      with keeps(2) [OF Inr] t Cons.prems(4) show "snd st' = t" by simp
    qed
    then show ?thesis using Cons.IH [of st'] keeps(1) [OF Inr] Cons.prems(2,3) Inr by simp
  qed
qed simp

lemma spec_stops:
  assumes sh: "is_shuffle sh" and e: "\<And>n. wf_event (Readable (datagram (inputs n)) (recv_time (inputs n)))"
    and s: "full_inv (fst u)" and r: "\<And>n. reported d (take kMaxEvents (ready (inputs n)))"
  shows "case server_spec sh d inputs k u of
      Inl f \<Rightarrow> f = Diverge \<or> f = Assert_Fail \<and> (\<exists>n st. server_spec sh d inputs n u = Inr st \<and> fatal_turn d (inputs n) (snd st))
    | Inr st \<Rightarrow> full_inv (fst st)"
proof (induction k)
  case 0
  then show ?case using s by (simp add: server_spec_def)
next
  case (Suc k)
  have step: "server_spec sh d inputs (Suc k) u = bindE (server_spec sh d inputs k u) (turn_spec sh d (inputs k))"
    by (simp add: server_spec_def foldE_snoc)
  show ?case
  proof (cases "server_spec sh d inputs k u")
    case (Inl f)
    with Suc step show ?thesis by simp
  next
    case (Inr st)
    have "full_inv (fst st)" using Suc Inr by simp
    moreover have "set (take kMaxEvents (ready (inputs k))) \<subseteq> set (ready (inputs k))" by (rule set_take_subset)
    moreover have "distinct (map fst (take kMaxEvents (ready (inputs k))))" using r [of k] by (simp add: reported_def)
    ultimately show ?thesis
      using turn_stops [OF sh e [of k], of st "take kMaxEvents (ready (inputs k))" d "snd st"] Inr
      unfolding step by (cases st) (auto simp: turn_spec_def split: sum.splits)
  qed
qed

text \<open>
  C14. The server program from \<open>main\<close> on is the registry and its timer: constructors, event loop, poller, channels, timer queue and
  socket together do nothing but run \<open>handleMessage\<close> for each report of the socket and \<open>removeTimeoutConn\<close> for each tick that is due.
  The program ends with the first fault of these, and if there is none it runs for ever.
\<close>

theorem server_main_refines:
  assumes "fds_ok d" and "new_UdpCom (sockfd d) server_port bind = Inr u" and "\<And>n. reported d (take kMaxEvents (ready (inputs n)))"
  shows "(\<exists>k f. server_spec sh d inputs k (new_DiretransServer sh u, addTime now Server.kTimeoutSec) = Inl f \<and>
      server_main sh d bind now now' inputs = Inl f) \<or>
    (\<forall>k. \<exists>t. server_spec sh d inputs k (new_DiretransServer sh u, addTime now Server.kTimeoutSec) = Inr t) \<and>
      server_main sh d bind now now' inputs = Inl Diverge"
  using assms by (rule server_process)

text \<open>
  C13. The server never returns. Whatever arrives, its process ends, if it does, by a failed assertion, in a turn with a
  four-byte share or get request or with a tick at exactly the microsecond its timer was set for; for the rest it runs, or
  searches for a code when there is none, for ever.
\<close>

theorem server_keeps_running:
  assumes "is_shuffle sh" and "fds_ok d" and "0 \<le> bind server_port"
    and "\<And>n. reported d (take kMaxEvents (ready (inputs n)))"
    and "\<And>n. wf_event (Readable (datagram (inputs n)) (recv_time (inputs n)))"
  shows "\<exists>u. new_UdpCom (sockfd d) server_port bind = Inr u \<and>
    (server_main sh d bind now now' inputs = Inl Diverge \<or>
     server_main sh d bind now now' inputs = Inl Assert_Fail \<and>
       (\<exists>n st. server_spec sh d inputs n (new_DiretransServer sh u, addTime now Server.kTimeoutSec) = Inr st \<and>
          fatal_turn d (inputs n) (snd st)))"
proof -
  obtain u where u: "new_UdpCom (sockfd d) server_port bind = Inr u" "udp_inv u" "bound u"
    using new_UdpCom_ok [of "sockfd d" server_port bind] assms(2,3) by (auto simp: fds_ok_def)
  have s: "full_inv (fst (new_DiretransServer sh u, addTime now Server.kTimeoutSec))"
    using new_server_full_inv [OF assms(1) u(2,3)] by simp
  note stops = spec_stops [where inputs = inputs, OF assms(1,5) s assms(4)]
  from server_process [OF assms(2) u(1), where sh = sh and now = now and now' = now' and inputs = inputs, OF assms(4)] show ?thesis
  proof (elim disjE exE conjE)
    fix k f
    assume "server_spec sh d inputs k (new_DiretransServer sh u, addTime now Server.kTimeoutSec) = Inl f"
      and "server_main sh d bind now now' inputs = Inl f"
    with stops [of k] u(1) show ?thesis by auto
  qed (use u(1) in simp)
qed

section \<open>Instances\<close>

text \<open>A process whose socket gets one datagram in its first turn, and whose poll reports nothing afterwards.\<close>

definition demo_fds :: fds where "demo_fds = \<lparr>epollfd = 3, timerfd = 4, wakeupfd = 5, sockfd = 6\<rparr>"

definition quiet_turn :: turn_input where
  "quiet_turn = \<lparr>ready = [], datagram = Recv_Error, recv_time = 0, tick_time = 0, drop_time = 0, arm_time = 0\<rparr>"

definition one_datagram :: "bytes \<Rightarrow> nat \<Rightarrow> turn_input" where
  "one_datagram d n = (if n = 0 then quiet_turn\<lparr>ready := [(6, 1)], datagram := Recv d peer_b, recv_time := 1\<rparr> else quiet_turn)"

lemma demo_process:
  "fds_ok demo_fds" "reported demo_fds (take kMaxEvents (ready (one_datagram d n)))"
  "length d \<le> kBufferSize \<Longrightarrow> wf_event (Readable (datagram (one_datagram d n)) (recv_time (one_datagram d n)))"
  by (simp_all add: fds_ok_def demo_fds_def reported_def one_datagram_def quiet_turn_def kMaxEvents_def wf_event_def)

theorem server_main_refines_witness:
  "\<exists>u. new_UdpCom 6 server_port (\<lambda>p. 0) = Inr u \<and>
    ((\<exists>k f. server_spec same_order demo_fds (one_datagram [0xCC, 1, 0, 0]) k (new_DiretransServer same_order u, addTime 1 Server.kTimeoutSec) = Inl f) \<or>
     server_main same_order demo_fds (\<lambda>p. 0) 1 1 (one_datagram [0xCC, 1, 0, 0]) = Inl Diverge)"
proof -
  obtain u where u: "new_UdpCom (sockfd demo_fds) server_port (\<lambda>p. 0) = Inr u"
    using new_UdpCom_ok [of 6 server_port "\<lambda>p. 0"] by (auto simp: demo_fds_def)
  from server_main_refines [where inputs = "one_datagram [0xCC, 1, 0, 0]", OF demo_process(1) u demo_process(2),
      where sh = same_order and now = 1 and now' = 1] u
  show ?thesis by (auto simp: demo_fds_def)
qed

theorem server_keeps_running_witness:
  "server_main same_order demo_fds (\<lambda>p. 0) 1 1 (one_datagram [0xCC, 1, 0, 0]) \<in> {Inl Diverge, Inl Assert_Fail}"
  using server_keeps_running [where inputs = "one_datagram [0xCC, 1, 0, 0]" and bind = "\<lambda>p. 0" and now = 1 and now' = 1,
      OF same_order_shuffle demo_process(1) _ demo_process(2,3)]
  by (auto simp: kBufferSize_def)

end
