(* ===== verification/Thread_Pool.thy ===== *)
theory Thread_Pool
  imports Prelude "HOL-Library.Multiset"
begin

text \<open>
  \<open>netlib/ThreadPool.cpp\<close> and \<open>netlib/Mutexlock.h\<close>. The pool's threads, the threads that add tasks and the
  destructor interleave; each action here is one atomic step of one of them, an operation under
  the mutex being one step together with the test of \<open>running_\<close> in front of it, and \<open>None\<close> means that
  the action cannot happen now. A task is data (type \<open>'f\<close>); \<open>added\<close> and \<open>finished\<close> record the tasks in the
  order they were added and completed.
\<close>

section \<open>State\<close>

text \<open>
  Where a thread of the pool stands: before the test of \<open>running_\<close>, before taking the lock, in
  \<open>cond_.wait\<close>, notified, holding the lock at the inner loop, running a task without the lock, before
  taking the lock again, at its end.
\<close>

datatype 'f pc = At_While | Locking | Waiting | Woken | Draining | Busy 'f | Relocking | Exited

text \<open>The destructor: not begun, before the notification of the i-th join, in it, done.\<close>

datatype dtor = Alive | Notifying nat | Joining nat | Gone

record 'f pool =
  running :: bool
  tasks :: "'f list"
  threads :: "'f pc list"
  dtor_pc :: dtor
  added :: "'f list"
  finished :: "'f list"

definition new_ThreadPool :: "nat \<Rightarrow> 'f pool" where
  "new_ThreadPool poolSize = \<lparr>running = True, tasks = [], threads = replicate poolSize At_While,
     dtor_pc = Alive, added = [], finished = []\<rparr>"

definition lock_free :: "'f pool \<Rightarrow> bool" where
  "lock_free w \<longleftrightarrow> Draining \<notin> set (threads w)"

definition move :: "nat \<Rightarrow> 'f pc \<Rightarrow> 'f pool \<Rightarrow> 'f pool" where
  "move i pc w = w\<lparr>threads := (threads w)[i := pc]\<rparr>"

section \<open>Actions\<close>

text \<open>One step of the i-th thread; \<open>cond_.wait\<close> gives the lock back and waits in one step.\<close>

definition threadFunc :: "nat \<Rightarrow> 'f pool \<Rightarrow> 'f pool option" where
  "threadFunc i w =
     (if length (threads w) \<le> i then None
      else case threads w ! i of
        At_While \<Rightarrow> Some (move i (if running w then Locking else Exited) w)
      | Locking \<Rightarrow> if lock_free w then Some (move i Waiting w) else None
      | Waiting \<Rightarrow> None
      | Woken \<Rightarrow> if lock_free w then Some (move i Draining w) else None
      | Draining \<Rightarrow>
          (case tasks w of
             [] \<Rightarrow> Some (move i At_While w)
           | fc # rest \<Rightarrow> Some (move i (Busy fc) (w\<lparr>tasks := rest\<rparr>)))
      | Busy fc \<Rightarrow> Some (move i Relocking (w\<lparr>finished := finished w @ [fc]\<rparr>))
      | Relocking \<Rightarrow> if lock_free w then Some (move i Draining w) else None
      | Exited \<Rightarrow> None)"

text \<open>\<open>notify_one\<close> wakes a waiting thread, if there is one: \<open>j\<close> is the system's choice.\<close>

definition notify_one :: "nat \<Rightarrow> 'f pool \<Rightarrow> 'f pool option" where
  "notify_one j w =
     (if Waiting \<notin> set (threads w) then Some w
      else if j < length (threads w) \<and> threads w ! j = Waiting then Some (move j Woken w)
      else None)"

definition notify_all :: "'f pool \<Rightarrow> 'f pool" where
  "notify_all w = w\<lparr>threads := map (\<lambda>pc. if pc = Waiting then Woken else pc) (threads w)\<rparr>"

definition addTask :: "'f \<Rightarrow> nat \<Rightarrow> 'f pool \<Rightarrow> 'f pool option" where
  "addTask f j w =
     (if \<not> running w then Some w
      else if lock_free w then notify_one j (w\<lparr>tasks := tasks w @ [f], added := added w @ [f]\<rparr>)
      else None)"

definition addUrgentTask :: "'f \<Rightarrow> nat \<Rightarrow> 'f pool \<Rightarrow> 'f pool option" where
  "addUrgentTask f j w =
     (if \<not> running w then Some w
      else if lock_free w then notify_one j (w\<lparr>tasks := f # tasks w, added := added w @ [f]\<rparr>)
      else None)"

definition poolJoin :: "nat \<Rightarrow> 'f pool \<Rightarrow> 'f pool option" where
  "poolJoin i w =
     (if i < length (threads w) then
        (if threads w ! i = Exited then Some (w\<lparr>dtor_pc := Notifying (Suc i)\<rparr>) else None)
      else None)"

definition destroy_ThreadPool :: "'f pool \<Rightarrow> 'f pool option" where
  "destroy_ThreadPool w =
     (case dtor_pc w of
        Alive \<Rightarrow> Some (notify_all (w\<lparr>running := False, dtor_pc := Notifying 0\<rparr>))
      | Notifying i \<Rightarrow>
          if i < length (threads w) then Some (notify_all (w\<lparr>dtor_pc := Joining i\<rparr>)) else Some (w\<lparr>dtor_pc := Gone\<rparr>)
      | Joining i \<Rightarrow> poolJoin i w
      | Gone \<Rightarrow> None)"

text \<open>Waiting on a condition variable may also end without a notification.\<close>

datatype 'f pool_action = Step nat | Add 'f nat | Add_Urgent 'f nat | Destroy | Spurious nat

fun pool_act :: "'f pool_action \<Rightarrow> 'f pool \<Rightarrow> 'f pool option" where
  "pool_act (Step i) w = threadFunc i w"
| "pool_act (Add f j) w = addTask f j w"
| "pool_act (Add_Urgent f j) w = addUrgentTask f j w"
| "pool_act Destroy w = destroy_ThreadPool w"
| "pool_act (Spurious i) w =
     (if i < length (threads w) \<and> threads w ! i = Waiting then Some (move i Woken w) else None)"

inductive pool_step :: "'f pool \<Rightarrow> 'f pool \<Rightarrow> bool" where
  acts: "pool_act a w = Some w' \<Longrightarrow> pool_step w w'"

section \<open>Invariant\<close>

definition busy_tasks :: "'f pool \<Rightarrow> 'f multiset" where
  "busy_tasks w = (\<Sum>pc \<in># mset (threads w). case pc of Busy f \<Rightarrow> {#f#} | _ \<Rightarrow> {#})"

definition pool_inv :: "'f pool \<Rightarrow> bool" where
  "pool_inv w \<longleftrightarrow> mset (added w) = mset (tasks w) + busy_tasks w + mset (finished w) \<and>
     count (mset (threads w)) Draining \<le> 1"

definition task_of :: "'f pc \<Rightarrow> 'f multiset" where
  "task_of pc = (case pc of Busy f \<Rightarrow> {#f#} | _ \<Rightarrow> {#})"

lemma busy_move:
  assumes "i < length (threads w)"
  shows "busy_tasks (move i pc w) + task_of (threads w ! i) = busy_tasks w + task_of pc"
proof -
  have "mset ((threads w)[i := pc]) + {#threads w ! i#} = mset (threads w) + {#pc#}"
    using assms by (simp add: mset_update)
  then have "(\<Sum>x \<in># mset ((threads w)[i := pc]) + {#threads w ! i#}. task_of x) = (\<Sum>x \<in># mset (threads w) + {#pc#}. task_of x)"
    by simp
  then show ?thesis by (simp add: busy_tasks_def move_def task_of_def add.commute)
qed

lemma draining_move:
  assumes "i < length (threads w)"
  shows "count (mset (threads (move i pc w))) Draining + (if threads w ! i = Draining then 1 else 0) =
    count (mset (threads w)) Draining + (if pc = Draining then 1 else 0)"
proof -
  have "mset ((threads w)[i := pc]) + {#threads w ! i#} = mset (threads w) + {#pc#}"
    using assms by (simp add: mset_update)
  then have "count (mset ((threads w)[i := pc]) + {#threads w ! i#}) Draining = count (mset (threads w) + {#pc#}) Draining"
    by simp
  then show ?thesis by (simp add: move_def split: if_splits)
qed

lemma move_sel [simp]:
  "running (move i pc w) = running w" "tasks (move i pc w) = tasks w" "added (move i pc w) = added w"
  "finished (move i pc w) = finished w" "dtor_pc (move i pc w) = dtor_pc w" "length (threads (move i pc w)) = length (threads w)"
  by (simp_all add: move_def)

lemma lock_free_count: "lock_free w \<longleftrightarrow> count (mset (threads w)) Draining = 0"
  by (simp add: lock_free_def count_mset_0_iff)

lemma move_inv:
  assumes "pool_inv w" and i: "i < length (threads w)" and t: "task_of pc = task_of (threads w ! i)"
    and d: "pc = Draining \<Longrightarrow> threads w ! i = Draining \<or> lock_free w"
  shows "pool_inv (move i pc w)"
proof -
  have b: "busy_tasks (move i pc w) = busy_tasks w" using busy_move [OF i, of pc] t by simp
  have "count (mset (threads (move i pc w))) Draining \<le> 1"
    using draining_move [OF i, of pc] assms(1) d unfolding lock_free_count pool_inv_def by (auto split: if_splits)
  with assms(1) b show ?thesis by (simp add: pool_inv_def)
qed

lemma pool_inv_cong:
  "pool_inv w \<Longrightarrow> threads w' = threads w \<Longrightarrow> tasks w' = tasks w \<Longrightarrow> added w' = added w \<Longrightarrow> finished w' = finished w \<Longrightarrow>
    pool_inv w'"
  by (simp add: pool_inv_def busy_tasks_def)

lemma notify_one_inv: "notify_one j w = Some w' \<Longrightarrow> pool_inv w \<Longrightarrow> pool_inv w'"
  by (auto simp: notify_one_def task_of_def intro!: move_inv split: if_splits)

lemma notify_all_inv:
  assumes "pool_inv w"
  shows "pool_inv (notify_all w)"
proof -
  let ?w = "\<lambda>pc :: 'a pc. if pc = Waiting then Woken else pc"
  have t: "task_of (?w pc) = task_of pc" for pc by (simp add: task_of_def)
  have "busy_tasks (notify_all w) = busy_tasks w"
    unfolding busy_tasks_def notify_all_def task_of_def [symmetric]
    by (simp add: multiset.map_comp comp_def t)
  moreover have "count (mset (map ?w xs)) Draining = count (mset xs) Draining" for xs
    by (induction xs) auto
  ultimately show ?thesis using assms by (simp add: pool_inv_def notify_all_def)
qed

lemma threadFunc_inv:
  assumes inv: "pool_inv w" and s: "threadFunc i w = Some w'"
  shows "pool_inv w'"
proof -
  have i: "i < length (threads w)" using s by (auto simp: threadFunc_def split: if_splits)
  show ?thesis
  proof (cases "threads w ! i")
    case Draining
    show ?thesis
    proof (cases "tasks w")
      case Nil
      with s i Draining have "w' = move i At_While w" by (simp add: threadFunc_def)
      with move_inv [OF inv i, of At_While] Draining show ?thesis by (simp add: task_of_def)
    next
      case (Cons fc rest)
      let ?w = "w\<lparr>tasks := rest\<rparr>"
      have w': "w' = move i (Busy fc) ?w" using s i Draining Cons by (simp add: threadFunc_def)
      have "busy_tasks w' = busy_tasks w + {#fc#}"
        using busy_move [of i ?w "Busy fc"] i Draining w' by (simp add: task_of_def busy_tasks_def)
      moreover have "count (mset (threads w')) Draining \<le> 1"
        using draining_move [of i ?w "Busy fc"] i Draining w' inv by (simp add: pool_inv_def)
      ultimately show ?thesis using inv Cons w' by (simp add: pool_inv_def)
    qed
  next
    case (Busy fc)
    let ?w = "w\<lparr>finished := finished w @ [fc]\<rparr>"
    have w': "w' = move i Relocking ?w" using s i Busy by (simp add: threadFunc_def)
    have "busy_tasks w' + {#fc#} = busy_tasks w"
      using busy_move [of i ?w Relocking] i Busy w' by (simp add: task_of_def busy_tasks_def)
    moreover have "count (mset (threads w')) Draining \<le> 1"
      using draining_move [of i ?w Relocking] i Busy w' inv by (simp add: pool_inv_def)
    ultimately show ?thesis using inv w' by (auto simp: pool_inv_def)
  qed (use s i inv in \<open>auto simp: threadFunc_def task_of_def intro!: move_inv split: if_splits\<close>)
qed

lemma pool_act_inv:
  assumes "pool_act a w = Some w'" and "pool_inv w"
  shows "pool_inv w'"
proof (cases a)
  case (Step i)
  with assms threadFunc_inv show ?thesis by simp
next
  case (Add f j)
  have "pool_inv (w\<lparr>tasks := tasks w @ [f], added := added w @ [f]\<rparr>)" using assms(2) by (simp add: pool_inv_def busy_tasks_def)
  with assms Add notify_one_inv show ?thesis by (auto simp: addTask_def split: if_splits)
next
  case (Add_Urgent f j)
  have "pool_inv (w\<lparr>tasks := f # tasks w, added := added w @ [f]\<rparr>)" using assms(2) by (simp add: pool_inv_def busy_tasks_def)
  with assms Add_Urgent notify_one_inv show ?thesis by (auto simp: addUrgentTask_def split: if_splits)
next
  case Destroy
  have "pool_inv (w\<lparr>running := b, dtor_pc := d\<rparr>)" "pool_inv (w\<lparr>dtor_pc := d\<rparr>)" for b d
    using assms(2) by (auto intro: pool_inv_cong)
  with assms Destroy notify_all_inv show ?thesis
    by (auto simp: destroy_ThreadPool_def poolJoin_def split: dtor.splits if_splits)
next
  case (Spurious i)
  with assms show ?thesis by (auto simp: task_of_def intro!: move_inv split: if_splits)
qed

lemma new_pool_inv: "pool_inv (new_ThreadPool n)"
  by (induction n) (simp_all add: pool_inv_def new_ThreadPool_def busy_tasks_def)

lemma pool_act_length: "pool_act a w = Some w' \<Longrightarrow> length (threads w') = length (threads w)"
  by (cases a)
    (auto simp: threadFunc_def addTask_def addUrgentTask_def notify_one_def notify_all_def destroy_ThreadPool_def
      poolJoin_def split: if_splits pc.splits list.splits dtor.splits)

text \<open>Runs as lists of actions.\<close>

fun pool_run :: "'f pool_action list \<Rightarrow> 'f pool \<Rightarrow> 'f pool option" where
  "pool_run [] w = Some w"
| "pool_run (a # as) w = (case pool_act a w of None \<Rightarrow> None | Some w' \<Rightarrow> pool_run as w')"

lemma pool_run_reaches: "pool_run as w = Some w' \<Longrightarrow> pool_step\<^sup>*\<^sup>* w w'"
  by (induction as arbitrary: w)
    (auto intro: pool_step.intros converse_rtranclp_into_rtranclp split: option.splits)

section \<open>The mutex of the loop\<close>

text \<open>
  \<open>MutexLockGuard\<close> takes the mutex by value and locks a copy of it. A copy of a free mutex is free, and the mutex
  itself never becomes locked, so guards do not exclude each other.
\<close>

record mutex_lock =
  locked :: bool

definition mutex_acquire :: "mutex_lock \<Rightarrow> mutex_lock option" where
  "mutex_acquire m = (if locked m then None else Some (m\<lparr>locked := True\<rparr>))"

definition mutex_release :: "mutex_lock \<Rightarrow> mutex_lock" where
  "mutex_release m = m\<lparr>locked := False\<rparr>"

text \<open>The mutex after the guard's construction, and the copy the guard holds.\<close>

definition new_MutexLockGuard :: "mutex_lock \<Rightarrow> (mutex_lock \<times> mutex_lock) option" where
  "new_MutexLockGuard m = map_option (\<lambda>c. (m, c)) (mutex_acquire m)"

lemma guards_never_wait:
  assumes "\<not> locked m"
  shows "\<exists>c. new_MutexLockGuard m = Some (m, c) \<and> locked c"
  using assms by (simp add: new_MutexLockGuard_def mutex_acquire_def)

end
