(* ===== verification/Loop_Properties.thy ===== *)
theory Loop_Properties
  imports EPoller_Inv Thread_Pool
begin

text \<open>The properties of the event loop, of its poller and of the thread pool.\<close>

section \<open>The loop\<close>

definition fresh_world :: "'f event_loop \<Rightarrow> 'f world" where
  "fresh_world l = \<lparr>the_loop = l, phase = Polling, owed = 0, queued = [], ran = []\<rparr>"


text \<open>Another thread queues 1, the loop runs it, and it queues 2, which wakes the loop up for another turn.\<close>

lemma loop_example:
  "loop_step\<^sup>*\<^sup>* (fresh_world \<lparr>looping = False, quit_flag = False, callingPendingFunc = False, pendingFunctors = [],
       wakeupCount = 0\<rparr>)
     \<lparr>the_loop = \<lparr>looping = False, quit_flag = False, callingPendingFunc = False, pendingFunctors = [2::nat],
        wakeupCount = 1\<rparr>, phase = Polling, owed = 0, queued = [1, 2], ran = [1]\<rparr>"
    (is "loop_step\<^sup>*\<^sup>* (fresh_world ?l) ?w")
proof -
  let ?p = "\<lparr>the_loop = ?l\<lparr>pendingFunctors := [1]\<rparr>, phase = Polling, owed = 1, queued = [1], ran = []\<rparr>"
  let ?q = "?p\<lparr>the_loop := ?l\<lparr>pendingFunctors := [1], wakeupCount := 1\<rparr>, owed := 0\<rparr>"
  let ?h = "?q\<lparr>phase := Handling\<rparr>"
  let ?h' = "?h\<lparr>the_loop := ?l\<lparr>pendingFunctors := [1]\<rparr>\<rparr>"
  let ?r = "?h'\<lparr>phase := Running [1], the_loop := ?l\<lparr>callingPendingFunc := True\<rparr>\<rparr>"
  let ?e = "?r\<lparr>phase := Running [], the_loop := ?l\<lparr>callingPendingFunc := True, pendingFunctors := [2], wakeupCount := 1\<rparr>,
    queued := [1, 2], ran := [1]\<rparr>"
  have "loop_step (fresh_world ?l) ?p"
    using loop_step.other_pushes [of "fresh_world ?l" 1] by (simp add: fresh_world_def push_functor_def)
  moreover have "loop_step ?p ?q" using loop_step.other_wakes [of ?p 0] by (simp add: wakeup_def kMaxWakeups_def)
  moreover have "loop_step ?q ?h" using loop_step.poll_returns [of ?q] by simp
  moreover have "loop_step ?h ?h'" using loop_step.woken [of ?h] by (simp add: handleRead_def)
  moreover have "loop_step ?h' ?r" using loop_step.swapped [of ?h'] by simp
  moreover have "loop_step ?r ?e" using loop_step.runs [of ?r 1 "[]" "[2]"]
    by (simp add: queue_all_def queueInLoop_def push_functor_def wakeup_def kMaxWakeups_def)
  moreover have "loop_step ?e ?w" using loop_step.all_run [of ?e] by simp
  ultimately show ?thesis
    by (meson converse_rtranclp_into_rtranclp rtranclp.rtrancl_refl)
qed



text \<open>Each poll reports one number, whose handler queues it; the functor adds it up and asks to quit from ten on.\<close>

definition count_up :: "nat \<Rightarrow> nat event_loop \<times> nat \<Rightarrow> (nat event_loop \<times> nat) outcome" where
  "count_up n st = Inr (if 10 \<le> snd st + n then quit True (fst st) else fst st, snd st + n)"

definition queue_up :: "nat \<Rightarrow> nat event_loop \<times> nat \<Rightarrow> (nat event_loop \<times> nat) outcome" where
  "queue_up n st = Inr (queueInLoop True n (fst st), snd st)"


section \<open>The poller\<close>

text \<open>
  C17. From the poller's construction on, channels that come with new descriptors, are enabled and changed
  while they are enabled, and are closed as the program's destructors close them, never break an assertion or
  an access; the vector, the map and the channels' indices stay in agreement, and the kernel watches exactly
  the descriptors and events the channels ask for.
\<close>

theorem poller_in_step:
  assumes "new_EPoller epollfd = Inr st" and "good_run ep_step ep_legal ops st"
  shows "\<exists>st'. foldE ep_step ops st = Inr st' \<and> ep_inv st' \<and> interest st' = wanted st'"
proof (cases "foldE ep_step ops st")
  case (Inl x)
  from poller.run_stops [OF new_poller_ok [OF assms(1)] assms(2) Inl] show ?thesis by simp
next
  case (Inr st')
  from poller.run_keeps [OF new_poller_ok [OF assms(1)] assms(2) Inr] Inr show ?thesis by (simp add: ep_ok_def)
qed

text \<open>Three sockets of which the first is closed while the others stay.\<close>

definition socket_ops :: "ep_op list" where
  "socket_ops = [Create 0 5, Enable_Reading 0, Create 1 7, Enable_Writing 1, Create 2 6, Enable_Reading 2, Close 0]"

definition poller0 :: "unit epoller" where
  "poller0 = \<lparr>pollfds = [], channels = Map.empty, chans = Map.empty, ctl_calls = []\<rparr>"

lemmas poller_eval = poller0_def socket_ops_def ep_legal_def new_or_active_def active_channel_def new_Channel_def
  enableReading_def enableWriting_def disableAll_def destroy_UdpCom_def remove_def removeChannel_def change_events_def updateChannel_def
  deref_def isNoneEvent_def kNoneEvent_def kReadEvent_def kWriteEvent_def POLLIN_def POLLPRI_def POLLOUT_def assertInLoopThread_def Let_def

lemma socket_ops_run:
  "good_run ep_step ep_legal socket_ops poller0"
  "foldE ep_step socket_ops poller0 = Inr st \<Longrightarrow> map fst (pollfds st) = [6, 7]"
  by (auto simp: poller_eval split: if_splits)

theorem poller_in_step_witness:
  "\<exists>st'. foldE ep_step socket_ops poller0 = Inr st' \<and> interest st' = wanted st' \<and> map fst (pollfds st') = [6, 7]"
proof -
  have "new_EPoller 3 = Inr poller0" by (simp add: new_EPoller_def poller0_def)
  from poller_in_step [OF this socket_ops_run(1)] socket_ops_run(2) show ?thesis by blast
qed

text \<open>One socket that is read.\<close>

definition poller1 :: "unit epoller" where
  "poller1 = \<lparr>pollfds = [(5, 3)], channels = [5 \<mapsto> 0], chans = [0 \<mapsto> (new_Channel 5)\<lparr>events := 3, ch_index := 0\<rparr>],
     ctl_calls = [CTL_ADD 5 3]\<rparr>"

lemma poller1_ok: "ep_inv poller1" "interest poller1 = wanted poller1"
proof -
  have n: "new_EPoller 3 = Inr poller0" by (simp add: new_EPoller_def poller0_def)
  have r: "good_run ep_step ep_legal [Create 0 5, Enable_Reading 0] poller0"
    "foldE ep_step [Create 0 5, Enable_Reading 0] poller0 = Inr poller1"
    by (simp_all add: poller_eval poller1_def)
  from poller.run_keeps [OF new_poller_ok [OF n] r] show "ep_inv poller1" "interest poller1 = wanted poller1"
    by (simp_all add: ep_ok_def)
qed

text \<open>
  A channel that is disabled and, not having been removed, is enabled again is lost to the kernel:
  both calls succeed and the channel asks for reading, but \<open>EPOLL_CTL_MOD\<close> gets the descriptor that the vector
  keeps for a disabled channel, and nothing is watched.
\<close>

theorem reenabled_channel_lost:
  assumes ok: "ep_inv st" "interest st = wanted st" and r: "registered st p ch i" and e: "\<not> isNoneEvent ch"
  shows "\<exists>st1 st2. disableAll True p st = Inr st1 \<and> enableReading True p st1 = Inr st2 \<and>
    wanted st2 (ch_fd ch) = Some kReadEvent \<and> interest st2 (ch_fd ch) = None"
proof -
  let ?ch = "ch\<lparr>events := kNoneEvent\<rparr>"
  have "ep_ok st" using ok by (simp add: ep_ok_def)
  from change_registered [OF this r e, of "\<lambda>e. kNoneEvent"] obtain st1 where
    1: "disableAll True p st = Inr st1" "ep_ok st1" "registered st1 p ?ch i" by (auto simp: disableAll_def)
  have inv: "ep_inv st1" "interest st1 = wanted st1" using 1(2) by (simp_all add: ep_ok_def)
  note en = registered_entry [OF inv(1) 1(3)]
  have fd: "0 \<le> ch_fd ch" using ep_invD(1) [OF inv(1), of p ?ch] 1(3) by (simp add: registered_def)
  have "channels st1 (- ch_fd ch - 1) = None"
  proof (rule ccontr)
    assume "channels st1 (- ch_fd ch - 1) \<noteq> None"
    then obtain q where "channels st1 (- ch_fd ch - 1) = Some q" by blast
    from ep_invD(4) [OF inv(1) this] obtain c j where "registered st1 q c j" "ch_fd c = - ch_fd ch - 1" by blast
    with ep_invD(1) [OF inv(1), of q c] fd show False by (simp add: registered_def)
  qed
  then have w: "interest st1 (- ch_fd ch - 1) = None" by (simp add: inv(2) wanted_def)
  have none: "interest st1 (ch_fd ch) = None" using 1(3) by (simp add: inv(2) wanted_def registered_def isNoneEvent_def)
  have z: "kNoneEvent OR kReadEvent = kReadEvent" "kReadEvent \<noteq> kNoneEvent"
    using masks(1) [of kNoneEvent] by (simp_all add: kNoneEvent_def)
  let ?st2 = "st1\<lparr>chans := (chans st1)(p \<mapsto> ?ch\<lparr>events := kReadEvent\<rparr>),
      pollfds := (pollfds st1)[i := (- ch_fd ch - 1, kReadEvent)],
      ctl_calls := ctl_calls st1 @ [CTL_MOD (- ch_fd ch - 1) kReadEvent]\<rparr>"
  have 2: "enableReading True p st1 = Inr ?st2"
    using 1(3) en z by (simp add: enableReading_def change_events_def updateChannel_def deref_def registered_def
        assertInLoopThread_def entry_for_def isNoneEvent_def Let_def)
  have "interest ?st2 = ctl_effect (CTL_MOD (- ch_fd ch - 1) kReadEvent) (interest st1)" by (rule interest_snoc) simp
  with w none have "interest ?st2 (ch_fd ch) = None" by simp
  moreover have "wanted ?st2 (ch_fd ch) = Some kReadEvent" using 1(3) z by (simp add: wanted_def registered_def isNoneEvent_def)
  ultimately show ?thesis using 1(1) 2 by blast
qed

theorem reenabled_channel_lost_witness:
  "\<exists>st1 st2. disableAll True 0 poller1 = Inr st1 \<and> enableReading True 0 st1 = Inr st2 \<and>
    wanted st2 5 = Some kReadEvent \<and> interest st2 5 = None"
proof -
  let ?ch = "(new_Channel 5)\<lparr>events := 3, ch_index := 0\<rparr> :: unit channel"
  have "registered poller1 0 ?ch 0" "\<not> isNoneEvent ?ch"
    by (simp_all add: registered_def poller1_def new_Channel_def isNoneEvent_def kNoneEvent_def)
  from reenabled_channel_lost [OF poller1_ok this] show ?thesis by (simp add: new_Channel_def)
qed

text \<open>
  What \<open>epoll_wait\<close> reports of the descriptors it watches reaches their channels: the active ones are the
  channels of the first 64 reports with an event, in order, each with its events, and the poller stays in step.
\<close>

theorem poll_reports:
  assumes ok: "ep_inv st" "interest st = wanted st" and d: "distinct (map fst ready)"
    and k: "\<forall>(fd, r) \<in> set ready. interest st fd \<noteq> None"
  shows "\<exists>st' active. poll ready st = Inr (st', active) \<and> ep_inv st' \<and> channels st' = channels st \<and>
    ctl_calls st' = ctl_calls st \<and>
    map (\<lambda>p. map_option (\<lambda>ch. (ch_fd ch, revents ch)) (chans st' p)) active =
      map Some (filter (\<lambda>(fd, r). 0 < r) (take kMaxEvents ready))"
proof -
  let ?evs = "take kMaxEvents ready"
  have "channels st fd \<noteq> None" if "(fd, r) \<in> set ready" for fd r
    using k that ok(2) by (auto simp: wanted_def split: option.splits)
  then have "\<forall>(fd, r) \<in> set ?evs. 0 < r \<longrightarrow> channels st fd \<noteq> None" by (auto dest: in_set_takeD)
  from fill_ok [OF ok(1) this, of "[]"] obtain st' where
    st': "fillActiveChannels ?evs st [] = Inr (st', map (\<lambda>(fd, r). the (channels st fd)) (filter (\<lambda>(fd, r). 0 < r) ?evs))"
    "ep_inv st'" "channels st' = channels st" "ctl_calls st' = ctl_calls st"
    and each: "distinct (map fst ?evs) \<longrightarrow>
      (\<forall>(fd, r) \<in> set ?evs. 0 < r \<longrightarrow> (\<exists>ch. chans st' (the (channels st fd)) = Some ch \<and> ch_fd ch = fd \<and> revents ch = r))"
    by auto
  have "distinct (map fst ?evs)" using d by (simp add: take_map [symmetric])
  with each have one: "\<exists>ch. chans st' (the (channels st fd)) = Some ch \<and> ch_fd ch = fd \<and> revents ch = r"
    if "(fd, r) \<in> set ?evs" "0 < r" for fd r using that by blast
  have "map (\<lambda>p. map_option (\<lambda>ch. (ch_fd ch, revents ch)) (chans st' p))
      (map (\<lambda>(fd, r). the (channels st fd)) (filter (\<lambda>(fd, r). 0 < r) ?evs)) = map Some (filter (\<lambda>(fd, r). 0 < r) ?evs)"
    unfolding map_map by (rule map_cong) (auto dest: one)
  moreover have "poll ready st = Inr (st', map (\<lambda>(fd, r). the (channels st fd)) (filter (\<lambda>(fd, r). 0 < r) ?evs))"
    using st'(1) by (simp only: poll_def)
  ultimately show ?thesis using st'(2-4) by blast
qed

theorem poll_reports_witness:
  "\<exists>st' active. poll [(5, 1)] poller1 = Inr (st', active) \<and>
    map (\<lambda>p. map_option (\<lambda>ch. (ch_fd ch, revents ch)) (chans st' p)) active = [Some (5, 1)]"
proof -
  have "\<forall>(fd, r) \<in> set [(5, 1 :: u32)]. interest poller1 fd \<noteq> None"
    by (simp add: interest_def poller1_def)
  from poll_reports [OF poller1_ok _ this] show ?thesis by (auto simp: kMaxEvents_def)
qed

section \<open>The thread pool\<close>

text \<open>
  C35. Whatever the threads of the pool, the threads that add tasks and the destructor do in whatever order,
  no task is lost or run twice: the tasks accepted so far are those in the queue, those being run and those finished,
  and at most one thread holds the mutex.
\<close>

theorem pool_conserves_tasks:
  assumes "pool_step\<^sup>*\<^sup>* (new_ThreadPool n) w"
  shows "mset (added w) = mset (tasks w) + busy_tasks w + mset (finished w) \<and>
    count_list (threads w) Draining \<le> 1 \<and> length (threads w) = n"
proof -
  from assms have "pool_inv w \<and> length (threads w) = n"
  proof (induction rule: rtranclp_induct)
    case base
    then show ?case by (simp add: new_pool_inv) (simp add: new_ThreadPool_def)
  next
    case (step w w')
    then obtain a where "pool_act a w = Some w'" by (auto elim: pool_step.cases)
    with step.IH pool_act_inv pool_act_length show ?case by metis
  qed
  then show ?thesis by (simp add: pool_inv_def count_mset)
qed

text \<open>A thread waits, is given a task, and runs it while another task is added in front.\<close>

theorem pool_conserves_tasks_witness:
  "\<exists>w. pool_run [Step 0, Step 0, Add (7 :: nat) 0, Step 0, Step 0, Add_Urgent 8 0] (new_ThreadPool 2) = Some w \<and>
     mset (added w) = mset (tasks w) + busy_tasks w + mset (finished w) \<and> tasks w = [8] \<and> threads w ! 0 = Busy 7"
proof -
  obtain w where w: "pool_run [Step 0, Step 0, Add (7 :: nat) 0, Step 0, Step 0, Add_Urgent 8 0] (new_ThreadPool 2) = Some w"
    "tasks w = [8]" "threads w ! 0 = Busy 7"
    by (simp add: new_ThreadPool_def threadFunc_def addTask_def addUrgentTask_def notify_one_def lock_free_def move_def
        numeral_2_eq_2)
  from pool_conserves_tasks [OF pool_run_reaches [OF w(1)]] w show ?thesis by blast
qed

lemma pool_run_append: "pool_run (as @ bs) w = Option.bind (pool_run as w) (pool_run bs)"
  by (induction as arbitrary: w) (auto split: option.split)

lemma to_waiting:
  assumes "running w" and "threads w = ws @ replicate n At_While @ rest" and "set ws \<subseteq> {Waiting}" and "set rest \<subseteq> {At_While}"
  shows "pool_run (concat (map (\<lambda>i. [Step i, Step i]) [length ws..<length ws + n])) w =
    Some (w\<lparr>threads := ws @ replicate n Waiting @ rest\<rparr>)"
  using assms
proof (induction n arbitrary: w ws)
  case 0
  then show ?case by simp
next
  case (Suc n)
  let ?w = "w\<lparr>threads := (ws @ [Waiting]) @ replicate n At_While @ rest\<rparr>"
  have t: "threads w ! length ws = At_While" "length ws < length (threads w)" using Suc.prems by (simp_all add: nth_append)
  have d: "Draining \<notin> set ((threads w)[length ws := Locking])"
    using Suc.prems by (auto simp: list_update_append)
  have two: "pool_run [Step (length ws), Step (length ws)] w = Some ?w"
    using t d Suc.prems by (simp add: threadFunc_def move_def lock_free_def list_update_append)
  have split: "[length ws..<length ws + Suc n] = length ws # [length (ws @ [Waiting])..<length (ws @ [Waiting]) + n]"
    by (subst upt_conv_Cons) simp_all
  from Suc.IH [of ?w "ws @ [Waiting]"] Suc.prems have more:
    "pool_run (concat (map (\<lambda>i. [Step i, Step i]) [length (ws @ [Waiting])..<length (ws @ [Waiting]) + n])) ?w =
      Some (w\<lparr>threads := ws @ Waiting # replicate n Waiting @ rest\<rparr>)" by simp
  show ?case
    unfolding split list.map concat.simps pool_run_append two bind.bind_lunit more by simp
qed

text \<open>
  A task can be accepted and never be run: added to a pool whose threads have not reached \<open>wait\<close> yet, its
  notification wakes nobody, the threads go to wait without looking at the queue, and then the pool stays as
  it is, with the task queued and all threads waiting, until a task is added, the pool is destroyed, or a wait ends
  without a notification.
\<close>

theorem pool_lost_wakeup:
  "\<exists>w. pool_step\<^sup>*\<^sup>* (new_ThreadPool n) w \<and> tasks w = [f] \<and> added w = [f] \<and> finished w = [] \<and> running w \<and>
     threads w = replicate n Waiting \<and> (\<forall>i. threadFunc i w = None)"
proof -
  let ?start = "(new_ThreadPool n)\<lparr>tasks := [f], added := [f]\<rparr>"
  let ?w = "?start\<lparr>threads := replicate n Waiting\<rparr>"
  have "pool_run [Add f 0] (new_ThreadPool n) = Some ?start"
  proof -
    have f: "lock_free ?start" by (simp add: new_ThreadPool_def lock_free_def)
    have "Waiting \<notin> set (threads ?start)" by (simp add: new_ThreadPool_def)
    then have "notify_one 0 ?start = Some ?start" by (simp add: notify_one_def)
    with f show ?thesis by (simp add: addTask_def new_ThreadPool_def lock_free_def)
  qed
  moreover have "pool_run (concat (map (\<lambda>i. [Step i, Step i]) [0..<n])) ?start = Some ?w"
    using to_waiting [of ?start "[]" n "[]"] by (simp add: new_ThreadPool_def)
  ultimately have "pool_step\<^sup>*\<^sup>* (new_ThreadPool n) ?w"
    by (meson pool_run_reaches rtranclp_trans)
  moreover have "threadFunc i ?w = None" for i by (simp add: threadFunc_def)
  ultimately show ?thesis by (intro exI [of _ ?w]) (simp add: new_ThreadPool_def)
qed

lemma to_exited:
  assumes "\<not> running w" and "threads w = ws @ replicate n At_While"
  shows "pool_run (map Step [length ws..<length ws + n]) w = Some (w\<lparr>threads := ws @ replicate n Exited\<rparr>)"
  using assms
proof (induction n arbitrary: w ws)
  case 0
  then show ?case by simp
next
  case (Suc n)
  let ?w = "w\<lparr>threads := (ws @ [Exited]) @ replicate n At_While\<rparr>"
  have one: "pool_run [Step (length ws)] w = Some ?w"
    using Suc.prems by (simp add: threadFunc_def move_def list_update_append nth_append)
  have split: "map Step [length ws..<length ws + Suc n] =
      [Step (length ws)] @ map Step [length (ws @ [Exited])..<length (ws @ [Exited]) + n]"
    by (subst upt_conv_Cons) simp_all
  from Suc.IH [of ?w "ws @ [Exited]"] Suc.prems have more:
    "pool_run (map Step [length (ws @ [Exited])..<length (ws @ [Exited]) + n]) ?w = Some (w\<lparr>threads := ws @ Exited # replicate n Exited\<rparr>)"
    by simp
  show ?case unfolding split pool_run_append one bind.bind_lunit more by simp
qed

text \<open>
  Destroying a pool may never end: when a thread has seen \<open>running_\<close> set but has not
  reached \<open>wait\<close>, the destructor's notifications come too early, the thread then waits, and the destructor waits for it;
  from there on nothing changes unless a wait ends without a notification.
\<close>

theorem pool_join_hangs:
  "\<exists>w. pool_step\<^sup>*\<^sup>* (new_ThreadPool (Suc n)) w \<and> dtor_pc w = Joining 0 \<and> threads w ! 0 = Waiting \<and>
     (\<forall>a. (\<exists>i. a = Spurious i) \<or> pool_act a w = None \<or> pool_act a w = Some w)"
proof -
  let ?start = "(new_ThreadPool (Suc n) :: 'a pool)\<lparr>threads := Locking # replicate n At_While\<rparr>"
  let ?one = "?start\<lparr>running := False, dtor_pc := Joining 0\<rparr>"
  let ?two = "?one\<lparr>threads := Waiting # replicate n At_While\<rparr>"
  let ?w = "?one\<lparr>threads := Waiting # replicate n Exited\<rparr>"
  have "pool_run [Step 0, Destroy, Destroy, Step 0] (new_ThreadPool (Suc n)) = Some ?two"
    by (cases n) (simp_all add: new_ThreadPool_def threadFunc_def move_def destroy_ThreadPool_def notify_all_def lock_free_def)
  moreover have "pool_run (map Step [1..<Suc n]) ?two = Some ?w"
    using to_exited [of ?two "[Waiting]" n] by simp
  ultimately have "pool_step\<^sup>*\<^sup>* (new_ThreadPool (Suc n)) ?w"
    by (meson pool_run_reaches rtranclp_trans)
  moreover have "(\<exists>i. a = Spurious i) \<or> pool_act a ?w = None \<or> pool_act a ?w = Some ?w" for a
    by (cases a)
      (auto simp: threadFunc_def addTask_def addUrgentTask_def destroy_ThreadPool_def poolJoin_def nth_Cons split: if_splits nat.splits)
  ultimately show ?thesis by (intro exI [of _ ?w]) simp
qed

end
