(* ===== verification/Poll_Poller.thy ===== *)
theory Poll_Poller
  imports EPoller_Inv
begin

text \<open>
  \<open>netlib/Poller\<close>, the other poller of the library, over \<open>poll\<close> instead of \<open>epoll\<close>: a vector of descriptors
  that is passed to the system as it is, and no removal. What the system answers is a function from watched
  descriptors to their events. It is shown to do what \<open>EPoller\<close> does.
\<close>

section \<open>The poller over \<open>poll\<close>\<close>

record pollfd =
  pfd_fd :: int
  pfd_events :: u16
  pfd_revents :: u16

record 'c fd_poller =
  fds :: "pollfd list"
  fd_channels :: "int \<rightharpoonup> nat"
  fd_chans :: "nat \<rightharpoonup> 'c channel"

definition new_Poller :: "'c fd_poller" where
  "new_Poller = \<lparr>fds = [], fd_channels = Map.empty, fd_chans = Map.empty\<rparr>"

definition fd_deref :: "'c fd_poller \<Rightarrow> nat \<Rightarrow> 'c channel outcome" where
  "fd_deref st p = (case fd_chans st p of None \<Rightarrow> Inl Use_After_Free | Some ch \<Rightarrow> Inr ch)"

definition updateChannel :: "bool \<Rightarrow> nat \<Rightarrow> 'c fd_poller \<Rightarrow> 'c fd_poller outcome" where
  "updateChannel here p st =
     assertInLoopThread here (bindE (fd_deref st p) (\<lambda>ch.
       let fd = ch_fd ch in
       if ch_index ch < 0
       then require (fd_channels st fd = None)
         (Inr (st\<lparr>fds := fds st @ [\<lparr>pfd_fd = fd, pfd_events = ucast (events ch), pfd_revents = 0\<rparr>],
                  fd_chans := (fd_chans st)(p \<mapsto> ch\<lparr>ch_index := int (length (fds st))\<rparr>),
                  fd_channels := (fd_channels st)(fd \<mapsto> p)\<rparr>))
       else require (fd_channels st fd \<noteq> None) (require (fd_channels st fd = Some p)
         (let idx = ch_index ch in
          require (0 \<le> idx \<and> idx < int (length (fds st)))
            (let pfd = fds st ! nat idx in
             require (pfd_fd pfd = fd \<or> pfd_fd pfd = -1)
               (let pfd = pfd\<lparr>pfd_events := ucast (events ch), pfd_revents := 0\<rparr>;
                    pfd = (if isNoneEvent ch then pfd\<lparr>pfd_fd := -1\<rparr> else pfd)
                in Inr (st\<lparr>fds := (fds st)[nat idx := pfd]\<rparr>)))))))"

text \<open>Events are a \<open>short\<close>; the count stops the search when all have been found.\<close>

fun fillActiveChannels :: "nat \<Rightarrow> pollfd list \<Rightarrow> 'c fd_poller \<Rightarrow> nat list \<Rightarrow> ('c fd_poller \<times> nat list) outcome" where
  "fillActiveChannels n [] st active = Inr (st, active)"
| "fillActiveChannels n (pfd # pfds) st active =
     (if n = 0 then Inr (st, active)
      else if 0 < sint (pfd_revents pfd)
      then case fd_channels st (pfd_fd pfd) of
             None \<Rightarrow> Inl Assert_Fail
           | Some p \<Rightarrow>
               bindE (fd_deref st p) (\<lambda>ch.
               require (ch_fd ch = pfd_fd pfd)
                 (fillActiveChannels (n - 1) pfds
                   (st\<lparr>fd_chans := (fd_chans st)(p \<mapsto> ch\<lparr>revents := scast (pfd_revents pfd)\<rparr>)\<rparr>) (active @ [p])))
      else fillActiveChannels n pfds st active)"

text \<open>
  \<open>poll\<close>, as documented: it sets the events that happened for each descriptor, none for a negative one, and
  returns how many descriptors have some. \<open>None\<close> is an error. On an empty vector the pointer passed
  is not used.
\<close>

definition sys_poll :: "(int \<Rightarrow> u16) \<Rightarrow> pollfd list \<Rightarrow> nat \<times> pollfd list" where
  "sys_poll happened pfds =
     (let pfds' = map (\<lambda>p. p\<lparr>pfd_revents := (if pfd_fd p < 0 then 0 else happened (pfd_fd p))\<rparr>) pfds
      in (length (filter (\<lambda>p. pfd_revents p \<noteq> 0) pfds'), pfds'))"

definition poll :: "(int \<Rightarrow> u16) option \<Rightarrow> 'c fd_poller \<Rightarrow> ('c fd_poller \<times> nat list) outcome" where
  "poll answer st =
     (case answer of
        None \<Rightarrow> Inr (st, [])
      | Some happened \<Rightarrow>
          let (numEvents, pfds) = sys_poll happened (fds st); st1 = st\<lparr>fds := pfds\<rparr>
          in if 0 < numEvents then fillActiveChannels numEvents pfds st1 [] else Inr (st1, []))"

definition change_events :: "bool \<Rightarrow> nat \<Rightarrow> (u32 \<Rightarrow> u32) \<Rightarrow> 'c fd_poller \<Rightarrow> 'c fd_poller outcome" where
  "change_events here p f st =
     bindE (fd_deref st p) (\<lambda>ch.
     updateChannel here p (st\<lparr>fd_chans := (fd_chans st)(p \<mapsto> ch\<lparr>events := f (events ch)\<rparr>)\<rparr>))"

section \<open>What both can be asked to do\<close>

datatype change = Read_On | Write_On | Write_Off | All_Off

fun changed :: "change \<Rightarrow> u32 \<Rightarrow> u32" where
  "changed Read_On e = e OR kReadEvent"
| "changed Write_On e = e OR kWriteEvent"
| "changed Write_Off e = e AND NOT kWriteEvent"
| "changed All_Off e = kNoneEvent"

datatype watch_op = New_Channel nat int | Change nat change

fun ewatch :: "watch_op \<Rightarrow> 'c epoller \<Rightarrow> 'c epoller outcome" where
  "ewatch (New_Channel p fd) st = Inr (st\<lparr>chans := (chans st)(p \<mapsto> new_Channel fd)\<rparr>)"
| "ewatch (Change p c) st = EPoller.change_events True p (changed c) st"

fun pwatch :: "watch_op \<Rightarrow> 'c fd_poller \<Rightarrow> 'c fd_poller outcome" where
  "pwatch (New_Channel p fd) st = Inr (st\<lparr>fd_chans := (fd_chans st)(p \<mapsto> new_Channel fd)\<rparr>)"
| "pwatch (Change p c) st = change_events True p (changed c) st"

fun op_ok :: "watch_op \<Rightarrow> bool" where
  "op_ok (New_Channel p fd) = (0 \<le> fd)"
| "op_ok (Change p c) = True"

section \<open>Simulation\<close>

definition entry_alike :: "int \<times> u32 \<Rightarrow> pollfd \<Rightarrow> bool" where
  "entry_alike e p \<longleftrightarrow> pfd_fd p = (if fst e < 0 then -1 else fst e) \<and> pfd_events p = ucast (snd e)"

definition alike :: "'c epoller \<Rightarrow> 'c fd_poller \<Rightarrow> bool" where
  "alike e p \<longleftrightarrow> chans e = fd_chans p \<and> channels e = fd_channels p \<and> list_all2 entry_alike (pollfds e) (fds p)"

text \<open>An index leads to the entry of its channel, disabled or not.\<close>

definition own_entry :: "int \<Rightarrow> int \<Rightarrow> bool" where
  "own_entry fd x \<longleftrightarrow> x = fd \<or> x = - fd - 1"

definition indexed :: "'c epoller \<Rightarrow> bool" where
  "indexed e \<longleftrightarrow> (\<forall>p ch. chans e p = Some ch \<longrightarrow> 0 \<le> ch_fd ch \<and>
     (0 \<le> ch_index ch \<longrightarrow> nat (ch_index ch) < length (pollfds e) \<and> own_entry (ch_fd ch) (fst (pollfds e ! nat (ch_index ch)))))"

lemma own_entry_same: "0 \<le> fd \<Longrightarrow> 0 \<le> gd \<Longrightarrow> own_entry fd x \<Longrightarrow> own_entry gd x \<Longrightarrow> fd = gd"
  by (auto simp: own_entry_def)

definition both :: "('c epoller outcome \<times> 'c fd_poller outcome) \<Rightarrow> bool" where
  "both r \<longleftrightarrow> (case r of (Inl x, Inl y) \<Rightarrow> x = y | (Inr e, Inr p) \<Rightarrow> alike e p \<and> indexed e | _ \<Rightarrow> False)"

lemma both_require: "(P \<Longrightarrow> both (m, n)) \<Longrightarrow> both (require P m, require P n)"
  by (cases P) (simp_all add: both_def)

text \<open>Rewriting the entry of a channel keeps the index, as long as the new descriptor is the channel's own one.\<close>

lemma indexed_update:
  assumes i: "indexed e" and q: "chans e q = Some ch" and fd: "0 \<le> ch_fd ch" and n: "n < length (pollfds e)"
    and own: "own_entry (ch_fd ch) (fst (pollfds e ! n))" and y: "own_entry (ch_fd ch) y"
  shows "indexed (e\<lparr>pollfds := (pollfds e)[n := (y, w)], ctl_calls := cs\<rparr>)" (is "indexed ?e")
  unfolding indexed_def
proof (intro allI impI conjI)
  fix r c assume "chans ?e r = Some c"
  then have c: "chans e r = Some c" by simp
  then show fc: "0 \<le> ch_fd c" using i by (auto simp: indexed_def)
  assume ic: "0 \<le> ch_index c"
  then have o: "nat (ch_index c) < length (pollfds e)" "own_entry (ch_fd c) (fst (pollfds e ! nat (ch_index c)))"
    using i c by (auto simp: indexed_def)
  then show "nat (ch_index c) < length (pollfds ?e)" by simp
  show "own_entry (ch_fd c) (fst (pollfds ?e ! nat (ch_index c)))"
  proof (cases "nat (ch_index c) = n")
    case True
    then have "ch_fd c = ch_fd ch" using own_entry_same [OF fc fd o(2)] own by simp
    then show ?thesis using y True n by simp
  qed (use o(2) in simp)
qed

lemma update_both:
  assumes a: "alike e p" and i: "indexed e"
  shows "both (EPoller.updateChannel True q e, updateChannel True q p)"
proof (cases "chans e q")
  case None
  then show ?thesis using a by (simp add: both_def alike_def EPoller.updateChannel_def updateChannel_def deref_def fd_deref_def assertInLoopThread_def)
next
  case (Some ch)
  have eq: "fd_chans p = chans e" "fd_channels p = channels e" "length (fds p) = length (pollfds e)"
    and en: "list_all2 entry_alike (pollfds e) (fds p)"
    using a by (auto simp: alike_def dest: list_all2_lengthD)
  have fd: "0 \<le> ch_fd ch" using i Some by (auto simp: indexed_def)
  show ?thesis
  proof (cases "ch_index ch < 0")
    case True
    let ?e = "e\<lparr>pollfds := pollfds e @ [(ch_fd ch, events ch)],
      chans := (chans e)(q \<mapsto> ch\<lparr>ch_index := int (length (pollfds e))\<rparr>),
      channels := (channels e)(ch_fd ch \<mapsto> q), ctl_calls := ctl_calls e @ [CTL_ADD (ch_fd ch) (events ch)]\<rparr>"
    have "indexed ?e" using i fd
      by (auto simp: indexed_def nth_append own_entry_def less_SucI)
    then show ?thesis
      using True Some eq en fd
      by (auto simp: EPoller.updateChannel_def updateChannel_def deref_def fd_deref_def assertInLoopThread_def Let_def
          intro!: both_require) (auto simp: both_def alike_def entry_alike_def intro: list_all2_appendI)
  next
    case False
    then have ix: "nat (ch_index ch) < length (pollfds e)" "own_entry (ch_fd ch) (fst (pollfds e ! nat (ch_index ch)))"
      using i Some by (auto simp: indexed_def)
    let ?n = "nat (ch_index ch)"
    have n: "?n < length (pollfds e)" "ch_index ch < int (length (pollfds e))" using ix(1) False by linarith+
    obtain x v where xv: "pollfds e ! ?n = (x, v)" by fastforce
    have own: "own_entry (ch_fd ch) x" using ix(2) xv by simp
    have al: "entry_alike (x, v) (fds p ! ?n)" using list_all2_nthD [OF en n(1)] xv by simp
    note keeps = indexed_update [OF i Some fd n(1) ix(2)]
    show ?thesis
      using False Some eq en fd ix n xv own al keeps [of "- ch_fd ch - 1"] keeps [of x]
      by (auto simp: EPoller.updateChannel_def updateChannel_def deref_def fd_deref_def assertInLoopThread_def Let_def
          own_entry_def entry_alike_def intro!: both_require)
        (auto simp: both_def alike_def entry_alike_def own_entry_def intro!: list_all2_update_cong)
  qed
qed


lemma change_both:
  assumes a: "alike e p" and i: "indexed e"
  shows "both (EPoller.change_events True q f e, change_events True q f p)"
proof (cases "chans e q")
  case None
  then show ?thesis using a by (simp add: both_def alike_def EPoller.change_events_def change_events_def deref_def fd_deref_def)
next
  case (Some ch)
  let ?ch = "ch\<lparr>events := f (events ch)\<rparr>"
  have "alike (e\<lparr>chans := (chans e)(q \<mapsto> ?ch)\<rparr>) (p\<lparr>fd_chans := (fd_chans p)(q \<mapsto> ?ch)\<rparr>)" using a by (simp add: alike_def)
  moreover have "indexed (e\<lparr>chans := (chans e)(q \<mapsto> ?ch)\<rparr>)" using i Some by (auto simp: indexed_def)
  ultimately have "both (EPoller.updateChannel True q (e\<lparr>chans := (chans e)(q \<mapsto> ?ch)\<rparr>),
      updateChannel True q (p\<lparr>fd_chans := (fd_chans p)(q \<mapsto> ?ch)\<rparr>))" by (rule update_both)
  moreover have "fd_chans p = chans e" using a by (simp add: alike_def)
  ultimately show ?thesis using Some by (simp add: EPoller.change_events_def change_events_def deref_def fd_deref_def)
qed

lemma watch_both:
  assumes "alike e p" and "indexed e" and "op_ok x"
  shows "both (ewatch x e, pwatch x p)"
proof (cases x)
  case (New_Channel q fd)
  then have "indexed (e\<lparr>chans := (chans e)(q \<mapsto> new_Channel fd)\<rparr>)" using assms(2,3) by (auto simp: indexed_def new_Channel_def)
  then show ?thesis using New_Channel assms(1) by (simp add: both_def alike_def)
qed (use change_both assms in simp)

lemma run_both:
  assumes "alike e p" and "indexed e" and "\<forall>x \<in> set xs. op_ok x"
  shows "both (foldE ewatch xs e, foldE pwatch xs p)"
  using assms
proof (induction xs arbitrary: e p)
  case Nil
  then show ?case by (simp add: both_def)
next
  case (Cons x xs)
  have "both (ewatch x e, pwatch x p)" using watch_both [OF Cons.prems(1,2)] Cons.prems(3) by simp
  then consider y where "ewatch x e = Inl y" "pwatch x p = Inl y"
    | e1 p1 where "ewatch x e = Inr e1" "pwatch x p = Inr p1" "alike e1 p1" "indexed e1"
    by (auto simp: both_def split: sum.splits)
  then show ?case
  proof cases
    case 2
    from Cons.IH [OF 2(3,4)] Cons.prems(3) 2(1,2) show ?thesis by simp
  qed (simp add: both_def)
qed

section \<open>What is watched\<close>

text \<open>The descriptors of the vector that are not negative are those the kernel watches for \<open>EPoller\<close>.\<close>

definition enabled_fds :: "'c epoller \<Rightarrow> int list" where
  "enabled_fds e = filter (\<lambda>x. 0 \<le> x) (map fst (pollfds e))"

definition watched :: "'c epoller \<Rightarrow> bool" where
  "watched e \<longleftrightarrow> dom (interest e) = set (enabled_fds e) \<and> distinct (enabled_fds e) \<and> set (enabled_fds e) \<subseteq> dom (channels e)"

lemma filter_update:
  assumes "n < length xs"
  shows "filter P (xs[n := y]) = filter P (take n xs) @ (if P y then [y] else []) @ filter P (drop (Suc n) xs)"
  using assms by (simp add: upd_conv_take_nth_drop)

lemma watched_added:
  assumes w: "watched e" and i: "indexed e" and ch: "chans e q = Some ch" "ch_index ch < 0"
    and run: "EPoller.change_events True q c e = Inr e'"
  shows "watched e'"
proof -
  let ?w = "c (events ch)"
  have fd: "0 \<le> ch_fd ch" using i ch(1) by (auto simp: indexed_def)
  have n: "channels e (ch_fd ch) = None"
    and e': "pollfds e' = pollfds e @ [(ch_fd ch, ?w)]" "channels e' = (channels e)(ch_fd ch \<mapsto> q)"
      "ctl_calls e' = ctl_calls e @ [CTL_ADD (ch_fd ch) ?w]"
    using run ch by (auto simp: EPoller.change_events_def EPoller.updateChannel_def deref_def assertInLoopThread_def Let_def
        outcome_simps split: if_splits)
  have f: "ch_fd ch \<notin> set (enabled_fds e)" using w n by (auto simp: watched_def)
  then have "interest e (ch_fd ch) = None" using w by (auto simp: watched_def)
  then have "dom (interest e') = insert (ch_fd ch) (dom (interest e))"
    using interest_snoc [OF e'(3)] by (auto simp: dom_def)
  then show ?thesis using w f fd e' by (auto simp: watched_def enabled_fds_def)
qed

lemma watched_changed:
  assumes w: "watched e" and i: "indexed e" and ch: "chans e q = Some ch" "\<not> ch_index ch < 0"
    and run: "EPoller.change_events True q c e = Inr e'"
  shows "watched e'"
proof -
  let ?n = "nat (ch_index ch)" and ?w = "c (events ch)"
  have fd: "0 \<le> ch_fd ch" using i ch(1) by (auto simp: indexed_def)
  have ix: "?n < length (pollfds e)" using i ch by (auto simp: indexed_def)
  obtain y v where yv: "pollfds e ! ?n = (y, v)" by fastforce
  have split: "map fst (pollfds e) = take ?n (map fst (pollfds e)) @ y # drop (Suc ?n) (map fst (pollfds e))"
    using ix yv id_take_nth_drop [of ?n "map fst (pollfds e)"] by simp
  have en: "enabled_fds e = filter (\<lambda>x. 0 \<le> x) (take ?n (map fst (pollfds e))) @ (if 0 \<le> y then [y] else []) @
      filter (\<lambda>x. 0 \<le> x) (drop (Suc ?n) (map fst (pollfds e)))"
    unfolding enabled_fds_def by (subst split) simp
  note ops = EPoller.change_events_def EPoller.updateChannel_def deref_def assertInLoopThread_def Let_def outcome_simps
  show ?thesis
  proof (cases "isNoneEvent (ch\<lparr>events := ?w\<rparr>)")
    case True
    then have e': "pollfds e' = (pollfds e)[?n := (- ch_fd ch - 1, ?w)]" "channels e' = channels e"
        "ctl_calls e' = ctl_calls e @ [CTL_DEL y]"
      using run ch yv by (auto simp: ops split: if_splits)
    have en': "enabled_fds e' = filter (\<lambda>x. 0 \<le> x) (take ?n (map fst (pollfds e))) @ filter (\<lambda>x. 0 \<le> x) (drop (Suc ?n) (map fst (pollfds e)))"
      using ix fd by (simp add: enabled_fds_def e' map_update filter_update)
    have "dom (interest e') = dom (interest e) - {y}" using interest_snoc [OF e'(3)] by simp
    then show ?thesis using w en en' e'(2) unfolding watched_def by (auto split: if_splits)
  next
    case False
    then have e': "pollfds e' = (pollfds e)[?n := (y, ?w)]" "channels e' = channels e"
        "ctl_calls e' = ctl_calls e @ [CTL_MOD y ?w]"
      using run ch yv by (auto simp: ops split: if_splits)
    have "map fst (pollfds e') = map fst (pollfds e)"
      using ix yv by (simp add: e'(1) map_update) (metis fst_conv list_update_id map_update)
    moreover have "dom (interest e') = dom (interest e)" using interest_snoc [OF e'(3)] by auto
    ultimately show ?thesis using w e'(2) by (simp add: watched_def enabled_fds_def)
  qed
qed

lemma watch_watched:
  assumes w: "watched e" and i: "indexed e" and x: "op_ok x" and run: "ewatch x e = Inr e'"
  shows "watched e'"
proof (cases x)
  case (New_Channel q fd)
  then have "interest e' = interest e" "enabled_fds e' = enabled_fds e" "channels e' = channels e"
    using run by (auto simp: enabled_fds_def interest_def)
  then show ?thesis using w by (simp add: watched_def)
next
  case (Change q c)
  with run have r: "EPoller.change_events True q (changed c) e = Inr e'" by simp
  then obtain ch where "chans e q = Some ch"
    by (auto simp: EPoller.change_events_def deref_def split: option.splits)
  then show ?thesis using watched_added [OF w i _ _ r] watched_changed [OF w i _ _ r] by blast
qed


section \<open>Polling\<close>

text \<open>What \<open>epoll_wait\<close> reports of the same happenings, in the order of registration.\<close>

definition reported :: "(int \<Rightarrow> u16) \<Rightarrow> 'c epoller \<Rightarrow> (int \<times> u32) list" where
  "reported happened e = map (\<lambda>fd. (fd, scast (happened fd))) (filter (\<lambda>fd. happened fd \<noteq> 0) (enabled_fds e))"

lemma scast_pos: "0 < (scast (r :: u16) :: u32) \<longleftrightarrow> r \<noteq> 0"
proof -
  have "- (2 ^ 31) \<le> sint r" "sint r < 2 ^ 31" using sint_ge [of r] sint_lt [of r] by simp_all
  then have "sint (scast r :: u32) = sint r" by (simp add: signed_scast_eq signed_take_bit_int_eq_self)
  then have "(scast r :: u32) = 0 \<longleftrightarrow> r = 0" by (metis signed_0 signed_word_eqI)
  then show ?thesis by (simp add: word_neq_0_conv [symmetric])
qed

lemma sint_pos: "0 \<le> sint (r :: u16) \<Longrightarrow> 0 < sint r \<longleftrightarrow> r \<noteq> 0"
  by (metis less_le signed_0 signed_word_eqI)

definition seen_alike :: "('c epoller \<times> nat list) outcome \<Rightarrow> ('c fd_poller \<times> nat list) outcome \<Rightarrow> bool" where
  "seen_alike r s \<longleftrightarrow> (case (r, s) of
     (Inl x, Inl y) \<Rightarrow> x = y
   | (Inr (e, as), Inr (p, bs)) \<Rightarrow> as = bs \<and> chans e = fd_chans p
   | _ \<Rightarrow> False)"

lemma fill_alike:
  assumes "chans e = fd_chans p" and "channels e = fd_channels p" and "\<forall>x \<in> set pfds. 0 \<le> sint (pfd_revents x)"
  shows "seen_alike
    (EPoller.fillActiveChannels (map (\<lambda>x. (pfd_fd x, scast (pfd_revents x))) (filter (\<lambda>x. pfd_revents x \<noteq> 0) pfds)) e as)
    (fillActiveChannels (length (filter (\<lambda>x. pfd_revents x \<noteq> 0) pfds)) pfds p as)"
  using assms
proof (induction pfds arbitrary: e p as)
  case Nil
  then show ?case by (simp add: seen_alike_def)
next
  case (Cons x pfds)
  have pos: "0 < sint (pfd_revents x) \<longleftrightarrow> pfd_revents x \<noteq> 0" using sint_pos Cons.prems(3) by simp
  show ?case
  proof (cases "pfd_revents x = 0")
    case True
    have "length (filter (\<lambda>x. pfd_revents x \<noteq> 0) pfds) = 0 \<Longrightarrow> filter (\<lambda>x. pfd_revents x \<noteq> 0) pfds = []" by simp
    with True Cons show ?thesis by (cases "filter (\<lambda>x. pfd_revents x \<noteq> 0) pfds = []") (auto simp: seen_alike_def)
  next
    case False
    show ?thesis
    proof (cases "channels e (pfd_fd x)")
      case None
      then show ?thesis using False pos Cons.prems by (simp add: scast_pos seen_alike_def)
    next
      case (Some q)
      show ?thesis
      proof (cases "chans e q")
        case None
        then show ?thesis using Some False pos Cons.prems by (simp add: scast_pos seen_alike_def deref_def fd_deref_def)
      next
        case (Some ch)
        let ?ch = "ch\<lparr>revents := scast (pfd_revents x)\<rparr>"
        have "seen_alike
          (EPoller.fillActiveChannels (map (\<lambda>x. (pfd_fd x, scast (pfd_revents x))) (filter (\<lambda>x. pfd_revents x \<noteq> 0) pfds))
            (e\<lparr>chans := (chans e)(q \<mapsto> ?ch)\<rparr>) (as @ [q]))
          (fillActiveChannels (length (filter (\<lambda>x. pfd_revents x \<noteq> 0) pfds)) pfds
            (p\<lparr>fd_chans := (fd_chans p)(q \<mapsto> ?ch)\<rparr>) (as @ [q]))"
          using Cons.IH Cons.prems by simp
        then show ?thesis
          using Some \<open>channels e (pfd_fd x) = Some q\<close> False pos Cons.prems
          by (cases "ch_fd ch = pfd_fd x") (simp_all add: scast_pos deref_def fd_deref_def seen_alike_def)
      qed
    qed
  qed
qed

lemma enabled_entries:
  assumes "list_all2 entry_alike es pfds"
  shows "map (\<lambda>x. (pfd_fd x, scast (pfd_revents x) :: u32)) (filter (\<lambda>x. pfd_revents x \<noteq> 0) (snd (sys_poll happened pfds))) =
    map (\<lambda>fd. (fd, scast (happened fd))) (filter (\<lambda>fd. happened fd \<noteq> 0) (filter (\<lambda>x. 0 \<le> x) (map fst es)))"
  using assms by (induction rule: list_all2_induct) (auto simp: sys_poll_def entry_alike_def)

lemma poll_alike:
  assumes a: "alike e p" and h: "\<forall>fd. 0 \<le> sint (happened fd)" and n: "length (pollfds e) \<le> kMaxEvents"
  shows "seen_alike (EPoller.poll (reported happened e) e) (poll (Some happened) p)"
proof -
  obtain k pfds where sp: "sys_poll happened (fds p) = (k, pfds)" by fastforce
  have k: "k = length (filter (\<lambda>x. pfd_revents x \<noteq> 0) pfds)" using sp by (auto simp: sys_poll_def)
  have pos: "\<forall>x \<in> set pfds. 0 \<le> sint (pfd_revents x)" using sp h by (auto simp: sys_poll_def)
  have r: "reported happened e = map (\<lambda>x. (pfd_fd x, scast (pfd_revents x))) (filter (\<lambda>x. pfd_revents x \<noteq> 0) pfds)"
    using enabled_entries [of "pollfds e" "fds p" happened] a sp by (simp add: alike_def reported_def enabled_fds_def)
  have "length (reported happened e) \<le> length (pollfds e)"
    unfolding reported_def enabled_fds_def by (metis le_trans length_filter_le length_map)
  then have t: "take kMaxEvents (reported happened e) = reported happened e" using n by simp
  have "chans e = fd_chans (p\<lparr>fds := pfds\<rparr>)" "channels e = fd_channels (p\<lparr>fds := pfds\<rparr>)" using a by (simp_all add: alike_def)
  note fill_alike [OF this pos, of "[]"]
  moreover have "fillActiveChannels 0 pfds st as = Inr (st, as)" for st :: "'a fd_poller" and as by (cases pfds) simp_all
  then have "poll (Some happened) p = fillActiveChannels k pfds (p\<lparr>fds := pfds\<rparr>) []" by (cases k) (simp_all add: poll_def sp Let_def)
  ultimately show ?thesis unfolding EPoller.poll_def t unfolding r k by simp
qed

lemma watch_length: "ewatch x e = Inr e' \<Longrightarrow> length (pollfds e') \<le> Suc (length (pollfds e))"
  by (cases x) (auto simp: EPoller.change_events_def EPoller.updateChannel_def deref_def assertInLoopThread_def Let_def
      outcome_simps split: if_splits option.splits)

lemma run_length: "foldE ewatch xs e = Inr e' \<Longrightarrow> length (pollfds e') \<le> length (pollfds e) + length xs"
proof (induction xs arbitrary: e)
  case (Cons x xs)
  then obtain e1 where "ewatch x e = Inr e1" "foldE ewatch xs e1 = Inr e'" by (auto simp: outcome_simps)
  with Cons.IH [of e1] watch_length [of x e e1] show ?case by simp
qed simp

lemma run_watched:
  assumes "foldE ewatch xs e = Inr e'" and "alike e p" and "indexed e" and "watched e" and "\<forall>x \<in> set xs. op_ok x"
  shows "watched e'"
  using assms
proof (induction xs arbitrary: e p)
  case (Cons x xs)
  then obtain e1 where 1: "ewatch x e = Inr e1" "foldE ewatch xs e1 = Inr e'" by (auto simp: outcome_simps)
  have "both (ewatch x e, pwatch x p)" using watch_both [OF Cons.prems(2,3)] Cons.prems(5) by simp
  then obtain p1 where "alike e1 p1" "indexed e1" using 1(1) by (auto simp: both_def split: sum.splits)
  with Cons.IH [OF 1(2)] watch_watched [OF Cons.prems(4,3) _ 1(1)] Cons.prems(5) show ?case by simp
qed simp

lemma alike_fds:
  assumes "alike e p"
  shows "set (enabled_fds e) = {pfd_fd x |x. x \<in> set (fds p) \<and> 0 \<le> pfd_fd x}"
proof -
  have "list_all2 entry_alike (pollfds e) (fds p)" using assms by (simp add: alike_def)
  then have "filter (\<lambda>x. 0 \<le> x) (map fst (pollfds e)) = filter (\<lambda>x. 0 \<le> x) (map pfd_fd (fds p))"
    by (induction rule: list_all2_induct) (auto simp: entry_alike_def)
  then show ?thesis by (auto simp: enabled_fds_def)
qed


text \<open>Three descriptors of which one is disabled and enabled again, and is watched by neither.\<close>

definition demo_watch :: "watch_op list" where
  "demo_watch = [New_Channel 0 5, Change 0 Read_On, New_Channel 1 7, Change 1 Write_On, New_Channel 2 6, Change 2 Read_On,
     Change 2 All_Off, Change 2 Read_On]"



end
