(* ===== verification/Client.thy ===== *)
theory Client
  imports Send_Conn_Steps Get_Conn_Inv Event_Loop
begin

text \<open>
  \<open>client/DiretransClient\<close>: the tables of connections, the commands of the user, and how the
  client, its connections and the event loop work on each other. Connections are objects at
  addresses that are never reused; the tables own them through pointers that are null once the
  object has been moved out (an entry \<open>Some None\<close>), since closing a connection leaves its entry
  behind. Every access through an address without an object is a fault.

  What a connection asks of the client while it handles an event is collected in its \<open>actions\<close>
  and done when the handler is through: the client's tables are not read by the handlers, and the
  client's operations do not touch the connection.
\<close>

section \<open>State\<close>

datatype conn_object = Sender send_conn | Getter get_conn

text \<open>The functors this program queues in the loop.\<close>

datatype client_functor = Delete_Conn | Send_Stream nat | Send_Loss nat "u32 list"

record client =
  objects :: "nat \<rightharpoonup> conn_object"
  next_obj :: nat
  pendingconns :: "int \<rightharpoonup> nat option"
  sendconns :: "u32 \<rightharpoonup> nat option"
  getconns :: "u32 \<rightharpoonup> nat option"
  deleteconns :: "nat list"
  server_addr :: sockaddr

type_synonym client_state = "client_functor event_loop \<times> client"

text \<open>The address of the server; the last eight bytes of the structure are never set.\<close>

definition first_client :: "bytes \<Rightarrow> client" where
  "first_client uninit = \<lparr>objects = Map.empty, next_obj = 0, pendingconns = Map.empty, sendconns = Map.empty,
     getconns = Map.empty, deleteconns = [], server_addr = Sockaddr 2 ([0x4E, 0x13, 0x23, 0xEC, 0x82, 0x1C] @ uninit)\<rparr>"

definition new_DiretransClient :: "int \<Rightarrow> bool \<Rightarrow> bytes \<Rightarrow> client_state outcome" where
  "new_DiretransClient evefd pair_ok uninit =
     bindE (new_EventLoop evefd False) (\<lambda>l. if \<not> pair_ok then Inl Abort else Inr (l, first_client uninit))"

section \<open>Requests of the connections\<close>

definition movePendConn :: "int \<Rightarrow> u32 \<Rightarrow> client_state \<Rightarrow> client_state outcome" where
  "movePendConn fd k st =
     (case st of (l, c) \<Rightarrow>
        case pendingconns c fd of
          None \<Rightarrow> Inr (l, c)
        | Some ptr \<Rightarrow>
            require (sendconns c k = None)
              (Inr (l, c\<lparr>sendconns := (sendconns c)(k \<mapsto> ptr), pendingconns := (pendingconns c)(fd := None)\<rparr>)))"

text \<open>Moving a pointer into the set of connections to delete; inserting a null pointer keeps nothing alive.\<close>

definition to_delete :: "nat option \<Rightarrow> client \<Rightarrow> client" where
  "to_delete ptr c =
     (case ptr of None \<Rightarrow> c | Some p \<Rightarrow> c\<lparr>deleteconns := deleteconns c @ [p]\<rparr>)"

definition closeSendConn :: "u32 \<Rightarrow> client_state \<Rightarrow> client_state" where
  "closeSendConn k st =
     (case st of (l, c) \<Rightarrow>
        (queueInLoop True Delete_Conn l,
         case sendconns c k of
           None \<Rightarrow> c
         | Some ptr \<Rightarrow> to_delete ptr (c\<lparr>sendconns := (sendconns c)(k \<mapsto> None)\<rparr>)))"

definition closeGetConn :: "u32 \<Rightarrow> client_state \<Rightarrow> client_state" where
  "closeGetConn k st =
     (case st of (l, c) \<Rightarrow>
        (queueInLoop True Delete_Conn l,
         case getconns c k of
           None \<Rightarrow> c
         | Some ptr \<Rightarrow> to_delete ptr (c\<lparr>getconns := (getconns c)(k \<mapsto> None)\<rparr>)))"

definition closePendConn :: "int \<Rightarrow> client_state \<Rightarrow> client_state" where
  "closePendConn fd st =
     (case st of (l, c) \<Rightarrow>
        case pendingconns c fd of
          None \<Rightarrow> (l, c)
        | Some ptr \<Rightarrow>
            (queueInLoop True Delete_Conn l,
             to_delete ptr (c\<lparr>pendingconns := (pendingconns c)(fd \<mapsto> None)\<rparr>)))"

definition deleteConn :: "client_state \<Rightarrow> client_state" where
  "deleteConn st =
     (case st of (l, c) \<Rightarrow>
        (l, c\<lparr>objects := objects c |` (- set (deleteconns c)), deleteconns := []\<rparr>))"

definition send_action :: "nat \<Rightarrow> Send_Conn.action \<Rightarrow> client_state \<Rightarrow> client_state outcome" where
  "send_action p a st =
     (case a of
        Move_Pend_Conn fd k \<Rightarrow> movePendConn fd k st
      | Close_Send_Conn k \<Rightarrow> Inr (closeSendConn k st)
      | Close_Pend_Conn fd \<Rightarrow> Inr (closePendConn fd st)
      | Queue_Stream \<Rightarrow> Inr (queueInLoop True (Send_Stream p) (fst st), snd st)
      | Queue_Loss ps \<Rightarrow> Inr (queueInLoop True (Send_Loss p ps) (fst st), snd st))"

definition get_action :: "Get_Conn.action \<Rightarrow> client_state \<Rightarrow> client_state" where
  "get_action a st = (case a of Close_Get_Conn k \<Rightarrow> closeGetConn k st)"

text \<open>The connection at \<open>p\<close> after one of its operations, and what the operation asked for.\<close>

definition store_object :: "nat \<Rightarrow> conn_object \<Rightarrow> client_state \<Rightarrow> client_state" where
  "store_object p x st = (fst st, (snd st)\<lparr>objects := (objects (snd st))(p \<mapsto> x)\<rparr>)"

definition after_sender :: "nat \<Rightarrow> send_conn outcome \<Rightarrow> client_state \<Rightarrow> client_state outcome" where
  "after_sender p r st =
     bindE r (\<lambda>s. foldE (send_action p) (Send_Conn.actions s)
       (store_object p (Sender (s\<lparr>Send_Conn.actions := []\<rparr>)) st))"

definition after_getter :: "nat \<Rightarrow> get_conn outcome \<Rightarrow> client_state \<Rightarrow> client_state outcome" where
  "after_getter p r st =
     bindE r (\<lambda>g. Inr (fold get_action (Get_Conn.actions g)
       (store_object p (Getter (g\<lparr>Get_Conn.actions := []\<rparr>)) st)))"

section \<open>Commands\<close>

definition is_space :: "u8 \<Rightarrow> bool" where
  "is_space b \<longleftrightarrow> b = 0x20 \<or> 9 \<le> b \<and> b \<le> 13"

text \<open>What \<open>iss >> temp\<close> yields, one word after the other.\<close>

function read_words :: "bytes \<Rightarrow> bytes list" where
  "read_words t =
     (let t1 = dropWhile is_space t
      in if t1 = [] then [] else takeWhile (\<lambda>b. \<not> is_space b) t1 # read_words (dropWhile (\<lambda>b. \<not> is_space b) t1))"
  by auto

termination
proof (relation "measure length")
  fix t t1 :: bytes
  assume t1: "t1 = dropWhile is_space t" "t1 \<noteq> []"
  then have "\<not> is_space (hd t1)" using hd_dropWhile [of is_space t] by simp
  then have "length (dropWhile (\<lambda>b. \<not> is_space b) t1) < length t1"
    using t1(2) length_dropWhile_le [of "\<lambda>b. \<not> is_space b" "tl t1"] by (cases t1) auto
  also have "\<dots> \<le> length t" using t1(1) length_dropWhile_le by metis
  finally show "(dropWhile (\<lambda>b. \<not> is_space b) t1, t) \<in> measure length" by simp
qed simp

declare read_words.simps [simp del]

text \<open>\<open>atoi\<close> is \<open>strtol\<close>, which stops at the bounds of \<open>long\<close>, cut down to 32 bits.\<close>

definition is_digit :: "u8 \<Rightarrow> bool" where
  "is_digit b \<longleftrightarrow> 0x30 \<le> b \<and> b \<le> 0x39"

definition digits_value :: "bytes \<Rightarrow> int" where
  "digits_value ds = fold (\<lambda>b v. 10 * v + (uint b - 0x30)) ds 0"

definition atoi :: "bytes \<Rightarrow> u32" where
  "atoi w =
     (let t = dropWhile is_space w;
          negative = (t \<noteq> [] \<and> hd t = 0x2D);
          t1 = (if t \<noteq> [] \<and> (hd t = 0x2D \<or> hd t = 0x2B) then tl t else t);
          v = digits_value (takeWhile is_digit t1);
          v1 = (if negative then - v else v)
      in word_of_int (max (- (2 ^ 63)) (min (2 ^ 63 - 1) v1)))"

text \<open>What the system answers to one command: a new socket, its binds, the files, and the uninitialised memory.\<close>

record os_env =
  new_fd :: int
  ports :: "nat \<Rightarrow> u16"
  binds :: "nat \<Rightarrow> u16 \<Rightarrow> int"
  crc :: crc_state
  files :: "bytes \<rightharpoonup> bytes"
  uninit_file :: send_file
  uninit_addr :: sockaddr
  uninit_data :: FileData

text \<open>Assigning to a table entry destroys the connection that was there.\<close>

definition destroy :: "nat option option \<Rightarrow> client \<Rightarrow> client" where
  "destroy entry c =
     (case entry of Some (Some p) \<Rightarrow> c\<lparr>objects := (objects c)(p := None)\<rparr> | _ \<Rightarrow> c)"

definition cmd_share :: "os_env \<Rightarrow> bytes \<Rightarrow> client_state \<Rightarrow> client_state outcome" where
  "cmd_share e arg st =
     (case st of (l, c) \<Rightarrow>
        bindE (append new_Buffer arg) (\<lambda>fileName.
        bindE (new_SendConnManager (new_fd e) (ports e) (binds e) (server_addr c) (uninit_addr e)) (\<lambda>s.
        let fd = sock s;
            p = next_obj c;
            c1 = destroy (pendingconns c fd) c;
            c2 = c1\<lparr>next_obj := Suc p, pendingconns := (pendingconns c1)(fd \<mapsto> Some p)\<rparr>
        in after_sender p (shareFile (crc e) (files e) (uninit_file e) s fileName) (l, c2))))"

definition cmd_get :: "os_env \<Rightarrow> bytes \<Rightarrow> client_state \<Rightarrow> client_state outcome" where
  "cmd_get e arg st =
     (case st of (l, c) \<Rightarrow>
        let k = atoi arg in
        if k = 0 then Inr (l, c)
        else bindE (new_GetConnManager (new_fd e) (ports e) (binds e) (server_addr c) (uninit_addr e) (uninit_data e)) (\<lambda>g.
          let p = next_obj c;
              c1 = destroy (getconns c k) c;
              c2 = c1\<lparr>next_obj := Suc p, getconns := (getconns c1)(k \<mapsto> Some p)\<rparr>
          in after_getter p (getFile g k) (l, c2)))"

definition chat_text :: "bytes list \<Rightarrow> buffer outcome" where
  "chat_text ws = foldE (\<lambda>w b. bindE (append b w) (\<lambda>b1. append b1 [0x20])) ws new_Buffer"

definition cmd_chat :: "bytes \<Rightarrow> bytes list \<Rightarrow> client_state \<Rightarrow> client_state outcome" where
  "cmd_chat arg ws st =
     (case st of (l, c) \<Rightarrow>
        let k = atoi arg in
        bindE (chat_text ws) (\<lambda>msg.
          case getconns c k of
            None \<Rightarrow>
              (case sendconns c k of
                 None \<Rightarrow> Inr (l, c)
               | Some None \<Rightarrow> Inl Null_Deref
               | Some (Some p) \<Rightarrow>
                   (case objects c p of
                      Some (Sender s) \<Rightarrow> after_sender p (Send_Conn.chatMsg s msg) (l, c)
                    | _ \<Rightarrow> Inl Use_After_Free))
          | Some None \<Rightarrow> Inl Null_Deref
          | Some (Some p) \<Rightarrow>
              (case objects c p of
                 Some (Getter g) \<Rightarrow> after_getter p (Get_Conn.chatMsg g msg) (l, c)
               | _ \<Rightarrow> Inl Use_After_Free)))"

definition str :: "string \<Rightarrow> bytes" where
  "str s = map of_char s"

text \<open>The array of 1024 bytes is read as a C string: a full one without a zero is read past its end.\<close>

definition kCmdSize :: nat where "kCmdSize = 1024"

definition c_text :: "bytes \<Rightarrow> bytes outcome" where
  "c_text d =
     (if length d < kCmdSize \<or> 0 \<in> set d then Inr (takeWhile (\<lambda>b. b \<noteq> 0) d) else Inl Out_Of_Bounds)"

text \<open>\<open>d\<close> is what \<open>read\<close> put into the array, nothing if it failed; the commands are arguments of the dispatcher.\<close>

definition dispatch_cmd ::
  "(bytes \<Rightarrow> 's \<Rightarrow> 's outcome) \<Rightarrow> (bytes \<Rightarrow> 's \<Rightarrow> 's outcome) \<Rightarrow> (bytes \<Rightarrow> bytes list \<Rightarrow> 's \<Rightarrow> 's outcome) \<Rightarrow> bytes \<Rightarrow> 's \<Rightarrow> 's outcome" where
  "dispatch_cmd share get chat d st =
     bindE (c_text (take kCmdSize d)) (\<lambda>t.
       let cmds = read_words t
       in if length cmds \<le> 1 then Inr st
          else if cmds ! 0 = str ''SHARE'' then share (cmds ! 1) st
          else if cmds ! 0 = str ''GET'' then get (cmds ! 1) st
          else if cmds ! 0 = str ''CHAT''
               then if length cmds \<le> 2 then Inr st else chat (cmds ! 1) (drop 2 cmds) st
          else Inr st)"

definition handleCmd :: "os_env \<Rightarrow> bytes \<Rightarrow> client_state \<Rightarrow> client_state outcome" where
  "handleCmd e = dispatch_cmd (cmd_share e) (cmd_get e) cmd_chat"

section \<open>Events\<close>

text \<open>
  What an active channel brings: a command, a datagram for a connection, due timers of
  a connection, or a wake-up. \<open>poll\<close> reports all active channels before the first is handled; a channel that is
  gone by then is a dangling pointer, also when its events have no callback (\<open>Quiet\<close>). The timer queue holds weak pointers: timers of a
  connection that is gone do nothing.
\<close>

datatype client_event =
    Command os_env bytes
  | Datagram nat recv timestamp "bytes \<times> bool"
  | Beat nat timestamp
  | Repeat nat nat timestamp
  | Woken
  | Quiet nat

definition on_event :: "client_event \<Rightarrow> client_state \<Rightarrow> client_state outcome" where
  "on_event e st =
     (case e of
        Command env d \<Rightarrow> handleCmd env d st
      | Datagram p r now os \<Rightarrow>
          (case objects (snd st) p of
             None \<Rightarrow> Inl Use_After_Free
           | Some (Sender s) \<Rightarrow> after_sender p (send_step (Send_Conn.Msg r now) s) st
           | Some (Getter g) \<Rightarrow> after_getter p (get_step (Get_Conn.Msg r now os) g) st)
      | Beat p now \<Rightarrow>
          (case objects (snd st) p of
             Some (Sender s) \<Rightarrow> after_sender p (send_step (Heart_Beat now) s) st
           | _ \<Rightarrow> Inr st)
      | Repeat p i now \<Rightarrow>
          (case objects (snd st) p of
             None \<Rightarrow> Inr st
           | Some (Sender s) \<Rightarrow> after_sender p (send_step (Send_Conn.Repeat_Timer i now) s) st
           | Some (Getter g) \<Rightarrow> after_getter p (get_step (Get_Conn.Repeat_Timer i now) g) st)
      | Woken \<Rightarrow> Inr (Event_Loop.handleRead (fst st), snd st)
      | Quiet p \<Rightarrow> if objects (snd st) p = None then Inl Use_After_Free else Inr st)"

definition run_functor :: "client_functor \<Rightarrow> client_state \<Rightarrow> client_state outcome" where
  "run_functor f st =
     (case f of
        Delete_Conn \<Rightarrow> Inr (deleteConn st)
      | Send_Stream p \<Rightarrow>
          (case objects (snd st) p of
             Some (Sender s) \<Rightarrow> after_sender p (send_step Run_Stream s) st
           | _ \<Rightarrow> Inl Use_After_Free)
      | Send_Loss p ps \<Rightarrow>
          (case objects (snd st) p of
             Some (Sender s) \<Rightarrow> after_sender p (send_step (Run_Loss ps) s) st
           | _ \<Rightarrow> Inl Use_After_Free))"

text \<open>A turn of the client's loop.\<close>

definition client_turn :: "client_event list \<Rightarrow> client_state \<Rightarrow> client_state outcome" where
  "client_turn = loop_turn on_event run_functor"

end
