(* ===== verification/Client_Inv.thy ===== *)
theory Client_Inv
  imports Client Send_Effects Get_Effects Endpoint
begin

text \<open>
  The invariant of the client: every connection object is owned by exactly one place of the
  client's tables, and the tables agree with the connections about their codes and sockets.
\<close>

section \<open>Ownership\<close>

datatype slot = Pend int | Shared u32 | Got u32 | Doomed

fun holds :: "client \<Rightarrow> slot \<Rightarrow> nat \<Rightarrow> bool" where
  "holds c (Pend fd) p = (pendingconns c fd = Some (Some p))"
| "holds c (Shared k) p = (sendconns c k = Some (Some p))"
| "holds c (Got k) p = (getconns c k = Some (Some p))"
| "holds c Doomed p = (p \<in> set (deleteconns c))"

definition idle_sender :: "send_conn \<Rightarrow> bool" where
  "idle_sender s \<longleftrightarrow> bound (Send_Conn.conn s) \<and> udp_inv (Send_Conn.conn s) \<and> Send_Conn.state s = Send_Conn.IDLE \<and>
     heartBeat s = None \<and> Send_Conn.repeattimers s = []"

definition object_ok :: "conn_object \<Rightarrow> bool" where
  "object_ok x \<longleftrightarrow>
     (case x of
        Sender s \<Rightarrow> ((\<exists>f. send_inv s f) \<or> idle_sender s) \<and> Send_Conn.actions s = []
      | Getter g \<Rightarrow> get_inv g \<and> Get_Conn.actions g = [])"

definition slot_ok :: "slot \<Rightarrow> conn_object \<Rightarrow> bool" where
  "slot_ok o' x \<longleftrightarrow>
     (case o' of
        Pend fd \<Rightarrow> (\<exists>s. x = Sender s \<and> sock s = fd \<and> Send_Conn.code s = 0)
      | Shared k \<Rightarrow> (\<exists>s. x = Sender s \<and> Send_Conn.code s = k \<and> Send_Conn.state s \<noteq> Send_Conn.WAIT_CODE)
      | Got k \<Rightarrow> (\<exists>g. x = Getter g \<and> Get_Conn.code g = k)
      | Doomed \<Rightarrow> True)"

definition table_inv :: "client \<Rightarrow> bool" where
  "table_inv c \<longleftrightarrow>
     (\<forall>p. objects c p \<noteq> None \<longleftrightarrow> (\<exists>h. holds c h p)) \<and>
     (\<forall>h h' p. holds c h p \<longrightarrow> holds c h' p \<longrightarrow> h = h') \<and>
     (\<forall>h p x. holds c h p \<longrightarrow> objects c p = Some x \<longrightarrow> slot_ok h x) \<and>
     (\<forall>p x. objects c p = Some x \<longrightarrow> object_ok x \<and> p < next_obj c)"

definition socks_inv :: "client \<Rightarrow> bool" where
  "socks_inv c \<longleftrightarrow>
     (\<forall>p q s t. objects c p = Some (Sender s) \<longrightarrow> objects c q = Some (Sender t) \<longrightarrow> sock s = sock t \<longrightarrow> p = q)"

text \<open>The connection a queued functor works on, if it still exists, is a sender with its file.\<close>

definition target_ok :: "client \<Rightarrow> nat \<Rightarrow> bool" where
  "target_ok c p \<longleftrightarrow> p < next_obj c \<and>
     (\<forall>x. objects c p = Some x \<longrightarrow> (\<exists>s f. x = Sender s \<and> send_inv s f))"

definition functor_ok :: "client \<Rightarrow> client_functor \<Rightarrow> bool" where
  "functor_ok c f \<longleftrightarrow> (case f of Delete_Conn \<Rightarrow> True | Send_Stream p \<Rightarrow> target_ok c p | Send_Loss p ps \<Rightarrow> target_ok c p)"

definition client_inv :: "client_state \<Rightarrow> bool" where
  "client_inv st \<longleftrightarrow> table_inv (snd st) \<and> socks_inv (snd st) \<and>
     (\<forall>f \<in> set (pendingFunctors (fst st)). functor_ok (snd st) f)"

text \<open>
  What every step respects: addresses are given out once, an object keeps its kind and its
  file, and the entries of \<open>sendconns\<close> stay for ever.
\<close>

definition same_kind :: "conn_object \<Rightarrow> conn_object \<Rightarrow> bool" where
  "same_kind x y \<longleftrightarrow>
     (case (x, y) of
        (Sender s, Sender t) \<Rightarrow> sock t = sock s \<and> (\<forall>f. send_inv s f \<longrightarrow> send_inv t f)
      | (Getter g, Getter h) \<Rightarrow> True
      | _ \<Rightarrow> False)"

definition client_edge :: "client_state \<Rightarrow> client_state \<Rightarrow> bool" where
  "client_edge st st' \<longleftrightarrow> next_obj (snd st) \<le> next_obj (snd st') \<and>
     dom (sendconns (snd st)) \<subseteq> dom (sendconns (snd st')) \<and>
     (\<forall>p < next_obj (snd st). \<forall>y. objects (snd st') p = Some y \<longrightarrow>
        (\<exists>x. objects (snd st) p = Some x \<and> same_kind x y))"

lemma same_kind_refl [simp]: "same_kind x x"
  by (cases x) (simp_all add: same_kind_def)

lemma same_kind_trans: "same_kind x y \<Longrightarrow> same_kind y z \<Longrightarrow> same_kind x z"
  by (auto simp: same_kind_def split: conn_object.splits)

lemma client_edge_refl [simp]: "client_edge st st"
  by (simp add: client_edge_def)

lemma client_edge_object:
  "client_edge st st' \<Longrightarrow> p < next_obj (snd st) \<Longrightarrow> objects (snd st') p = Some y \<Longrightarrow>
    \<exists>x. objects (snd st) p = Some x \<and> same_kind x y"
  by (simp add: client_edge_def)

lemma client_edge_trans:
  assumes "client_edge st st1" and "client_edge st1 st2"
  shows "client_edge st st2"
  unfolding client_edge_def
proof (intro conjI allI impI)
  show "next_obj (snd st) \<le> next_obj (snd st2)" "dom (sendconns (snd st)) \<subseteq> dom (sendconns (snd st2))"
    using assms order_trans unfolding client_edge_def by blast+
  fix p y
  assume p: "p < next_obj (snd st)" and y: "objects (snd st2) p = Some y"
  have "p < next_obj (snd st1)" using assms(1) p by (simp add: client_edge_def)
  from client_edge_object [OF assms(2) this y] obtain x1 where
    x1: "objects (snd st1) p = Some x1" "same_kind x1 y" by blast
  from client_edge_object [OF assms(1) p x1(1)] obtain x where
    "objects (snd st) p = Some x" "same_kind x x1" by blast
  with x1(2) show "\<exists>x. objects (snd st) p = Some x \<and> same_kind x y" by (blast intro: same_kind_trans)
qed

lemma target_ok_edge:
  assumes "client_edge st st'" and "target_ok (snd st) p"
  shows "target_ok (snd st') p"
  unfolding target_ok_def
proof (intro conjI allI impI)
  show "p < next_obj (snd st')" using assms by (simp add: client_edge_def target_ok_def)
  fix y assume y: "objects (snd st') p = Some y"
  have "p < next_obj (snd st)" using assms(2) by (simp add: target_ok_def)
  from client_edge_object [OF assms(1) this y] obtain x where
    "objects (snd st) p = Some x" "same_kind x y" by blast
  with assms(2) show "\<exists>s f. y = Sender s \<and> send_inv s f"
    by (auto simp: target_ok_def same_kind_def split: conn_object.splits)
qed

lemma functor_ok_edge: "client_edge st st' \<Longrightarrow> functor_ok (snd st) f \<Longrightarrow> functor_ok (snd st') f"
  by (cases f) (auto simp: functor_ok_def intro: target_ok_edge)

section \<open>Moving pointers\<close>

text \<open>
  An object changes its place: the old place is emptied, the new one is allowed to hold it.
  Every operation of the client on its tables is of this kind.
\<close>

lemma table_move:
  assumes c: "table_inv c" and old: "holds c h p" and new: "slot_ok h' (the (objects c p))"
    and obj: "objects c' = objects c" "next_obj c' = next_obj c"
    and holds': "\<And>i q. holds c' i q \<longleftrightarrow> (if q = p then i = h' else holds c i q)"
  shows "table_inv c'"
proof -
  note t = c [unfolded table_inv_def]
  show ?thesis
    unfolding table_inv_def obj
  proof (intro conjI allI)
    fix q
    show "(objects c q \<noteq> None) = (\<exists>h. holds c' h q)"
      using t old by (cases "q = p") (auto simp: holds')
    fix x
    show "objects c q = Some x \<longrightarrow> object_ok x \<and> q < next_obj c" using t by simp
  next
    fix i i' q
    show "holds c' i q \<longrightarrow> holds c' i' q \<longrightarrow> i = i'" using t by (cases "q = p") (auto simp: holds')
  next
    fix i q x
    show "holds c' i q \<longrightarrow> objects c q = Some x \<longrightarrow> slot_ok i x"
      using t new by (cases "q = p") (auto simp: holds')
  qed
qed

lemma holds_unique: "table_inv c \<Longrightarrow> holds c h p \<Longrightarrow> holds c h' p \<Longrightarrow> h = h'"
  by (auto simp: table_inv_def)

lemma slot_Doomed [simp]: "slot_ok Doomed x"
  by (simp add: slot_ok_def)

lemma client_inv_tables:
  assumes "client_inv (l, c)" and "table_inv c'" and "objects c' = objects c" and "next_obj c' = next_obj c"
    and "dom (sendconns c) \<subseteq> dom (sendconns c')"
    and "\<And>f. f \<in> set (pendingFunctors l') \<Longrightarrow> f \<in> set (pendingFunctors l) \<or> functor_ok c f"
  shows "client_inv (l', c') \<and> client_edge (l, c) (l', c')"
proof -
  have e: "client_edge (l, c) (l', c')" using assms(3-5) by (simp add: client_edge_def)
  have "functor_ok c' f" if "f \<in> set (pendingFunctors l')" for f
    using functor_ok_edge [OF e, of f] assms(1,6) that by (auto simp: client_inv_def)
  with e assms(1-3) show ?thesis by (simp add: client_inv_def socks_inv_def)
qed

text \<open>The three ways to close a connection take its pointer out of a table.\<close>

lemma doom_inv:
  assumes st: "client_inv (l, c)" and h: "h \<noteq> Doomed"
    and obj: "objects c' = objects c" "next_obj c' = next_obj c" "deleteconns c' = deleteconns c"
    and dom: "dom (sendconns c) \<subseteq> dom (sendconns c')"
    and gone: "\<And>i q. i \<noteq> Doomed \<Longrightarrow> holds c' i q \<longleftrightarrow> i \<noteq> h \<and> holds c i q"
    and ptr: "\<And>q. holds c h q \<longleftrightarrow> ptr = Some q"
  shows "client_inv (queueInLoop True Delete_Conn l, to_delete ptr c') \<and>
    client_edge (l, c) (queueInLoop True Delete_Conn l, to_delete ptr c')"
proof (rule client_inv_tables [OF st])
  have t: "table_inv c" using st by (simp add: client_inv_def)
  show "table_inv (to_delete ptr c')"
  proof (cases ptr)
    case None
    have "holds c' i q = holds c i q" for i q
      using gone [of i q] ptr None obj(3) by (cases "i = Doomed") auto
    then show ?thesis using t obj None by (simp add: table_inv_def to_delete_def)
  next
    case (Some p)
    have p: "holds c h p" using ptr Some by simp
    show ?thesis
    proof (rule table_move [OF t p, of Doomed])
      fix i q
      show "holds (to_delete ptr c') i q = (if q = p then i = Doomed else holds c i q)"
      proof (cases "i = Doomed")
        case True
        then show ?thesis using Some obj(3) by (auto simp: to_delete_def)
      next
        case False
        then have "holds (to_delete ptr c') i q = holds c' i q" using Some by (cases i) (simp_all add: to_delete_def)
        with False gone [OF False, of q] holds_unique [OF t p] ptr Some h show ?thesis by auto
      qed
    qed (use obj Some in \<open>simp_all add: to_delete_def\<close>)
  qed
  show "objects (to_delete ptr c') = objects c" "next_obj (to_delete ptr c') = next_obj c"
    "dom (sendconns c) \<subseteq> dom (sendconns (to_delete ptr c'))"
    using obj dom by (simp_all add: to_delete_def split: option.splits)
  show "f \<in> set (pendingFunctors (queueInLoop True Delete_Conn l)) \<Longrightarrow>
      f \<in> set (pendingFunctors l) \<or> functor_ok c f" for f
    by (auto simp: functor_ok_def)
qed

lemma queue_inv:
  assumes "client_inv (l, c)" and "functor_ok c f"
  shows "client_inv (queueInLoop here f l, c) \<and> client_edge (l, c) (queueInLoop here f l, c)"
  using assms by (intro client_inv_tables) (auto simp: client_inv_def)

lemma closeSendConn_inv:
  assumes "client_inv (l, c)"
  shows "client_inv (closeSendConn k (l, c)) \<and> client_edge (l, c) (closeSendConn k (l, c))"
proof (cases "sendconns c k")
  case None
  with queue_inv [OF assms, of Delete_Conn] show ?thesis by (simp add: closeSendConn_def functor_ok_def)
next
  case (Some ptr)
  have "holds (c\<lparr>sendconns := (sendconns c)(k \<mapsto> None)\<rparr>) i q \<longleftrightarrow> i \<noteq> Shared k \<and> holds c i q"
    if "i \<noteq> Doomed" for i q using that by (cases i) auto
  from doom_inv [OF assms, of "Shared k" "c\<lparr>sendconns := (sendconns c)(k \<mapsto> None)\<rparr>" ptr] this Some
  show ?thesis by (auto simp: closeSendConn_def)
qed

lemma closeGetConn_inv:
  assumes "client_inv (l, c)"
  shows "client_inv (closeGetConn k (l, c)) \<and> client_edge (l, c) (closeGetConn k (l, c))"
proof (cases "getconns c k")
  case None
  with queue_inv [OF assms, of Delete_Conn] show ?thesis by (simp add: closeGetConn_def functor_ok_def)
next
  case (Some ptr)
  have "holds (c\<lparr>getconns := (getconns c)(k \<mapsto> None)\<rparr>) i q \<longleftrightarrow> i \<noteq> Got k \<and> holds c i q"
    if "i \<noteq> Doomed" for i q using that by (cases i) auto
  from doom_inv [OF assms, of "Got k" "c\<lparr>getconns := (getconns c)(k \<mapsto> None)\<rparr>" ptr] this Some
  show ?thesis by (auto simp: closeGetConn_def)
qed

lemma closePendConn_inv:
  assumes "client_inv (l, c)"
  shows "client_inv (closePendConn fd (l, c)) \<and> client_edge (l, c) (closePendConn fd (l, c))"
proof (cases "pendingconns c fd")
  case None
  with assms show ?thesis by (simp add: closePendConn_def)
next
  case (Some ptr)
  have "holds (c\<lparr>pendingconns := (pendingconns c)(fd \<mapsto> None)\<rparr>) i q \<longleftrightarrow> i \<noteq> Pend fd \<and> holds c i q"
    if "i \<noteq> Doomed" for i q using that by (cases i) auto
  from doom_inv [OF assms, of "Pend fd" "c\<lparr>pendingconns := (pendingconns c)(fd \<mapsto> None)\<rparr>" ptr] this Some
  show ?thesis by (auto simp: closePendConn_def)
qed

end
