(* ===== verification/Client_Objects.thy ===== *)
theory Client_Objects
  imports Client_Inv
begin

text \<open>
  The invariant of the client under what its connections do to themselves and ask of it: an object
  is replaced by its new state, then the requests are done one by one.
\<close>

section \<open>Objects that change\<close>

lemma object_held:
  assumes "table_inv c" and "objects c p = Some x"
  obtains h where "holds c h p" "slot_ok h x"
proof -
  from assms have "objects c p \<noteq> None" by simp
  with assms(1) obtain h where "holds c h p" unfolding table_inv_def by blast
  with assms that show thesis unfolding table_inv_def by blast
qed

lemma held_object:
  assumes "table_inv c" and "holds c h p"
  obtains x where "objects c p = Some x" "slot_ok h x" "object_ok x" "p < next_obj c"
proof -
  from assms have "objects c p \<noteq> None" unfolding table_inv_def by blast
  then obtain x where "objects c p = Some x" by blast
  with assms that show thesis unfolding table_inv_def by blast
qed

lemma table_change:
  assumes c: "table_inv c" and old: "holds c h p" and y: "slot_ok h' y" "object_ok y"
    and obj: "objects c' = (objects c)(p \<mapsto> y)" "next_obj c' = next_obj c"
    and holds': "\<And>i q. holds c' i q \<longleftrightarrow> (if q = p then i = h' else holds c i q)"
  shows "table_inv c'"
proof -
  note t = c [unfolded table_inv_def]
  show ?thesis
    unfolding table_inv_def obj
  proof (intro conjI allI)
    fix q
    show "(((objects c)(p \<mapsto> y)) q \<noteq> None) = (\<exists>h. holds c' h q)"
      using t by (cases "q = p") (auto simp: holds')
    fix x
    from held_object [OF c old] have "p < next_obj c" .
    then show "((objects c)(p \<mapsto> y)) q = Some x \<longrightarrow> object_ok x \<and> q < next_obj c"
      using t y by (cases "q = p") auto
  next
    fix i i' q
    show "holds c' i q \<longrightarrow> holds c' i' q \<longrightarrow> i = i'" using t by (cases "q = p") (auto simp: holds')
  next
    fix i q x
    show "holds c' i q \<longrightarrow> ((objects c)(p \<mapsto> y)) q = Some x \<longrightarrow> slot_ok i x"
      using t y by (cases "q = p") (auto simp: holds')
  qed
qed

lemma socks_change:
  assumes "socks_inv c" and "objects c p = Some x" and "same_kind x y" and "objects c' = (objects c)(p \<mapsto> y)"
  shows "socks_inv c'"
proof -
  have old: "\<exists>s. objects c q = Some (Sender s) \<and> sock s = sock t"
    if "objects c' q = Some (Sender t)" for q t
    using that assms(2-4) by (cases "q = p") (auto simp: same_kind_def split: conn_object.splits)
  show ?thesis
    unfolding socks_inv_def
  proof (intro allI impI)
    fix q r s t
    assume "objects c' q = Some (Sender s)" "objects c' r = Some (Sender t)" "sock s = sock t"
    with old [of q s] old [of r t] assms(1) show "q = r" unfolding socks_inv_def by metis
  qed
qed

lemma client_change:
  assumes st: "client_inv (l, c)" and x: "objects c p = Some x" and y: "same_kind x y"
    and t: "table_inv c'" and obj: "objects c' = (objects c)(p \<mapsto> y)" "next_obj c' = next_obj c"
    and dom: "dom (sendconns c) \<subseteq> dom (sendconns c')"
  shows "client_inv (l, c') \<and> client_edge (l, c) (l, c')"
proof -
  have e: "client_edge (l, c) (l, c')" using obj x y dom by (auto simp: client_edge_def)
  have "functor_ok c' f" if "f \<in> set (pendingFunctors l)" for f
    using functor_ok_edge [OF e, of f] st that by (auto simp: client_inv_def)
  with e t st socks_change [OF _ x y obj(1)] show ?thesis by (simp add: client_inv_def)
qed

lemma store_table:
  assumes t: "table_inv c" and h: "holds c h p" and y: "slot_ok h y" "object_ok y"
  shows "table_inv (c\<lparr>objects := (objects c)(p \<mapsto> y)\<rparr>)"
proof (rule table_change [OF t h y])
  fix i q
  have "holds (c\<lparr>objects := (objects c)(p \<mapsto> y)\<rparr>) i q = holds c i q" by (cases i) simp_all
  then show "holds (c\<lparr>objects := (objects c)(p \<mapsto> y)\<rparr>) i q \<longleftrightarrow> (if q = p then i = h else holds c i q)"
    using holds_unique [OF t h, of i] h by auto
qed simp_all

lemma store_inv:
  assumes st: "client_inv st" and x: "objects (snd st) p = Some x" and y: "same_kind x y" "object_ok y"
    and slot: "\<And>h. slot_ok h x \<Longrightarrow> slot_ok h y"
  shows "client_inv (store_object p y st) \<and> client_edge st (store_object p y st)"
proof -
  obtain l c where lc: "st = (l, c)" by (cases st)
  have t: "table_inv c" using st lc by (simp add: client_inv_def)
  let ?c = "c\<lparr>objects := (objects c)(p \<mapsto> y)\<rparr>"
  have px: "objects c p = Some x" using x lc by simp
  from object_held [OF t px] obtain h where h: "holds c h p" "slot_ok h x" .
  have "table_inv ?c" by (rule store_table [OF t h(1) slot [OF h(2)] y(2)])
  from client_change [OF _ _ y(1) this] st x lc show ?thesis by (simp add: store_object_def)
qed

section \<open>What a connection asks for\<close>

lemma send_action_inv:
  assumes st: "client_inv st" and a: "harmless s a" and p: "target_ok (snd st) p \<or> a = own_close s"
  shows "\<exists>st'. send_action p a st = Inr st' \<and> client_inv st' \<and> client_edge st st'"
proof -
  obtain l c where lc: "st = (l, c)" by (cases st)
  note cl = closeSendConn_inv [OF st [unfolded lc]] closePendConn_inv [OF st [unfolded lc]]
  have q: "client_inv (queueInLoop True f l, c) \<and> client_edge (l, c) (queueInLoop True f l, c)"
    if "functor_ok c f" for f using queue_inv [OF st [unfolded lc] that] .
  from a consider "a = own_close s" | "a = Queue_Stream" | ps where "a = Queue_Loss ps"
    by (auto simp: harmless_def)
  then show ?thesis
  proof cases
    case 1
    then show ?thesis using cl by (simp add: lc own_close_def send_action_def del: split_paired_Ex)
  next
    case 2
    with p q [of "Send_Stream p"] show ?thesis by (simp add: lc functor_ok_def send_action_def own_close_def split: if_splits)
  next
    case (3 ps)
    with p q [of "Send_Loss p ps"] show ?thesis by (simp add: lc functor_ok_def send_action_def own_close_def split: if_splits)
  qed
qed

lemma send_actions_inv:
  assumes "client_inv st" and "\<forall>a \<in> set as. harmless s a"
    and "target_ok (snd st) p \<or> set as \<subseteq> {own_close s}"
  shows "\<exists>st'. foldE (send_action p) as st = Inr st' \<and> client_inv st' \<and> client_edge st st'"
  using assms
proof (induction as arbitrary: st)
  case Nil
  then show ?case by simp
next
  case (Cons a as)
  then obtain st1 where st1: "send_action p a st = Inr st1" "client_inv st1" "client_edge st st1"
    using send_action_inv [OF Cons.prems(1), of s a p] by auto
  have "target_ok (snd st1) p \<or> set as \<subseteq> {own_close s}"
    using Cons.prems(3) target_ok_edge [OF st1(3)] by auto
  with Cons.IH [OF st1(2)] Cons.prems(2) obtain st2 where
    "foldE (send_action p) as st1 = Inr st2" "client_inv st2" "client_edge st1 st2" by auto
  with st1 show ?case by (auto intro: client_edge_trans)
qed

lemma get_actions_inv:
  assumes "client_inv st"
  shows "client_inv (fold get_action as st) \<and> client_edge st (fold get_action as st)"
  using assms
proof (induction as arbitrary: st)
  case Nil
  then show ?case by simp
next
  case (Cons a as)
  obtain l c where lc: "st = (l, c)" by (cases st)
  have "client_inv (get_action a st) \<and> client_edge st (get_action a st)"
    using closeGetConn_inv [of l c] Cons.prems by (cases a) (simp add: get_action_def lc)
  with Cons.IH [of "get_action a st"] show ?case by (auto intro: client_edge_trans)
qed

section \<open>After an operation of a connection\<close>

abbreviation settled :: "send_conn \<Rightarrow> send_conn" where
  "settled s \<equiv> s\<lparr>Send_Conn.actions := []\<rparr>"

lemma settled_inv [simp]: "send_inv (settled s) = send_inv s"
  by (simp add: send_inv_def fun_eq_iff)

lemma tame_settled:
  assumes "tame s s'" and "Send_Conn.actions s = []"
  shows "\<forall>a \<in> set (Send_Conn.actions s'). harmless s a" and "sock (settled s') = sock s"
    and "Send_Conn.code (settled s') = Send_Conn.code s"
    and "Send_Conn.state (settled s') = Send_Conn.WAIT_CODE \<longleftrightarrow> Send_Conn.state s = Send_Conn.WAIT_CODE"
  using assms by (auto simp: tame_def)

lemma tame_slot:
  "tame s s' \<Longrightarrow> slot_ok h (Sender s) \<Longrightarrow> slot_ok h (Sender (settled s'))"
  by (cases h) (auto simp: slot_ok_def tame_def)

lemma object_next: "objects (snd st) p = Some x \<Longrightarrow> client_inv st \<Longrightarrow> p < next_obj (snd st) \<and> object_ok x"
  by (auto simp: client_inv_def table_inv_def)

lemma after_tame:
  assumes st: "client_inv st" and p: "objects (snd st) p = Some (Sender s)" and t: "tame s s'"
    and inv: "\<And>f. send_inv s f \<Longrightarrow> send_inv s' f"
    and ok: "(\<exists>f. send_inv s f) \<or> idle_sender s' \<and> set (Send_Conn.actions s') \<subseteq> {own_close s}"
  shows "\<exists>st'. after_sender p (Inr s') st = Inr st' \<and> client_inv st' \<and> client_edge st st'"
proof -
  have acts: "Send_Conn.actions s = []" using object_next [OF p st] by (simp add: object_ok_def)
  have k: "same_kind (Sender s) (Sender (settled s'))" using t inv by (simp add: same_kind_def tame_def)
  have "(\<exists>f. send_inv s' f) \<or> idle_sender s'" using ok inv by blast
  then have o': "object_ok (Sender (settled s'))" by (simp add: object_ok_def idle_sender_def)
  from store_inv [OF st p k o' tame_slot [OF t]]
  have st1: "client_inv (store_object p (Sender (settled s')) st)"
    "client_edge st (store_object p (Sender (settled s')) st)" by simp_all
  have "target_ok (snd (store_object p (Sender (settled s')) st)) p \<or> set (Send_Conn.actions s') \<subseteq> {own_close s}"
    using ok inv object_next [OF p st] by (auto simp: target_ok_def store_object_def)
  from send_actions_inv [OF st1(1) tame_settled(1) [OF t acts] this] st1(2) show ?thesis
    by (auto simp: after_sender_def intro: client_edge_trans)
qed

lemma after_getter:
  assumes st: "client_inv st" and p: "objects (snd st) p = Some (Getter g)" and t: "calm g g'" and inv: "get_inv g'"
  shows "\<exists>st'. after_getter p (Inr g') st = Inr st' \<and> client_inv st' \<and> client_edge st st'"
proof -
  let ?y = "Getter (g'\<lparr>Get_Conn.actions := []\<rparr>)"
  have o': "object_ok ?y" using inv by (simp add: object_ok_def get_inv_def)
  have sl: "slot_ok h ?y" if "slot_ok h (Getter g)" for h
    using that t by (cases h) (auto simp: slot_ok_def calm_def)
  have "same_kind (Getter g) ?y" by (simp add: same_kind_def)
  from store_inv [OF st p this o' sl] get_actions_inv [of "store_object p ?y st" "Get_Conn.actions g'"]
  show ?thesis by (auto simp: after_getter_def intro: client_edge_trans)
qed

section \<open>A connection that is given its code\<close>

text \<open>The one request that can fail: the code has an entry already.\<close>

definition code_taken :: "client \<Rightarrow> send_conn \<Rightarrow> u32 \<Rightarrow> bool" where
  "code_taken c s k \<longleftrightarrow> pendingconns c (sock s) \<noteq> None \<and> sendconns c k \<noteq> None"

text \<open>A connection that has its code moves from the pending entries to the shared ones, or stays doomed, its pending entry a null pointer.\<close>

lemma pending_owner:
  assumes st: "client_inv (l, c)" and p: "objects c p = Some (Sender s)" and w: "Send_Conn.state s = Send_Conn.WAIT_CODE"
    and h: "holds c h p" "slot_ok h (Sender s)" and ptr: "pendingconns c (sock s) = Some ptr"
  shows "ptr = None \<and> h = Doomed \<or> ptr = Some p \<and> h = Pend (sock s)"
proof (cases ptr)
  case None
  then have "h \<noteq> Pend (sock s)" using h(1) ptr by auto
  with h(2) w None show ?thesis by (cases h) (auto simp: slot_ok_def)
next
  case (Some q)
  have t: "table_inv c" and so: "socks_inv c" using st by (simp_all add: client_inv_def)
  have q: "holds c (Pend (sock s)) q" using ptr Some by simp
  from held_object [OF t q] obtain z where z: "objects c q = Some z" "slot_ok (Pend (sock s)) z" .
  then obtain t' where "objects c q = Some (Sender t')" "sock t' = sock s" using z by (auto simp: slot_ok_def)
  with so p have "q = p" unfolding socks_inv_def by metis
  with q Some holds_unique [OF t h(1)] show ?thesis by auto
qed

lemma after_shared:
  assumes st: "client_inv st" and p: "objects (snd st) p = Some (Sender s)"
    and w: "Send_Conn.state s = Send_Conn.WAIT_CODE" and s': "s' = (shared_as s k)\<lparr>Send_Conn.conn := u\<rparr>"
    and inv: "\<And>f. send_inv s f \<Longrightarrow> send_inv s' f" and f: "send_inv s f"
  shows "if code_taken (snd st) s k then after_sender p (Inr s') st = Inl Assert_Fail
    else \<exists>st'. after_sender p (Inr s') st = Inr st' \<and> client_inv st' \<and> client_edge st st'"
proof -
  obtain l c where lc: "st = (l, c)" by (cases st)
  have acts: "Send_Conn.actions s' = [Move_Pend_Conn (sock s) k]"
    using object_next [OF p st] by (simp add: s' shared_as_def Send_Conn.act_def object_ok_def)
  let ?y = "Sender (settled s')"
  let ?c = "c\<lparr>objects := (objects c)(p \<mapsto> ?y)\<rparr>"
  have run: "after_sender p (Inr s') st = movePendConn (sock s) k (l, ?c)"
    by (simp add: after_sender_def acts send_action_def store_object_def lc foldE_Nil bindE_right)
  have t: "table_inv c" using st lc by (simp add: client_inv_def)
  have px: "objects c p = Some (Sender s)" using p lc by simp
  have so': "sock s' = sock s" by (simp add: s' shared_as_def Send_Conn.act_def)
  have kind: "same_kind (Sender s) ?y" using inv so' by (simp add: same_kind_def)
  have oy: "object_ok ?y" using inv [OF f] by (auto simp: object_ok_def)
  from object_held [OF t px] obtain h where h: "holds c h p" and hs: "slot_ok h (Sender s)" .
  consider (none) "pendingconns c (sock s) = None" | (taken) ptr e where "pendingconns c (sock s) = Some ptr" "sendconns c k = Some e"
    | (free) ptr where "pendingconns c (sock s) = Some ptr" "sendconns c k = None" by (metis not_Some_eq)
  then show ?thesis
  proof cases
    case none
    have "h = Doomed" using hs w h none by (cases h) (auto simp: slot_ok_def)
    then have "table_inv ?c" using h by (intro store_table [OF t h _ oy]) simp_all
    from client_change [OF _ px kind this] st lc show ?thesis using run none by (simp add: movePendConn_def code_taken_def)
  next
    case taken
    with run show ?thesis by (simp add: movePendConn_def code_taken_def lc)
  next
    case free
    let ?c' = "?c\<lparr>sendconns := (sendconns c)(k \<mapsto> ptr), pendingconns := (pendingconns c)(sock s := None)\<rparr>"
    have run': "after_sender p (Inr s') st = Inr (l, ?c')" using run free by (simp add: movePendConn_def)
    let ?h = "if ptr = None then Doomed else Shared k"
    note owner = pending_owner [OF st [unfolded lc] px w h hs free(1)]
    have "holds ?c' i q \<longleftrightarrow> (if q = p then i = ?h else holds c i q)" for i q
      using owner h free holds_unique [OF t h, of i] holds_unique [OF t, of "Pend (sock s)" q i] by (cases i) auto
    moreover have "slot_ok ?h ?y" by (simp add: slot_ok_def s' shared_as_def Send_Conn.act_def)
    ultimately have "table_inv ?c'" using oy by (intro table_change [OF t h]) simp_all
    from client_change [OF _ px kind this] st lc free run' show ?thesis by (auto simp: code_taken_def)
  qed
qed

end
