(* ===== verification/Client_Commands.thy ===== *)
theory Client_Commands
  imports Client_Objects
begin

text \<open>
  The commands of the user keep the invariant of the client: a share or a download creates one
  connection, a chat message goes to a connection that exists or stops the client.
\<close>

section \<open>Connections that come into being\<close>

definition env_ok :: "os_env \<Rightarrow> bool" where
  "env_ok e \<longleftrightarrow> 0 \<le> new_fd e \<and> (\<exists>k. 0 \<le> binds e k (ports e 0)) \<and> crc_ok (crc e) \<and>
     (\<forall>path f. files e path = Some f \<longrightarrow> length (path_filename path) \<le> 255 \<and> length f \<le> 4294966272)"

text \<open>A new connection takes a place in a table; what the place held before is destroyed.\<close>

lemma table_new:
  assumes c: "table_inv c" and p: "p = next_obj c" and h: "h \<noteq> Doomed" "slot_ok h y" "object_ok y"
    and obj: "\<And>q. objects c' q = (if q = p then Some y else if holds c h q then None else objects c q)"
    and nxt: "next_obj c' = Suc p"
    and holds': "\<And>i q. holds c' i q \<longleftrightarrow> (if i = h then q = p else holds c i q)"
  shows "table_inv c'"
proof -
  have fresh: "\<not> holds c i p" for i
  proof
    assume "holds c i p"
    from held_object [OF c this] p show False by simp
  qed
  have part: "(objects c q \<noteq> None) = (\<exists>h. holds c h q)"
    "objects c q = Some x \<Longrightarrow> object_ok x \<and> q < next_obj c" "holds c i q \<Longrightarrow> objects c q = Some x \<Longrightarrow> slot_ok i x" for i q x
    using c by (auto simp: table_inv_def)
  show ?thesis
    unfolding table_inv_def
  proof (intro conjI allI)
    fix q
    show "(objects c' q \<noteq> None) = (\<exists>h. holds c' h q)"
    proof (cases "q = p")
      case True
      then show ?thesis by (auto simp: obj holds')
    next
      case False
      show ?thesis
      proof (cases "holds c h q")
        case True
        have "\<not> holds c' i q" for i
          using False holds_unique [OF c True, of i] by (cases "i = h") (simp_all add: holds', blast)
        with True False show ?thesis by (simp add: obj)
      next
        case nh: False
        have "(\<exists>i. holds c' i q) = (\<exists>i. holds c i q)" using nh False by (auto simp: holds')
        with part(1) [of q] nh False show ?thesis by (simp add: obj)
      qed
    qed
    fix x
    show "objects c' q = Some x \<longrightarrow> object_ok x \<and> q < next_obj c'"
      using part(2) [of q x] h p nxt by (auto simp: obj split: if_splits)
  next
    fix i i' q
    show "holds c' i q \<longrightarrow> holds c' i' q \<longrightarrow> i = i'"
      using fresh holds_unique [OF c, of i q i'] by (auto simp: holds' split: if_splits)
  next
    fix i q x
    show "holds c' i q \<longrightarrow> objects c' q = Some x \<longrightarrow> slot_ok i x"
      using part(3) [of i q x] fresh h by (auto simp: holds' obj split: if_splits)
  qed
qed

lemma client_new:
  assumes st: "client_inv (l, c)" and p: "p = next_obj c" and h: "h \<noteq> Doomed" "slot_ok h y" "object_ok y"
    and obj: "\<And>q. objects c' q = (if q = p then Some y else if holds c h q then None else objects c q)"
    and nxt: "next_obj c' = Suc p" and dom: "dom (sendconns c) \<subseteq> dom (sendconns c')"
    and holds': "\<And>i q. holds c' i q \<longleftrightarrow> (if i = h then q = p else holds c i q)"
    and sock: "\<And>q s t. objects c q = Some (Sender s) \<Longrightarrow> y = Sender t \<Longrightarrow> sock s \<noteq> sock t"
  shows "client_inv (l, c') \<and> client_edge (l, c) (l, c')"
proof -
  have t: "table_inv c" and so: "socks_inv c" using st by (simp_all add: client_inv_def)
  have e: "client_edge (l, c) (l, c')" using p nxt dom by (auto simp: client_edge_def obj)
  have "functor_ok c' f" if "f \<in> set (pendingFunctors l)" for f
    using functor_ok_edge [OF e, of f] st that by (auto simp: client_inv_def)
  moreover have "socks_inv c'"
    unfolding socks_inv_def
  proof (intro allI impI)
    fix q r s u
    assume "objects c' q = Some (Sender s)" "objects c' r = Some (Sender u)" "sock s = sock u"
    then show "q = r"
      using so [unfolded socks_inv_def, rule_format, of q s r u] sock [of q s u] sock [of r u s]
      by (auto simp: obj split: if_splits)
  qed
  ultimately show ?thesis using e table_new [OF t p h obj nxt holds'] by (simp add: client_inv_def)
qed

section \<open>Commands\<close>

lemma share_result:
  assumes e: "env_ok e" and u: "bound u" "udp_inv u" and b: "buffer_inv b"
  shows "\<exists>s'. shareFile (crc e) (files e) (uninit_file e) (fresh_sender fd u server uninit) b = Inr s' \<and>
    sock s' = fd \<and> Send_Conn.code s' = 0 \<and>
    ((\<exists>f. send_inv s' f) \<and> Send_Conn.actions s' = [] \<or>
     idle_sender s' \<and> Send_Conn.actions s' = [Close_Pend_Conn fd])"
proof -
  let ?s = "fresh_sender fd u server uninit"
  have pre: "Send_Conn.state ?s = Send_Conn.IDLE" "bound (Send_Conn.conn ?s)" "udp_inv (Send_Conn.conn ?s)" "sendWindow ?s = 0"
    using u by (simp_all add: fresh_sender_def)
  show ?thesis
  proof (cases "files e (contents b)")
    case None
    from shareFile_unreadable [where fs = "files e" and crc = "crc e" and u = "uninit_file e", OF pre(1,2) b None]
    show ?thesis
      using u by (auto simp: fresh_sender_def Send_Conn.closeSelf_def Send_Conn.act_def idle_sender_def)
  next
    case (Some f)
    have "length (path_filename (contents b)) \<le> 255 \<and> length f \<le> 4294966272" "crc_ok (crc e)"
      using e Some unfolding env_ok_def by blast+
    then have l: "length (path_filename (contents b)) \<le> 256" "length f \<le> 4294966272" "crc_ok (crc e)" by simp_all
    from shareFile_opens [where fs = "files e" and crc = "crc e" and u = "uninit_file e", OF pre b refl Some l(3,1,2)]
    show ?thesis by (auto simp: fresh_sender_def)
  qed
qed

lemma word_buffer:
  assumes "length w < 2 ^ 40"
  shows "\<exists>b. append new_Buffer w = Inr b \<and> buffer_inv b \<and> contents b = w"
  using sink.push_all [of new_Buffer "[w]"] assms by (simp add: bindE_right foldE_Nil)

definition cmd_env_ok :: "client \<Rightarrow> os_env \<Rightarrow> bool" where
  "cmd_env_ok c e \<longleftrightarrow> env_ok e \<and> (\<forall>p s. objects c p = Some (Sender s) \<longrightarrow> sock s \<noteq> new_fd e)"

lemma destroy_sel [simp]:
  "pendingconns (destroy e c) = pendingconns c" "sendconns (destroy e c) = sendconns c"
  "getconns (destroy e c) = getconns c" "deleteconns (destroy e c) = deleteconns c"
  "next_obj (destroy e c) = next_obj c"
  "objects (destroy e c) q = (if e = Some (Some q) then None else objects c q)"
  by (auto simp: destroy_def split: option.splits)

lemma cmd_share_ok:
  assumes st: "client_inv st" and e: "cmd_env_ok (snd st) e" and w: "length w < 2 ^ 40"
  shows "\<exists>st'. cmd_share e w st = Inr st' \<and> client_inv st' \<and> client_edge st st'"
proof -
  obtain l c where lc: "st = (l, c)" by (cases st)
  from e obtain k where fd: "0 \<le> new_fd e" "0 \<le> binds e k (ports e 0)" by (auto simp: cmd_env_ok_def env_ok_def)
  from new_sender [where fd = "new_fd e" and os = "binds e" and k = k and ports = "ports e", OF fd, of "server_addr c" "uninit_addr e"]
  obtain u where u: "new_SendConnManager (new_fd e) (ports e) (binds e) (server_addr c) (uninit_addr e) =
      Inr (fresh_sender (new_fd e) u (server_addr c) (uninit_addr e))" "bound u" "udp_inv u" by blast
  from word_buffer [OF w] obtain b where b: "append new_Buffer w = Inr b" "buffer_inv b" by blast
  from share_result [OF _ u(2,3) b(2), of e "new_fd e" "server_addr c" "uninit_addr e"] e obtain s' where
    s': "shareFile (crc e) (files e) (uninit_file e) (fresh_sender (new_fd e) u (server_addr c) (uninit_addr e)) b = Inr s'"
    "sock s' = new_fd e" "Send_Conn.code s' = 0"
    and r: "(\<exists>f. send_inv s' f) \<and> Send_Conn.actions s' = [] \<or>
     idle_sender s' \<and> Send_Conn.actions s' = [Close_Pend_Conn (new_fd e)]" by (auto simp: cmd_env_ok_def)
  let ?p = "next_obj c" and ?y = "Sender (settled s')" and ?h = "Pend (new_fd e)"
  let ?c1 = "destroy (pendingconns c (new_fd e)) c"
  let ?c2 = "?c1\<lparr>next_obj := Suc ?p, pendingconns := (pendingconns ?c1)(new_fd e \<mapsto> Some ?p)\<rparr>"
  let ?c3 = "?c2\<lparr>objects := (objects ?c2)(?p \<mapsto> ?y)\<rparr>"
  have run: "cmd_share e w st = foldE (send_action ?p) (Send_Conn.actions s') (l, ?c3)"
    by (simp add: cmd_share_def lc b(1) u(1) fresh_sender_def [symmetric] Let_def s'(1) after_sender_def store_object_def)
      (simp add: fresh_sender_def)
  have y: "slot_ok ?h ?y" "object_ok ?y"
    using s' r by (auto simp: slot_ok_def object_ok_def idle_sender_def)
  have hl: "holds ?c3 i q \<longleftrightarrow> (if i = ?h then q = ?p else holds c i q)" for i q
    by (cases i) auto
  have so: "sock s \<noteq> sock t" if "objects c q = Some (Sender s)" "?y = Sender t" for q s t
    using that e s'(2) lc by (auto simp: cmd_env_ok_def)
  have ob: "objects ?c3 q = (if q = ?p then Some ?y else if holds c ?h q then None else objects c q)" for q by simp
  from client_new [OF st [unfolded lc] refl _ y ob _ _ hl so]
  have n: "client_inv (l, ?c3) \<and> client_edge (l, c) (l, ?c3)" by simp
  show ?thesis
  proof (cases "Send_Conn.actions s' = []")
    case True
    with run n lc show ?thesis by simp
  next
    case False
    with r have "Send_Conn.actions s' = [Close_Pend_Conn (new_fd e)]" by blast
    with run have "cmd_share e w st = Inr (closePendConn (new_fd e) (l, ?c3))"
      by (simp add: send_action_def)
    moreover have "client_inv (closePendConn (new_fd e) (l, ?c3)) \<and>
        client_edge (l, ?c3) (closePendConn (new_fd e) (l, ?c3))"
      using n by (intro closePendConn_inv) blast
    ultimately show ?thesis using n lc by (auto intro: client_edge_trans)
  qed
qed

lemma cmd_get_ok:
  assumes st: "client_inv st" and e: "cmd_env_ok (snd st) e"
  shows "\<exists>st'. cmd_get e w st = Inr st' \<and> client_inv st' \<and> client_edge st st'"
proof -
  obtain l c where lc: "st = (l, c)" by (cases st)
  from e obtain k where fd: "0 \<le> new_fd e" "0 \<le> binds e k (ports e 0)" by (auto simp: cmd_env_ok_def env_ok_def)
  from new_getter [where fd = "new_fd e" and os = "binds e" and k = k and ports = "ports e", OF fd, of "server_addr c" "uninit_addr e" "uninit_data e"]
  obtain u where u: "new_GetConnManager (new_fd e) (ports e) (binds e) (server_addr c) (uninit_addr e) (uninit_data e) =
      Inr (fresh_getter u (server_addr c) (uninit_addr e) (uninit_data e))" "bound u" "udp_inv u" "sent u = []" by blast
  from getFile_sends [OF u(2-4), of "server_addr c" "uninit_addr e" "uninit_data e" "atoi w"] obtain g where
    g: "getFile (fresh_getter u (server_addr c) (uninit_addr e) (uninit_data e)) (atoi w) = Inr g" "get_inv g"
    "Get_Conn.code g = atoi w" "Get_Conn.actions g = []" by blast
  show ?thesis
  proof (cases "atoi w = 0")
    case True
    then show ?thesis using st by (simp add: cmd_get_def lc)
  next
    case False
    let ?p = "next_obj c" and ?y = "Getter (g\<lparr>Get_Conn.actions := []\<rparr>)" and ?h = "Got (atoi w)"
    let ?c1 = "destroy (getconns c (atoi w)) c"
    let ?c2 = "?c1\<lparr>next_obj := Suc ?p, getconns := (getconns ?c1)(atoi w \<mapsto> Some ?p)\<rparr>"
    let ?c3 = "?c2\<lparr>objects := (objects ?c2)(?p \<mapsto> ?y)\<rparr>"
    have run: "cmd_get e w st = Inr (l, ?c3)"
      using False by (simp add: cmd_get_def lc u(1) Let_def g(1,4) after_getter_def store_object_def)
    have y: "slot_ok ?h ?y" "object_ok ?y"
      using g by (auto simp: slot_ok_def object_ok_def get_inv_def)
    have hl: "holds ?c3 i q \<longleftrightarrow> (if i = ?h then q = ?p else holds c i q)" for i q
      by (cases i) auto
    have ob: "objects ?c3 q = (if q = ?p then Some ?y else if holds c ?h q then None else objects c q)" for q by simp
    from client_new [OF st [unfolded lc] refl _ y ob _ _ hl] run lc show ?thesis by simp
  qed
qed

section \<open>Chat\<close>

lemma chat_text_append:
  "chat_text ws = foldE (\<lambda>d b. append b d) (concat (map (\<lambda>w. [w, [0x20]]) ws)) new_Buffer"
proof -
  have "foldE (\<lambda>w b. bindE (append b w) (\<lambda>b1. append b1 [0x20])) ws b =
      foldE (\<lambda>d b. append b d) (concat (map (\<lambda>w. [w, [0x20]]) ws)) b" for b
  proof (induction ws arbitrary: b)
    case (Cons w ws)
    then have "foldE (\<lambda>w b. bindE (append b w) (\<lambda>b1. append b1 [0x20])) ws =
        foldE (\<lambda>d b. append b d) (concat (map (\<lambda>w. [w, [0x20]]) ws))" by blast
    then show ?case by (simp add: bindE_assoc foldE_Cons)
  qed simp
  then show ?thesis by (simp add: chat_text_def)
qed

lemma read_words_bytes: "length (concat (read_words t)) \<le> length t \<and> [] \<notin> set (read_words t)"
proof (induction t rule: read_words.induct)
  case (1 t)
  let ?t = "dropWhile is_space t"
  show ?case
  proof (cases "?t = []")
    case True
    then show ?thesis by (simp add: read_words.simps [of t] Let_def)
  next
    case False
    let ?w = "takeWhile (\<lambda>b. \<not> is_space b) ?t" and ?r = "dropWhile (\<lambda>b. \<not> is_space b) ?t"
    have eq: "read_words t = ?w # read_words ?r" using False by (simp add: read_words.simps [of t] Let_def)
    have "\<not> is_space (hd ?t)" using hd_dropWhile False by blast
    then have "?w \<noteq> []" using False by (cases ?t) simp_all
    moreover have "length ?w + length ?r = length ?t" by (metis length_append takeWhile_dropWhile_id)
    moreover have "length ?t \<le> length t" by (rule length_dropWhile_le)
    moreover have "length (concat (read_words ?r)) \<le> length ?r \<and> [] \<notin> set (read_words ?r)"
      using 1 [OF refl False] by simp
    ultimately show ?thesis unfolding eq by (intro conjI) (simp, force)
  qed
qed

lemma length_concat_nonempty: "[] \<notin> set ws \<Longrightarrow> length ws \<le> length (concat ws)"
proof (induction ws)
  case (Cons w ws)
  then show ?case by (cases w) simp_all
qed simp

lemma length_concat_spaced: "length (concat (concat (map (\<lambda>w. [w, [0x20]]) ws))) = length (concat ws) + length ws"
  by (induction ws) simp_all

lemma read_words_short:
  assumes "length t \<le> 1024"
  shows "length (concat (concat (map (\<lambda>w. [w, [0x20]]) (drop n (read_words t))))) \<le> 2048"
    and "w \<in> set (read_words t) \<Longrightarrow> length w \<le> 1024"
proof -
  note b = read_words_bytes [of t]
  have "concat (read_words t) = concat (take n (read_words t)) @ concat (drop n (read_words t))"
    by (simp flip: concat_append)
  then have "length (concat (drop n (read_words t))) \<le> length (concat (read_words t))" by simp
  moreover have "length (drop n (read_words t)) \<le> length (concat (read_words t))"
    using length_concat_nonempty [of "read_words t"] b by simp
  ultimately show "length (concat (concat (map (\<lambda>w. [w, [0x20]]) (drop n (read_words t))))) \<le> 2048"
    using b assms unfolding length_concat_spaced by linarith
  show "w \<in> set (read_words t) \<Longrightarrow> length w \<le> 1024"
    using b assms member_le_sum_list [of "length w" "map length (read_words t)"]
    by (auto simp: length_concat)
qed

lemma chat_text_ok:
  assumes "length (concat (concat (map (\<lambda>w. [w, [0x20]]) ws))) \<le> 2048"
  shows "\<exists>b. chat_text ws = Inr b \<and> (\<forall>h. length h \<le> kPrependSize \<longrightarrow>
    (\<exists>b'. prepend b h = Inr b' \<and> buffer_inv b' \<and> contents b' = h @ concat (map (\<lambda>w. w @ [0x20]) ws)))"
proof -
  let ?ds = "concat (map (\<lambda>w. [w, [0x20]]) ws)"
  have c: "concat ?ds = concat (map (\<lambda>w. w @ [0x20]) ws)" by (induction ws) simp_all
  have l: "length (concat ?ds) < 2 ^ 32" using assms by simp
  from prepend_header [OF l, of "[]"] obtain b where b: "foldE (\<lambda>d b. append b d) ?ds new_Buffer = Inr b"
    by auto
  have "\<exists>b'. prepend b h = Inr b' \<and> buffer_inv b' \<and> contents b' = h @ concat ?ds" if "length h \<le> kPrependSize" for h
    using prepend_header [OF l that] b by auto
  with b show ?thesis unfolding chat_text_append c by auto
qed

text \<open>The message that chat sends.\<close>

lemma chat_sender:
  assumes "bound (Send_Conn.conn s)"
    and b: "\<forall>h. length h \<le> kPrependSize \<longrightarrow> (\<exists>b'. prepend b h = Inr b' \<and> buffer_inv b' \<and> contents b' = h @ t)"
  shows "\<exists>d. Send_Conn.chatMsg s b =
    Inr (s\<lparr>Send_Conn.conn := (Send_Conn.conn s)\<lparr>sent := sent (Send_Conn.conn s) @ [(d, Send_Conn.recveraddr s)]\<rparr>\<rparr>)"
proof -
  let ?h = "header_bytes \<lparr>sign = kClientSign, mtype = type_code CHAT, dataLenth = of_nat (readableBytes b)\<rparr>"
  have "length ?h \<le> kPrependSize" by (simp add: kPrependSize_def sizeof_Header_def)
  with b obtain b' where "prepend b ?h = Inr b'" "buffer_inv b'" by blast
  then show ?thesis using send_ok [OF assms(1)] by (auto simp: Send_Conn.chatMsg_def)
qed

lemma chat_getter:
  assumes "bound (Get_Conn.conn g)"
    and b: "\<forall>h. length h \<le> kPrependSize \<longrightarrow> (\<exists>b'. prepend b h = Inr b' \<and> buffer_inv b' \<and> contents b' = h @ t)"
  shows "\<exists>d. Get_Conn.chatMsg g b = Inr (with_sent g [(d, Get_Conn.recveraddr g)])"
proof -
  let ?h = "header_bytes \<lparr>sign = kClientSign, mtype = type_code CHAT, dataLenth = of_nat (readableBytes b)\<rparr>"
  have "length ?h \<le> kPrependSize" by (simp add: kPrependSize_def sizeof_Header_def)
  with b obtain b' where "prepend b ?h = Inr b'" "buffer_inv b'" by blast
  then show ?thesis using send_ok [OF assms(1)] by (auto simp: Get_Conn.chatMsg_def with_sent_def)
qed

definition chat_target :: "client \<Rightarrow> u32 \<Rightarrow> nat option option" where
  "chat_target c k = (case getconns c k of None \<Rightarrow> sendconns c k | Some ptr \<Rightarrow> Some ptr)"

lemma sender_bound: "object_ok (Sender s) \<Longrightarrow> bound (Send_Conn.conn s)"
  by (auto simp: object_ok_def send_inv_def idle_sender_def)

lemma chat_with_getter:
  assumes st: "client_inv (l, c)" and p: "getconns c k = Some (Some p)"
    and b: "\<forall>h. length h \<le> kPrependSize \<longrightarrow> (\<exists>b'. prepend b h = Inr b' \<and> buffer_inv b' \<and> contents b' = h @ m)"
  shows "\<exists>g st'. objects c p = Some (Getter g) \<and> after_getter p (Get_Conn.chatMsg g b) (l, c) = Inr st' \<and> client_inv st' \<and> client_edge (l, c) st'"
proof -
  have t: "table_inv c" using st by (simp add: client_inv_def)
  have "holds c (Got k) p" using p by simp
  from held_object [OF t this] obtain g where g: "objects c p = Some (Getter g)" "object_ok (Getter g)"
    by (auto simp: slot_ok_def)
  then have gi: "get_inv g" by (simp add: object_ok_def)
  then have "bound (Get_Conn.conn g)" by (simp add: get_inv_def)
  from chat_getter [OF this b] obtain d where d: "Get_Conn.chatMsg g b = Inr (with_sent g [(d, Get_Conn.recveraddr g)])" by blast
  have "calm g (with_sent g [(d, Get_Conn.recveraddr g)])" by (rule calm_same) (simp_all add: with_sent_def)
  from after_getter [OF st _ this] g gi d show ?thesis by simp
qed

lemma chat_with_sender:
  assumes st: "client_inv (l, c)" and p: "sendconns c k = Some (Some p)"
    and b: "\<forall>h. length h \<le> kPrependSize \<longrightarrow> (\<exists>b'. prepend b h = Inr b' \<and> buffer_inv b' \<and> contents b' = h @ m)"
  shows "\<exists>s st'. objects c p = Some (Sender s) \<and> after_sender p (Send_Conn.chatMsg s b) (l, c) = Inr st' \<and> client_inv st' \<and> client_edge (l, c) st'"
proof -
  have t: "table_inv c" using st by (simp add: client_inv_def)
  have "holds c (Shared k) p" using p by simp
  from held_object [OF t this] obtain s where s: "objects c p = Some (Sender s)" "object_ok (Sender s)"
    by (auto simp: slot_ok_def)
  from chat_sender [OF sender_bound [OF s(2)] b] obtain s' where
    d: "Send_Conn.chatMsg s b = Inr s'" and s': "\<exists>d. s' = s\<lparr>Send_Conn.conn := (Send_Conn.conn s)\<lparr>sent := sent (Send_Conn.conn s) @ [(d, Send_Conn.recveraddr s)]\<rparr>\<rparr>"
    by blast
  have tm: "tame s s'" using s' by (intro tame_same) auto
  have iv: "send_inv s' f" if "send_inv s f" for f using that s' by (auto simp: send_inv_def udp_inv_def)
  have "(\<exists>f. send_inv s f) \<or> idle_sender s' \<and> set (Send_Conn.actions s') \<subseteq> {own_close s}"
    using s(2) s' by (auto simp: object_ok_def idle_sender_def udp_inv_def)
  from after_tame [OF st _ tm iv this] s(1) d show ?thesis by simp
qed

lemma cmd_chat_ok:
  assumes st: "client_inv st" and ws: "length (concat (concat (map (\<lambda>w. [w, [0x20]]) ws))) \<le> 2048"
  shows "if chat_target (snd st) (atoi a) = Some None then cmd_chat a ws st = Inl Null_Deref
    else \<exists>st'. cmd_chat a ws st = Inr st' \<and> client_inv st' \<and> client_edge st st'"
proof -
  obtain l c where lc: "st = (l, c)" by (cases st)
  from chat_text_ok [OF ws] obtain b where b: "chat_text ws = Inr b"
    "\<forall>h. length h \<le> kPrependSize \<longrightarrow> (\<exists>b'. prepend b h = Inr b' \<and> buffer_inv b' \<and> contents b' = h @ concat (map (\<lambda>w. w @ [0x20]) ws))"
    by blast
  note def = cmd_chat_def chat_target_def lc Let_def b(1)
  consider "getconns c (atoi a) = Some None" | p where "getconns c (atoi a) = Some (Some p)"
    | "getconns c (atoi a) = None" "sendconns c (atoi a) = None" | "getconns c (atoi a) = None" "sendconns c (atoi a) = Some None"
    | p where "getconns c (atoi a) = None" "sendconns c (atoi a) = Some (Some p)" by (metis not_Some_eq)
  then show ?thesis
  proof cases
    case 2
    with chat_with_getter [OF st [unfolded lc] _ b(2)] show ?thesis by (fastforce simp: def)
  next
    case 5
    with chat_with_sender [OF st [unfolded lc] _ b(2)] show ?thesis by (fastforce simp: def)
  qed (use st in \<open>simp_all add: def\<close>)
qed

end
