(* ===== verification/Client_Steps.thy ===== *)
theory Client_Steps
  imports Client_Commands
begin

text \<open>
  The steps of the client: events of its channels and timers, functors of its loop, and turns of
  the loop. Each either keeps the invariant or stops at one of the faults listed by \<open>event_stop\<close>
  and \<open>functor_stop\<close>.
\<close>

section \<open>Commands\<close>

definition cmd_stop :: "client \<Rightarrow> bytes \<Rightarrow> fault option" where
  "cmd_stop c d =
     (case c_text (take kCmdSize d) of
        Inl x \<Rightarrow> Some x
      | Inr t \<Rightarrow>
          let cmds = read_words t
          in if 2 < length cmds \<and> cmds ! 0 = str ''CHAT'' \<and> chat_target c (atoi (cmds ! 1)) = Some None
             then Some Null_Deref else None)"

lemma str_neq: "str ''SHARE'' \<noteq> str ''CHAT''" "str ''GET'' \<noteq> str ''CHAT''"
  by (simp_all add: str_def)

lemma c_text_short: "c_text (take kCmdSize d) = Inr t \<Longrightarrow> length t \<le> 1024"
  by (auto simp: c_text_def kCmdSize_def split: if_splits intro: le_trans [OF length_takeWhile_le])

lemma handleCmd_ok:
  assumes st: "client_inv st" and e: "cmd_env_ok (snd st) e"
  shows "case cmd_stop (snd st) d of
      Some x \<Rightarrow> handleCmd e d st = Inl x
    | None \<Rightarrow> \<exists>st'. handleCmd e d st = Inr st' \<and> client_inv st' \<and> client_edge st st'"
proof (cases "c_text (take kCmdSize d)")
  case (Inl x)
  then show ?thesis by (simp add: handleCmd_def dispatch_cmd_def cmd_stop_def)
next
  case (Inr t)
  let ?ws = "read_words t"
  note short = read_words_short [OF c_text_short [OF Inr]]
  have stay: "\<exists>st'. Inr st = (Inr st' :: client_state outcome) \<and> client_inv st' \<and> client_edge st st'"
    using st client_edge_refl by blast
  have run: "handleCmd e d st =
      (if length ?ws \<le> 1 then Inr st
       else if ?ws ! 0 = str ''SHARE'' then cmd_share e (?ws ! 1) st
       else if ?ws ! 0 = str ''GET'' then cmd_get e (?ws ! 1) st
       else if ?ws ! 0 = str ''CHAT'' then if length ?ws \<le> 2 then Inr st else cmd_chat (?ws ! 1) (drop 2 ?ws) st
       else Inr st)"
    by (simp add: handleCmd_def dispatch_cmd_def Inr Let_def)
  have stop: "cmd_stop (snd st) d =
      (if 2 < length ?ws \<and> ?ws ! 0 = str ''CHAT'' \<and> chat_target (snd st) (atoi (?ws ! 1)) = Some None
       then Some Null_Deref else None)"
    by (simp add: cmd_stop_def Inr Let_def)
  consider "length ?ws \<le> 1" | (share) "1 < length ?ws" "?ws ! 0 = str ''SHARE''" | (get) "1 < length ?ws" "?ws ! 0 = str ''GET''"
    | (chat) "2 < length ?ws" "?ws ! 0 = str ''CHAT''" | (other) "1 < length ?ws" "?ws ! 0 \<noteq> str ''SHARE''" "?ws ! 0 \<noteq> str ''GET''"
      "\<not> (2 < length ?ws \<and> ?ws ! 0 = str ''CHAT'')" by linarith
  then show ?thesis
  proof cases
    case 1
    then show ?thesis unfolding run stop using stay by simp
  next
    case share
    then have "length (?ws ! 1) < 2 ^ 40" using short(2) [OF nth_mem [of 1 ?ws]] by simp
    from cmd_share_ok [OF st e this] share show ?thesis unfolding run stop by (simp add: str_neq)
  next
    case get
    with cmd_get_ok [OF st e, of "?ws ! 1"] show ?thesis
      unfolding run stop by (cases "str ''GET'' = str ''SHARE''") (simp_all add: str_neq str_def)
  next
    case chat
    with cmd_chat_ok [OF st short(1) [of 2], of "?ws ! 1"] show ?thesis
      unfolding run stop by (simp add: str_neq [symmetric] split: if_splits)
  next
    case other
    then have "handleCmd e d st = Inr st" "cmd_stop (snd st) d = None" unfolding run stop by auto
    with stay show ?thesis by (simp del: split_paired_Ex)
  qed
qed

section \<open>Events\<close>

definition recv_ok :: "recv \<Rightarrow> bool" where
  "recv_ok r \<longleftrightarrow> (case r of Recv d src \<Rightarrow> length d \<le> kBufferSize | _ \<Rightarrow> True)"

text \<open>A new socket has a number that no socket of a sender has; datagrams fit the receive buffer.\<close>

definition client_ok :: "client_state \<Rightarrow> client_event \<Rightarrow> bool" where
  "client_ok st e \<longleftrightarrow>
     (case e of Command env d \<Rightarrow> cmd_env_ok (snd st) env | Datagram p r now os \<Rightarrow> recv_ok r | _ \<Rightarrow> True)"

definition sender_stop :: "client \<Rightarrow> send_conn \<Rightarrow> send_event \<Rightarrow> fault option" where
  "sender_stop c s e =
     (if Send_Conn.state s = Send_Conn.IDLE then None
      else if stops s e then Some Out_Of_Bounds
      else case event_code s e of
             None \<Rightarrow> None
           | Some k \<Rightarrow> if code_taken c s k then Some Assert_Fail else None)"

definition event_stop :: "client_state \<Rightarrow> client_event \<Rightarrow> fault option" where
  "event_stop st e =
     (case e of
        Command env d \<Rightarrow> cmd_stop (snd st) d
      | Datagram p r now os \<Rightarrow>
          (case objects (snd st) p of
             None \<Rightarrow> Some Use_After_Free
           | Some (Sender s) \<Rightarrow> sender_stop (snd st) s (Send_Conn.Msg r now)
           | Some (Getter g) \<Rightarrow> get_stop g (Get_Conn.Msg r now os))
      | Quiet p \<Rightarrow> if objects (snd st) p = None then Some Use_After_Free else None
      | _ \<Rightarrow> None)"

definition functor_stop :: "client_state \<Rightarrow> client_functor \<Rightarrow> fault option" where
  "functor_stop st f =
     (case f of
        Delete_Conn \<Rightarrow> None
      | Send_Stream p \<Rightarrow> if objects (snd st) p = None then Some Use_After_Free else None
      | Send_Loss p ps \<Rightarrow> if objects (snd st) p = None then Some Use_After_Free else None)"

lemma handleRead_unset:
  assumes "udp_inv u" and "recv_ok r"
  shows "Udp_Com.handleRead None u r now s = Inr (u\<lparr>tmpbuf := retrieveAll (fst (seen u r))\<rparr>, s)"
proof -
  have "Udp_Com.handleRead None u r now s = Udp_Com.handleRead (Some (\<lambda>u b src t s. Inr (u, b, s))) u r now s"
    by (simp add: Udp_Com.handleRead_def)
  with handleRead_seen [OF assms(1) assms(2) [unfolded recv_ok_def], of "\<lambda>u b src t s. Inr (u, b, s)" now s]
  show ?thesis by simp
qed

text \<open>A sender that could not open its file only empties its receive buffer.\<close>

lemma idle_step:
  assumes s: "idle_sender s" and e: "event_ok e" and n: "\<exists>r now. e = Send_Conn.Msg r now \<or> e = Heart_Beat now \<or> (\<exists>i. e = Send_Conn.Repeat_Timer i now)"
  shows "\<exists>s'. send_step e s = Inr s' \<and> idle_sender s' \<and> tame s s' \<and> Send_Conn.actions s' = Send_Conn.actions s"
proof -
  consider r now where "e = Send_Conn.Msg r now" | now where "e = Heart_Beat now" | i now where "e = Send_Conn.Repeat_Timer i now"
    using n by blast
  then show ?thesis
  proof cases
    case (1 r now)
    have u: "udp_inv (Send_Conn.conn s)" and r: "recv_ok r" using s e 1 by (auto simp: idle_sender_def event_ok_def recv_ok_def)
    let ?u = "(Send_Conn.conn s)\<lparr>tmpbuf := retrieveAll (fst (seen (Send_Conn.conn s) r))\<rparr>"
    have "send_step e s = Inr (s\<lparr>Send_Conn.conn := ?u\<rparr>)"
      using s 1 by (simp add: handleRead_unset [OF u r] idle_sender_def)
    moreover have "udp_inv ?u"
      using view_udp_inv [OF seen_view [OF u r [unfolded recv_ok_def]] refl] .
    ultimately show ?thesis using s by (auto simp: idle_sender_def intro: tame_same)
  qed (use s tame_refl in \<open>simp_all add: idle_sender_def\<close>)
qed

lemma sender_event:
  assumes st: "client_inv st" and p: "objects (snd st) p = Some (Sender s)" and e: "event_ok e"
    and n: "Send_Conn.state s = Send_Conn.IDLE \<Longrightarrow>
      \<exists>r now. e = Send_Conn.Msg r now \<or> e = Heart_Beat now \<or> (\<exists>i. e = Send_Conn.Repeat_Timer i now)"
  shows "case sender_stop (snd st) s e of
      Some x \<Rightarrow> after_sender p (send_step e s) st = Inl x
    | None \<Rightarrow> \<exists>st'. after_sender p (send_step e s) st = Inr st' \<and> client_inv st' \<and> client_edge st st'"
proof -
  have os: "(\<exists>f. send_inv s f) \<or> idle_sender s" and acts: "Send_Conn.actions s = []"
    using object_next [OF p st] by (auto simp: object_ok_def)
  show ?thesis
  proof (cases "Send_Conn.state s = Send_Conn.IDLE")
    case True
    then have no: "\<not> send_inv s f" for f by (simp add: send_inv_def)
    with os have "idle_sender s" by blast
    from idle_step [OF this e n [OF True]] obtain s' where
      s': "send_step e s = Inr s'" "idle_sender s'" "tame s s'" "Send_Conn.actions s' = []" using acts by auto
    from after_tame [OF st p s'(3)] s' no True show ?thesis by (simp add: sender_stop_def)
  next
    case False
    with os obtain f where f: "send_inv s f" by (auto simp: idle_sender_def)
    show ?thesis
    proof (cases "stops s e")
      case True
      with send_step_ok [OF f e] False show ?thesis by (simp add: sender_stop_def after_sender_def)
    next
      case go: False
      with send_step_ok [OF f e] obtain s' where s': "send_step e s = Inr s'" by auto
      have iv: "send_inv s' g" if "send_inv s g" for g
        using send_step_ok [OF that e] go s' by (auto simp: good_step_def)
      show ?thesis
      proof (cases "event_code s e")
        case None
        with send_step_effect [OF f e s'] have "tame s s'" by simp
        from after_tame [OF st p this iv] f s' False go None show ?thesis by (auto simp: sender_stop_def)
      next
        case (Some k)
        with send_step_effect [OF f e s'] obtain u where u: "s' = (shared_as s k)\<lparr>Send_Conn.conn := u\<rparr>" by auto
        have w: "Send_Conn.state s = Send_Conn.WAIT_CODE"
          using Some by (auto simp: event_code_def code_granted_def split: send_event.splits if_splits)
        from after_shared [OF st p w u iv f] s' False go Some show ?thesis
          by (simp add: sender_stop_def split: if_splits)
      qed
    qed
  qed
qed

lemma getter_event:
  assumes st: "client_inv st" and p: "objects (snd st) p = Some (Getter g)" and e: "get_event_ok e"
  shows "case get_stop g e of
      Some x \<Rightarrow> after_getter p (get_step e g) st = Inl x
    | None \<Rightarrow> \<exists>st'. after_getter p (get_step e g) st = Inr st' \<and> client_inv st' \<and> client_edge st st'"
proof -
  have g: "get_inv g" using object_next [OF p st] by (simp add: object_ok_def)
  show ?thesis
  proof (cases "get_stop g e")
    case None
    with get_step_ok [OF g e] obtain g' where g': "get_step e g = Inr g'" "get_good g g'" by auto
    then have "get_inv g'" by (simp add: get_good_def)
    from after_getter [OF st p get_step_effect [OF g e g'(1)] this] g'(1) None show ?thesis by simp
  next
    case (Some x)
    with get_step_ok [OF g e] show ?thesis by (simp add: after_getter_def)
  qed
qed

text \<open>One lemma for each kind of event.\<close>

lemma stay_ok: "client_inv st \<Longrightarrow> \<exists>st'. Inr st = (Inr st' :: client_state outcome) \<and> client_inv st' \<and> client_edge st st'"
  using client_edge_refl by blast

lemma datagram_ok:
  assumes st: "client_inv st" and r: "recv_ok r"
  shows "case event_stop st (Datagram p r now os) of
      Some x \<Rightarrow> on_event (Datagram p r now os) st = Inl x
    | None \<Rightarrow> \<exists>st'. on_event (Datagram p r now os) st = Inr st' \<and> client_inv st' \<and> client_edge st st'"
proof -
  have ok: "event_ok (Send_Conn.Msg r now)" "get_event_ok (Get_Conn.Msg r now os)"
    using r by (simp_all add: recv_ok_def event_ok_def get_event_ok_def)
  consider "objects (snd st) p = None" | s where "objects (snd st) p = Some (Sender s)" | g where "objects (snd st) p = Some (Getter g)"
    by (metis conn_object.exhaust option.exhaust)
  then show ?thesis
  proof cases
    case 2
    then have run: "on_event (Datagram p r now os) st = after_sender p (send_step (Send_Conn.Msg r now) s) st"
      "event_stop st (Datagram p r now os) = sender_stop (snd st) s (Send_Conn.Msg r now)"
      by (simp_all add: on_event_def event_stop_def)
    show ?thesis unfolding run by (rule sender_event [OF st 2 ok(1)]) blast
  next
    case 3
    then have run: "on_event (Datagram p r now os) st = after_getter p (get_step (Get_Conn.Msg r now os) g) st"
      "event_stop st (Datagram p r now os) = get_stop g (Get_Conn.Msg r now os)"
      by (simp_all add: on_event_def event_stop_def)
    show ?thesis unfolding run by (rule getter_event [OF st 3 ok(2)])
  qed (simp add: on_event_def event_stop_def)
qed

lemma timer_ok:
  assumes st: "client_inv st" and e: "e = Beat p now \<or> e = Repeat p i now"
  shows "\<exists>st'. on_event e st = Inr st' \<and> client_inv st' \<and> client_edge st st'"
proof -
  have ok: "event_ok (Heart_Beat now)" "sender_stop (snd st) s (Heart_Beat now) = None"
    "event_ok (Send_Conn.Repeat_Timer i now)" "sender_stop (snd st) s (Send_Conn.Repeat_Timer i now) = None"
    "get_event_ok (Get_Conn.Repeat_Timer i now)" "get_stop g (Get_Conn.Repeat_Timer i now) = None" for s g
    by (simp_all add: event_ok_def sender_stop_def stops_def event_code_def get_event_ok_def get_stop_def)
  consider "objects (snd st) p = None" | s where "objects (snd st) p = Some (Sender s)" | g where "objects (snd st) p = Some (Getter g)"
    by (metis conn_object.exhaust option.exhaust)
  then show ?thesis
  proof cases
    case 1
    with e have "on_event e st = Inr st" by (auto simp: on_event_def)
    with stay_ok [OF st] show ?thesis by simp
  next
    case 2
    with e sender_event [OF st 2 ok(1)] sender_event [OF st 2 ok(3)] show ?thesis by (auto simp: on_event_def ok)
  next
    case 3
    then have "on_event (Beat p now) st = Inr st" by (simp add: on_event_def)
    moreover have "\<exists>st'. on_event (Repeat p i now) st = Inr st' \<and> client_inv st' \<and> client_edge st st'"
      using getter_event [OF st 3 ok(5)] 3 by (simp add: on_event_def ok)
    ultimately show ?thesis using e stay_ok [OF st] by metis
  qed
qed

lemma on_event_ok:
  assumes st: "client_inv st" and e: "client_ok st e"
  shows "case event_stop st e of
      Some x \<Rightarrow> on_event e st = Inl x
    | None \<Rightarrow> \<exists>st'. on_event e st = Inr st' \<and> client_inv st' \<and> client_edge st st'"
proof (cases e)
  case (Command env d)
  then have env: "cmd_env_ok (snd st) env" using e by (simp add: client_ok_def)
  have run: "on_event e st = handleCmd env d st" "event_stop st e = cmd_stop (snd st) d"
    by (simp_all add: Command on_event_def event_stop_def)
  from handleCmd_ok [OF st env, of d] show ?thesis unfolding run .
next
  case (Datagram p r now os)
  have "recv_ok r" using e by (simp add: Datagram client_ok_def)
  from datagram_ok [OF st this] show ?thesis unfolding Datagram .
next
  case (Beat p now)
  then show ?thesis using timer_ok [OF st, of e] by (simp add: event_stop_def)
next
  case (Repeat p i now)
  then show ?thesis using timer_ok [OF st, of e] by (simp add: event_stop_def)
next
  case Woken
  have "client_inv (Event_Loop.handleRead (fst st), snd st)" "client_edge st (Event_Loop.handleRead (fst st), snd st)"
    using st by (simp_all add: client_inv_def client_edge_def Event_Loop.handleRead_def)
  then show ?thesis by (simp add: Woken on_event_def event_stop_def)
next
  case (Quiet p)
  with stay_ok [OF st] show ?thesis by (simp add: on_event_def event_stop_def del: split_paired_Ex)
qed

interpretation events: stepper on_event client_ok client_inv event_stop client_edge
proof
  fix st e x
  assume "client_inv st" "client_ok st e" "event_stop st e = Some x"
  with on_event_ok [of st e] show "on_event e st = Inl x" by simp
next
  fix st e
  assume "client_inv st" "client_ok st e" "event_stop st e = None"
  with on_event_ok [of st e] show "\<exists>st'. on_event e st = Inr st' \<and> client_inv st' \<and> client_edge st st'" by simp
qed

section \<open>Functors\<close>

lemma deleteConn_inv:
  assumes st: "client_inv st"
  shows "client_inv (deleteConn st) \<and> client_edge st (deleteConn st)"
proof -
  obtain l c where lc: "st = (l, c)" by (cases st)
  let ?c = "c\<lparr>objects := objects c |` (- set (deleteconns c)), deleteconns := []\<rparr>"
  have t: "table_inv c" and so: "socks_inv c" using st lc by (simp_all add: client_inv_def)
  have hl: "holds ?c i q \<longleftrightarrow> i \<noteq> Doomed \<and> holds c i q" for i q by (cases i) auto
  have dm: "q \<in> set (deleteconns c) \<longleftrightarrow> holds c Doomed q" for q by simp
  have "table_inv ?c"
    unfolding table_inv_def
  proof (intro conjI allI)
    fix q
    show "(objects ?c q \<noteq> None) = (\<exists>i. holds ?c i q)"
    proof (cases "holds c Doomed q")
      case True
      then have "\<not> holds ?c i q" for i using holds_unique [OF t True, of i] by (auto simp: hl)
      with True show ?thesis by simp
    next
      case False
      then have "(\<exists>i. holds ?c i q) = (\<exists>i. holds c i q)" unfolding hl by metis
      with False t show ?thesis unfolding table_inv_def by simp
    qed
    fix x show "objects ?c q = Some x \<longrightarrow> object_ok x \<and> q < next_obj ?c"
      using t by (simp add: table_inv_def restrict_map_def)
  next
    fix i i' q show "holds ?c i q \<longrightarrow> holds ?c i' q \<longrightarrow> i = i'"
      using t unfolding hl table_inv_def by blast
  next
    fix i q x show "holds ?c i q \<longrightarrow> objects ?c q = Some x \<longrightarrow> slot_ok i x"
    proof (intro impI)
      assume "holds ?c i q" "objects ?c q = Some x"
      then have "holds c i q" "objects c q = Some x" unfolding hl by (auto simp: restrict_map_def split: if_splits)
      with t show "slot_ok i x" unfolding table_inv_def by blast
    qed
  qed
  moreover have "socks_inv ?c" using so by (simp add: socks_inv_def restrict_map_def) 
  moreover have e: "client_edge (l, c) (l, ?c)" by (auto simp: client_edge_def restrict_map_def split: if_splits)
  moreover have "functor_ok ?c f" if "f \<in> set (pendingFunctors l)" for f
    using functor_ok_edge [OF e, of f] st that lc by (auto simp: client_inv_def)
  ultimately show ?thesis by (simp add: deleteConn_def lc client_inv_def)
qed

lemma run_functor_ok:
  assumes st: "client_inv st" and f: "functor_ok (snd st) f"
  shows "case functor_stop st f of
      Some x \<Rightarrow> run_functor f st = Inl x
    | None \<Rightarrow> \<exists>st'. run_functor f st = Inr st' \<and> client_inv st' \<and> client_edge st st'"
proof (cases f)
  case Delete_Conn
  with deleteConn_inv [OF st] show ?thesis by (simp add: run_functor_def functor_stop_def del: split_paired_Ex)
next
  case (Send_Stream p)
  show ?thesis
  proof (cases "objects (snd st) p")
    case None
    then show ?thesis by (simp add: Send_Stream run_functor_def functor_stop_def)
  next
    case (Some x)
    with f Send_Stream obtain s g where x: "x = Sender s" "send_inv s g" by (auto simp: functor_ok_def target_ok_def)
    have n: "Send_Conn.state s \<noteq> Send_Conn.IDLE" using x(2) by (simp add: send_inv_def)
    have "sender_stop (snd st) s Run_Stream = None" by (simp add: sender_stop_def stops_def event_code_def)
    with sender_event [OF st _ _, of p s Run_Stream] n Some x show ?thesis
      by (simp add: Send_Stream run_functor_def functor_stop_def event_ok_def del: send_step.simps)
  qed
next
  case (Send_Loss p ps)
  show ?thesis
  proof (cases "objects (snd st) p")
    case None
    then show ?thesis by (simp add: Send_Loss run_functor_def functor_stop_def)
  next
    case (Some x)
    with f Send_Loss obtain s g where x: "x = Sender s" "send_inv s g" by (auto simp: functor_ok_def target_ok_def)
    have n: "Send_Conn.state s \<noteq> Send_Conn.IDLE" using x(2) by (simp add: send_inv_def)
    have "sender_stop (snd st) s (Run_Loss ps) = None" by (simp add: sender_stop_def stops_def event_code_def)
    with sender_event [OF st _ _, of p s "Run_Loss ps"] n Some x show ?thesis
      by (simp add: Send_Loss run_functor_def functor_stop_def event_ok_def del: send_step.simps)
  qed
qed

interpretation functors: stepper run_functor "\<lambda>st. functor_ok (snd st)" client_inv functor_stop client_edge
proof
  fix st f x
  assume "client_inv st" "functor_ok (snd st) f" "functor_stop st f = Some x"
  with run_functor_ok [of st f] show "run_functor f st = Inl x" by simp
next
  fix st f
  assume "client_inv st" "functor_ok (snd st) f" "functor_stop st f = None"
  with run_functor_ok [of st f] show "\<exists>st'. run_functor f st = Inr st' \<and> client_inv st' \<and> client_edge st st'" by simp
qed

end
