(* ===== verification/Client_Properties.thy ===== *)
theory Client_Properties
  imports Client_Steps Send_Properties Get_Properties
begin

text \<open>
  The properties of the client as a whole: what any run of its loop keeps, what its commands do, and
  the ways in which closing a connection leaves dangling or null pointers behind.
\<close>

section \<open>Turns of the loop\<close>

definition begin_pending :: "client_state \<Rightarrow> client_state" where
  "begin_pending st = ((fst st)\<lparr>callingPendingFunc := True, pendingFunctors := []\<rparr>, snd st)"

lemma client_turn_eq:
  "client_turn es st = bindE (foldE on_event es st) (\<lambda>u.
     if pendingFunctors (fst u) = [] then Inr u
     else bindE (foldE run_functor (pendingFunctors (fst u)) (begin_pending u)) (\<lambda>v.
       Inr ((fst v)\<lparr>callingPendingFunc := False\<rparr>, snd v)))"
  unfolding client_turn_def loop_turn_def
  by (intro arg_cong2 [where f = bindE] refl ext)
    (simp add: doPendingFunctors_def begin_pending_def Let_def case_prod_beta')

lemma client_edge_path: "client_edge\<^sup>*\<^sup>* st st' \<Longrightarrow> client_edge st st'"
  by (induction rule: rtranclp_induct) (auto intro: client_edge_trans)

lemma flag_inv [simp]: "client_inv (l\<lparr>callingPendingFunc := b\<rparr>, c) = client_inv (l, c)"
  by (simp add: client_inv_def)

lemma begin_inv: "client_inv st \<Longrightarrow> client_inv (begin_pending st)"
  by (simp add: client_inv_def begin_pending_def)

lemma functors_admissible:
  "client_inv st \<Longrightarrow> \<forall>f \<in> set fs. functor_ok (snd st) f \<Longrightarrow> good_run run_functor (\<lambda>st. functor_ok (snd st)) fs st"
proof (induction fs arbitrary: st)
  case Nil
  then show ?case by simp
next
  case (Cons f fs)
  show ?case
  proof (cases "run_functor f st")
    case (Inl x)
    with Cons.prems show ?thesis by simp
  next
    case (Inr u)
    with functors.step_Inr [OF Cons.prems(1) _ Inr] Cons.prems have u: "client_inv u" "client_edge st u" by auto
    have "\<forall>g \<in> set fs. functor_ok (snd u) g" using functor_ok_edge [OF u(2)] Cons.prems(2) by simp
    with Cons.IH [OF u(1)] Cons.prems(2) Inr show ?thesis by simp
  qed
qed

text \<open>Where and why a turn stops.\<close>

definition turn_fails :: "client_event list \<Rightarrow> client_state \<Rightarrow> fault \<Rightarrow> bool" where
  "turn_fails es st x \<longleftrightarrow>
     (\<exists>as e bs u. es = as @ e # bs \<and> foldE on_event as st = Inr u \<and> event_stop u e = Some x) \<or>
     (\<exists>u fs f gs v. foldE on_event es st = Inr u \<and> pendingFunctors (fst u) = fs @ f # gs \<and>
        foldE run_functor fs (begin_pending u) = Inr v \<and> functor_stop v f = Some x)"

abbreviation turn_ok :: "client_state \<Rightarrow> client_event list \<Rightarrow> bool" where
  "turn_ok st es \<equiv> good_run on_event client_ok es st"

lemma client_turn_ok:
  assumes st: "client_inv st" and ok: "turn_ok st es"
  shows "case client_turn es st of
      Inr st' \<Rightarrow> client_inv st' \<and> client_edge st st'
    | Inl x \<Rightarrow> turn_fails es st x"
proof (cases "foldE on_event es st")
  case (Inl x)
  from events.run_stops [OF st ok Inl] have "turn_fails es st x" unfolding turn_fails_def by blast
  with Inl show ?thesis by (simp add: client_turn_eq)
next
  case (Inr u)
  from events.run_keeps [OF st ok Inr] have u: "client_inv u" "client_edge st u" by (auto intro: client_edge_path)
  let ?fs = "pendingFunctors (fst u)"
  show ?thesis
  proof (cases "?fs = []")
    case True
    with Inr u show ?thesis by (simp add: client_turn_eq)
  next
    case False
    note b = begin_inv [OF u(1)]
    have "\<forall>f \<in> set ?fs. functor_ok (snd (begin_pending u)) f"
      using u(1) by (simp add: client_inv_def begin_pending_def)
    note adm = functors_admissible [OF b this]
    show ?thesis
    proof (cases "foldE run_functor ?fs (begin_pending u)")
      case x: (Inl x)
      from functors.run_stops [OF b adm x] Inr have "turn_fails es st x" unfolding turn_fails_def by blast
      with Inr False x show ?thesis by (simp add: client_turn_eq)
    next
      case v: (Inr v)
      from functors.run_keeps [OF b adm v] have i: "client_inv v" and e: "client_edge (begin_pending u) v"
        by (auto intro: client_edge_path)
      have "client_edge u (begin_pending u)" by (simp add: client_edge_def begin_pending_def)
      from client_edge_trans [OF client_edge_trans [OF u(2) this] e] i Inr False v show ?thesis
        by (cases v) (simp add: client_turn_eq client_edge_def)
    qed
  qed
qed

interpretation turns: stepper client_turn turn_ok client_inv
  "\<lambda>st es. case client_turn es st of Inl x \<Rightarrow> Some x | Inr t \<Rightarrow> None" client_edge
proof
  fix st es x
  assume "(case client_turn es st of Inl x \<Rightarrow> Some x | Inr t \<Rightarrow> None) = Some x"
  then show "client_turn es st = Inl x" by (simp split: sum.splits)
next
  fix st es
  assume "client_inv st" "turn_ok st es" "(case client_turn es st of Inl x \<Rightarrow> Some x | Inr t \<Rightarrow> None) = None"
  with client_turn_ok [of st es] show "\<exists>st'. client_turn es st = Inr st' \<and> client_inv st' \<and> client_edge st st'"
    by (auto split: sum.splits)
qed

section \<open>Runs\<close>

lemma new_client_inv:
  assumes "new_DiretransClient fd ok g = Inr st"
  shows "client_inv st"
proof -
  have h: "\<not> holds (first_client g) i q" for i q by (cases i) (simp_all add: first_client_def)
  have "objects (first_client g) = Map.empty" by (simp add: first_client_def)
  with assms show ?thesis
    by (auto simp: new_DiretransClient_def new_EventLoop_def client_inv_def table_inv_def socks_inv_def h
        split: if_splits)
qed

text \<open>
  C3. Runs of the client: over any number of turns of the loop, with any commands, datagrams,
  timers and queued functors, a client that has not stopped is well-formed: each connection
  object is owned by exactly one entry of the tables or by the set of connections to delete, has the
  kind, the socket and the code its entry says, satisfies the invariant of its kind, and what the
  queued functors point to was a sender with its file open. It stops only at the listed
  faults: an event or functor for a connection that is gone, a chat with a closed one, a code that
  has an entry already, an overlong retransmission request, a short data message, an
  unterminated command.
\<close>

theorem client_run:
  assumes new: "new_DiretransClient fd ok g = Inr st0"
    and run: "good_run client_turn turn_ok ts st0"
  shows "case foldE client_turn ts st0 of
      Inr st \<Rightarrow> client_inv st
    | Inl x \<Rightarrow> \<exists>pre es post st. ts = pre @ es # post \<and> foldE client_turn pre st0 = Inr st \<and> client_inv st \<and>
        turn_fails es st x"
proof (cases "foldE client_turn ts st0")
  case (Inl x)
  from turns.run_stops [OF new_client_inv [OF new] run Inl] obtain pre es post st where
    r: "ts = pre @ es # post" "foldE client_turn pre st0 = Inr st" "client_inv st" "turn_ok st es"
    and stop: "(case client_turn es st of Inl x \<Rightarrow> Some x | Inr t \<Rightarrow> None) = Some x" by blast
  from stop have "client_turn es st = Inl x" by (cases "client_turn es st") simp_all
  with client_turn_ok [OF r(3,4)] have "turn_fails es st x" by simp
  with r(1-3) have "\<exists>pre es post st. ts = pre @ es # post \<and> foldE client_turn pre st0 = Inr st \<and> client_inv st \<and>
      turn_fails es st x" by blast
  with Inl show ?thesis by (simp del: split_paired_Ex)
next
  case (Inr st)
  with turns.run_keeps [OF new_client_inv [OF new] run Inr] show ?thesis by simp
qed

section \<open>Reading commands\<close>

definition a_word :: "bytes \<Rightarrow> bool" where
  "a_word w \<longleftrightarrow> w \<noteq> [] \<and> (\<forall>b \<in> set w. \<not> is_space b \<and> b \<noteq> 0)"

lemma takeWhile_all: "\<forall>b \<in> set w. P b \<Longrightarrow> \<not> P c \<Longrightarrow> takeWhile P (w @ c # t) = w \<and> dropWhile P (w @ c # t) = c # t"
  by (induction w) simp_all

lemma read_words_Cons:
  assumes "a_word w"
  shows "read_words (w @ 0x20 # t) = w # read_words t" and "read_words w = [w]"
proof -
  have sp: "is_space 0x20" by (simp add: is_space_def)
  have d: "dropWhile is_space (w @ u) = w @ u" for u using assms by (cases w) (auto simp: a_word_def)
  have n: "\<forall>b \<in> set w. \<not> is_space b" "w \<noteq> []" using assms by (simp_all add: a_word_def)
  have s: "read_words (0x20 # t) = read_words t"
    by (simp add: read_words.simps [of "0x20 # t"] read_words.simps [of t] sp)
  show "read_words (w @ 0x20 # t) = w # read_words t"
    using takeWhile_all [of w "\<lambda>b. \<not> is_space b" "0x20" t] n d [of "0x20 # t"] sp s
    by (simp add: read_words.simps [of "w @ 0x20 # t"] Let_def)
  have t: "takeWhile (\<lambda>b. \<not> is_space b) w = w" and e: "dropWhile (\<lambda>b. \<not> is_space b) w = []"
    using n by (simp_all add: takeWhile_eq_all_conv dropWhile_eq_Nil_conv)
  have "read_words (dropWhile (\<lambda>b. \<not> is_space b) w) = []"
    unfolding e by (simp add: read_words.simps [of "[]"])
  then show "read_words w = [w]"
    using d [of "[]"] n t by (simp add: read_words.simps [of w] Let_def)
qed

lemma c_text_plain: "length d < 1024 \<Longrightarrow> 0 \<notin> set d \<Longrightarrow> c_text (take kCmdSize d) = Inr d"
  by (auto simp: c_text_def kCmdSize_def takeWhile_eq_all_conv)

lemma a_word_nonzero: "a_word w \<Longrightarrow> 0 \<notin> set w"
  by (auto simp: a_word_def)

lemma verbs: "a_word (str ''SHARE'')" "a_word (str ''GET'')" "a_word (str ''CHAT'')"
  by (simp_all add: a_word_def str_def is_space_def)

lemma verbs_differ: "str ''GET'' \<noteq> str ''SHARE''" "str ''CHAT'' \<noteq> str ''SHARE''" "str ''CHAT'' \<noteq> str ''GET''"
  by (simp_all add: str_def)

lemma keyword_lengths: "length (str ''SHARE'') = 5" "length (str ''GET'') = 3" "length (str ''CHAT'') = 4"
  by (simp_all add: str_def)

definition command :: "string \<Rightarrow> bytes \<Rightarrow> bytes" where
  "command k w = str k @ 0x20 # w"

lemma share_cmd:
  "a_word w \<Longrightarrow> length w \<le> 1000 \<Longrightarrow> handleCmd e (command ''SHARE'' w) st = cmd_share e w st"
  using c_text_plain [of "command ''SHARE'' w"] a_word_nonzero [OF verbs(1)] a_word_nonzero [of w]
  by (simp add: handleCmd_def dispatch_cmd_def command_def read_words_Cons verbs keyword_lengths Let_def)

lemma get_cmd:
  "a_word w \<Longrightarrow> length w \<le> 1000 \<Longrightarrow> handleCmd e (command ''GET'' w) st = cmd_get e w st"
  using c_text_plain [of "command ''GET'' w"] a_word_nonzero [OF verbs(2)] a_word_nonzero [of w]
  by (simp add: handleCmd_def dispatch_cmd_def command_def read_words_Cons verbs keyword_lengths Let_def verbs_differ)

lemma chat_cmd:
  "a_word w \<Longrightarrow> a_word m \<Longrightarrow> length w + length m \<le> 1000 \<Longrightarrow>
     handleCmd e (command ''CHAT'' (w @ 0x20 # m)) st = cmd_chat w [m] st"
  using c_text_plain [of "command ''CHAT'' (w @ 0x20 # m)"] a_word_nonzero [OF verbs(3)] a_word_nonzero [of w]
    a_word_nonzero [of m]
  by (simp add: handleCmd_def dispatch_cmd_def command_def read_words_Cons verbs keyword_lengths Let_def verbs_differ)

section \<open>Sharing\<close>

text \<open>
  C29. From the command to the code: \<open>SHARE path\<close> opens the file, sends the request to the server and
  files the connection under its socket; when a message with a free code arrives, from anyone, the
  connection moves to the shared ones under this code, and nothing else changes in that table.
\<close>

theorem share_registers:
  assumes st: "client_inv st" and e: "cmd_env_ok (snd st) e" and path: "a_word path" "length path \<le> 1000"
    and f: "files e path = Some f" and sg: "known_sign sg" and k: "sendconns (snd st) k = None"
  shows "\<exists>l c s. foldE on_event [Command e (command ''SHARE'' path),
      Datagram (next_obj (snd st)) (Recv (message sg SHARE_CODE n (u32_bytes k)) a) now os] st = Inr (l, c) \<and>
    client_inv (l, c) \<and> pendingconns c (new_fd e) = None \<and>
    sendconns c = (sendconns (snd st))(k \<mapsto> Some (next_obj (snd st))) \<and>
    objects c (next_obj (snd st)) = Some (Sender s) \<and> send_inv s f \<and> Send_Conn.code s = k \<and>
    Send_Conn.state s = Send_Conn.WAIT_RECVER \<and>
    sent (Send_Conn.conn s) = [(share_request path f, server_addr (snd st))]"
proof -
  obtain l c where lc: "st = (l, c)" by (cases st)
  let ?p = "next_obj c"
  let ?d = "message sg SHARE_CODE n (u32_bytes k)"
  from e obtain j where fd: "0 \<le> new_fd e" "0 \<le> binds e j (ports e 0)" by (auto simp: cmd_env_ok_def env_ok_def)
  from new_sender [where fd = "new_fd e" and os = "binds e" and k = j and ports = "ports e", OF fd, of "server_addr c" "uninit_addr e"]
  obtain u where u: "new_SendConnManager (new_fd e) (ports e) (binds e) (server_addr c) (uninit_addr e) =
      Inr (fresh_sender (new_fd e) u (server_addr c) (uninit_addr e))" "bound u" "udp_inv u" "sent u = []" by blast
  have "length path < 2 ^ 40" using path(2) by simp
  from word_buffer [OF this] obtain b where b: "append new_Buffer path = Inr b" "buffer_inv b" "contents b = path" by blast
  have "length (path_filename path) \<le> 255 \<and> length f \<le> 4294966272" "crc_ok (crc e)"
    using e f unfolding cmd_env_ok_def env_ok_def by blast+
  then have lim: "length (path_filename path) \<le> 256" "length f \<le> 4294966272" "crc_ok (crc e)" by simp_all
  let ?s0 = "fresh_sender (new_fd e) u (server_addr c) (uninit_addr e)"
  have pre: "Send_Conn.state ?s0 = Send_Conn.IDLE" "bound (Send_Conn.conn ?s0)" "udp_inv (Send_Conn.conn ?s0)" "sendWindow ?s0 = 0"
    using u by (simp_all add: fresh_sender_def)
  from shareFile_opens [where fs = "files e" and crc = "crc e" and u = "uninit_file e", OF pre b(2,3) f lim(3,1,2)] u(4)
  obtain s1 where s1: "shareFile (crc e) (files e) (uninit_file e) ?s0 b = Inr s1" "send_inv s1 f"
    "Send_Conn.state s1 = Send_Conn.WAIT_CODE" "sent (Send_Conn.conn s1) = [(share_request path f, server_addr c)]"
    "sock s1 = new_fd e" "Send_Conn.actions s1 = []" by (auto simp: fresh_sender_def)
  let ?c1 = "destroy (pendingconns c (new_fd e)) c"
  let ?c2 = "?c1\<lparr>next_obj := Suc ?p, pendingconns := (pendingconns ?c1)(new_fd e \<mapsto> Some ?p)\<rparr>"
  let ?c3 = "?c2\<lparr>objects := (objects ?c2)(?p \<mapsto> Sender (settled s1))\<rparr>"
  have 1: "on_event (Command e (command ''SHARE'' path)) st = Inr (l, ?c3)"
    using s1 by (simp add: on_event_def share_cmd [OF path] cmd_share_def lc b(1) u(1) Let_def after_sender_def store_object_def)
      (simp add: fresh_sender_def)
  have s1': "send_inv (settled s1) f" "Send_Conn.state (settled s1) = Send_Conn.WAIT_CODE" using s1 by simp_all
  from share_code_msg [OF s1' sg, of n k a now] s1 obtain t where
    t: "send_step (Send_Conn.Msg (Recv ?d a) now) (settled s1) = Inr t" "send_inv t f" "Send_Conn.state t = Send_Conn.WAIT_RECVER"
    "Send_Conn.code t = k" "Send_Conn.actions t = [Move_Pend_Conn (new_fd e) k]"
    "sent (Send_Conn.conn t) = [(share_request path f, server_addr c)]" by auto
  let ?c4 = "?c3\<lparr>objects := (objects ?c3)(?p \<mapsto> Sender (settled t))\<rparr>"
  let ?c5 = "?c4\<lparr>sendconns := (sendconns ?c4)(k \<mapsto> Some ?p), pendingconns := (pendingconns ?c4)(new_fd e := None)\<rparr>"
  have 2: "on_event (Datagram ?p (Recv ?d a) now os) (l, ?c3) = Inr (l, ?c5)"
    using t k lc by (simp add: on_event_def after_sender_def store_object_def send_action_def movePendConn_def del: send_step.simps)
  have run: "foldE on_event [Command e (command ''SHARE'' path), Datagram ?p (Recv ?d a) now os] st = Inr (l, ?c5)"
    using 1 2 by simp
  have i3: "client_inv (l, ?c3)"
    using events.step_Inr [OF st _ 1] e by (simp add: client_ok_def)
  have "client_ok (l, ?c3) (Datagram ?p (Recv ?d a) now os)"
    by (simp add: client_ok_def recv_ok_def sizeof_Header_def kBufferSize_def)
  with events.step_Inr [OF i3 _ 2] have "client_inv (l, ?c5)" by blast
  with run t lc show ?thesis by (intro exI [of _ l] exI [of _ ?c5] exI [of _ "settled t"]) simp
qed

section \<open>Closing\<close>

text \<open>A connection that shares its file is told \<open>ERROR_LIMIT\<close>, by anyone.\<close>

lemma close_shared:
  assumes st: "client_inv (l, c)" and p: "objects c p = Some (Sender s)" and s: "send_inv s f"
    and k: "sendconns c k = Some (Some p)" "k \<noteq> 0" and sg: "known_sign sg"
  shows "\<exists>b. on_event (Datagram p (Recv (message sg ERROR_LIMIT n []) a) now os) (l, c) =
    Inr (queueInLoop True Delete_Conn l,
      c\<lparr>objects := (objects c)(p \<mapsto> Sender (s\<lparr>Send_Conn.conn := (Send_Conn.conn s)\<lparr>tmpbuf := b\<rparr>\<rparr>)),
        sendconns := (sendconns c)(k \<mapsto> None), deleteconns := deleteconns c @ [p]\<rparr>) \<and>
    send_inv (s\<lparr>Send_Conn.conn := (Send_Conn.conn s)\<lparr>tmpbuf := b\<rparr>\<rparr>) f"
proof -
  let ?d = "message sg ERROR_LIMIT n []"
  let ?b = "retrieveAll (received (Send_Conn.conn s) ?d)"
  have len: "length ?d \<le> kBufferSize" by (simp add: sizeof_Header_def kBufferSize_def)
  have u: "udp_inv (Send_Conn.conn s)" using s by (simp add: send_inv_def)
  have t: "table_inv c" using st by (simp add: client_inv_def)
  have "holds c (Shared k) p" using k by simp
  from held_object [OF t this] p have code: "Send_Conn.code s = k" by (auto simp: slot_ok_def)
  have acts: "Send_Conn.actions s = []" using object_next [of "(l, c)" p "Sender s"] p st by (simp add: object_ok_def)
  then have set: "settled (s\<lparr>Send_Conn.conn := v\<rparr>) = s\<lparr>Send_Conn.conn := v\<rparr>" for v by (cases s) simp
  have step: "send_step (Send_Conn.Msg (Recv ?d a) now) s =
      Inr ((Send_Conn.closeSelf s)\<lparr>Send_Conn.conn := (Send_Conn.conn s)\<lparr>tmpbuf := ?b\<rparr>\<rparr>)"
    using fields(1) [OF s sg, where body = "[]" and t = ERROR_LIMIT and n = n and a = a and now = now]
    by (simp add: message_step [OF s len] Send_Conn.closeSelf_def Send_Conn.act_def del: send_step.simps)
  have "send_inv (s\<lparr>Send_Conn.conn := (Send_Conn.conn s)\<lparr>tmpbuf := ?b\<rparr>\<rparr>) f"
    using s view_udp_inv [OF received_msg_view [OF u len] refl] by (simp add: send_inv_def)
  moreover have "on_event (Datagram p (Recv ?d a) now os) (l, c) =
    Inr (queueInLoop True Delete_Conn l,
      c\<lparr>objects := (objects c)(p \<mapsto> Sender (s\<lparr>Send_Conn.conn := (Send_Conn.conn s)\<lparr>tmpbuf := ?b\<rparr>\<rparr>)),
        sendconns := (sendconns c)(k \<mapsto> None), deleteconns := deleteconns c @ [p]\<rparr>)"
    using p k code acts
    by (simp add: set on_event_def step after_sender_def store_object_def Send_Conn.closeSelf_def Send_Conn.act_def
        send_action_def closeSendConn_def to_delete_def del: send_step.simps)
  ultimately show ?thesis by blast
qed

text \<open>The turn that closes it, when no functor is waiting.\<close>

lemma closing_turn:
  assumes st: "client_inv (l, c)" and p: "objects c p = Some (Sender s)" and s: "send_inv s f"
    and k: "sendconns c k = Some (Some p)" "k \<noteq> 0" and sg: "known_sign sg" and q: "pendingFunctors l = []"
  obtains l' c' where "client_turn [Datagram p (Recv (message sg ERROR_LIMIT n []) a) now os] (l, c) = Inr (l', c')"
    "sendconns c' = (sendconns c)(k \<mapsto> None)" "getconns c' = getconns c" "pendingconns c' = pendingconns c"
    "objects c' = objects c |` (- insert p (set (deleteconns c)))"
proof -
  from close_shared [OF st p s k sg, of n a now os] obtain b where
    1: "on_event (Datagram p (Recv (message sg ERROR_LIMIT n []) a) now os) (l, c) =
    Inr (queueInLoop True Delete_Conn l,
      c\<lparr>objects := (objects c)(p \<mapsto> Sender (s\<lparr>Send_Conn.conn := (Send_Conn.conn s)\<lparr>tmpbuf := b\<rparr>\<rparr>)),
        sendconns := (sendconns c)(k \<mapsto> None), deleteconns := deleteconns c @ [p]\<rparr>)" by blast
  show thesis
    by (rule that, simp add: 1 q client_turn_eq begin_pending_def run_functor_def deleteConn_def)
      (auto simp: fun_eq_iff restrict_map_def)
qed

text \<open>
  C36. A use after free that anyone can cause: a connection is streaming its file, its next
  piece queued in the loop. An \<open>ERROR_LIMIT\<close> message from any address closes it. The queued functor still
  sends a piece and queues itself once more, then the connection is deleted; the next turn
  runs the functor on the freed object.
\<close>

theorem closed_stream_dangles:
  assumes st: "client_inv (l, c)" and p: "objects c p = Some (Sender s)" and s: "send_inv s f"
    and k: "sendconns c k = Some (Some p)" "k \<noteq> 0" and sg: "known_sign sg"
    and q: "pendingFunctors l = [Send_Stream p]" and m: "sendManager s = Some m" "streaming m f i" "i < piece_count f"
    and w: "unat (sendWindow s) < 30"
  shows "foldE client_turn [[Datagram p (Recv (message sg ERROR_LIMIT n []) a) now os], []] (l, c) = Inl Use_After_Free"
proof -
  from close_shared [OF st p s k sg, of n a now os] obtain b where
    1: "on_event (Datagram p (Recv (message sg ERROR_LIMIT n []) a) now os) (l, c) =
    Inr (queueInLoop True Delete_Conn l,
      c\<lparr>objects := (objects c)(p \<mapsto> Sender (s\<lparr>Send_Conn.conn := (Send_Conn.conn s)\<lparr>tmpbuf := b\<rparr>\<rparr>)),
        sendconns := (sendconns c)(k \<mapsto> None), deleteconns := deleteconns c @ [p]\<rparr>)"
    and s': "send_inv (s\<lparr>Send_Conn.conn := (Send_Conn.conn s)\<lparr>tmpbuf := b\<rparr>\<rparr>) f" by blast
  let ?s = "s\<lparr>Send_Conn.conn := (Send_Conn.conn s)\<lparr>tmpbuf := b\<rparr>\<rparr>"
  have acts: "Send_Conn.actions s = []" using object_next [of "(l, c)" p "Sender s"] p st by (simp add: object_ok_def)
  from stream_one [OF s' _ m(2) _ m(3)] m(1) w acts obtain t where
    t: "send_step Run_Stream ?s = Inr t" "Send_Conn.actions t = [Queue_Stream]" by auto
  show ?thesis
    using t
    by (simp add: 1 q client_turn_eq begin_pending_def run_functor_def after_sender_def store_object_def send_action_def
        deleteConn_def queueInLoop_def push_functor_def wakeup_def Let_def del: send_step.simps)
qed

text \<open>
  Closing leaves a null pointer behind: once a shared connection is closed, a chat command
  for its code dereferences the pointer that was moved out of its entry.
\<close>

theorem chat_after_close:
  assumes st: "client_inv (l, c)" and p: "objects c p = Some (Sender s)" and s: "send_inv s f"
    and k: "sendconns c k = Some (Some p)" "k \<noteq> 0" "getconns c k = None" and sg: "known_sign sg"
    and q: "pendingFunctors l = []" and w: "a_word w" "a_word m" "length w + length m \<le> 1000" "atoi w = k"
  shows "foldE client_turn [[Datagram p (Recv (message sg ERROR_LIMIT n []) a) now os],
      [Command e (command ''CHAT'' (w @ 0x20 # m))]] (l, c) = Inl Null_Deref"
proof -
  from closing_turn [OF st p s k(1,2) sg q, of n a now os] obtain l' c' where
    1: "client_turn [Datagram p (Recv (message sg ERROR_LIMIT n []) a) now os] (l, c) = Inr (l', c')"
    "sendconns c' = (sendconns c)(k \<mapsto> None)" "getconns c' = getconns c" .
  have l: "length (concat (concat (map (\<lambda>w. [w, [0x20]]) [m]))) \<le> 2048" using w(3) by simp
  from chat_text_ok [OF l] obtain msg where "chat_text [m] = Inr msg" by blast
  then show ?thesis
    using 1 k w(4) by (simp add: client_turn_eq [of "[Command e x]" for e x] on_event_def chat_cmd [OF w(1-3)] cmd_chat_def Let_def)
qed

text \<open>
  C37. The entries of closed connections are never removed: when the server gives their code out
  again and this client is the one to get it, the assertion in \<open>movePendConn\<close> ends the program. The message may
  come from anyone.
\<close>

theorem reused_code_stops:
  assumes st: "client_inv (l, c)" and p: "objects c p = Some (Sender s)" and s: "send_inv s f"
    and k: "sendconns c k = Some (Some p)" "k \<noteq> 0" and sg: "known_sign sg" "known_sign sg'"
    and l: "pendingFunctors l = []" and q: "pendingconns c fd = Some (Some q)" "objects c q = Some (Sender r)"
    and r: "send_inv r g" "Send_Conn.state r = Send_Conn.WAIT_CODE" "p \<noteq> q" and d: "deleteconns c = []"
  shows "foldE client_turn [[Datagram p (Recv (message sg ERROR_LIMIT n []) a) now os],
      [Datagram q (Recv (message sg' SHARE_CODE n' (u32_bytes k)) a') now' os']] (l, c) = Inl Assert_Fail"
proof -
  from closing_turn [OF st p s k sg(1) l, of n a now os] obtain l' c' where
    1: "client_turn [Datagram p (Recv (message sg ERROR_LIMIT n []) a) now os] (l, c) = Inr (l', c')"
    "sendconns c' = (sendconns c)(k \<mapsto> None)" "pendingconns c' = pendingconns c"
    "objects c' = objects c |` (- insert p (set (deleteconns c)))" .
  have t: "table_inv c" using st by (simp add: client_inv_def)
  have "holds c (Pend fd) q" using q by simp
  from held_object [OF t this] q(2) have so: "sock r = fd" by (auto simp: slot_ok_def)
  have acts: "Send_Conn.actions r = []" using object_next [of "(l, c)" q "Sender r"] q st by (simp add: object_ok_def)
  from share_code_msg [OF r(1,2) sg(2), of n' k a' now'] acts so obtain v where
    "send_step (Send_Conn.Msg (Recv (message sg' SHARE_CODE n' (u32_bytes k)) a') now') r = Inr v"
    "Send_Conn.actions v = [Move_Pend_Conn fd k]" by auto
  then show ?thesis
    using 1 q r(3) d
    by (simp add: client_turn_eq [of "[Datagram q x y z]" for x y z] on_event_def after_sender_def store_object_def
        send_action_def movePendConn_def restrict_map_def require_def del: send_step.simps)
qed

text \<open>
  A second \<open>GET\<close> of a code destroys the first download while \<open>poll\<close> may already have reported its
  socket in the same round: its handler then runs on a freed channel.
\<close>

lemma second_get_destroys:
  assumes st: "client_inv st" and e: "cmd_env_ok (snd st) e" and w: "a_word w" "length w \<le> 1000" "atoi w \<noteq> 0"
    and p: "getconns (snd st) (atoi w) = Some (Some p)"
  obtains v where "on_event (Command e (command ''GET'' w)) st = Inr v" "objects (snd v) p = None"
proof -
  obtain l c where lc: "st = (l, c)" by (cases st)
  have t: "table_inv c" using st lc by (simp add: client_inv_def)
  have "holds c (Got (atoi w)) p" using p lc by simp
  from held_object [OF t this] have np: "p \<noteq> next_obj c" by auto
  from e obtain j where fd: "0 \<le> new_fd e" "0 \<le> binds e j (ports e 0)" by (auto simp: cmd_env_ok_def env_ok_def)
  from new_getter [where fd = "new_fd e" and os = "binds e" and k = j and ports = "ports e", OF fd, of "server_addr c" "uninit_addr e" "uninit_data e"]
  obtain u where u: "new_GetConnManager (new_fd e) (ports e) (binds e) (server_addr c) (uninit_addr e) (uninit_data e) =
      Inr (fresh_getter u (server_addr c) (uninit_addr e) (uninit_data e))" "bound u" "udp_inv u" "sent u = []" by blast
  from getFile_sends [OF u(2-4), of "server_addr c" "uninit_addr e" "uninit_data e" "atoi w"] obtain g where
    g: "getFile (fresh_getter u (server_addr c) (uninit_addr e) (uninit_data e)) (atoi w) = Inr g"
    "Get_Conn.actions g = []" by blast
  show thesis
    by (rule that, simp add: on_event_def get_cmd [OF w(1,2)] cmd_get_def lc w(3) u(1) Let_def after_getter_def store_object_def g)
      (use p np lc in simp)
qed

theorem repeated_get_dangles:
  assumes st: "client_inv st" and e: "cmd_env_ok (snd st) e" and w: "a_word w" "length w \<le> 1000" "atoi w \<noteq> 0"
    and p: "getconns (snd st) (atoi w) = Some (Some p)" and x: "(\<exists>r now os. x = Datagram p r now os) \<or> x = Quiet p"
  shows "client_turn [Command e (command ''GET'' w), x] st = Inl Use_After_Free"
proof -
  from second_get_destroys [OF st e w p] obtain v where v: "on_event (Command e (command ''GET'' w)) st = Inr v" "objects (snd v) p = None" .
  moreover from x v(2) have "on_event x v = Inl Use_After_Free" by (auto simp: on_event_def)
  ultimately show ?thesis by (simp add: client_turn_eq)
qed

section \<open>Concrete clients\<close>

definition demo_env :: os_env where
  "demo_env = \<lparr>new_fd = 6, ports = \<lambda>k. 20000, binds = \<lambda>k p. 0, crc = crc_init, files = demo_fs,
     uninit_file = demo_sender, uninit_addr = zero_sockaddr, uninit_data = demo_data\<rparr>"

definition demo_loop :: "client_functor list \<Rightarrow> client_functor event_loop" where
  "demo_loop fs = \<lparr>looping = True, quit_flag = False, callingPendingFunc = False, pendingFunctors = fs, wakeupCount = 0\<rparr>"

definition no_conns :: client where
  "no_conns = \<lparr>objects = Map.empty, next_obj = 0, pendingconns = Map.empty, sendconns = Map.empty,
     getconns = Map.empty, deleteconns = [], server_addr = peer_b\<rparr>"

text \<open>One connection sends its file under code 9, another waits for its code.\<close>

definition sharing :: client where
  "sharing = no_conns\<lparr>objects := [0 \<mapsto> Sender (sending\<lparr>Send_Conn.code := 9\<rparr>), 1 \<mapsto> Sender (waiting\<lparr>sock := 7\<rparr>)],
     next_obj := 2, sendconns := [9 \<mapsto> Some 0], pendingconns := [7 \<mapsto> Some 1]\<rparr>"

lemma demo_env_ok: "cmd_env_ok no_conns demo_env"
  using demo_sizes(1)
  by (auto simp: cmd_env_ok_def env_ok_def demo_env_def demo_fs_def no_conns_def path_filename_def split: if_splits)

lemma no_conns_inv: "client_inv (demo_loop [], no_conns)"
proof -
  have h: "\<not> holds no_conns i q" for i q by (cases i) (simp_all add: no_conns_def)
  show ?thesis
    by (auto simp: client_inv_def table_inv_def socks_inv_def h demo_loop_def) (simp_all add: no_conns_def)
qed

lemma sharing_parts:
  "objects sharing 0 = Some (Sender (sending\<lparr>Send_Conn.code := 9\<rparr>))" "objects sharing 1 = Some (Sender (waiting\<lparr>sock := 7\<rparr>))"
  "sendconns sharing 9 = Some (Some 0)" "pendingconns sharing 7 = Some (Some 1)" "getconns sharing 9 = None"
  "deleteconns sharing = []" "send_inv (sending\<lparr>Send_Conn.code := 9\<rparr>) demo_content"
  "send_inv (waiting\<lparr>sock := 7\<rparr>) demo_content" "sendManager (sending\<lparr>Send_Conn.code := 9\<rparr>) = Some opened_sender"
  using demo_inv by (simp_all add: sharing_def no_conns_def send_inv_def sending_def waiting_def)

lemma sharing_inv: "client_inv (demo_loop [], sharing)" "client_inv (demo_loop [Send_Stream 0], sharing)"
proof -
  have h: "holds sharing i q \<longleftrightarrow> i = Shared 9 \<and> q = 0 \<or> i = Pend 7 \<and> q = 1" for i q
    by (cases i) (auto simp: sharing_def no_conns_def)
  have o': "objects sharing q = (if q = 0 then Some (Sender (sending\<lparr>Send_Conn.code := 9\<rparr>))
      else if q = 1 then Some (Sender (waiting\<lparr>sock := 7\<rparr>)) else None)" "next_obj sharing = 2" for q
    by (auto simp: sharing_def no_conns_def)
  have s: "slot_ok (Shared 9) (Sender (sending\<lparr>Send_Conn.code := 9\<rparr>))" "slot_ok (Pend 7) (Sender (waiting\<lparr>sock := 7\<rparr>))"
    "object_ok (Sender (sending\<lparr>Send_Conn.code := 9\<rparr>))" "object_ok (Sender (waiting\<lparr>sock := 7\<rparr>))"
    "sock (sending\<lparr>Send_Conn.code := 9\<rparr>) = 5"
    using sharing_parts(7,8) by (auto simp: slot_ok_def object_ok_def sending_def waiting_def sender0_def)
  have t: "table_inv sharing" "socks_inv sharing"
    using s by (auto simp: table_inv_def socks_inv_def h o' split: if_splits)
  moreover have "target_ok sharing 0" using sharing_parts(7) by (auto simp: target_ok_def o')
  ultimately show "client_inv (demo_loop [], sharing)" "client_inv (demo_loop [Send_Stream 0], sharing)"
    by (simp_all add: client_inv_def demo_loop_def functor_ok_def)
qed

theorem client_run_witness:
  "\<exists>st0. new_DiretransClient 4 True (replicate 8 0) = Inr st0 \<and>
     foldE client_turn [[Command demo_env [], Beat 0 1], []] st0 = Inr st0 \<and> client_inv st0"
proof -
  obtain st0 where new: "new_DiretransClient 4 True (replicate 8 0) = Inr st0" and e: "objects (snd st0) = Map.empty"
    "pendingFunctors (fst st0) = []"
    by (simp add: new_DiretransClient_def first_client_def new_EventLoop_def)
  have "c_text (take kCmdSize []) = Inr []" "read_words [] = []"
    by (simp_all add: c_text_def kCmdSize_def read_words.simps)
  then have ev: "on_event (Command demo_env []) st0 = Inr st0" "on_event (Beat 0 1) st0 = Inr st0"
    using e by (simp_all add: on_event_def handleCmd_def dispatch_cmd_def)
  have t: "foldE client_turn [[Command demo_env [], Beat 0 1], []] st0 = Inr st0"
    using ev e by (simp add: client_turn_eq)
  have ok: "client_ok st0 (Command demo_env [])" "client_ok st0 (Beat 0 1)"
    using demo_env_ok e by (simp_all add: client_ok_def cmd_env_ok_def)
  have "good_run client_turn turn_ok [[Command demo_env [], Beat 0 1], []] st0"
    using ok ev e by (simp add: client_turn_eq)
  from client_run [OF new this] t new show ?thesis by (simp del: foldE.simps)
qed

lemma demo_words: "a_word [0x61]" "a_word [0x39]" "a_word [0x68, 0x69]" "atoi [0x39] = 9"
  by (simp_all add: a_word_def is_space_def atoi_def digits_value_def is_digit_def Let_def)

theorem share_registers_witness:
  "\<exists>l c s. foldE on_event [Command demo_env (command ''SHARE'' [0x61]),
      Datagram 0 (Recv (message kServerSign SHARE_CODE 4 (u32_bytes 9)) peer_b) 1 ([], True)] (demo_loop [], no_conns) = Inr (l, c) \<and>
    sendconns c 9 = Some (Some 0) \<and> objects c 0 = Some (Sender s) \<and> Send_Conn.code s = 9"
proof -
  have f: "files demo_env [0x61] = Some demo_content" by (simp add: demo_env_def demo_fs)
  have s: "sendconns (snd (demo_loop [], no_conns)) 9 = None" "next_obj no_conns = 0" by (simp_all add: no_conns_def)
  from share_registers [OF no_conns_inv, where e = demo_env and k = 9, OF _ demo_words(1) _ f known_signs(1) s(1), of 4 peer_b 1 "([], True)"]
    demo_env_ok s(2) show ?thesis by fastforce
qed

theorem closed_stream_dangles_witness:
  "foldE client_turn [[Datagram 0 (Recv (message kClientSign ERROR_LIMIT 0 []) peer_a) 1 ([], True)], []]
     (demo_loop [Send_Stream 0], sharing) = Inl Use_After_Free"
proof -
  have "(9 :: u32) \<noteq> 0" "pendingFunctors (demo_loop [Send_Stream 0]) = [Send_Stream 0]"
    "unat (sendWindow (sending\<lparr>Send_Conn.code := 9\<rparr>)) < 30" "0 < piece_count demo_content"
    using demo_sizes by (simp_all add: demo_loop_def sending_def waiting_def sender0_def)
  from closed_stream_dangles [OF sharing_inv(2) sharing_parts(1,7,3) this(1) known_signs(2) this(2)
      sharing_parts(9) opened_streaming this(4,3)] show ?thesis .
qed

theorem chat_after_close_witness:
  "foldE client_turn [[Datagram 0 (Recv (message kClientSign ERROR_LIMIT 0 []) peer_a) 1 ([], True)],
     [Command demo_env (command ''CHAT'' ([0x39] @ 0x20 # [0x68, 0x69]))]] (demo_loop [], sharing) = Inl Null_Deref"
proof -
  have "(9 :: u32) \<noteq> 0" "pendingFunctors (demo_loop []) = []" "length [0x39 :: u8] + length [0x68 :: u8, 0x69] \<le> 1000"
    by (simp_all add: demo_loop_def)
  from chat_after_close [OF sharing_inv(1) sharing_parts(1,7,3) this(1) sharing_parts(5) known_signs(2) this(2)
      demo_words(2,3) this(3) demo_words(4)] show ?thesis .
qed

theorem reused_code_stops_witness:
  "foldE client_turn [[Datagram 0 (Recv (message kClientSign ERROR_LIMIT 0 []) peer_a) 1 ([], True)],
     [Datagram 1 (Recv (message kServerSign SHARE_CODE 4 (u32_bytes 9)) peer_b) 2 ([], True)]] (demo_loop [], sharing) = Inl Assert_Fail"
proof -
  have "(9 :: u32) \<noteq> 0" "pendingFunctors (demo_loop []) = []" "Send_Conn.state (waiting\<lparr>sock := 7\<rparr>) = Send_Conn.WAIT_CODE"
    "(0 :: nat) \<noteq> 1" by (simp_all add: demo_loop_def waiting_def)
  from reused_code_stops [OF sharing_inv(1) sharing_parts(1,7,3) this(1) known_signs(2,1) this(2) sharing_parts(4,2,8)
      this(3,4) sharing_parts(6)] show ?thesis .
qed

end
