(* ===== verification/Console.thy ===== *)
theory Console
  imports Client_Properties
begin

text \<open>
  \<open>client/main.cpp\<close> and the socket pair of \<open>DiretransClient\<close>: a second thread reads lines from the
  terminal and writes them, without their newline, into a stream socket; the client's loop reads what
  is there as one command. The two threads share nothing else, so that their steps are the
  turns of the one and the reads of the other, in any order.
\<close>

section \<open>The thread at the terminal\<close>

definition kLineSize :: nat where "kLineSize = 1024"

text \<open>
  \<open>input\<close> is what the terminal has still to deliver, \<open>line_buf\<close> the array of the thread, \<open>in_pair\<close> the bytes
  written into the pair and not yet read.
\<close>

record terminal =
  threadRunning :: bool
  line_buf :: bytes
  input :: bytes
  in_pair :: bytes

definition new_terminal :: "bytes \<Rightarrow> bytes \<Rightarrow> terminal" where
  "new_terminal uninit typed = \<lparr>threadRunning = True, line_buf = uninit, input = typed, in_pair = []\<rparr>"

text \<open>\<open>res\<close> is what \<open>socketpair\<close> returns; a new pair holds nothing.\<close>

definition createSocketPair :: "int \<Rightarrow> bytes outcome" where
  "createSocketPair res = (if res \<noteq> 0 then Inl Abort else Inr [])"

definition open_terminal :: "int \<Rightarrow> bytes \<Rightarrow> bytes \<Rightarrow> terminal outcome" where
  "open_terminal res uninit typed =
     bindE (createSocketPair res) (\<lambda>pair. Inr ((new_terminal uninit typed)\<lparr>in_pair := pair\<rparr>))"

lemma open_terminal: "open_terminal 0 uninit typed = Inr (new_terminal uninit typed)"
  by (simp add: open_terminal_def createSocketPair_def new_terminal_def)

text \<open>\<open>fgets\<close>: up to \<open>n\<close> characters, to the end of the line or of the input; nothing at the end of the input.\<close>

fun line_of :: "nat \<Rightarrow> bytes \<Rightarrow> bytes" where
  "line_of 0 t = []"
| "line_of (Suc n) [] = []"
| "line_of (Suc n) (b # t) = (if b = 0x0A then [b] else b # line_of n t)"

definition fgets :: "terminal \<Rightarrow> terminal option" where
  "fgets t =
     (let l = line_of (kLineSize - 1) (input t)
      in if l = [] then None
         else Some (t\<lparr>line_buf := mem_put (line_buf t) 0 (l @ [0]), input := drop (length l) (input t)\<rparr>))"

definition strlen :: "bytes \<Rightarrow> nat outcome" where
  "strlen b = (if 0 \<in> set b then Inr (length (takeWhile (\<lambda>x. x \<noteq> 0) b)) else Inl Out_Of_Bounds)"

text \<open>The newline becomes the end of the string; \<open>buf[len - 1]\<close> of an empty string lies before the array.\<close>

definition cut_newline :: "bytes \<Rightarrow> bytes outcome" where
  "cut_newline b =
     bindE (strlen b) (\<lambda>len.
       if len = 0 then Inl Out_Of_Bounds
       else Inr (if b ! (len - 1) = 0x0A then b[len - 1 := 0] else b))"

text \<open>\<open>res\<close> is what \<open>write\<close> returns.\<close>

definition writeCmdtoSock :: "bytes option \<Rightarrow> nat \<Rightarrow> int \<Rightarrow> bytes \<Rightarrow> int \<times> bytes" where
  "writeCmdtoSock msg lenth res pair =
     (case msg of
        None \<Rightarrow> (-1, pair)
      | Some m \<Rightarrow> (res, pair @ take (min lenth (nat res)) m))"

text \<open>One turn of the loop of \<open>sendCmd\<close>.\<close>

definition sendCmd :: "int \<Rightarrow> terminal \<Rightarrow> terminal outcome" where
  "sendCmd res t =
     (if \<not> threadRunning t then Inr t
      else
        bindE (case fgets t of
                 None \<Rightarrow> Inr t
               | Some t1 \<Rightarrow> bindE (cut_newline (line_buf t1)) (\<lambda>b. Inr (t1\<lparr>line_buf := b\<rparr>))) (\<lambda>t2.
        bindE (strlen (line_buf t2)) (\<lambda>len.
        let pair = snd (writeCmdtoSock (Some (line_buf t2)) len res (in_pair t2));
            zeros = replicate kLineSize 0
        in bindE (strlen zeros) (\<lambda>z. require (z = 0)
             (Inr (t2\<lparr>in_pair := pair, line_buf := zeros\<rparr>))))))"

section \<open>Both threads\<close>

text \<open>The loop reads when there is something to read, at most as much as its array holds.\<close>

datatype console_event = Type_Line int | Read_Command os_env

definition read_command :: "os_env \<Rightarrow> terminal \<times> client_state \<Rightarrow> (terminal \<times> client_state) outcome" where
  "read_command e = (\<lambda>(t, st).
     if in_pair t = [] then Inr (t, st)
     else bindE (handleCmd e (take kCmdSize (in_pair t)) st) (\<lambda>st'.
       Inr (t\<lparr>in_pair := drop kCmdSize (in_pair t)\<rparr>, st')))"

definition console_step :: "console_event \<Rightarrow> terminal \<times> client_state \<Rightarrow> (terminal \<times> client_state) outcome" where
  "console_step ev = (\<lambda>(t, st).
     (case ev of
        Type_Line res \<Rightarrow> bindE (sendCmd res t) (\<lambda>t'. Inr (t', st))
      | Read_Command e \<Rightarrow> read_command e (t, st)))"

definition console_run :: "console_event list \<Rightarrow> terminal \<times> client_state \<Rightarrow> (terminal \<times> client_state) outcome" where
  "console_run = foldE console_step"

section \<open>Lines\<close>

text \<open>A line as a user types it, of which a prefix ends at the newline.\<close>

definition a_line :: "bytes \<Rightarrow> bool" where
  "a_line l \<longleftrightarrow> length l < 1023 \<and> 0 \<notin> set l \<and> 0x0A \<notin> set l"

lemma line_of_newline: "0x0A \<notin> set l \<Longrightarrow> length l < n \<Longrightarrow> line_of n (l @ 0x0A # rest) = l @ [0x0A]"
proof (induction l arbitrary: n)
  case Nil
  then show ?case by (cases n) simp_all
next
  case (Cons b l)
  then show ?case by (cases n) auto
qed

lemma line_of_full: "0x0A \<notin> set l \<Longrightarrow> line_of (length l) (l @ rest) = l"
  by (induction l) auto

lemma length_line_of: "length (line_of n t) \<le> n"
  by (induction n t rule: line_of.induct) auto

definition idle_buf :: "bytes \<Rightarrow> bool" where
  "idle_buf b \<longleftrightarrow> length b = kLineSize"

text \<open>A turn of the thread: what it reads is a line or the first 1023 characters of one.\<close>

lemma strlen_string: "0 \<notin> set l \<Longrightarrow> strlen (l @ 0 # r) = Inr (length l)"
proof -
  assume "0 \<notin> set l"
  then have "takeWhile (\<lambda>x. x \<noteq> 0) (l @ 0 # r) = l" by (induction l) auto
  then show ?thesis by (simp add: strlen_def)
qed

lemma strlen_zeros: "0 < n \<Longrightarrow> strlen (replicate n 0) = Inr 0"
  by (cases n) (simp_all add: strlen_def)

lemma fgets_line:
  assumes "line_of 1023 (input t) = l" "l \<noteq> []" "length (line_buf t) = kLineSize" "length l \<le> 1023"
  shows "fgets t = Some (t\<lparr>line_buf := l @ 0 # drop (Suc (length l)) (line_buf t), input := drop (length l) (input t)\<rparr>)"
  using assms by (simp add: fgets_def kLineSize_def mem_put_def)

lemma sendCmd_writes:
  assumes t: "threadRunning t" "idle_buf (line_buf t)" and l: "0 \<notin> set l" "length l \<le> 1023" "line_of 1023 (input t) = l'"
    and nl: "l' = l @ [0x0A] \<and> length l < 1023 \<or> l' = l \<and> l \<noteq> [] \<and> last l \<noteq> 0x0A" and res: "int (length l) \<le> res"
  shows "sendCmd res t = Inr (t\<lparr>line_buf := replicate kLineSize 0, input := drop (length l') (input t),
    in_pair := in_pair t @ l\<rparr>)"
proof -
  have b: "length (line_buf t) = kLineSize" using t(2) by (simp add: idle_buf_def)
  have ne: "l' \<noteq> []" "length l' \<le> 1023" "0 \<notin> set l'" using nl l by auto
  let ?r = "drop (Suc (length l')) (line_buf t)"
  have f: "fgets t = Some (t\<lparr>line_buf := l' @ 0 # ?r, input := drop (length l') (input t)\<rparr>)"
    using fgets_line [OF l(3) ne(1) b ne(2)] .
  have "\<exists>r. cut_newline (l' @ 0 # ?r) = Inr (l @ 0 # r)"
  proof (cases "l' = l @ [0x0A]")
    case True
    then show ?thesis
      using strlen_string [of "l @ [0x0A]" ?r] l(1)
      by (intro exI [of _ "0 # ?r"]) (simp add: cut_newline_def nth_append list_update_append)
  next
    case False
    then have "l' = l" "l \<noteq> []" "last l \<noteq> 0x0A" using nl by auto
    then show ?thesis
      using strlen_string [of l ?r] l(1)
      by (intro exI [of _ ?r]) (simp add: cut_newline_def nth_append last_conv_nth)
  qed
  then obtain r where "cut_newline (l' @ 0 # ?r) = Inr (l @ 0 # r)" by blast
  moreover have "min (length l) (nat res) = length l" using res by simp
  ultimately show ?thesis
    using t(1) f strlen_string [OF l(1)] strlen_zeros [of kLineSize]
    by (simp add: sendCmd_def writeCmdtoSock_def kLineSize_def)
qed

lemma sendCmd_line:
  assumes t: "threadRunning t" "idle_buf (line_buf t)" "input t = l @ 0x0A # rest" and l: "a_line l" and res: "int (length l) \<le> res"
  shows "sendCmd res t = Inr (t\<lparr>line_buf := replicate kLineSize 0, input := rest, in_pair := in_pair t @ l\<rparr>)"
proof -
  have a: "length l < 1023" "0 \<notin> set l" "0x0A \<notin> set l" using l by (simp_all add: a_line_def)
  have "line_of 1023 (input t) = l @ [0x0A]" unfolding t(3) using line_of_newline a by blast
  from sendCmd_writes [OF t(1,2) a(2) _ this _ res] a(1) show ?thesis unfolding t(3) by simp
qed

lemma sendCmd_part:
  assumes t: "threadRunning t" "idle_buf (line_buf t)" "input t = l @ rest"
    and l: "length l = 1023" "0 \<notin> set l" "0x0A \<notin> set l" and res: "1023 \<le> res"
  shows "sendCmd res t = Inr (t\<lparr>line_buf := replicate kLineSize 0, input := rest, in_pair := in_pair t @ l\<rparr>)"
proof -
  have "line_of 1023 (input t) = l" using line_of_full [OF l(3), of rest] unfolding t(3) l(1) .
  moreover have ne: "l \<noteq> []" using l(1) by auto
  moreover have "last l \<noteq> 0x0A" using l(3) last_in_set [OF ne] by metis
  ultimately show ?thesis
    using sendCmd_writes [OF t(1,2) l(2), of l res] l(1) res unfolding t(3) by simp
qed

lemma handleCmd_nothing: "handleCmd e [] st = Inr st"
  by (simp add: handleCmd_def dispatch_cmd_def c_text_def kCmdSize_def read_words.simps [of "[]"])

definition typed :: "bytes list \<Rightarrow> bytes" where
  "typed ls = concat (map (\<lambda>l. l @ [0x0A]) ls)"

lemma typed_simps [simp]: "typed [] = []" "typed (l # ls) = l @ 0x0A # typed ls"
  by (simp_all add: typed_def)

definition ready :: "terminal \<Rightarrow> bool" where
  "ready t \<longleftrightarrow> threadRunning t \<and> idle_buf (line_buf t)"

definition client_part :: "(terminal \<times> client_state) outcome \<Rightarrow> client_state outcome" where
  "client_part r = bindE r (\<lambda>(t, st). Inr st)"

lemma client_part_bindE: "client_part (bindE r f) = bindE r (\<lambda>x. client_part (f x))"
  by (simp add: client_part_def bindE_assoc)

lemma console_run_simps [simp]:
  "console_run [] s = Inr s" "console_run (ev # evs) s = bindE (console_step ev s) (console_run evs)"
  "console_run (xs @ ys) s = bindE (console_run xs s) (console_run ys)"
  by (simp_all add: console_run_def foldE_append)

lemma type_line:
  assumes "ready t" and "input t = l @ 0x0A # rest" and "a_line l" and "1023 \<le> res"
  shows "console_step (Type_Line res) (t, st) =
    Inr (t\<lparr>line_buf := replicate kLineSize 0, input := rest, in_pair := in_pair t @ l\<rparr>, st)"
proof -
  have "int (length l) \<le> res" using assms(3,4) by (simp add: a_line_def)
  from sendCmd_line [OF _ _ assms(2,3) this] show ?thesis
    using assms(1) by (simp add: ready_def console_step_def)
qed

lemma read_what_is_there:
  assumes "length (in_pair t) \<le> 1024"
  shows "console_step (Read_Command e) (t, st) =
    bindE (handleCmd e (in_pair t) st) (\<lambda>st'. Inr (t\<lparr>in_pair := []\<rparr>, st'))"
proof (cases "in_pair t = []")
  case True
  then have "t\<lparr>in_pair := []\<rparr> = t" by simp
  with True show ?thesis by (simp add: console_step_def read_command_def handleCmd_nothing)
qed (use assms in \<open>simp add: console_step_def read_command_def kCmdSize_def\<close>)

lemma ready_after [simp]: "ready (t\<lparr>line_buf := replicate kLineSize 0, input := i, in_pair := p\<rparr>) = threadRunning t"
  by (simp add: ready_def idle_buf_def)

text \<open>
  C30. Commands typed one at a time: when each line is read by the loop before the next is typed, the client does
  what the lines say, one after the other, with the same result, faults included. The array, the end of the line
  and the stream in between change nothing.
\<close>

theorem commands_in_turn:
  assumes "ready t" and "in_pair t = []" and "input t = typed ls @ rest" and "\<forall>l \<in> set ls. a_line l"
    and "length es = length ls" and "1023 \<le> res"
  shows "client_part (console_run (concat (map (\<lambda>e. [Type_Line res, Read_Command e]) es)) (t, st)) =
    foldE (\<lambda>(e, l). handleCmd e l) (zip es ls) st"
  using assms
proof (induction ls arbitrary: es t st)
  case Nil
  then show ?case by (simp add: client_part_def)
next
  case (Cons l ls)
  then obtain e es' where es: "es = e # es'" "length es' = length ls" by (cases es) auto
  let ?t = "t\<lparr>line_buf := replicate kLineSize 0, input := typed ls @ rest, in_pair := l\<rparr>"
  have a: "a_line l" using Cons.prems(4) by simp
  have t: "console_step (Type_Line res) (t, st) = Inr (?t, st)"
    using type_line [OF Cons.prems(1) _ a Cons.prems(6)] Cons.prems(2,3) by simp
  have r: "console_step (Read_Command e) (?t, st) = bindE (handleCmd e l st) (\<lambda>st'. Inr (?t\<lparr>in_pair := []\<rparr>, st'))"
    using read_what_is_there [of ?t e st] a by (simp add: a_line_def)
  have rest: "client_part (console_run (concat (map (\<lambda>e. [Type_Line res, Read_Command e]) es')) (?t\<lparr>in_pair := []\<rparr>, st')) =
      foldE (\<lambda>(e, l). handleCmd e l) (zip es' ls) st'" for st'
    using Cons.prems Cons.IH [of "?t\<lparr>in_pair := []\<rparr>" es' st'] es(2) by (simp add: ready_def idle_buf_def)
  show ?case
    using rest by (simp add: es(1) t r bindE_assoc client_part_bindE)
qed

lemma type_lines:
  assumes "ready t" and "input t = typed ls @ rest" and "\<forall>l \<in> set ls. a_line l" and "1023 \<le> res"
  shows "\<exists>t'. console_run (replicate (length ls) (Type_Line res)) (t, st) = Inr (t', st) \<and> ready t' \<and>
    input t' = rest \<and> in_pair t' = in_pair t @ concat ls"
  using assms
proof (induction ls arbitrary: t)
  case Nil
  then show ?case by simp
next
  case (Cons l ls)
  let ?t = "t\<lparr>line_buf := replicate kLineSize 0, input := typed ls @ rest, in_pair := in_pair t @ l\<rparr>"
  have "console_step (Type_Line res) (t, st) = Inr (?t, st)"
    using type_line [OF Cons.prems(1) _ _ Cons.prems(4)] Cons.prems(2,3) by simp
  moreover have "ready ?t" using Cons.prems(1) by (simp add: ready_def idle_buf_def)
  ultimately show ?case using Cons.IH [of ?t] Cons.prems by simp
qed

text \<open>
  C31. Lines that were typed before the loop reads are one command: the client sees them without anything between,
  so that the last word of one runs into the first of the next; and when they have 1024 bytes or
  more, it reads past the end of its array.
\<close>

theorem unread_lines_join:
  assumes "ready t" and "in_pair t = []" and "input t = typed ls @ rest" and "\<forall>l \<in> set ls. a_line l"
    and "1023 \<le> res"
  shows "client_part (console_run (replicate (length ls) (Type_Line res) @ [Read_Command e]) (t, st)) =
    (if length (concat ls) < 1024 then handleCmd e (concat ls) st else Inl Out_Of_Bounds)"
proof -
  from type_lines [OF assms(1,3,4,5), of st] assms(2) obtain t' where
    t': "console_run (replicate (length ls) (Type_Line res)) (t, st) = Inr (t', st)" "in_pair t' = concat ls" by auto
  show ?thesis
  proof (cases "length (concat ls) < 1024")
    case True
    then show ?thesis using read_what_is_there [of t' e st] t'
      by (simp add: client_part_bindE bindE_assoc) (simp add: client_part_def bindE_right)
  next
    case False
    have "0 \<notin> set (concat ls)" using assms(4) by (auto simp: a_line_def)
    then have "c_text (take kCmdSize (take kCmdSize (concat ls))) = Inl Out_Of_Bounds"
      using False by (auto simp: c_text_def kCmdSize_def dest: in_set_takeD)
    then have "handleCmd e (take kCmdSize (concat ls)) st = Inl Out_Of_Bounds"
      by (simp add: handleCmd_def dispatch_cmd_def del: take_take)
    moreover have "concat ls \<noteq> []" using False by (metis gr0I length_greater_0_conv not_less_zero zero_less_numeral list.size(3))
    ultimately show ?thesis using False t'
      by (simp add: console_step_def read_command_def client_part_def)
  qed
qed

text \<open>
  A line of 1023 characters or more is two commands: the client executes its first 1023 characters, and then
  what follows them.
\<close>

theorem long_line_splits:
  assumes "ready t" and "in_pair t = []" and "input t = l @ 0x0A # rest" and "0 \<notin> set l" "0x0A \<notin> set l"
    and "1023 \<le> length l" "length l < 2046" and "1023 \<le> res"
  shows "client_part (console_run [Type_Line res, Read_Command e1, Type_Line res, Read_Command e2] (t, st)) =
    bindE (handleCmd e1 (take 1023 l) st) (handleCmd e2 (drop 1023 l))"
proof -
  let ?a = "take 1023 l" and ?b = "drop 1023 l"
  have i: "input t = ?a @ ?b @ 0x0A # rest" unfolding assms(3) by (simp only: append_assoc [symmetric] append_take_drop_id)
  have a: "length ?a = 1023" "0 \<notin> set ?a" "0x0A \<notin> set ?a" using assms by (auto dest: in_set_takeD)
  have b: "a_line ?b" using assms by (auto simp: a_line_def dest: in_set_dropD)
  let ?t1 = "t\<lparr>line_buf := replicate kLineSize 0, input := ?b @ 0x0A # rest, in_pair := ?a\<rparr>"
  have 1: "console_step (Type_Line res) (t, st) = Inr (?t1, st)"
    using sendCmd_part [OF _ _ i a assms(8)] assms(1,2) by (simp add: console_step_def ready_def)
  have 2: "console_step (Read_Command e1) (?t1, st) = bindE (handleCmd e1 ?a st) (\<lambda>st'. Inr (?t1\<lparr>in_pair := []\<rparr>, st'))"
    using read_what_is_there [of ?t1 e1 st] a(1) by simp
  let ?t2 = "?t1\<lparr>in_pair := ?b, input := rest\<rparr>"
  have 3: "console_step (Type_Line res) (?t1\<lparr>in_pair := []\<rparr>, st') = Inr (?t2, st')" for st'
    using type_line [OF _ _ b assms(8), of "?t1\<lparr>in_pair := []\<rparr>" rest st'] assms(1) by (simp add: ready_def idle_buf_def)
  have 4: "console_step (Read_Command e2) (?t2, st') = bindE (handleCmd e2 ?b st') (\<lambda>st''. Inr (?t2\<lparr>in_pair := []\<rparr>, st''))" for st'
    using read_what_is_there [of ?t2 e2 st'] assms(7) by simp
  show ?thesis
    using 1 2 3 4 by (simp add: client_part_def bindE_assoc bindE_right)
qed


section \<open>Where the thread fails\<close>

text \<open>After the end of the input the thread writes nothing, for ever.\<close>

lemma end_of_input_turn:
  assumes "line_buf t = replicate kLineSize 0" and "input t = []"
  shows "sendCmd res t = Inr t"
proof -
  have "line_of n [] = []" for n by (cases n) simp_all
  then have "fgets t = None" using assms(2) by (simp add: fgets_def)
  moreover have "t\<lparr>in_pair := in_pair t, line_buf := replicate kLineSize 0\<rparr> = t" using assms(1) by (cases t) simp
  ultimately show ?thesis
    using assms(1) strlen_zeros [of kLineSize] by (simp add: sendCmd_def writeCmdtoSock_def kLineSize_def)
qed

lemma end_of_input_spins:
  assumes "line_buf t = replicate kLineSize 0" and "input t = []"
  shows "console_run (replicate n (Type_Line res)) (t, st) = Inr (t, st)"
  using end_of_input_turn [OF assms] by (induction n) (simp_all add: console_step_def)

text \<open>A line that begins with a zero byte.\<close>

lemma zero_line_faults:
  assumes "ready t" and "input t = 0 # rest"
  shows "sendCmd res t = Inl Out_Of_Bounds"
proof -
  obtain l where l: "line_of 1023 (input t) = 0 # l" "length l \<le> 1022"
  proof
    have "line_of 1023 (input t) = line_of (Suc 1022) (0 # rest)" using assms(2) by simp
    also have "\<dots> = 0 # line_of 1022 rest" by (simp only: line_of.simps) simp
    finally show "line_of 1023 (input t) = 0 # line_of 1022 rest" .
    show "length (line_of 1022 rest) \<le> 1022" by (rule length_line_of)
  qed
  have b: "length (line_buf t) = kLineSize" using assms(1) by (simp add: ready_def idle_buf_def)
  have "fgets t = Some (t\<lparr>line_buf := (0 # l) @ 0 # drop (Suc (length (0 # l))) (line_buf t), input := drop (length (0 # l)) (input t)\<rparr>)"
    using fgets_line [OF l(1) _ b] l(2) by simp
  moreover have "cut_newline (0 # x) = Inl Out_Of_Bounds" for x by (simp add: cut_newline_def strlen_def)
  ultimately show ?thesis using assms(1) by (simp add: sendCmd_def ready_def)
qed


section \<open>Instances\<close>

definition demo_typed :: "bytes list \<Rightarrow> terminal" where
  "demo_typed ls = new_terminal (replicate kLineSize 0) (typed ls)"

lemma demo_typed_sel:
  "ready (demo_typed ls)" "in_pair (demo_typed ls) = []" "input (demo_typed ls) = typed ls @ []"
  by (simp_all add: demo_typed_def new_terminal_def ready_def idle_buf_def)

definition share_x :: bytes where "share_x = command ''SHARE'' [0x78]"
definition get_5 :: bytes where "get_5 = command ''GET'' [0x35]"

lemma demo_lines: "a_line share_x" "a_line get_5"
  by (simp_all add: a_line_def share_x_def get_5_def command_def str_def)

theorem commands_in_turn_witness:
  "client_part (console_run [Type_Line 1023, Read_Command demo_env, Type_Line 1023, Read_Command demo_env]
      (demo_typed [share_x, get_5], (demo_loop [], no_conns))) =
    bindE (cmd_share demo_env [0x78] (demo_loop [], no_conns)) (cmd_get demo_env [0x35])"
proof -
  have w: "a_word [0x78]" "a_word [0x35]" by (simp_all add: a_word_def is_space_def)
  have "handleCmd demo_env share_x st = cmd_share demo_env [0x78] st" "handleCmd demo_env get_5 st = cmd_get demo_env [0x35] st" for st
    using share_cmd [OF w(1)] get_cmd [OF w(2)] by (simp_all add: share_x_def get_5_def)
  then show ?thesis
    using commands_in_turn [OF demo_typed_sel(1,2,3), of "[share_x, get_5]" "[demo_env, demo_env]" 1023 "(demo_loop [], no_conns)"]
      demo_lines by (simp add: foldE_Cons foldE_Nil bindE_right)
qed

text \<open>Sharing \<open>x\<close> and fetching code 5, typed too fast, shares the file \<open>xGET\<close> and fetches nothing.\<close>

theorem unread_lines_join_witness:
  "client_part (console_run [Type_Line 1023, Type_Line 1023, Read_Command demo_env]
      (demo_typed [share_x, get_5], (demo_loop [], no_conns))) =
    cmd_share demo_env (0x78 # str ''GET'') (demo_loop [], no_conns)"
proof -
  let ?w = "0x78 # str ''GET''"
  have w: "a_word ?w" "a_word [0x35]" by (simp_all add: a_word_def is_space_def str_def)
  have j: "share_x @ get_5 = str ''SHARE'' @ 0x20 # ?w @ 0x20 # [0x35]" by (simp add: share_x_def get_5_def command_def)
  have "length (share_x @ get_5) < 1024" "0 \<notin> set (share_x @ get_5)"
    by (simp_all add: share_x_def get_5_def command_def str_def)
  from c_text_plain [OF this] have "handleCmd demo_env (share_x @ get_5) st = cmd_share demo_env ?w st" for st
    using read_words_Cons(1) [OF verbs(1), of "?w @ 0x20 # [0x35]"] read_words_Cons(1) [OF w(1), of "[0x35]"] read_words_Cons(2) [OF w(2)]
    by (simp add: handleCmd_def dispatch_cmd_def j)
  moreover have "length (concat [share_x, get_5]) < 1024" by (simp add: share_x_def get_5_def command_def str_def)
  ultimately show ?thesis
    using unread_lines_join [OF demo_typed_sel(1,2,3), of "[share_x, get_5]" 1023 demo_env "(demo_loop [], no_conns)"]
      demo_lines by simp
qed

theorem long_line_splits_witness:
  "client_part (console_run [Type_Line 1023, Read_Command demo_env, Type_Line 1023, Read_Command demo_env]
      (demo_typed [replicate 1023 0x61 @ get_5], (demo_loop [], no_conns))) =
    cmd_get demo_env [0x35] (demo_loop [], no_conns)"
proof -
  let ?l = "replicate 1023 0x61 @ get_5"
  have i: "input (demo_typed [?l]) = ?l @ 0x0A # []" by (simp add: demo_typed_def new_terminal_def)
  have l: "0 \<notin> set ?l" "0x0A \<notin> set ?l" "1023 \<le> length ?l" "length ?l < 2046"
    by (simp_all add: get_5_def command_def str_def)
  let ?x = "replicate 1023 (0x61::u8)"
  have "a_word ?x" "a_word [0x35]" by (simp_all add: a_word_def is_space_def)
  then have r: "read_words ?x = [?x]" and g: "handleCmd demo_env get_5 st = cmd_get demo_env [0x35] st" for st
    using read_words_Cons(2) get_cmd [of "[0x35]"] by (auto simp: get_5_def)
  have "0 \<notin> set ?x" by simp
  then have "handleCmd demo_env ?x st = Inr st" for st
    using c_text_plain [of ?x] r by (simp add: handleCmd_def dispatch_cmd_def Let_def del: replicate.simps take_replicate)
  then show ?thesis
    using long_line_splits [OF demo_typed_sel(1,2) i l, of 1023 demo_env demo_env "(demo_loop [], no_conns)"] g
    by simp
qed

end
