(* ===== verification/Client_Process.thy ===== *)
theory Client_Process
  imports Loop_Process Client_Properties
begin

text \<open>
  The client as a process: its loop, the channels of the command socket and of every connection, and the tables behind them. A
  connection's channel is opened by the constructor of its socket and closed by its destructor. What the kernel reports, what \<open>recvfrom\<close> and
  \<open>read\<close> return and which timers are due in one turn is an input.
\<close>

section \<open>State\<close>

datatype client_reader = Tick_Read | Wake_Read | Typed_Read | Conn_Read nat

record client_process = "client_reader loop_process" +
  cp_client :: client

type_synonym client_host = "client_functor event_loop \<times> client_process"

record client_fds = loop_fds +
  readsock :: int

text \<open>The channel of the connection at \<open>p\<close>, behind those of the timer queue, the wake-up descriptor and the command socket.\<close>

definition conn_chan :: "nat \<Rightarrow> nat" where "conn_chan p = p + 3"

definition make_client :: "client_fds \<Rightarrow> bool \<Rightarrow> bytes \<Rightarrow> client_host outcome" where
  "make_client d pair_ok uninit =
     bindE (make_EventLoop d Tick_Read Wake_Read :: (client_functor event_loop \<times> unit timer_queue \<times> client_reader epoller) outcome) (\<lambda>(l, q, ep).
     if \<not> pair_ok then Inl Abort
     else bindE (open_channel 2 (readsock d) Typed_Read ep) (\<lambda>ep.
       Inr (l, \<lparr>sp_poller = ep, cp_client = first_client uninit\<rparr>)))"

section \<open>Commands, with the sockets they open and close\<close>

definition on_client :: "(client_state \<Rightarrow> client_state outcome) \<Rightarrow> client_host \<Rightarrow> client_host outcome" where
  "on_client f st = bindE (f (fst st, cp_client (snd st))) (\<lambda>(l, c). Inr (l, (snd st)\<lparr>cp_client := c\<rparr>))"

text \<open>Assigning to a table entry destroys the connection that was there, and its socket.\<close>

definition close_channel :: "nat option option \<Rightarrow> client_reader epoller \<Rightarrow> client_reader epoller outcome" where
  "close_channel entry ep = (case entry of Some (Some p) \<Rightarrow> destroy_UdpCom True (conn_chan p) ep | _ \<Rightarrow> Inr ep)"

definition host_share :: "os_env \<Rightarrow> bytes \<Rightarrow> client_host \<Rightarrow> client_host outcome" where
  "host_share e arg st =
     (case st of (l, pr) \<Rightarrow>
        let c = cp_client pr; p = next_obj c in
        bindE (append new_Buffer arg) (\<lambda>fileName.
        bindE (new_SendConnManager (new_fd e) (ports e) (binds e) (server_addr c) (uninit_addr e)) (\<lambda>s.
        bindE (open_channel (conn_chan p) (new_fd e) (Conn_Read p) (sp_poller pr)) (\<lambda>ep.
        let fd = sock s in
        bindE (close_channel (pendingconns c fd) ep) (\<lambda>ep.
        let c1 = destroy (pendingconns c fd) c;
            c2 = c1\<lparr>next_obj := Suc p, pendingconns := (pendingconns c1)(fd \<mapsto> Some p)\<rparr>
        in bindE (after_sender p (shareFile (crc e) (files e) (uninit_file e) s fileName) (l, c2)) (\<lambda>(l, c).
           Inr (l, pr\<lparr>sp_poller := ep, cp_client := c\<rparr>)))))))"

definition host_get :: "os_env \<Rightarrow> bytes \<Rightarrow> client_host \<Rightarrow> client_host outcome" where
  "host_get e arg st =
     (case st of (l, pr) \<Rightarrow>
        let c = cp_client pr; p = next_obj c; k = atoi arg in
        if k = 0 then Inr (l, pr)
        else
          bindE (new_GetConnManager (new_fd e) (ports e) (binds e) (server_addr c) (uninit_addr e) (uninit_data e)) (\<lambda>g.
          bindE (open_channel (conn_chan p) (new_fd e) (Conn_Read p) (sp_poller pr)) (\<lambda>ep.
          bindE (close_channel (getconns c k) ep) (\<lambda>ep.
          let c1 = destroy (getconns c k) c;
              c2 = c1\<lparr>next_obj := Suc p, getconns := (getconns c1)(k \<mapsto> Some p)\<rparr>
          in bindE (after_getter p (getFile g k) (l, c2)) (\<lambda>(l, c).
             Inr (l, pr\<lparr>sp_poller := ep, cp_client := c\<rparr>))))))"

text \<open>The connections to delete are a set of pointers, which is ordered by them.\<close>

definition host_delete :: "client_host \<Rightarrow> client_host outcome" where
  "host_delete st =
     bindE (foldE (\<lambda>p. destroy_UdpCom True (conn_chan p)) (sorted_list_of_set (set (deleteconns (cp_client (snd st))))) (sp_poller (snd st))) (\<lambda>ep.
     on_client (\<lambda>u. Inr (deleteConn u)) (fst st, (snd st)\<lparr>sp_poller := ep\<rparr>))"

definition host_functor :: "client_functor \<Rightarrow> client_host \<Rightarrow> client_host outcome" where
  "host_functor f st = (case f of Delete_Conn \<Rightarrow> host_delete st | _ \<Rightarrow> on_client (run_functor f) st)"

section \<open>The loop\<close>

record client_input =
  reports :: "(int \<times> u32) list"
  typed :: bytes
  env :: os_env
  came :: "nat \<Rightarrow> recv"
  came_at :: "nat \<Rightarrow> timestamp"
  disk :: "nat \<Rightarrow> bytes \<times> bool"
  due :: "client_event list"

definition run_client_reader :: "client_input \<Rightarrow> client_reader \<Rightarrow> client_host \<Rightarrow> client_host outcome" where
  "run_client_reader i c st =
     (case c of
        Tick_Read \<Rightarrow> foldE (\<lambda>e. on_client (on_event e)) (due i) st
      | Wake_Read \<Rightarrow> Inr (Event_Loop.handleRead (fst st), snd st)
      | Typed_Read \<Rightarrow> dispatch_cmd (host_share (env i)) (host_get (env i)) (\<lambda>w ws. on_client (cmd_chat w ws)) (typed i) st
      | Conn_Read p \<Rightarrow> on_client (on_event (Datagram p (came i p) (came_at i p) (disk i p))) st)"

abbreviation host_turn :: "client_input \<Rightarrow> client_host \<Rightarrow> client_host outcome" where
  "host_turn i \<equiv> poll_and_handle (run_client_reader i) (reports i)"

definition client_main :: "client_fds \<Rightarrow> bool \<Rightarrow> bytes \<Rightarrow> (nat \<Rightarrow> client_input) \<Rightarrow> client_host outcome" where
  "client_main d pair_ok uninit inputs =
     bindE (make_client d pair_ok uninit) (loop host_turn host_functor True (\<lambda>n. [inputs n]))"

section \<open>What a turn of the client's model is made of\<close>

text \<open>The reader behind a channel's address, and the events it stands for.\<close>

definition reader_at :: "nat \<Rightarrow> client_reader" where
  "reader_at q = (if q = 0 then Tick_Read else if q = 1 then Wake_Read else if q = 2 then Typed_Read else Conn_Read (q - 3))"

fun reader_events :: "client_input \<Rightarrow> bool \<Rightarrow> client_reader \<Rightarrow> client_event list" where
  "reader_events i r Tick_Read = (if r then due i else [])"
| "reader_events i r Wake_Read = (if r then [Woken] else [])"
| "reader_events i r Typed_Read = (if r then [Command (env i) (typed i)] else [])"
| "reader_events i r (Conn_Read p) = [if r then Datagram p (came i p) (came_at i p) (disk i p) else Quiet p]"

definition report_events :: "client_input \<Rightarrow> client_reader epoller \<Rightarrow> int \<times> u32 \<Rightarrow> client_event list" where
  "report_events i ep = (\<lambda>(fd, r). if 0 < r then reader_events i (readable r) (reader_at (the (channels ep fd))) else [])"

definition turn_events :: "client_input \<Rightarrow> client_reader epoller \<Rightarrow> client_event list" where
  "turn_events i ep = concat (map (report_events i ep) (take kMaxEvents (reports i)))"

section \<open>Objects and channels\<close>

text \<open>A channel for every connection, and for nothing else.\<close>

definition has_channel :: "(nat \<rightharpoonup> conn_object) \<Rightarrow> nat \<Rightarrow> bool" where
  "has_channel os q \<longleftrightarrow> q < 3 \<or> os (q - 3) \<noteq> None"

definition hosted :: "client_reader epoller \<Rightarrow> (nat \<rightharpoonup> conn_object) \<Rightarrow> bool" where
  "hosted ep os \<longleftrightarrow> ep_ok ep \<and>
     (\<forall>q. chans ep q \<noteq> None \<longleftrightarrow> has_channel os q) \<and>
     (\<forall>q ch. chans ep q = Some ch \<longrightarrow> reads_only (reader_at q) ch \<and> 0 \<le> ch_index ch \<and> \<not> isNoneEvent ch) \<and>
     (\<forall>p s ch. os p = Some (Sender s) \<longrightarrow> chans ep (conn_chan p) = Some ch \<longrightarrow> ch_fd ch = sock s)"

definition hosts_client :: "client_host \<Rightarrow> client_state \<Rightarrow> bool" where
  "hosts_client st u \<longleftrightarrow> fst st = fst u \<and> cp_client (snd st) = snd u \<and> hosted (sp_poller (snd st)) (objects (snd u)) \<and> client_inv u \<and>
     \<not> quit_flag (fst u)"

text \<open>What \<open>poll\<close> has reported stays reported, or its channel is gone.\<close>

definition polled_on :: "client_host \<Rightarrow> client_host \<Rightarrow> bool" where
  "polled_on st st' \<longleftrightarrow> next_obj (cp_client (snd st)) \<le> next_obj (cp_client (snd st')) \<and>
     (\<forall>q < conn_chan (next_obj (cp_client (snd st))). \<forall>ch'. chans (sp_poller (snd st')) q = Some ch' \<longrightarrow>
       (\<exists>ch. chans (sp_poller (snd st)) q = Some ch \<and> revents ch = revents ch'))"

section \<open>What a step does to the objects\<close>

lemma send_action_keeps:
  "send_action p a u = Inr v \<Longrightarrow> objects (snd v) = objects (snd u) \<and> next_obj (snd v) = next_obj (snd u) \<and> quit_flag (fst v) = quit_flag (fst u)"
  by (cases u) (auto simp: send_action_def movePendConn_def closeSendConn_def closePendConn_def to_delete_def outcome_simps
      split: Send_Conn.action.splits option.splits if_splits)

lemma send_actions_keep:
  "foldE (send_action p) as u = Inr v \<Longrightarrow>
    objects (snd v) = objects (snd u) \<and> next_obj (snd v) = next_obj (snd u) \<and> quit_flag (fst v) = quit_flag (fst u)"
  by (induction as arbitrary: u) (auto simp: outcome_simps dest!: send_action_keeps)

lemma get_actions_keep:
  "objects (snd (fold get_action as u)) = objects (snd u) \<and> next_obj (snd (fold get_action as u)) = next_obj (snd u) \<and>
    quit_flag (fst (fold get_action as u)) = quit_flag (fst u)"
proof (induction as arbitrary: u)
  case (Cons a as)
  have "objects (snd (get_action a u)) = objects (snd u) \<and> next_obj (snd (get_action a u)) = next_obj (snd u) \<and>
      quit_flag (fst (get_action a u)) = quit_flag (fst u)"
    by (cases u) (auto simp: get_action_def closeGetConn_def to_delete_def split: Get_Conn.action.splits option.splits)
  with Cons show ?case by simp
qed simp

lemma after_sender_objects:
  assumes "after_sender p r u = Inr v"
  shows "\<exists>s. r = Inr s \<and> objects (snd v) = (objects (snd u))(p \<mapsto> Sender (s\<lparr>Send_Conn.actions := []\<rparr>)) \<and>
    next_obj (snd v) = next_obj (snd u) \<and> quit_flag (fst v) = quit_flag (fst u)"
  using assms by (auto simp: after_sender_def outcome_simps store_object_def dest!: send_actions_keep)

lemma after_getter_objects:
  assumes "after_getter p r u = Inr v"
  shows "\<exists>g. r = Inr g \<and> objects (snd v) = (objects (snd u))(p \<mapsto> Getter (g\<lparr>Get_Conn.actions := []\<rparr>)) \<and>
    next_obj (snd v) = next_obj (snd u) \<and> quit_flag (fst v) = quit_flag (fst u)"
  using assms by (auto simp: after_getter_def outcome_simps store_object_def get_actions_keep)

text \<open>Events other than commands, and functors other than the deletion, change no object into another's place.\<close>

definition same_objects :: "client_state \<Rightarrow> client_state \<Rightarrow> bool" where
  "same_objects u v \<longleftrightarrow> dom (objects (snd v)) = dom (objects (snd u)) \<and> next_obj (snd v) = next_obj (snd u) \<and>
     quit_flag (fst v) = quit_flag (fst u)"

lemma after_sender_same: "after_sender p r u = Inr v \<Longrightarrow> objects (snd u) p = Some x \<Longrightarrow> same_objects u v"
  by (drule after_sender_objects) (clarsimp simp: same_objects_def insert_absorb domI)

lemma after_getter_same: "after_getter p r u = Inr v \<Longrightarrow> objects (snd u) p = Some x \<Longrightarrow> same_objects u v"
  by (drule after_getter_objects) (clarsimp simp: same_objects_def insert_absorb domI)

lemma same_objects_refl [simp]: "same_objects u u"
  by (simp add: same_objects_def)

lemma woken_same: "same_objects u (Event_Loop.handleRead (fst u), snd u)"
  by (simp add: same_objects_def Event_Loop.handleRead_def)

lemma event_objects:
  assumes "on_event e u = Inr v" and "\<forall>env d. e \<noteq> Command env d"
  shows "same_objects u v"
  using assms
  by (cases e) (auto simp: on_event_def woken_same simp del: send_step.simps get_step.simps
      split: option.splits conn_object.splits if_splits intro: after_sender_same after_getter_same)

lemma functor_objects:
  assumes "run_functor f u = Inr v" and "f \<noteq> Delete_Conn"
  shows "same_objects u v"
  using assms
  by (cases f) (auto simp: run_functor_def simp del: send_step.simps split: option.splits conn_object.splits intro: after_sender_same)

lemma chat_objects:
  assumes "cmd_chat w ws u = Inr v"
  shows "same_objects u v"
  using assms
  by (cases u; cases "chat_text ws") (auto simp: cmd_chat_def Let_def
      split: option.split_asm conn_object.split_asm intro: after_sender_same after_getter_same)

lemma share_keeps_sock: "shareFile cs fs m s b = Inr s' \<Longrightarrow> sock s' = sock s"
  by (auto simp: shareFile_def Let_def outcome_simps Send_Conn.send_to_def Send_Conn.closeSelf_def Send_Conn.act_def split: if_splits)

lemma new_sock: "new_SendConnManager fd pts os server u = Inr s \<Longrightarrow> sock s = fd"
  by (auto simp: new_SendConnManager_def outcome_simps split: option.splits)

section \<open>The channels keep up\<close>

lemma hosts_sock:
  assumes h: "hosted ep os" and c: "\<forall>p s. os' p = Some (Sender s) \<longrightarrow> (\<exists>t. os p = Some (Sender t) \<and> sock s = sock t)"
    and d: "dom os' = dom os"
  shows "hosted ep os'"
proof -
  have "has_channel os' q = has_channel os q" for q using d by (auto simp: has_channel_def dom_def set_eq_iff)
  moreover have "ch_fd ch = sock s" if "os' p = Some (Sender s)" "chans ep (conn_chan p) = Some ch" for p s ch
    using that c h unfolding hosted_def by fastforce
  ultimately show ?thesis using h by (simp add: hosted_def)
qed

lemma client_edge_socks:
  assumes e: "client_edge u v" and u: "client_inv u" and d: "dom (objects (snd v)) = dom (objects (snd u))"
  shows "\<forall>p s. objects (snd v) p = Some (Sender s) \<longrightarrow> (\<exists>t. objects (snd u) p = Some (Sender t) \<and> sock s = sock t)"
proof (intro allI impI)
  fix p s assume s: "objects (snd v) p = Some (Sender s)"
  then have "p \<in> dom (objects (snd u))" using d by auto
  then have "p < next_obj (snd u)" using u by (auto simp: client_inv_def table_inv_def)
  from client_edge_object [OF e this s] obtain x where "objects (snd u) p = Some x" "same_kind x (Sender s)" by blast
  then show "\<exists>t. objects (snd u) p = Some (Sender t) \<and> sock s = sock t"
    by (cases x) (simp_all add: same_kind_def)
qed

definition quiet_step :: "client_host \<Rightarrow> client_host \<Rightarrow> client_state \<Rightarrow> bool" where
  "quiet_step st st' u' \<longleftrightarrow> hosts_client st' u' \<and> sp_poller (snd st') = sp_poller (snd st) \<and>
     next_obj (cp_client (snd st')) = next_obj (cp_client (snd st))"

lemma quiet_polled: "quiet_step st st' u' \<Longrightarrow> polled_on st st'"
  by (simp add: quiet_step_def polled_on_def)

lemma step_in_host:
  assumes h: "hosts_client st u" and r: "case f u of Inl x \<Rightarrow> True | Inr v \<Rightarrow> same_objects u v \<and> client_inv v \<and> client_edge u v"
  shows "in_step (quiet_step st) (on_client f st) (f u)"
proof (cases "f u")
  case (Inl x)
  then show ?thesis using h by (cases u) (auto simp: on_client_def hosts_client_def)
next
  case (Inr v)
  have u: "(fst st, cp_client (snd st)) = u" using h by (cases u) (simp add: hosts_client_def)
  have c: "client_inv u" using h by (simp add: hosts_client_def)
  have v: "dom (objects (snd v)) = dom (objects (snd u))" "quit_flag (fst v) = quit_flag (fst u)" "client_inv v" "client_edge u v"
    "next_obj (snd v) = next_obj (snd u)"
    using r Inr by (simp_all add: same_objects_def)
  have "hosted (sp_poller (snd st)) (objects (snd u))" using h by (simp add: hosts_client_def)
  from hosts_sock [OF this client_edge_socks [OF v(4) c v(1)] v(1)] v h Inr u show ?thesis
    by (cases v) (auto simp: on_client_def hosts_client_def quiet_step_def)
qed

lemma reader_at_conn [simp]: "reader_at (conn_chan p) = Conn_Read p" "conn_chan p - 3 = p" "\<not> conn_chan p < 3"
  "conn_chan p = conn_chan q \<longleftrightarrow> p = q" "conn_chan p < conn_chan q \<longleftrightarrow> p < q"
  by (simp_all add: reader_at_def conn_chan_def)

lemma has_conn [simp]: "has_channel os (conn_chan p) \<longleftrightarrow> os p \<noteq> None"
  by (simp add: has_channel_def)

lemma hostedD:
  assumes "hosted ep os"
  shows "ep_ok ep" "chans ep q = None \<longleftrightarrow> \<not> has_channel os q"
    and "chans ep q = Some ch \<Longrightarrow> reads_only (reader_at q) ch \<and> 0 \<le> ch_index ch \<and> \<not> isNoneEvent ch"
    and "os p = Some (Sender s) \<Longrightarrow> chans ep (conn_chan p) = Some ch \<Longrightarrow> ch_fd ch = sock s"
  using assms unfolding hosted_def by blast+

lemma open_hosted:
  assumes h: "hosted ep os" and p: "os p = None" and fd: "0 \<le> fd" "\<And>q ch. chans ep q = Some ch \<Longrightarrow> ch_fd ch \<noteq> fd"
    and x: "\<And>s. x = Sender s \<Longrightarrow> sock s = fd"
  shows "\<exists>ep'. open_channel (conn_chan p) fd (Conn_Read p) ep = Inr ep' \<and> hosted ep' (os(p \<mapsto> x)) \<and>
    (\<forall>q. q \<noteq> conn_chan p \<longrightarrow> chans ep' q = chans ep q)"
proof -
  have ok: "ep_ok ep" and n: "chans ep (conn_chan p) = None" using hostedD(1,2) [OF h] p by simp_all
  obtain ep' ch where
    ep': "open_channel (conn_chan p) fd (Conn_Read p) ep = Inr ep'" "ep_ok ep'" "chans ep' = (chans ep)(conn_chan p \<mapsto> ch)"
      "ch_fd ch = fd" "reads_only (Conn_Read p) ch" "0 \<le> ch_index ch" "\<not> isNoneEvent ch"
    using open_channel_ok [of ep "conn_chan p" fd "Conn_Read p"] ok n fd by blast
  have "has_channel (os(p \<mapsto> x)) q \<longleftrightarrow> q = conn_chan p \<or> has_channel os q" for q
    by (auto simp: has_channel_def conn_chan_def)
  then have "hosted ep' (os(p \<mapsto> x))" using h ep' x by (auto simp: hosted_def)
  with ep'(1,3) show ?thesis by simp
qed

lemma close_hosted:
  assumes h: "hosted ep os" and p: "os p \<noteq> None"
  shows "\<exists>ep'. destroy_UdpCom True (conn_chan p) ep = Inr ep' \<and> hosted ep' (os(p := None)) \<and>
    (\<forall>q ch'. chans ep' q = Some ch' \<longrightarrow> (\<exists>ch. chans ep q = Some ch \<and> revents ch = revents ch'))"
proof -
  obtain ch where ch: "chans ep (conn_chan p) = Some ch" "0 \<le> ch_index ch" "\<not> isNoneEvent ch" and ok: "ep_ok ep"
    using hostedD(1) [OF h] hostedD(2) [OF h, of "conn_chan p"] hostedD(3) [OF h] p by fastforce
  have "active_channel ep (conn_chan p)" using ch by (simp add: active_channel_def)
  from destroy_channel_ok [OF ok this] obtain ep' where
    ep': "destroy_UdpCom True (conn_chan p) ep = Inr ep'" "ep_ok ep'" "chans ep' (conn_chan p) = None" "rest_same (conn_chan p) ep ep'" by blast
  have hc: "has_channel (os(p := None)) q \<longleftrightarrow> q \<noteq> conn_chan p \<and> has_channel os q" for q
    by (auto simp: has_channel_def conn_chan_def)
  have rel: "rel_option moved_channel (chans ep q) (chans ep' q)" if "q \<noteq> conn_chan p" for q
    using ep'(4) that by (simp add: rest_same_def)
  have old: "\<exists>c. chans ep q = Some c \<and> moved_channel c c'" if "chans ep' q = Some c'" for q c'
    using rel [of q] that ep'(3) by (cases "q = conn_chan p"; cases "chans ep q") auto
  have new: "chans ep' q \<noteq> None \<longleftrightarrow> q \<noteq> conn_chan p \<and> chans ep q \<noteq> None" for q
    using rel [of q] ep'(3) by (cases "q = conn_chan p"; cases "chans ep q"; cases "chans ep' q") auto
  have "reads_only (reader_at q) c' \<and> 0 \<le> ch_index c' \<and> \<not> isNoneEvent c'" if "chans ep' q = Some c'" for q c'
    using old [OF that] h moved_channel_sel [of _ c'] unfolding hosted_def by metis
  moreover have "ch_fd c' = sock s" if "(os(p := None)) q = Some (Sender s)" "chans ep' (conn_chan q) = Some c'" for q s c'
    using old [OF that(2)] that(1) h moved_channel_sel(1) [of _ c'] unfolding hosted_def by (auto split: if_splits)
  ultimately have "hosted ep' (os(p := None))" using ep'(2) new h hc unfolding hosted_def by simp
  moreover have "\<exists>c. chans ep q = Some c \<and> revents c = revents c'" if "chans ep' q = Some c'" for q c'
    using old [OF that] moved_channel_sel(5) [of _ c'] by metis
  ultimately show ?thesis using ep'(1) by blast
qed

text \<open>A new connection, which may take the place of an old one.\<close>

lemma swap_hosted:
  assumes h: "hosted ep os" and p: "os p = None" and fd: "0 \<le> fd" "\<And>q ch. chans ep q = Some ch \<Longrightarrow> ch_fd ch \<noteq> fd"
    and x: "\<And>s. x = Sender s \<Longrightarrow> sock s = fd" and en: "\<And>q. entry = Some (Some q) \<Longrightarrow> os q \<noteq> None"
  shows "\<exists>ep1 ep2. open_channel (conn_chan p) fd (Conn_Read p) ep = Inr ep1 \<and> close_channel entry ep1 = Inr ep2 \<and>
    hosted ep2 ((\<lambda>q. if entry = Some (Some q) then None else os q)(p \<mapsto> x)) \<and>
    (\<forall>q ch'. q \<noteq> conn_chan p \<longrightarrow> chans ep2 q = Some ch' \<longrightarrow> (\<exists>ch. chans ep q = Some ch \<and> revents ch = revents ch'))"
proof -
  obtain ep1 where
    1: "open_channel (conn_chan p) fd (Conn_Read p) ep = Inr ep1" "hosted ep1 (os(p \<mapsto> x))"
      "\<And>q. q \<noteq> conn_chan p \<Longrightarrow> chans ep1 q = chans ep q"
    using open_hosted [of ep os p fd x] h p fd x by blast
  show ?thesis
  proof (cases "\<exists>q. entry = Some (Some q)")
    case True
    then obtain q where q: "entry = Some (Some q)" "os q \<noteq> None" using en by blast
    have "q \<noteq> p" using q(2) p by metis
    then have "(os(p \<mapsto> x)) q \<noteq> None" using q(2) by simp
    from close_hosted [OF 1(2) this] obtain ep2 where
      2: "destroy_UdpCom True (conn_chan q) ep1 = Inr ep2" "hosted ep2 ((os(p \<mapsto> x))(q := None))"
        "\<forall>q ch'. chans ep2 q = Some ch' \<longrightarrow> (\<exists>ch. chans ep1 q = Some ch \<and> revents ch = revents ch')" by blast
    have "(\<lambda>r. if entry = Some (Some r) then None else os r)(p \<mapsto> x) = (os(p \<mapsto> x))(q := None)" using q(1) \<open>q \<noteq> p\<close> by auto
    moreover have "\<forall>q ch'. q \<noteq> conn_chan p \<longrightarrow> chans ep2 q = Some ch' \<longrightarrow> (\<exists>ch. chans ep q = Some ch \<and> revents ch = revents ch')"
      using 1(3) 2(3) by metis
    ultimately show ?thesis using 1(1) 2(1,2) q(1) by (simp add: close_channel_def)
  next
    case False
    then have "(\<lambda>r. if entry = Some (Some r) then None else os r) = os" "close_channel entry ep1 = Inr ep1"
      by (auto simp: close_channel_def split: option.splits)
    with 1 show ?thesis by simp
  qed
qed

definition fresh_socket :: "os_env \<Rightarrow> client_host \<Rightarrow> bool" where
  "fresh_socket e st \<longleftrightarrow> env_ok e \<and> (\<forall>q ch. chans (sp_poller (snd st)) q = Some ch \<longrightarrow> ch_fd ch \<noteq> new_fd e)"

lemma fresh_cmd_env:
  assumes h: "hosts_client st u" and e: "fresh_socket e st"
  shows "cmd_env_ok (snd u) e"
  unfolding cmd_env_ok_def
proof (intro conjI allI impI)
  show "env_ok e" using e by (simp add: fresh_socket_def)
  fix p s assume s: "objects (snd u) p = Some (Sender s)"
  have hd: "hosted (sp_poller (snd st)) (objects (snd u))" using h by (simp add: hosts_client_def)
  from hostedD(2) [OF hd, of "conn_chan p"] s obtain ch where ch: "chans (sp_poller (snd st)) (conn_chan p) = Some ch" by auto
  from hostedD(4) [OF hd s ch] ch e show "sock s \<noteq> new_fd e" by (auto simp: fresh_socket_def)
qed

lemma host_share_step:
  assumes h: "hosts_client st u" and e: "fresh_socket e st" and w: "length w < 2 ^ 40"
  shows "in_step (\<lambda>st' u'. hosts_client st' u' \<and> polled_on st st') (host_share e w st) (cmd_share e w u)"
proof -
  obtain l c pr where lc: "u = (l, c)" "st = (l, pr)" "cp_client pr = c" using h by (cases u; cases st) (auto simp: hosts_client_def)
  have hd: "hosted (sp_poller pr) (objects c)" and inv: "client_inv u" and nq: "\<not> quit_flag l" using h by (simp_all add: hosts_client_def lc)
  from cmd_share_ok [OF inv fresh_cmd_env [OF h e] w] obtain v where v: "cmd_share e w u = Inr v" "client_inv v" by blast
  let ?p = "next_obj c" and ?en = "pendingconns c (new_fd e)"
  from v(1) obtain b s where run: "append new_Buffer w = Inr b"
    "new_SendConnManager (new_fd e) (ports e) (binds e) (server_addr c) (uninit_addr e) = Inr s"
    and after: "after_sender ?p (shareFile (crc e) (files e) (uninit_file e) s b) (l, (destroy (pendingconns c (sock s)) c)
      \<lparr>next_obj := Suc ?p, pendingconns := (pendingconns c)(sock s \<mapsto> Some ?p)\<rparr>) = Inr v"
    by (auto simp: cmd_share_def lc Let_def outcome_simps)
  have fd: "sock s = new_fd e" using new_sock [OF run(2)] .
  from after_sender_objects [OF after] obtain s' where
    s': "shareFile (crc e) (files e) (uninit_file e) s b = Inr s'" "quit_flag (fst v) = quit_flag l" "next_obj (snd v) = Suc ?p"
      "objects (snd v) = (\<lambda>q. if ?en = Some (Some q) then None else objects c q)(?p \<mapsto> Sender (s'\<lparr>Send_Conn.actions := []\<rparr>))"
    by (auto simp: fd fun_eq_iff)
  have t: "table_inv c" using inv by (simp add: client_inv_def lc)
  have p: "objects c ?p = None" using t by (cases "objects c ?p") (auto simp: table_inv_def)
  have en: "objects c q \<noteq> None" if "?en = Some (Some q)" for q
    using t that unfolding table_inv_def by (metis holds.simps(1))
  have "0 \<le> new_fd e" and fr: "\<And>q ch. chans (sp_poller pr) q = Some ch \<Longrightarrow> ch_fd ch \<noteq> new_fd e"
    using e by (auto simp: fresh_socket_def env_ok_def lc)
  moreover have "sock t = new_fd e" if "Sender (s'\<lparr>Send_Conn.actions := []\<rparr>) = Sender t" for t
    using that share_keeps_sock [OF s'(1)] fd by auto
  ultimately obtain ep1 ep2 where ep: "open_channel (conn_chan ?p) (new_fd e) (Conn_Read ?p) (sp_poller pr) = Inr ep1"
    "close_channel ?en ep1 = Inr ep2" "hosted ep2 (objects (snd v))"
    "\<forall>q ch'. q \<noteq> conn_chan ?p \<longrightarrow> chans ep2 q = Some ch' \<longrightarrow> (\<exists>ch. chans (sp_poller pr) q = Some ch \<and> revents ch = revents ch')"
    unfolding s'(4) using swap_hosted [where x = "Sender (s'\<lparr>Send_Conn.actions := []\<rparr>)" and entry = ?en, OF hd p] fr en by blast
  have "host_share e w st = Inr (fst v, pr\<lparr>sp_poller := ep2, cp_client := snd v\<rparr>)"
    using run after ep(1,2) by (simp add: host_share_def lc Let_def fd split: prod.splits)
  moreover have "hosts_client (fst v, pr\<lparr>sp_poller := ep2, cp_client := snd v\<rparr>) v"
    using v(2) ep(3) s'(2) nq by (simp add: hosts_client_def)
  moreover have "polled_on st (fst v, pr\<lparr>sp_poller := ep2, cp_client := snd v\<rparr>)"
    using ep(4) s'(3) by (auto simp: polled_on_def lc)
  ultimately show ?thesis using v(1) by simp
qed

lemma host_get_step:
  assumes h: "hosts_client st u" and e: "fresh_socket e st"
  shows "in_step (\<lambda>st' u'. hosts_client st' u' \<and> polled_on st st') (host_get e w st) (cmd_get e w u)"
proof -
  obtain l c pr where lc: "u = (l, c)" "st = (l, pr)" "cp_client pr = c" using h by (cases u; cases st) (auto simp: hosts_client_def)
  have hd: "hosted (sp_poller pr) (objects c)" and inv: "client_inv u" and nq: "\<not> quit_flag l" using h by (simp_all add: hosts_client_def lc)
  from cmd_get_ok [OF inv fresh_cmd_env [OF h e]] obtain v where v: "cmd_get e w u = Inr v" "client_inv v" by blast
  show ?thesis
  proof (cases "atoi w = 0")
    case True
    then show ?thesis using h by (simp add: host_get_def cmd_get_def lc polled_on_def)
  next
    case False
    let ?p = "next_obj c" and ?en = "getconns c (atoi w)"
    from v(1) False obtain g where
      run: "new_GetConnManager (new_fd e) (ports e) (binds e) (server_addr c) (uninit_addr e) (uninit_data e) = Inr g"
      and after: "after_getter ?p (getFile g (atoi w)) (l, (destroy ?en c)
        \<lparr>next_obj := Suc ?p, getconns := (getconns c)(atoi w \<mapsto> Some ?p)\<rparr>) = Inr v"
      by (auto simp: cmd_get_def lc Let_def outcome_simps)
    from after_getter_objects [OF after] obtain g' where
      g': "quit_flag (fst v) = quit_flag l" "next_obj (snd v) = Suc ?p"
        "objects (snd v) = (\<lambda>q. if ?en = Some (Some q) then None else objects c q)(?p \<mapsto> Getter (g'\<lparr>Get_Conn.actions := []\<rparr>))"
      by (auto simp: fun_eq_iff)
    have t: "table_inv c" using inv by (simp add: client_inv_def lc)
    have p: "objects c ?p = None" using t by (cases "objects c ?p") (auto simp: table_inv_def)
    have en: "objects c q \<noteq> None" if "?en = Some (Some q)" for q
      using t that unfolding table_inv_def by (metis holds.simps(3))
    have "0 \<le> new_fd e" and fr: "\<And>q ch. chans (sp_poller pr) q = Some ch \<Longrightarrow> ch_fd ch \<noteq> new_fd e"
      using e by (auto simp: fresh_socket_def env_ok_def lc)
    then obtain ep1 ep2 where ep: "open_channel (conn_chan ?p) (new_fd e) (Conn_Read ?p) (sp_poller pr) = Inr ep1"
      "close_channel ?en ep1 = Inr ep2" "hosted ep2 (objects (snd v))"
      "\<forall>q ch'. q \<noteq> conn_chan ?p \<longrightarrow> chans ep2 q = Some ch' \<longrightarrow> (\<exists>ch. chans (sp_poller pr) q = Some ch \<and> revents ch = revents ch')"
      unfolding g'(3) using swap_hosted [where x = "Getter (g'\<lparr>Get_Conn.actions := []\<rparr>)" and entry = ?en, OF hd p] en by blast
    have "host_get e w st = Inr (fst v, pr\<lparr>sp_poller := ep2, cp_client := snd v\<rparr>)"
      using False run after ep(1,2) by (simp add: host_get_def lc Let_def split: prod.splits)
    moreover have "hosts_client (fst v, pr\<lparr>sp_poller := ep2, cp_client := snd v\<rparr>) v"
      using v(2) ep(3) g'(1) nq by (simp add: hosts_client_def)
    moreover have "polled_on st (fst v, pr\<lparr>sp_poller := ep2, cp_client := snd v\<rparr>)"
      using ep(4) g'(2) by (auto simp: polled_on_def lc)
    ultimately show ?thesis using v(1) by simp
  qed
qed

end
