(* ===== verification/Client_Turns.thy ===== *)
theory Client_Turns
  imports Client_Process
begin

text \<open>
  The client's process and the model of the client (\<open>client_turn\<close>) do the same, turn by turn: a reader, what \<open>poll\<close> has reported, the functors, a
  turn, and \<open>main\<close>, which ends with the first fault of a turn or never.
\<close>

section \<open>Readers\<close>

definition timer_event :: "client_event \<Rightarrow> bool" where
  "timer_event e \<longleftrightarrow> (case e of Beat p t \<Rightarrow> True | Repeat p k t \<Rightarrow> True | _ \<Rightarrow> False)"

lemma event_in_host:
  assumes h: "hosts_client st u" and e: "client_ok u e" "\<forall>env d. e \<noteq> Command env d"
  shows "in_step (quiet_step st) (on_client (on_event e) st) (on_event e u)"
proof (rule step_in_host [OF h])
  have u: "client_inv u" using h by (simp add: hosts_client_def)
  show "case on_event e u of Inl x \<Rightarrow> True | Inr v \<Rightarrow> same_objects u v \<and> client_inv v \<and> client_edge u v"
    using events.step_Inr [OF u e(1)] event_objects [OF _ e(2)] by (cases "on_event e u") auto
qed

lemma quiet_step_trans: "quiet_step st st1 u1 \<Longrightarrow> quiet_step st1 st2 u2 \<Longrightarrow> quiet_step st st2 u2"
  by (simp add: quiet_step_def)

lemma in_step_weaken: "in_step R x y \<Longrightarrow> (\<And>a b. R a b \<Longrightarrow> S a b) \<Longrightarrow> in_step S x y"
  by (cases x) auto

lemma timers_in_host:
  assumes "hosts_client st u" and "\<forall>e \<in> set es. timer_event e"
  shows "in_step (quiet_step st) (foldE (\<lambda>e. on_client (on_event e)) es st) (foldE on_event es u) \<and> good_run on_event client_ok es u"
  using assms
proof (induction es arbitrary: st u)
  case Nil
  then show ?case by (simp add: quiet_step_def)
next
  case (Cons e es)
  have e: "client_ok u e" "\<forall>env d. e \<noteq> Command env d"
    using Cons.prems(2) by (auto simp: timer_event_def client_ok_def split: client_event.splits)
  note s = event_in_host [OF Cons.prems(1) e]
  have es: "\<forall>e \<in> set es. timer_event e" using Cons.prems(2) by simp
  show ?case
  proof (cases "on_event e u")
    case (Inl x)
    with s e(1) show ?thesis by (cases "on_client (on_event e) st") auto
  next
    case (Inr v)
    with s obtain st1 where st1: "on_client (on_event e) st = Inr st1" "quiet_step st st1 v"
      by (cases "on_client (on_event e) st") auto
    then have "hosts_client st1 v" by (simp add: quiet_step_def)
    from Cons.IH [OF this es] Inr st1 e(1) show ?thesis
      by (auto intro: in_step_weaken quiet_step_trans)
  qed
qed

lemma typed_in_host:
  assumes h: "hosts_client st u" and e: "fresh_socket e st"
  shows "in_step (\<lambda>st' u'. hosts_client st' u' \<and> polled_on st st')
    (dispatch_cmd (host_share e) (host_get e) (\<lambda>w ws. on_client (cmd_chat w ws)) d st) (handleCmd e d u)"
proof (cases "c_text (take kCmdSize d)")
  case (Inl x)
  then show ?thesis by (simp add: handleCmd_def dispatch_cmd_def)
next
  case (Inr t)
  let ?ws = "read_words t"
  note short = read_words_short [OF c_text_short [OF Inr]]
  have stay: "in_step (\<lambda>st' u'. hosts_client st' u' \<and> polled_on st st') (Inr st) (Inr u)"
    using h by (cases u) (simp add: polled_on_def)
  have u: "client_inv u" using h by (simp add: hosts_client_def)
  have ok: "client_ok u (Command e d)" using fresh_cmd_env [OF h e] by (simp add: client_ok_def)
  have chat: "in_step (\<lambda>st' u'. hosts_client st' u' \<and> polled_on st st') (on_client (cmd_chat w ws) st) (cmd_chat w ws u)"
    if "handleCmd e d u = cmd_chat w ws u" for w ws
  proof (rule in_step_weaken [OF step_in_host [OF h]])
    show "case cmd_chat w ws u of Inl x \<Rightarrow> True | Inr v \<Rightarrow> same_objects u v \<and> client_inv v \<and> client_edge u v"
      using events.step_Inr [OF u ok] chat_objects [of w ws u] that by (cases "cmd_chat w ws u") (auto simp: on_event_def)
  qed (auto simp: quiet_polled, simp add: quiet_step_def)
  have run: "handleCmd e d u =
      (if length ?ws \<le> 1 then Inr u
       else if ?ws ! 0 = str ''SHARE'' then cmd_share e (?ws ! 1) u
       else if ?ws ! 0 = str ''GET'' then cmd_get e (?ws ! 1) u
       else if ?ws ! 0 = str ''CHAT'' then if length ?ws \<le> 2 then Inr u else cmd_chat (?ws ! 1) (drop 2 ?ws) u
       else Inr u)"
    by (simp add: handleCmd_def dispatch_cmd_def Inr Let_def)
  have host: "dispatch_cmd (host_share e) (host_get e) (\<lambda>w ws. on_client (cmd_chat w ws)) d st =
      (if length ?ws \<le> 1 then Inr st
       else if ?ws ! 0 = str ''SHARE'' then host_share e (?ws ! 1) st
       else if ?ws ! 0 = str ''GET'' then host_get e (?ws ! 1) st
       else if ?ws ! 0 = str ''CHAT'' then if length ?ws \<le> 2 then Inr st else on_client (cmd_chat (?ws ! 1) (drop 2 ?ws)) st
       else Inr st)"
    by (simp add: dispatch_cmd_def Inr Let_def)
  have len: "length (?ws ! 1) < 2 ^ 40" if "\<not> length ?ws \<le> 1"
    using short(2) [of "?ws ! 1"] that by (simp add: nth_mem)
  show ?thesis
    unfolding host using run stay host_share_step [OF h e len] host_get_step [OF h e, of "?ws ! 1"] chat
    by (auto simp: str_neq split: if_splits)
qed

lemma single_event: "foldE on_event [e] u = on_event e u" "good_run on_event client_ok [e] u = client_ok u e"
  by (simp_all add: bindE_right foldE_Nil split: sum.split)

lemma reader_in_host:
  assumes h: "hosts_client st u" and f: "c = Typed_Read \<Longrightarrow> fresh_socket (env i) st"
    and r: "\<And>p. recv_ok (came i p)" and t: "\<forall>e \<in> set (due i). timer_event e"
  shows "in_step (\<lambda>st' u'. hosts_client st' u' \<and> polled_on st st' \<and> (c \<noteq> Typed_Read \<longrightarrow> sp_poller (snd st') = sp_poller (snd st)))
      (run_client_reader i c st) (foldE on_event (reader_events i True c) u) \<and>
    good_run on_event client_ok (reader_events i True c) u"
proof (cases c)
  case Tick_Read
  from timers_in_host [OF h t] show ?thesis
    by (auto simp: Tick_Read run_client_reader_def quiet_polled elim: in_step_weaken) (auto simp: quiet_step_def quiet_polled elim!: in_step_weaken)
next
  case Wake_Read
  have "hosts_client (Event_Loop.handleRead (fst st), snd st) (Event_Loop.handleRead (fst u), snd u)"
    using h by (cases u) (auto simp: hosts_client_def Event_Loop.handleRead_def client_inv_def)
  then show ?thesis by (simp add: Wake_Read run_client_reader_def on_event_def polled_on_def client_ok_def)
next
  case Typed_Read
  from typed_in_host [OF h f [OF this], of "typed i"] fresh_cmd_env [OF h f [OF Typed_Read]] show ?thesis
    by (auto simp: Typed_Read run_client_reader_def single_event on_event_def client_ok_def simp del: foldE.simps good_run.simps)
next
  case (Conn_Read p)
  let ?e = "Datagram p (came i p) (came_at i p) (disk i p)"
  have e: "client_ok u ?e" "\<forall>env d. ?e \<noteq> Command env d" using r by (simp_all add: client_ok_def)
  have "in_step (\<lambda>st' u'. hosts_client st' u' \<and> polled_on st st' \<and> (c \<noteq> Typed_Read \<longrightarrow> sp_poller (snd st') = sp_poller (snd st)))
      (on_client (on_event ?e) st) (on_event ?e u)"
    by (rule in_step_weaken [OF event_in_host [OF h e]]) (auto simp: quiet_polled quiet_step_def)
  then show ?thesis using e(1) by (simp add: Conn_Read run_client_reader_def single_event del: foldE.simps good_run.simps)
qed

section \<open>What poll reported, handled\<close>

definition input_ok :: "client_input \<Rightarrow> client_host \<Rightarrow> bool" where
  "input_ok i st \<longleftrightarrow> distinct (map fst (take kMaxEvents (reports i))) \<and>
     (\<forall>fd \<in> fst ` set (take kMaxEvents (reports i)). channels (sp_poller (snd st)) fd \<noteq> None) \<and>
     fresh_socket (env i) st \<and> (\<forall>p. recv_ok (came i p)) \<and> (\<forall>e \<in> set (due i). timer_event e)"

definition reported_at :: "client_host \<Rightarrow> nat \<times> u32 \<Rightarrow> bool" where
  "reported_at st x \<longleftrightarrow> fst x < conn_chan (next_obj (cp_client (snd st))) \<and>
     (\<forall>ch. chans (sp_poller (snd st)) (fst x) = Some ch \<longrightarrow> revents ch = snd x)"

lemma reported_later: "reported_at st x \<Longrightarrow> polled_on st st' \<Longrightarrow> reported_at st' x"
  by (fastforce simp: reported_at_def polled_on_def conn_chan_def)

abbreviation active_events :: "client_input \<Rightarrow> nat \<times> u32 \<Rightarrow> client_event list" where
  "active_events i x \<equiv> reader_events i (readable (snd x)) (reader_at (fst x))"

lemma reader_at_typed: "reader_at q = Typed_Read \<longleftrightarrow> q = 2"
  by (simp add: reader_at_def)

lemma active_in_host:
  assumes h: "hosts_client st u" and x: "reported_at st x" and f: "fst x = 2 \<Longrightarrow> fresh_socket (env i) st"
    and r: "\<And>p. recv_ok (came i p)" and t: "\<forall>e \<in> set (due i). timer_event e"
  shows "in_step (\<lambda>st' u'. hosts_client st' u' \<and> polled_on st st' \<and> (fst x \<noteq> 2 \<longrightarrow> sp_poller (snd st') = sp_poller (snd st)))
      (handle_active (run_client_reader i) (fst x) st) (foldE on_event (active_events i x) u) \<and>
    good_run on_event client_ok (active_events i x) u"
proof -
  let ?q = "fst x"
  have hd: "hosted (sp_poller (snd st)) (objects (snd u))" using h by (simp add: hosts_client_def)
  show ?thesis
  proof (cases "chans (sp_poller (snd st)) ?q")
    case None
    then have q: "\<not> ?q < 3" "objects (snd u) (?q - 3) = None" using hostedD(2) [OF hd, of ?q] by (simp_all add: has_channel_def)
    then have "reader_at ?q = Conn_Read (?q - 3)" by (simp add: reader_at_def)
    then show ?thesis using None q(2) r
      by (simp add: handle_active_def deref_def single_event on_event_def client_ok_def del: foldE.simps good_run.simps)
  next
    case (Some ch)
    have ch: "reads_only (reader_at ?q) ch" using hostedD(3) [OF hd Some] by simp
    have rv: "revents ch = snd x" using x Some by (simp add: reported_at_def)
    have run: "handle_active (run_client_reader i) ?q st = (if readable (snd x) then run_client_reader i (reader_at ?q) st else Inr st)"
      using handleEvent_read [of ch "reader_at ?q" "run_client_reader i" st] ch rv by (simp add: handle_active_def deref_def Some reads_only_def)
    show ?thesis
    proof (cases "readable (snd x)")
      case True
      with reader_in_host [OF h, of "reader_at ?q" i] f r t show ?thesis unfolding run by (simp add: reader_at_typed)
    next
      case False
      have "foldE on_event (active_events i x) u = Inr u \<and> good_run on_event client_ok (active_events i x) u"
      proof (cases "reader_at ?q")
        case (Conn_Read p)
        then have "\<not> ?q < 3" "p = ?q - 3" by (auto simp: reader_at_def split: if_splits)
        then have "objects (snd u) p \<noteq> None" using hostedD(2) [OF hd, of ?q] Some by (simp add: has_channel_def)
        then show ?thesis using Conn_Read False by (simp add: single_event on_event_def client_ok_def del: foldE.simps good_run.simps)
      qed (use False in simp_all)
      then show ?thesis unfolding run using False h by (simp add: polled_on_def)
    qed
  qed
qed

lemma actives_in_host:
  assumes "hosts_client st u" and "\<forall>x \<in> set qs. reported_at st x" and "distinct (map fst qs)" and "2 \<in> fst ` set qs \<longrightarrow> fresh_socket (env i) st"
    and r: "\<And>p. recv_ok (came i p)" and t: "\<forall>e \<in> set (due i). timer_event e"
  shows "in_step hosts_client (foldE (handle_active (run_client_reader i)) (map fst qs) st)
      (foldE on_event (concat (map (active_events i) qs)) u) \<and>
    good_run on_event client_ok (concat (map (active_events i) qs)) u"
  using assms(1-4)
proof (induction qs arbitrary: st u)
  case Nil
  then show ?case by simp
next
  case (Cons x qs)
  have x: "reported_at st x" "fst x = 2 \<Longrightarrow> fresh_socket (env i) st" using Cons.prems(2,4) by auto
  note s = active_in_host [OF Cons.prems(1) x r t]
  show ?case
  proof (cases "foldE on_event (active_events i x) u")
    case (Inl f)
    with s show ?thesis
      by (cases "handle_active (run_client_reader i) (fst x) st") (auto simp: foldE_append good_run_append)
  next
    case (Inr v)
    with s obtain st1 where st1: "handle_active (run_client_reader i) (fst x) st = Inr st1" "hosts_client st1 v" "polled_on st st1"
      "fst x \<noteq> 2 \<longrightarrow> sp_poller (snd st1) = sp_poller (snd st)"
      by (cases "handle_active (run_client_reader i) (fst x) st") auto
    have "\<forall>y \<in> set qs. reported_at st1 y" using Cons.prems(2) by (intro ballI reported_later [OF _ st1(3)]) simp
    moreover have "2 \<in> fst ` set qs \<longrightarrow> fresh_socket (env i) st1"
    proof
      assume 2: "2 \<in> fst ` set qs"
      moreover have "fst x \<notin> fst ` set qs" using Cons.prems(3) by simp
      ultimately have "fst x \<noteq> 2" by metis
      with st1(4) 2 Cons.prems(4) show "fresh_socket (env i) st1" by (simp add: fresh_socket_def)
    qed
    moreover have "distinct (map fst qs)" using Cons.prems(3) by simp
    ultimately show ?thesis using Cons.IH [OF st1(2)] Inr st1(1) s by (simp add: foldE_append good_run_append)
  qed
qed

section \<open>Functors\<close>

lemma delete_hosted:
  assumes "hosted ep os" and "distinct ps" and "\<forall>p \<in> set ps. os p \<noteq> None"
  shows "\<exists>ep'. foldE (\<lambda>p. destroy_UdpCom True (conn_chan p)) ps ep = Inr ep' \<and> hosted ep' (os |` (- set ps))"
  using assms
proof (induction ps arbitrary: ep os)
  case (Cons p ps)
  have "os p \<noteq> None" using Cons.prems(3) by simp
  from close_hosted [OF Cons.prems(1) this] obtain ep1 where
    1: "destroy_UdpCom True (conn_chan p) ep = Inr ep1" "hosted ep1 (os(p := None))" by blast
  have "\<forall>q \<in> set ps. (os(p := None)) q \<noteq> None" "distinct ps" using Cons.prems(2,3) by auto
  from Cons.IH [OF 1(2) this(2,1)] obtain ep' where
    2: "foldE (\<lambda>p. destroy_UdpCom True (conn_chan p)) ps ep1 = Inr ep'" "hosted ep' ((os(p := None)) |` (- set ps))" by blast
  have "(os(p := None)) |` (- set ps) = os |` (- set (p # ps))" by (auto simp: restrict_map_def)
  with 1(1) 2 show ?case by simp
qed (simp add: restrict_map_def)

lemma functor_in_host:
  assumes h: "hosts_client st u" and f: "functor_ok (snd u) f"
  shows "in_step hosts_client (host_functor f st) (run_functor f u)"
proof (cases "f = Delete_Conn")
  case True
  obtain l c pr where lc: "u = (l, c)" "st = (l, pr)" "cp_client pr = c" using h by (cases u; cases st) (auto simp: hosts_client_def)
  have hd: "hosted (sp_poller pr) (objects c)" and inv: "client_inv u" and nq: "\<not> quit_flag l" using h by (simp_all add: hosts_client_def lc)
  have t: "table_inv c" using inv by (simp add: client_inv_def lc)
  have "\<forall>p \<in> set (deleteconns c). objects c p \<noteq> None"
    using t unfolding table_inv_def by (metis holds.simps(4))
  then have ps: "distinct (sorted_list_of_set (set (deleteconns c)))" "\<forall>p \<in> set (sorted_list_of_set (set (deleteconns c))). objects c p \<noteq> None"
    by simp_all
  from delete_hosted [OF hd ps] obtain ep where
    ep: "foldE (\<lambda>p. destroy_UdpCom True (conn_chan p)) (sorted_list_of_set (set (deleteconns c))) (sp_poller pr) = Inr ep"
      "hosted ep (objects c |` (- set (deleteconns c)))" by auto
  with deleteConn_inv [OF inv] nq show ?thesis
    by (simp add: True host_functor_def host_delete_def run_functor_def on_client_def lc deleteConn_def hosts_client_def)
next
  case False
  have u: "client_inv u" using h by (simp add: hosts_client_def)
  have "host_functor f st = on_client (run_functor f) st" using False by (cases f) (simp_all add: host_functor_def)
  moreover have "in_step (quiet_step st) (on_client (run_functor f) st) (run_functor f u)"
    using functors.step_Inr [OF u f] functor_objects [OF _ False, of u] by (intro step_in_host [OF h]) (auto split: sum.split)
  ultimately show ?thesis by (auto simp: quiet_step_def elim: in_step_weaken)
qed

lemma functors_in_host:
  assumes "hosts_client st u" and "\<forall>f \<in> set fs. functor_ok (snd u) f"
  shows "in_step hosts_client (foldE host_functor fs st) (foldE run_functor fs u)"
  using assms
proof (induction fs arbitrary: st u)
  case (Cons f fs)
  have f: "functor_ok (snd u) f" using Cons.prems(2) by simp
  have u: "client_inv u" using Cons.prems(1) by (simp add: hosts_client_def)
  note s = functor_in_host [OF Cons.prems(1) f]
  show ?case
  proof (cases "run_functor f u")
    case (Inl x)
    with s show ?thesis by (cases "host_functor f st") auto
  next
    case (Inr v)
    with s obtain st1 where st1: "host_functor f st = Inr st1" "hosts_client st1 v" by (cases "host_functor f st") auto
    have "client_edge u v" using functors.step_Inr [OF u f Inr] by simp
    then have "\<forall>f \<in> set fs. functor_ok (snd v) f" using Cons.prems(2) functor_ok_edge by auto
    with Cons.IH [OF st1(2)] st1(1) Inr show ?thesis by simp
  qed
qed simp

section \<open>One turn\<close>

lemma pending_in_host:
  assumes h: "hosts_client st u"
  shows "in_step hosts_client (doPendingFunctors host_functor st) (doPendingFunctors run_functor u)"
proof -
  obtain l c pr where lc: "u = (l, c)" "st = (l, pr)" "cp_client pr = c" using h by (cases u; cases st) (auto simp: hosts_client_def)
  let ?l = "l\<lparr>callingPendingFunc := True, pendingFunctors := []\<rparr>"
  have b: "hosts_client (?l, pr) (?l, c)" using h by (simp add: hosts_client_def lc client_inv_def)
  have f: "\<forall>f \<in> set (pendingFunctors l). functor_ok (snd (?l, c)) f" using h by (simp add: hosts_client_def lc client_inv_def)
  from functors_in_host [OF b f] show ?thesis
    by (auto simp: doPendingFunctors_def Let_def lc hosts_client_def client_inv_def elim!: in_step_bind)
qed

text \<open>The events of the client's model that a turn stands for depend on which channel has which descriptor when \<open>poll\<close> returns.\<close>

definition channel_reports :: "client_input \<Rightarrow> client_reader epoller \<Rightarrow> (nat \<times> u32) list" where
  "channel_reports i ep = map (\<lambda>(fd, r). (the (channels ep fd), r)) (filter (\<lambda>(fd, r). 0 < r) (take kMaxEvents (reports i)))"

lemma turn_events_eq: "turn_events i ep = concat (map (active_events i) (channel_reports i ep))"
proof -
  have "concat (map (report_events i ep) es) =
      concat (map (active_events i) (map (\<lambda>(fd, r). (the (channels ep fd), r)) (filter (\<lambda>(fd, r). 0 < r) es)))" for es
    by (induction es) (auto simp: report_events_def)
  then show ?thesis by (simp add: turn_events_def channel_reports_def)
qed

lemma channel_of:
  assumes "ep_ok ep" and "channels ep fd = Some p"
  obtains ch where "chans ep p = Some ch" "ch_fd ch = fd"
  using ep_invD(4) [of ep fd p] assms by (auto simp: ep_ok_def registered_def)

lemma channel_reports_distinct:
  assumes ok: "ep_ok ep" and d: "distinct (map fst (take kMaxEvents (reports i)))"
    and f: "\<forall>fd \<in> fst ` set (take kMaxEvents (reports i)). channels ep fd \<noteq> None"
  shows "distinct (map fst (channel_reports i ep))"
proof -
  let ?evs = "filter (\<lambda>(fd, r). 0 < r) (take kMaxEvents (reports i))"
  have inj: "inj_on (\<lambda>fd. the (channels ep fd)) (fst ` set ?evs)"
  proof (rule inj_onI)
    fix a b assume ab: "a \<in> fst ` set ?evs" "b \<in> fst ` set ?evs" "the (channels ep a) = the (channels ep b)"
    then obtain p where "channels ep a = Some p" "channels ep b = Some p" using f by fastforce
    then show "a = b" using channel_of [OF ok] by (metis option.inject)
  qed
  have "distinct (map fst ?evs)" using d by (rule distinct_map_filter)
  then have "distinct (map (\<lambda>fd. the (channels ep fd)) (map fst ?evs))"
    using inj by (simp only: distinct_map [of _ "map fst ?evs"] set_map simp_thms)
  moreover have "map (\<lambda>fd. the (channels ep fd)) (map fst ?evs) = map fst (channel_reports i ep)"
    by (simp add: channel_reports_def comp_def case_prod_beta')
  ultimately show ?thesis by simp
qed

text \<open>What \<open>poll\<close> leaves: the channels with the events it has reported.\<close>

lemma poll_in_host:
  assumes h: "hosts_client st u" and i: "input_ok i st"
  shows "\<exists>ep. poll (reports i) (sp_poller (snd st)) = Inr (ep, map fst (channel_reports i (sp_poller (snd st)))) \<and>
    hosts_client (fst st, (snd st)\<lparr>sp_poller := ep\<rparr>) u \<and>
    (\<forall>x \<in> set (channel_reports i (sp_poller (snd st))). reported_at (fst st, (snd st)\<lparr>sp_poller := ep\<rparr>) x) \<and>
    fresh_socket (env i) (fst st, (snd st)\<lparr>sp_poller := ep\<rparr>)"
proof -
  let ?evs = "take kMaxEvents (reports i)" and ?ep = "sp_poller (snd st)" and ?c = "cp_client (snd st)"
  have hd: "hosted ?ep (objects ?c)" and inv: "client_inv u" and c: "snd u = ?c" using h by (simp_all add: hosts_client_def)
  have i': "distinct (map fst ?evs)" "\<forall>fd \<in> fst ` set ?evs. channels ?ep fd \<noteq> None" "fresh_socket (env i) st"
    using i by (simp_all add: input_ok_def)
  from poll_ok [OF hostedD(1) [OF hd] i'(1,2)] obtain ep where
    ep: "fillActiveChannels ?evs ?ep [] = Inr (ep, map (\<lambda>(fd, r). the (channels ?ep fd)) (filter (\<lambda>(fd, r). 0 < r) ?evs))" "ep_ok ep"
      "\<forall>q. case chans ?ep q of None \<Rightarrow> chans ep q = None | Some ch \<Rightarrow> \<exists>r. chans ep q = Some (ch\<lparr>revents := r\<rparr>)"
      "\<forall>(fd, r) \<in> set ?evs. 0 < r \<longrightarrow> (\<exists>ch. chans ep (the (channels ?ep fd)) = Some ch \<and> revents ch = r)" by blast
  let ?st = "(fst st, (snd st)\<lparr>sp_poller := ep\<rparr>)"
  have none: "chans ep q = None \<longleftrightarrow> chans ?ep q = None" for q using ep(3) [rule_format, of q] by (auto split: option.splits)
  have old: "\<exists>ch r. chans ?ep q = Some ch \<and> ch' = ch\<lparr>revents := r\<rparr>" if "chans ep q = Some ch'" for q ch'
    using ep(3) [rule_format, of q] that by (auto split: option.splits)
  have "hosted ep (objects ?c)"
    unfolding hosted_def
  proof (intro conjI allI impI)
    show "ep_ok ep" by (rule ep(2))
    show "chans ep q \<noteq> None \<longleftrightarrow> has_channel (objects ?c) q" for q using hostedD(2) [OF hd, of q] none [of q] by simp
    show "reads_only (reader_at q) ch" "0 \<le> ch_index ch" "\<not> isNoneEvent ch" if "chans ep q = Some ch" for q ch
      using old [OF that] hostedD(3) [OF hd] by (auto simp: reads_only_def isNoneEvent_def)
    show "ch_fd ch = sock s" if "objects ?c p = Some (Sender s)" "chans ep (conn_chan p) = Some ch" for p s ch
      using old [OF that(2)] hostedD(4) [OF hd that(1)] by auto
  qed
  then have "hosts_client ?st u" using h c by (simp add: hosts_client_def)
  moreover have "fresh_socket (env i) ?st" using i'(3) old by (fastforce simp: fresh_socket_def)
  moreover have "reported_at ?st x" if "x \<in> set (channel_reports i ?ep)" for x
  proof -
    from that obtain fd r where x: "x = (the (channels ?ep fd), r)" "(fd, r) \<in> set ?evs" "0 < r" by (auto simp: channel_reports_def)
    from i'(2) x(2) obtain q where q: "channels ?ep fd = Some q" by fastforce
    from channel_of [OF hostedD(1) [OF hd] q] have "has_channel (objects ?c) q" using hostedD(2) [OF hd] by (metis option.distinct(1))
    moreover have "objects ?c p \<noteq> None \<Longrightarrow> p < next_obj ?c" for p
      using object_next [of u p] inv c by (cases u) auto
    ultimately have "q < conn_chan (next_obj ?c)" unfolding has_channel_def conn_chan_def by fastforce
    moreover have "\<exists>ch. chans ep q = Some ch \<and> revents ch = r" using ep(4) x(2,3) q by fastforce
    ultimately show ?thesis by (auto simp: reported_at_def x(1) q)
  qed
  ultimately show ?thesis using ep(1) by (intro exI [of _ ep]) (simp add: poll_def channel_reports_def comp_def case_prod_beta')
qed

lemma turn_in_host:
  assumes h: "hosts_client st u" and i: "input_ok i st"
  shows "in_step hosts_client (loop_turn host_turn host_functor [i] st) (client_turn (turn_events i (sp_poller (snd st))) u) \<and>
    turn_ok u (turn_events i (sp_poller (snd st)))"
proof -
  let ?ep = "sp_poller (snd st)"
  from poll_in_host [OF h i] obtain ep where
    ep: "poll (reports i) ?ep = Inr (ep, map fst (channel_reports i ?ep))" "hosts_client (fst st, (snd st)\<lparr>sp_poller := ep\<rparr>) u"
      "\<forall>x \<in> set (channel_reports i ?ep). reported_at (fst st, (snd st)\<lparr>sp_poller := ep\<rparr>) x"
      "fresh_socket (env i) (fst st, (snd st)\<lparr>sp_poller := ep\<rparr>)" by blast
  have hd: "hosted ?ep (objects (snd u))" using h by (simp add: hosts_client_def)
  have d: "distinct (map fst (channel_reports i ?ep))"
    using i by (intro channel_reports_distinct hostedD(1) [OF hd]) (simp_all add: input_ok_def)
  have e: "\<And>p. recv_ok (came i p)" "\<forall>e \<in> set (due i). timer_event e" using i by (simp_all add: input_ok_def)
  have s: "in_step hosts_client (host_turn i st) (foldE on_event (turn_events i ?ep) u)" "turn_ok u (turn_events i ?ep)"
    using actives_in_host [OF ep(2,3) d _ e] ep(4) by (simp_all add: poll_and_handle_def ep(1) turn_events_eq)
  have "in_step hosts_client (loop_turn host_turn host_functor [i] st) (loop_turn on_event run_functor (turn_events i ?ep) u)"
    unfolding loop_turn_def
  proof (rule in_step_bind)
    show "in_step hosts_client (foldE host_turn [i] st) (foldE on_event (turn_events i ?ep) u)" using s(1) by (cases "host_turn i st") simp_all
  next
    fix a b assume ab: "hosts_client a b"
    then have "fst a = fst b" by (simp add: hosts_client_def)
    with ab pending_in_host [OF ab] show "in_step hosts_client (if pendingFunctors (fst a) \<noteq> [] then doPendingFunctors host_functor a else Inr a)
        (if pendingFunctors (fst b) \<noteq> [] then doPendingFunctors run_functor b else Inr b)" by simp
  qed
  with s(2) show ?thesis by (simp add: client_turn_def)
qed

section \<open>The process\<close>

definition client_fds_ok :: "client_fds \<Rightarrow> bool" where
  "client_fds_ok d \<longleftrightarrow> 0 < epollfd d \<and> 0 \<le> timerfd d \<and> 0 \<le> wakeupfd d \<and> 0 \<le> readsock d \<and> distinct [timerfd d, wakeupfd d, readsock d]"

text \<open>The client when its loop starts, and the process after \<open>k\<close> turns.\<close>

definition client_start :: "bytes \<Rightarrow> client_state" where
  "client_start uninit =
     (\<lparr>looping = True, quit_flag = False, callingPendingFunc = False, pendingFunctors = [], wakeupCount = 0\<rparr>, first_client uninit)"

definition host_after :: "client_fds \<Rightarrow> bytes \<Rightarrow> (nat \<Rightarrow> client_input) \<Rightarrow> nat \<Rightarrow> client_host outcome" where
  "host_after d uninit inputs k =
     bindE (make_client d True uninit) (\<lambda>st.
     turns host_turn host_functor (\<lambda>n. [inputs n]) 0 k ((fst st)\<lparr>looping := True, quit_flag := False\<rparr>, snd st))"

definition inputs_ok :: "client_fds \<Rightarrow> bytes \<Rightarrow> (nat \<Rightarrow> client_input) \<Rightarrow> bool" where
  "inputs_ok d uninit inputs \<longleftrightarrow> (\<forall>k st. host_after d uninit inputs k = Inr st \<longrightarrow> input_ok (inputs k) st)"

definition events_at :: "client_fds \<Rightarrow> bytes \<Rightarrow> (nat \<Rightarrow> client_input) \<Rightarrow> nat \<Rightarrow> client_event list" where
  "events_at d uninit inputs k =
     (case host_after d uninit inputs k of Inl f \<Rightarrow> [] | Inr st \<Rightarrow> turn_events (inputs k) (sp_poller (snd st)))"

abbreviation client_spec :: "client_fds \<Rightarrow> bytes \<Rightarrow> (nat \<Rightarrow> client_input) \<Rightarrow> nat \<Rightarrow> client_state outcome" where
  "client_spec d uninit inputs k \<equiv> foldE client_turn (map (events_at d uninit inputs) [0..<k]) (client_start uninit)"

lemma start_inv: "client_inv (client_start uninit)"
  using new_client_inv [of 0 True uninit] by (simp add: client_start_def new_DiretransClient_def new_EventLoop_def client_inv_def)

lemma open_base:
  assumes "ep_ok ep" and "chans ep q = None" and "0 \<le> fd" and "\<forall>p ch. chans ep p = Some ch \<longrightarrow> ch_fd ch \<noteq> fd"
  obtains ep' ch where "open_channel q fd c ep = Inr ep'" "ep_ok ep'" "chans ep' = (chans ep)(q \<mapsto> ch)" "ch_fd ch = fd"
    "reads_only c ch" "0 \<le> ch_index ch" "\<not> isNoneEvent ch"
  using open_channel_ok [of ep q fd c] assms by blast

lemma make_client_ok:
  assumes d: "client_fds_ok d"
  shows "\<exists>st. make_client d True uninit = Inr st \<and> \<not> looping (fst st) \<and>
    hosts_client ((fst st)\<lparr>looping := True, quit_flag := False\<rparr>, snd st) (client_start uninit) \<and>
    (\<forall>q ch. chans (sp_poller (snd st)) q = Some ch \<longrightarrow> ch_fd ch \<in> {timerfd d, wakeupfd d, readsock d})"
proof -
  have d': "0 < epollfd d" "0 \<le> timerfd d" "0 \<le> wakeupfd d" "0 \<le> readsock d" "timerfd d \<noteq> wakeupfd d" "timerfd d \<noteq> readsock d"
    "wakeupfd d \<noteq> readsock d" using d by (auto simp: client_fds_ok_def)
  obtain ep0 :: "client_reader epoller" where e0: "new_EPoller (epollfd d) = Inr ep0" using d'(1) by (auto simp: new_EPoller_def)
  then have 0: "new_EPoller (epollfd d) = Inr ep0" "chans ep0 = Map.empty" by (auto simp: new_EPoller_def split: if_splits)
  obtain ep1 ch1 where 1: "open_channel 0 (timerfd d) Tick_Read ep0 = Inr ep1" "ep_ok ep1" "chans ep1 = (chans ep0)(0 \<mapsto> ch1)"
    "ch_fd ch1 = timerfd d" "reads_only Tick_Read ch1" "0 \<le> ch_index ch1" "\<not> isNoneEvent ch1"
    using open_base [of ep0 0 "timerfd d"] new_poller_ok [OF 0(1)] 0(2) d' by auto
  have n1: "chans ep1 1 = None" and fr1: "\<forall>p ch. chans ep1 p = Some ch \<longrightarrow> ch_fd ch \<noteq> wakeupfd d"
    using 0(2) 1(3,4) d' by simp_all
  obtain ep2 ch2 where 2: "open_channel 1 (wakeupfd d) Wake_Read ep1 = Inr ep2" "ep_ok ep2" "chans ep2 = (chans ep1)(1 \<mapsto> ch2)"
    "ch_fd ch2 = wakeupfd d" "reads_only Wake_Read ch2" "0 \<le> ch_index ch2" "\<not> isNoneEvent ch2"
    by (rule open_base [OF 1(2) n1 d'(3) fr1])
  have n2: "chans ep2 2 = None" and fr2: "\<forall>p ch. chans ep2 p = Some ch \<longrightarrow> ch_fd ch \<noteq> readsock d"
    using 0(2) 1(3,4) 2(3,4) d' by simp_all
  obtain ep3 ch3 where 3: "open_channel 2 (readsock d) Typed_Read ep2 = Inr ep3" "ep_ok ep3" "chans ep3 = (chans ep2)(2 \<mapsto> ch3)"
    "ch_fd ch3 = readsock d" "reads_only Typed_Read ch3" "0 \<le> ch_index ch3" "\<not> isNoneEvent ch3"
    by (rule open_base [OF 2(2) n2 d'(4) fr2])
  have ch: "chans ep3 = [0 \<mapsto> ch1, 1 \<mapsto> ch2, 2 \<mapsto> ch3]" using 0(2) 1(3) 2(3) 3(3) by simp
  have o0: "objects (first_client uninit) = Map.empty" by (simp add: first_client_def)
  have "hosted ep3 (objects (first_client uninit))"
    unfolding hosted_def o0 using 3(2) 1(5-7) 2(5-7) 3(5-7) by (auto simp: ch has_channel_def reader_at_def conn_chan_def)
  moreover have "ch_fd c \<in> {timerfd d, wakeupfd d, readsock d}" if "chans ep3 q = Some c" for q c
    using that 1(4) 2(4) 3(4) by (auto simp: ch split: if_splits)
  ultimately show ?thesis
    using 0(1) 1(1,4) 2(1,4) 3(1,4) d' start_inv [of uninit]
    by (auto simp: make_client_def make_EventLoop_def make_TimerQueue_def new_TimerQueue_def new_EventLoop_def hosts_client_def client_start_def)
qed

text \<open>Turn by turn, the process and the client's model do the same.\<close>

lemma one_turn: "turns handle run polls n (Suc 0) = loop_turn handle run (polls n)"
proof
  show "turns handle run polls n (Suc 0) st = loop_turn handle run (polls n) st" for st
    by (cases "loop_turn handle run (polls n) st") simp_all
qed

lemma host_after_Suc:
  "host_after d uninit inputs (Suc k) = bindE (host_after d uninit inputs k) (loop_turn host_turn host_functor [inputs k])"
  using turns_append [of host_turn host_functor "\<lambda>n. [inputs n]" 0 k 1]
  by (cases "make_client d True uninit") (simp_all add: host_after_def one_turn del: turns.simps)

lemma host_in_step:
  assumes d: "client_fds_ok d" and i: "inputs_ok d uninit inputs"
  shows "in_step hosts_client (host_after d uninit inputs k) (client_spec d uninit inputs k) \<and>
    good_run client_turn turn_ok (map (events_at d uninit inputs) [0..<k]) (client_start uninit)"
proof (induction k)
  case 0
  from make_client_ok [OF d, of uninit] show ?case by (auto simp: host_after_def)
next
  case (Suc k)
  show ?case
  proof (cases "host_after d uninit inputs k")
    case (Inl f)
    with Suc show ?thesis by (simp add: host_after_Suc foldE_append good_run_append)
  next
    case (Inr st)
    with Suc obtain u where u: "client_spec d uninit inputs k = Inr u" "hosts_client st u" by auto
    have "input_ok (inputs k) st" using i Inr unfolding inputs_ok_def by blast
    note t = turn_in_host [OF u(2) this]
    have ev: "events_at d uninit inputs k = turn_events (inputs k) (sp_poller (snd st))" by (simp add: events_at_def Inr)
    have "client_spec d uninit inputs (Suc k) = client_turn (turn_events (inputs k) (sp_poller (snd st))) u"
      by (simp add: foldE_append u(1) ev bindE_right foldE_Nil)
    moreover have "good_run client_turn turn_ok (map (events_at d uninit inputs) [0..<Suc k]) (client_start uninit)"
      using Suc t u(1) by (cases "client_turn (turn_events (inputs k) (sp_poller (snd st))) u") (simp_all add: good_run_append ev)
    ultimately show ?thesis using t by (simp add: host_after_Suc Inr)
  qed
qed

lemma client_process:
  assumes d: "client_fds_ok d" and i: "inputs_ok d uninit inputs"
  shows "(\<exists>k f. client_spec d uninit inputs k = Inl f \<and> client_main d True uninit inputs = Inl f) \<or>
    (\<forall>k. \<exists>u. client_spec d uninit inputs k = Inr u) \<and> client_main d True uninit inputs = Inl Diverge"
proof -
  from make_client_ok [OF d, of uninit] obtain st where st: "make_client d True uninit = Inr st" "\<not> looping (fst st)" by blast
  let ?st = "((fst st)\<lparr>looping := True, quit_flag := False\<rparr>, snd st)"
  let ?t = "\<lambda>k. turns host_turn host_functor (\<lambda>n. [inputs n]) 0 k ?st"
  have eq: "in_step hosts_client (?t k) (client_spec d uninit inputs k)" for k
    using host_in_step [OF d i, of k] by (simp add: host_after_def st(1))
  have nq: "\<not> quit_flag (fst a)" if "?t k = Inr a" for k a
    using eq [of k] that by (auto simp: hosts_client_def)
  note lp = loop_without_quit [where handle = host_turn and run = host_functor and polls = "\<lambda>n. [inputs n]" and n = 0 and st = ?st, OF nq]
  have main: "client_main d True uninit inputs = (case loop_while host_turn host_functor (\<lambda>n. [inputs n]) 0 ?st of
      None \<Rightarrow> Inl Diverge | Some r \<Rightarrow> bindE r (\<lambda>(l, s). Inr (l\<lparr>looping := False\<rparr>, s)))"
    by (simp add: client_main_def st loop_def assertInLoopThread_def require_def)
  show ?thesis
  proof (cases "\<exists>k f. ?t k = Inl f")
    case True
    then obtain k f where k: "?t k = Inl f" by blast
    with eq [of k] have "client_spec d uninit inputs k = Inl f" by simp
    moreover have "client_main d True uninit inputs = Inl f" using lp(1) [OF _ k] by (simp add: main)
    ultimately show ?thesis by blast
  next
    case False
    then have r: "\<exists>a. ?t k = Inr a" for k by (cases "?t k") auto
    then have "\<exists>u. client_spec d uninit inputs k = Inr u" for k using eq [of k] r [of k] by (metis in_step_simps(2))
    moreover have "client_main d True uninit inputs = Inl Diverge" using lp(2) r by (simp add: main)
    ultimately show ?thesis by blast
  qed
qed

end
