(* ===== verification/Host_Properties.thy ===== *)
theory Host_Properties
  imports Client_Turns
begin

text \<open>The properties of the client as a process: what it does from \<open>main\<close> on, and a way to end it from the terminal.\<close>

section \<open>From main on\<close>

lemma spec_Suc: "client_spec d uninit inputs (Suc k) = bindE (client_spec d uninit inputs k) (client_turn (events_at d uninit inputs k))"
  by (cases "client_spec d uninit inputs k") (simp_all add: foldE_append bindE_right foldE_Nil)

lemma spec_fault_stays: "client_spec d uninit inputs j = Inl f \<Longrightarrow> client_spec d uninit inputs (j + n) = Inl f"
  by (induction n) (simp_all add: spec_Suc del: upt_Suc)

text \<open>A turn of the client faults where a step of it does.\<close>

lemma host_spec_stops:
  assumes d: "client_fds_ok d" and i: "inputs_ok d uninit inputs"
  shows "case client_spec d uninit inputs k of
      Inr u \<Rightarrow> client_inv u
    | Inl f \<Rightarrow> \<exists>n u. client_spec d uninit inputs n = Inr u \<and> client_inv u \<and> client_turn (events_at d uninit inputs n) u = Inl f \<and>
        turn_fails (events_at d uninit inputs n) u f"
proof (induction k)
  case 0
  then show ?case by (simp add: start_inv)
next
  case (Suc k)
  show ?case
  proof (cases "client_spec d uninit inputs k")
    case (Inl f)
    with Suc show ?thesis by (simp add: spec_Suc del: upt_Suc)
  next
    case (Inr u)
    with Suc have u: "client_inv u" by simp
    have "turn_ok u (events_at d uninit inputs k)"
      using host_in_step [OF d i, of "Suc k"] Inr by (simp add: good_run_append)
    with client_turn_ok [OF u] have "case client_turn (events_at d uninit inputs k) u of
        Inr v \<Rightarrow> client_inv v \<and> client_edge u v | Inl f \<Rightarrow> turn_fails (events_at d uninit inputs k) u f" .
    with Inr u show ?thesis
      by (cases "client_turn (events_at d uninit inputs k) u") (simp_all add: spec_Suc del: upt_Suc split_paired_Ex, blast)
  qed
qed


text \<open>The second \<open>GET\<close> of a code, and the socket of the first in the same round.\<close>

definition second_get :: "client_input \<Rightarrow> client_host \<Rightarrow> bytes \<Rightarrow> bool" where
  "second_get i st w \<longleftrightarrow> a_word w \<and> length w \<le> 1000 \<and> atoi w \<noteq> 0 \<and> typed i = command ''GET'' w \<and>
     (\<exists>p cmd_fd r fd r'. getconns (cp_client (snd st)) (atoi w) = Some (Some p) \<and> reports i = [(cmd_fd, r), (fd, r')] \<and> readable r \<and> 0 < r' \<and>
        channels (sp_poller (snd st)) cmd_fd = Some 2 \<and> channels (sp_poller (snd st)) fd = Some (conn_chan p))"

lemma second_get_turn:
  assumes h: "hosts_client st u" and i: "input_ok i st" and g: "second_get i st w"
  shows "client_turn (turn_events i (sp_poller (snd st))) u = Inl Use_After_Free"
proof -
  from g obtain p cmd_fd r fd r' where p: "getconns (cp_client (snd st)) (atoi w) = Some (Some p)"
    and r: "reports i = [(cmd_fd, r), (fd, r')]" "readable r" "0 < r'"
    and ch: "channels (sp_poller (snd st)) cmd_fd = Some 2" "channels (sp_poller (snd st)) fd = Some (conn_chan p)"
    unfolding second_get_def by blast
  have w: "a_word w" "length w \<le> 1000" "atoi w \<noteq> 0" "typed i = command ''GET'' w" using g by (simp_all add: second_get_def)
  have "0 < r" using r(2) by (auto simp: readable_def word_gt_0)
  then obtain x where x: "turn_events i (sp_poller (snd st)) = [Command (env i) (command ''GET'' w), x]"
    "(\<exists>r now os. x = Datagram p r now os) \<or> x = Quiet p"
    using r(2,3) ch w(4) by (simp add: turn_events_def report_events_def r(1) kMaxEvents_def reader_at_def conn_chan_def split: if_splits)
  have "client_inv u" "cmd_env_ok (snd u) (env i)" "getconns (snd u) (atoi w) = Some (Some p)"
    using h fresh_cmd_env [OF h, of "env i"] i p by (simp_all add: hosts_client_def input_ok_def)
  from repeated_get_dangles [OF this(1,2) w(1-3) this(3) x(2)] show ?thesis by (simp add: x(1))
qed

text \<open>
  C38. Two lines at the terminal can end the client: \<open>GET\<close> of a code that is being fetched destroys the connection and its channel. If \<open>poll\<close>
  has reported its socket after the command in the same round, the loop goes on to handle a freed channel.
\<close>

theorem second_get_ends_client:
  assumes "client_fds_ok d" and "inputs_ok d uninit inputs" and at: "host_after d uninit inputs k = Inr st" and g: "second_get (inputs k) st w"
  shows "client_main d True uninit inputs = Inl Use_After_Free"
proof -
  from host_in_step [OF assms(1,2), of k] at obtain u where
    u: "client_spec d uninit inputs k = Inr u" "hosts_client st u" by auto
  have "input_ok (inputs k) st" using assms(2) at unfolding inputs_ok_def by blast
  from second_get_turn [OF u(2) this g] have
    f: "client_spec d uninit inputs (Suc k) = Inl Use_After_Free" by (simp add: spec_Suc u(1) events_at_def at del: upt_Suc)
  from client_process [OF assms(1,2)] show ?thesis
  proof (elim disjE exE conjE)
    fix j g assume g: "client_spec d uninit inputs j = Inl g" "client_main d True uninit inputs = Inl g"
    from spec_fault_stays [OF g(1), of "Suc k"] spec_fault_stays [OF f, of j] have "g = Use_After_Free" by (simp add: add.commute del: upt_Suc)
    with g(2) show ?thesis by simp
  next
    assume "\<forall>k. \<exists>u. client_spec d uninit inputs k = Inr u"
    then have "\<exists>u. client_spec d uninit inputs (Suc k) = Inr u" ..
    with f show ?thesis by (simp del: upt_Suc)
  qed
qed

section \<open>An instance\<close>

text \<open>Two rounds: \<open>GET 9\<close> is typed, and typed again when the socket of the first download has something to read.\<close>

definition demo_client_fds :: client_fds where
  "demo_client_fds = \<lparr>epollfd = 3, timerfd = 4, wakeupfd = 5, readsock = 6\<rparr>"

definition get_twice :: "nat \<Rightarrow> client_input" where
  "get_twice n = \<lparr>reports = (if n = 0 then [(6, 1)] else if n = 1 then [(6, 1), (8, 1)] else []), typed = command ''GET'' [0x39],
     env = demo_env\<lparr>new_fd := (if n = 0 then 8 else 7)\<rparr>, came = \<lambda>p. Recv_Error, came_at = \<lambda>p. 1, disk = \<lambda>p. ([], True), due = []\<rparr>"

lemma demo_fds_ok: "client_fds_ok demo_client_fds"
  by (simp add: client_fds_ok_def demo_client_fds_def)

text \<open>A channel that reads, at its place.\<close>

definition reader_channel :: "int \<Rightarrow> int \<Rightarrow> client_reader \<Rightarrow> client_reader channel" where
  "reader_channel fd i c = (new_Channel fd)\<lparr>events := 3, ch_index := i, readCallback := Some c\<rparr>"

definition demo_poller :: "client_reader epoller" where
  "demo_poller = \<lparr>pollfds = [(4, 3), (5, 3), (6, 3)], channels = [4 \<mapsto> 0, 5 \<mapsto> 1, 6 \<mapsto> 2],
     chans = [0 \<mapsto> reader_channel 4 0 Tick_Read, 1 \<mapsto> reader_channel 5 1 Wake_Read, 2 \<mapsto> reader_channel 6 2 Typed_Read],
     ctl_calls = [CTL_ADD 4 3, CTL_ADD 5 3, CTL_ADD 6 3]\<rparr>"

lemma demo_start:
  "host_after demo_client_fds u get_twice 0 = Inr (fst (client_start u), \<lparr>sp_poller = demo_poller, cp_client = first_client u\<rparr>)"
  by (simp add: host_after_def make_client_def demo_client_fds_def make_EventLoop_def make_TimerQueue_def open_channel_def new_EPoller_def
      new_TimerQueue_def new_EventLoop_def enableReading_def change_events_def updateChannel_def assertInLoopThread_def deref_def Let_def
      new_Channel_def kReadEvent_3 demo_poller_def reader_channel_def client_start_def fun_eq_iff)

lemma demo_first_get:
  obtains l pr where "host_after demo_client_fds u get_twice 1 = Inr (l, pr)" "getconns (cp_client pr) 9 = Some (Some 0)"
    "channels (sp_poller pr) 6 = Some 2" "channels (sp_poller pr) 8 = Some (conn_chan 0)"
    "\<forall>q ch. chans (sp_poller pr) q = Some ch \<longrightarrow> ch_fd ch \<in> {4, 5, 6, 8}"
proof -
  let ?e = "env (get_twice 0)" and ?c = "first_client u"
  have e: "0 \<le> new_fd ?e" "0 \<le> binds ?e 0 (ports ?e 0)" by (simp_all add: get_twice_def demo_env_def)
  from new_getter [where fd = "new_fd ?e" and os = "binds ?e" and k = 0 and ports = "ports ?e", OF e, of "server_addr ?c" "uninit_addr ?e" "uninit_data ?e"]
  obtain v where v: "new_GetConnManager (new_fd ?e) (ports ?e) (binds ?e) (server_addr ?c) (uninit_addr ?e) (uninit_data ?e) =
      Inr (fresh_getter v (server_addr ?c) (uninit_addr ?e) (uninit_data ?e))" "bound v" "udp_inv v" "sent v = []" by blast
  from getFile_sends [OF v(2-4), of "server_addr ?c" "uninit_addr ?e" "uninit_data ?e" 9] obtain g where
    g: "getFile (fresh_getter v (server_addr ?c) (uninit_addr ?e) (uninit_data ?e)) 9 = Inr g" "Get_Conn.actions g = []" by blast
  have dec: "dispatch_cmd s h ch (typed (get_twice 0)) st = h [0x39] st" for s h ch and st :: client_host
    using c_text_plain [of "command ''GET'' [0x39]"] a_word_nonzero [OF verbs(2)]
    by (simp add: get_twice_def dispatch_cmd_def command_def read_words_Cons verbs keyword_lengths Let_def verbs_differ demo_words)
  let ?ep = "demo_poller\<lparr>chans := (chans demo_poller)(2 \<mapsto> (reader_channel 6 2 Typed_Read)\<lparr>revents := 1\<rparr>)\<rparr>"
  let ?l = "fst (client_start u)"
  have poll: "poll (reports (get_twice 0)) demo_poller = Inr (?ep, [2])"
    by (simp add: poll_def get_twice_def kMaxEvents_def demo_poller_def deref_def reader_channel_def new_Channel_def)
  have "handle_active (run_client_reader (get_twice 0)) 2 (?l, \<lparr>sp_poller = ?ep, cp_client = ?c\<rparr>) =
      host_get ?e [0x39] (?l, \<lparr>sp_poller = ?ep, cp_client = ?c\<rparr>)"
    by (simp add: handle_active_def deref_def run_client_reader_def dec handleEvent_read reader_channel_def new_Channel_def readable_def
        POLLIN_def POLLPRI_def POLLRDHUP_def)
  note run = this
  obtain ep where ep: "open_channel 3 8 (Conn_Read 0) ?ep = Inr ep" "channels ep 6 = Some 2" "channels ep 8 = Some 3"
    "\<forall>q ch. chans ep q = Some ch \<longrightarrow> ch_fd ch \<in> {4, 5, 6, 8}"
    by (rule that, simp add: open_channel_def enableReading_def change_events_def updateChannel_def assertInLoopThread_def deref_def Let_def
        new_Channel_def kReadEvent_3 demo_poller_def reader_channel_def, auto split: if_splits)
  let ?c' = "?c\<lparr>next_obj := 1, getconns := [9 \<mapsto> Some 0], objects := [0 \<mapsto> Getter (g\<lparr>Get_Conn.actions := []\<rparr>)]\<rparr>"
  have get: "host_get ?e [0x39] (?l, \<lparr>sp_poller = ?ep, cp_client = ?c\<rparr>) = Inr (?l, \<lparr>sp_poller = ep, cp_client = ?c'\<rparr>)"
    using v(1) g ep(1)
    by (simp add: host_get_def demo_words conn_chan_def first_client_def close_channel_def Client.destroy_def Let_def after_getter_def
        store_object_def)
      (simp add: get_twice_def)
  have "host_after demo_client_fds u get_twice 1 = Inr (?l, \<lparr>sp_poller = ep, cp_client = ?c'\<rparr>)"
    using get run
    by (simp only: One_nat_def host_after_Suc demo_start) (simp add: loop_turn_def poll_and_handle_def poll client_start_def)
  then show thesis by (rule that) (use ep in \<open>simp_all add: conn_chan_def\<close>)
qed

lemma get_twice_second: "second_get (get_twice 1) st [0x39]"
  if "getconns (cp_client (snd st)) 9 = Some (Some 0)" "channels (sp_poller (snd st)) 6 = Some 2"
    "channels (sp_poller (snd st)) 8 = Some (conn_chan 0)"
proof -
  have "reports (get_twice 1) = [(6, 1), (8, 1)]" "readable 1" "(0 :: u32) < 1"
    by (simp_all add: get_twice_def readable_def POLLIN_def POLLPRI_def POLLRDHUP_def)
  with that have "\<exists>p cmd_fd r fd r'. getconns (cp_client (snd st)) 9 = Some (Some p) \<and> reports (get_twice 1) = [(cmd_fd, r), (fd, r')] \<and>
      readable r \<and> 0 < r' \<and> channels (sp_poller (snd st)) cmd_fd = Some 2 \<and> channels (sp_poller (snd st)) fd = Some (conn_chan p)" by blast
  then show ?thesis unfolding second_get_def demo_words(4) by (simp add: demo_words get_twice_def)
qed

lemma get_twice_env:
  assumes "\<forall>q ch. chans (sp_poller (snd st)) q = Some ch \<longrightarrow> ch_fd ch \<noteq> new_fd (env (get_twice n))"
    and "\<forall>fd \<in> fst ` set (reports (get_twice n)). channels (sp_poller (snd st)) fd \<noteq> None"
  shows "input_ok (get_twice n) st"
proof -
  have "env_ok (env (get_twice n))" using demo_env_ok by (simp add: get_twice_def cmd_env_ok_def env_ok_def demo_env_def)
  moreover have "take kMaxEvents (reports (get_twice n)) = reports (get_twice n)" "distinct (map fst (reports (get_twice n)))"
    by (simp_all add: get_twice_def kMaxEvents_def)
  ultimately show ?thesis using assms by (simp add: input_ok_def fresh_socket_def) (simp add: get_twice_def recv_ok_def)
qed

lemma get_twice_ok: "inputs_ok demo_client_fds u get_twice"
  unfolding inputs_ok_def
proof (intro allI impI)
  let ?st0 = "(fst (client_start u), \<lparr>sp_poller = demo_poller, cp_client = first_client u\<rparr>)"
  obtain l pr where 1: "host_after demo_client_fds u get_twice 1 = Inr (l, pr)" "getconns (cp_client pr) 9 = Some (Some 0)"
    "channels (sp_poller pr) 6 = Some 2" "channels (sp_poller pr) 8 = Some (conn_chan 0)"
    "\<forall>q ch. chans (sp_poller pr) q = Some ch \<longrightarrow> ch_fd ch \<in> {4, 5, 6, 8}" by (rule demo_first_get)
  have i0: "input_ok (get_twice 0) ?st0"
    by (rule get_twice_env) (auto simp: get_twice_def demo_poller_def reader_channel_def new_Channel_def)
  have i1: "input_ok (get_twice 1) (l, pr)" using 1(3-5) by (intro get_twice_env) (fastforce simp: get_twice_def)+
  from make_client_ok [OF demo_fds_ok, of u] have "hosts_client ?st0 (client_start u)"
    using demo_start [of u] by (auto simp: host_after_def)
  from turn_in_host [OF this i0] 1(1) obtain v where v: "hosts_client (l, pr) v"
    using host_after_Suc [of demo_client_fds u get_twice 0] demo_start [of u] by auto
  from turn_in_host [OF this i1] second_get_turn [OF this i1 get_twice_second] 1
  have "host_after demo_client_fds u get_twice (Suc 1) = Inl Use_After_Free"
    unfolding host_after_Suc 1(1) by (simp add: in_step_def split: sum.splits)
  then have later: "host_after demo_client_fds u get_twice (Suc (Suc k)) = Inl Use_After_Free" for k
    by (induction k) (simp_all add: host_after_Suc)
  fix k st assume st: "host_after demo_client_fds u get_twice k = Inr st"
  consider "k = 0" | "k = 1" | "\<exists>j. k = Suc (Suc j)" by (metis One_nat_def not0_implies_Suc)
  then show "input_ok (get_twice k) st"
    by cases (use st later i0 i1 1(1) demo_start [of u] in auto)
qed


theorem second_get_ends_client_witness: "client_main demo_client_fds True (replicate 8 0) get_twice = Inl Use_After_Free"
proof -
  obtain l pr where "host_after demo_client_fds (replicate 8 0) get_twice 1 = Inr (l, pr)" "getconns (cp_client pr) 9 = Some (Some 0)"
    "channels (sp_poller pr) 6 = Some 2" "channels (sp_poller pr) 8 = Some (conn_chan 0)" by (rule demo_first_get)
  note st = this
  show ?thesis by (rule second_get_ends_client [OF demo_fds_ok get_twice_ok st(1) get_twice_second]) (simp_all add: st)
qed

end
