(* ===== verification/Spec2Isabelle.thy ===== *)
theory Spec2Isabelle
  imports Prelude Std_Map Header Buffer Sockaddr_Order Timestamp Udp_Com Random_Code CRC32 Timer_Queue File_Transfer
    Library_Properties Server_Properties File_Properties Send_Properties Get_Properties Transfer_Run Session_Properties Padding Timestamp_Text Process_Properties Timer_Properties Loop_Properties Poll_Poller Client_Properties
    Console Host_Properties
begin

text \<open>
  Diretrans is a pair of programs: a client that shares files and fetches shared ones over UDP, and a
  server that introduces clients to each other (\<open>src/client\<close>, \<open>src/server\<close>), over a small network library (\<open>src/netlib\<close>)
  and the message structures and the checksum of \<open>src/utils\<close>. This development models both programs down to the bytes of
  their datagrams, and the library they run on, and proves what makes each part correct and what makes
  it fail.

  The program's parts and how they interact. An \<open>EventLoop\<close> polls an \<open>EPoller\<close>, calls the handlers of active
  \<open>Channel\<close>s and runs queued functors; a \<open>TimerQueue\<close> is one of its channels. \<open>UdpCom\<close> receives into a
  \<open>Buffer\<close> and hands it to a callback. \<open>DiretransServer\<close> is such a callback with four maps and
  a timer: a client that shares a file gets a code, a client that presents the code gets the file's
  description and the sharer's address, and the sharer is told the address of the other. \<open>DiretransClient\<close> reads
  commands and owns one \<open>SendConnManager\<close> or \<open>GetConnManager\<close> per transfer; these say hello to each other, the
  sender streams pieces of 1024 bytes within a window of 30, the receiver acknowledges them by tens, asks once a
  second for what is missing, and reports the end.

  Conventions (Prelude). A C++ call that may stop the process is a value of \<open>'a outcome\<close>: the fault (failed assertion, access out
  of bounds, null or dangling pointer, \<open>abort\<close>, endless loop) or the result. Assertions are live, the
  default build being a debug build. State is passed explicitly. Integers that wrap are words; \<open>size_t\<close> is written
  out modulo 2 ^ 64. Objects shared through pointers live in heaps (timers, channels, connections). What the system
  answers (clocks, \<open>recvfrom\<close>, \<open>bind\<close>, file contents, uninitialised memory) comes in through arguments, what the program
  sends is recorded. \<open>LOG\<close> is left out.

  Bytes and messages. Header: the structures of \<open>utils/Header.h\<close>, their byte images and the round trips (locales
  \<open>wire_format\<close>, \<open>wire_pair\<close>). Buffer: \<open>netlib/Buffer.h\<close> with its growth and compaction; locale \<open>byte_sink\<close>. Timestamp and
  Timestamp_Text (its forms in the log, read back), Sockaddr_Order (\<open>operator<\<close> on addresses, an instance of \<open>linorder\<close>), Std_Map (\<open>std::map\<close> in key order, iterated and erased in
  loops; locale \<open>dictionary\<close>), Udp_Com (receive and send; a failed receive and a short datagram leave old bytes in sight),
  CRC32 (the table and both entry points against a bitwise reference). Library_Properties states what these promise.

  The server. Random_Code: the codes and their shuffles, of which only permutation is assumed. Server: the registry and every
  handler of \<open>DiretransServer.cpp\<close>, one \<open>server_step\<close> per event. Server_Inv: the invariant of the maps. Server_Spec: the
  abstract registry (\<open>reg_step\<close>) that every step refines. Server_Requests: requests at the level of datagrams. Server_Properties:
  totality over runs, refinement, limits, answers, and the requests that stop the server. Server_Process: the server program
  from \<open>main\<close> on, in which loop, poller, channels, timer queue, socket and handlers work together, one \<open>turn_input\<close> per
  \<open>epoll_wait\<close>; it is simulated by \<open>server_spec\<close>, the registry with the time its timer is due. Process_Properties: it never
  returns, and what can stop it. Loop_Process holds what the two processes share: the constructors that open channels, the part of the loop between
  poller and handlers, opening and closing channels under the poller's invariant, and loops that nobody quits.

  The file managers. File_Stream: what they use of the standard streams, with the state bits. Send_File and Get_File: reading pieces,
  writing them where they belong, gaps and losses. File_Transfer and File_Properties: a finished file is the sent one, in
  whatever order the pieces come, and the cases at the borders of 32 bits and of the last piece where it is not.

  The connections. Conn_Manager, Message_View: what both share. Send_Conn, Send_Conn_Inv, Send_Conn_Steps, Send_Effects, Send_Properties: the
  sender's handlers (\<open>send_step\<close>), its invariant and state machine, what an event may send, ask of the client, or stop
  at. Get_Conn, Get_Conn_Inv, Get_Effects, Get_Properties: the same for the receiver (\<open>get_step\<close>). Both are instances of the locale
  \<open>endpoint\<close> (Endpoint), which gives runs from single events. Transfer_Run connects the two. Session and Session_Properties put
  sender, receiver and server on one network: from sharing a file to its arrival. Lossy puts sender and receiver on a network that may
  lose, repeat and delay everything: what the receiver has written is right at every moment. Lossy_Tail: when it is the end of
  the file that is lost, the transfer never ends. Recovery: when other pieces are lost, one round of request and answer that the
  network delivers completes the file. Padding: when the last piece and others are lost, the same round ends in a file with zeros
  behind its end.

  The client. Client: tables, commands, requests of connections, the composition with the loop (\<open>client_turn\<close>). Client_Inv: ownership of
  connection objects by table entries. Client_Objects, Client_Commands, Client_Steps: it is kept, or the step faults for a listed
  reason (locale \<open>stepper\<close>). Client_Properties: whole runs, and the ways in which closing, reusing a code and fetching a code
  twice lead to dangling or null pointers. Console: the thread at the terminal and the socket pair through which commands
  reach the client. Client_Process: the client program from \<open>main\<close> on; every connection has a channel at the poller, which \<open>SHARE\<close> and
  \<open>GET\<close> open and \<open>deleteConn\<close> and repeated commands close, and one \<open>client_input\<close> per \<open>epoll_wait\<close> says what the kernel reports, what the sockets
  and the terminal bring and which timers are due. Client_Turns: it is simulated by \<open>client_turn\<close>, report by report. Host_Properties: it never returns,
  where it can stop, and two commands that stop it.

  The loop. Event_Loop: the loop with its functors and wake-ups, in turns (\<open>loop\<close>) and interleaved with other threads (\<open>loop_step\<close>). EPoller,
  EPoller_Inv: channels and the interest list. Poll_Poller: the unused poller over \<open>poll\<close>, which does the same. Timer_Queue, Timer_Properties: timers under callbacks that add and drop timers
  (locale \<open>timer_callbacks\<close>). Thread_Pool: the pool's threads as interleaved steps, and the mutex guard. Loop_Properties states what they
  promise and where they fail.

  Bounds and termination. Loops are structural or measured recursions. Three may run for ever and are partial functions with result
  \<open>None\<close> then: the search for a free code, the search for a port, the event loop; \<open>Diverge\<close> stands for them in outcomes, and when they end is
  proved. There is no fuel. Runs of the server are bounded by 99999 events because the codes are finite. Messages a
  theorem speaks of fit the receive buffer of 65535 bytes. Time is unbounded and intervals are whole seconds, as in all callers.

  Interleavings. The clients' and the server's handlers run in one thread. Where threads meet (queueing functors, the pool) the steps
  between which they interleave are those the code makes; pushing a functor and swapping the queue are taken as atomic, although
  the guard that should make them so locks a copy of the mutex (\<open>guards_never_wait\<close>).

  Not modelled: the log, tests and build files. The thread of the terminal (Console) and the loop of the client (Client_Process) are two models, which meet in
  what \<open>read\<close> returns; the timers of the client's connections are kept by the connections (\<open>heartBeat\<close>, \<open>repeattimers\<close>), and what its timer
  queue finds due is an input of a turn, while Timer_Queue shows what the queue does with it. Error numbers of system calls, which the code only logs, do not appear.
\<close>

end
